(* ===== verification/Nx_Prelude.thy ===== *)
theory Nx_Prelude imports
  Main
  "HOL-Library.Word"
  "HOL-Library.Monad_Syntax"
begin

text \<open>
  Shared vocabulary of the development: the status codes of the NetX Duo API, the
  arithmetic of a 32-bit ULONG kept as a natural number, byte memory with the C library's
  block copies, and the circular thread and socket lists, which are kept as lists that
  start at the head pointer. A function that follows a pointer returns an option:
  \<open>None\<close> is a dereference of NULL or of an address that holds no object, or a loop that
  does not end.
\<close>

unbundle bit_operations_syntax

named_theorems nx_ulong "arithmetic of ULONG values away from the wrap"
named_theorems nx_bytes "reads of byte memory after writes"

section \<open>Status codes\<close>

text \<open>The completion codes (common/inc/nx_api.h) that the modelled operations return.
  The C code tests \<open>if (status)\<close>, which is \<open>status \<noteq> NX_SUCCESS\<close> here.\<close>

datatype nx_status =
    NX_SUCCESS | NX_NO_PACKET | NX_UNDERFLOW | NX_OVERFLOW | NX_PTR_ERROR | NX_SIZE_ERROR
  | NX_INVALID_PACKET | NX_IP_ADDRESS_ERROR | NX_ALREADY_BOUND | NX_PORT_UNAVAILABLE
  | NX_NOT_BOUND | NX_SOCKET_UNBOUND | NX_POOL_DELETED | NX_NOT_CLOSED | NX_NOT_SUCCESSFUL
  | NX_NO_FREE_PORTS | NX_NOT_SUPPORTED | NX_INVALID_PARAMETERS | NX_PACKET_OFFSET_ERROR
  | NX_WAIT_ABORTED

fun nx_status_code :: "nx_status \<Rightarrow> nat" where
  "nx_status_code NX_SUCCESS = 0x00"
| "nx_status_code NX_NO_PACKET = 0x01"
| "nx_status_code NX_UNDERFLOW = 0x02"
| "nx_status_code NX_OVERFLOW = 0x03"
| "nx_status_code NX_PTR_ERROR = 0x07"
| "nx_status_code NX_SIZE_ERROR = 0x09"
| "nx_status_code NX_INVALID_PACKET = 0x12"
| "nx_status_code NX_WAIT_ABORTED = 0x1A"
| "nx_status_code NX_IP_ADDRESS_ERROR = 0x21"
| "nx_status_code NX_ALREADY_BOUND = 0x22"
| "nx_status_code NX_PORT_UNAVAILABLE = 0x23"
| "nx_status_code NX_NOT_BOUND = 0x24"
| "nx_status_code NX_SOCKET_UNBOUND = 0x26"
| "nx_status_code NX_POOL_DELETED = 0x30"
| "nx_status_code NX_NOT_CLOSED = 0x35"
| "nx_status_code NX_NOT_SUCCESSFUL = 0x43"
| "nx_status_code NX_NO_FREE_PORTS = 0x45"
| "nx_status_code NX_NOT_SUPPORTED = 0x4B"
| "nx_status_code NX_INVALID_PARAMETERS = 0x4D"
| "nx_status_code NX_PACKET_OFFSET_ERROR = 0x53"

lemma nx_status_code_inj: "nx_status_code s = nx_status_code t \<Longrightarrow> s = t"
  by (cases s; cases t) simp_all

text \<open>The order of the codes, so that a status can be compared as the integer it is.\<close>

instantiation nx_status :: linorder
begin

definition less_eq_nx_status :: "nx_status \<Rightarrow> nx_status \<Rightarrow> bool" where
  "less_eq_nx_status s t \<longleftrightarrow> nx_status_code s \<le> nx_status_code t"

definition less_nx_status :: "nx_status \<Rightarrow> nx_status \<Rightarrow> bool" where
  "less_nx_status s t \<longleftrightarrow> nx_status_code s < nx_status_code t"

instance
  by standard (auto simp: less_eq_nx_status_def less_nx_status_def intro: nx_status_code_inj)

end

lemma nx_success_least: "NX_SUCCESS \<le> s"
  by (simp add: less_eq_nx_status_def)

section \<open>ULONG arithmetic\<close>

text \<open>ULONG and UINT are unsigned 32-bit integers. Lengths and counters are kept as naturals
  below \<open>2 ^ 32\<close>, with the wrap-around of the C operators written out.\<close>

abbreviation ULONG_RANGE :: nat where
  "ULONG_RANGE \<equiv> 4294967296"

definition ulong_add :: "nat \<Rightarrow> nat \<Rightarrow> nat" where
  "ulong_add a b = (a + b) mod ULONG_RANGE"

definition ulong_sub :: "nat \<Rightarrow> nat \<Rightarrow> nat" where
  "ulong_sub a b = (a + (ULONG_RANGE - b mod ULONG_RANGE)) mod ULONG_RANGE"

lemma ulong_add_exact [nx_ulong, simp]: "a + b < ULONG_RANGE \<Longrightarrow> ulong_add a b = a + b"
  by (simp add: ulong_add_def)

lemma ulong_sub_exact [nx_ulong, simp]:
  "b \<le> a \<Longrightarrow> a < ULONG_RANGE \<Longrightarrow> ulong_sub a b = a - b"
proof -
  assume ba: "b \<le> a" and a: "a < ULONG_RANGE"
  then have "a + (ULONG_RANGE - b mod ULONG_RANGE) = (a - b) + ULONG_RANGE" by simp
  then show ?thesis using a by (simp add: ulong_sub_def)
qed

lemma ulong_add_less [simp]: "ulong_add a b < ULONG_RANGE"
  by (simp add: ulong_add_def)

lemma ulong_sub_less [simp]: "ulong_sub a b < ULONG_RANGE"
  by (simp add: ulong_sub_def)

lemma ulong_sub_zero [simp]: "a < ULONG_RANGE \<Longrightarrow> ulong_sub a 0 = a"
  by simp

lemma ulong_sub_wraps: "ulong_sub 0 1 = ULONG_RANGE - 1"
  by (simp add: ulong_sub_def)

text \<open>Subtraction is subtraction modulo \<open>2 ^ 32\<close>, so it can be done in pieces.\<close>

lemma int_ulong_sub: "int (ulong_sub a b) = (int a - int b) mod int ULONG_RANGE"
proof -
  have "b mod ULONG_RANGE \<le> ULONG_RANGE" by simp
  then have eq: "int (a + (ULONG_RANGE - b mod ULONG_RANGE)) = int a - int b mod int ULONG_RANGE + int ULONG_RANGE"
    by (simp add: of_nat_diff zmod_int)
  have "int (ulong_sub a b) = int (a + (ULONG_RANGE - b mod ULONG_RANGE)) mod int ULONG_RANGE"
    by (simp only: ulong_sub_def zmod_int)
  also have "\<dots> = (int a - int b mod int ULONG_RANGE) mod int ULONG_RANGE"
    by (simp only: eq mod_add_self2)
  finally show ?thesis by (simp only: mod_diff_right_eq)
qed

lemma ulong_sub_sub: "ulong_sub (ulong_sub a b) c = ulong_sub a (b + c)"
proof -
  have "int (ulong_sub (ulong_sub a b) c) = (int a - int b - int c) mod int ULONG_RANGE"
    by (simp add: int_ulong_sub mod_diff_left_eq)
  also have "\<dots> = int (ulong_sub a (b + c))" by (simp add: int_ulong_sub algebra_simps)
  finally show ?thesis by simp
qed

lemma ulong_sub_self [simp]: "ulong_sub a a = 0"
  using int_ulong_sub [of a a] by simp

lemma ulong_sub_eq_0: "a < ULONG_RANGE \<Longrightarrow> b < ULONG_RANGE \<Longrightarrow> ulong_sub a b = 0 \<longleftrightarrow> a = b"
  by (auto simp: ulong_sub_def mod_if split: if_splits)

lemma ulong_sub_complement: "b < ULONG_RANGE \<Longrightarrow> ulong_sub a (ulong_sub a b) = b"
proof -
  assume b: "b < ULONG_RANGE"
  have "int (ulong_sub a (ulong_sub a b)) = int b mod int ULONG_RANGE"
    by (simp add: int_ulong_sub mod_diff_right_eq)
  then show ?thesis using b by simp
qed

section \<open>Byte memory\<close>

type_synonym byte = "8 word"
type_synonym byte_mem = "nat \<Rightarrow> byte"

definition mem_read :: "byte_mem \<Rightarrow> nat \<Rightarrow> nat \<Rightarrow> byte list" where
  "mem_read b a n = map b [a ..< a + n]"

text \<open>\<open>memcpy (a, source, length)\<close>, the source given as its bytes.\<close>

definition mem_write :: "byte_mem \<Rightarrow> nat \<Rightarrow> byte list \<Rightarrow> byte_mem" where
  "mem_write b a bs = (\<lambda>x. if a \<le> x \<and> x < a + length bs then bs ! (x - a) else b x)"

lemma length_mem_read [simp]: "length (mem_read b a n) = n"
  by (simp add: mem_read_def)

lemma mem_read_0 [simp]: "mem_read b a 0 = []"
  by (simp add: mem_read_def)

lemma mem_write_Nil [simp]: "mem_write b a [] = b"
  by (auto simp: mem_write_def fun_eq_iff)

lemma mem_read_split: "mem_read b a (n + k) = mem_read b a n @ mem_read b (a + n) k"
  by (simp add: mem_read_def upt_add_eq_append [of a "a + n", simplified] flip: map_append add.assoc)

lemma mem_read_write_same [nx_bytes]: "mem_read (mem_write b a bs) a (length bs) = bs"
  by (auto simp: mem_read_def mem_write_def intro!: nth_equalityI)

lemma mem_read_write_disjoint [nx_bytes]:
  "a' + n \<le> a \<or> a + length bs \<le> a' \<Longrightarrow> mem_read (mem_write b a bs) a' n = mem_read b a' n"
  by (auto simp: mem_read_def mem_write_def)

lemma mem_read_cong: "(\<And>x. a \<le> x \<Longrightarrow> x < a + n \<Longrightarrow> b x = b' x) \<Longrightarrow> mem_read b a n = mem_read b' a n"
  by (simp add: mem_read_def)

lemma mem_write_other: "\<not> (a \<le> x \<and> x < a + length bs) \<Longrightarrow> mem_write b a bs x = b x"
  by (auto simp: mem_write_def)

text \<open>Appending behind a block: the block and the appended bytes are read back together.\<close>

lemma mem_read_extend:
  "mem_read (mem_write b (a + n) bs) a (n + length bs) = mem_read b a n @ bs"
  by (simp add: mem_read_split mem_read_write_same mem_read_write_disjoint)

lemma mem_write_append:
  "mem_write (mem_write b a bs) (a + length bs) cs = mem_write b a (bs @ cs)"
  by (auto simp: mem_write_def nth_append fun_eq_iff)

lemma take_mem_read: "k \<le> n \<Longrightarrow> take k (mem_read b a n) = mem_read b a k"
  by (simp add: mem_read_def take_map)

lemma drop_mem_read: "k \<le> n \<Longrightarrow> drop k (mem_read b a n) = mem_read b (a + k) (n - k)"
  by (simp add: mem_read_def drop_map drop_upt)

section \<open>Circular lists\<close>

text \<open>A circular doubly linked list is the list of its elements from the head pointer on;
  the empty list is the NULL head. Linking an element before the head puts it at the end.
  Unlinking an element moves the head only if the head itself goes.\<close>

definition ring_append :: "'a list \<Rightarrow> 'a \<Rightarrow> 'a list" where
  "ring_append xs x = xs @ [x]"

definition ring_remove :: "'a \<Rightarrow> 'a list \<Rightarrow> 'a list" where
  "ring_remove x xs = remove1 x xs"

text \<open>Unlinking an element and setting the head to its successor, whatever the head was.\<close>

definition ring_remove_to_next :: "'a \<Rightarrow> 'a list \<Rightarrow> 'a list" where
  "ring_remove_to_next x xs =
     (if x \<in> set xs then tl (dropWhile (\<lambda>y. y \<noteq> x) xs) @ takeWhile (\<lambda>y. y \<noteq> x) xs else xs)"

lemma set_ring_append [simp]: "set (ring_append xs x) = insert x (set xs)"
  by (simp add: ring_append_def)

lemma length_ring_append [simp]: "length (ring_append xs x) = Suc (length xs)"
  by (simp add: ring_append_def)

lemma distinct_ring_append [simp]: "distinct (ring_append xs x) \<longleftrightarrow> x \<notin> set xs \<and> distinct xs"
  by (auto simp: ring_append_def)

lemma set_ring_remove [simp]: "distinct xs \<Longrightarrow> set (ring_remove x xs) = set xs - {x}"
  by (simp add: ring_remove_def set_remove1_eq)

lemma distinct_ring_remove [simp]: "distinct xs \<Longrightarrow> distinct (ring_remove x xs)"
  by (simp add: ring_remove_def distinct_remove1)

lemma length_ring_remove [simp]: "x \<in> set xs \<Longrightarrow> length (ring_remove x xs) = length xs - 1"
  by (simp add: ring_remove_def length_remove1)

lemma mset_split_dropWhile:
  "x \<in> set xs \<Longrightarrow> xs = takeWhile (\<lambda>y. y \<noteq> x) xs @ x # tl (dropWhile (\<lambda>y. y \<noteq> x) xs)"
proof -
  assume x: "x \<in> set xs"
  then have ne: "dropWhile (\<lambda>y. y \<noteq> x) xs \<noteq> []" by (auto simp: dropWhile_eq_Nil_conv)
  then have "hd (dropWhile (\<lambda>y. y \<noteq> x) xs) = x" using hd_dropWhile [OF ne] by simp
  then show ?thesis using ne by (metis hd_Cons_tl takeWhile_dropWhile_id)
qed

lemma distinct_set_ring_remove_to_next:
  assumes "distinct xs"
  shows "set (ring_remove_to_next x xs) = set xs - {x} \<and> distinct (ring_remove_to_next x xs)"
proof (cases "x \<in> set xs")
  case True
  define us where "us = takeWhile (\<lambda>y. y \<noteq> x) xs"
  define vs where "vs = tl (dropWhile (\<lambda>y. y \<noteq> x) xs)"
  have xs: "xs = us @ x # vs"
    unfolding us_def vs_def by (rule mset_split_dropWhile [OF True])
  have "ring_remove_to_next x xs = vs @ us"
    using True by (simp add: ring_remove_to_next_def us_def vs_def)
  moreover have "distinct (us @ x # vs)" using assms xs by simp
  ultimately show ?thesis unfolding xs by auto
next
  case False
  then show ?thesis using assms by (simp add: ring_remove_to_next_def)
qed

end
