(* ===== verification/Nx_Packet_Base.thy ===== *)
theory Nx_Packet_Base imports Nx_Prelude begin

text \<open>
  The packet header, the packet pool control block and the part of a ThreadX thread control
  block that NetX Duo reads and writes, in one memory: headers, pools and threads by address
  and the payload bytes in a flat byte memory (common/inc/nx_api.h, common/inc/nx_packet.h).
  Pointers are natural numbers and 0 is NULL. Linked lists through the headers are described
  by \<open>linked\<close>, once for every link field.
\<close>

section \<open>Records\<close>

text \<open>NX_PACKET in the default configuration: packet chaining, fragmentation and IPv6 are on,
  IPsec, VLAN, capability flags, 6LoWPAN and packet debugging are off. The fields that no
  modelled operation touches are left out.\<close>

record nx_packet =
  nx_packet_pool_owner :: nat
  nx_packet_next :: nat
  nx_packet_prepend_ptr :: nat
  nx_packet_append_ptr :: nat
  nx_packet_data_start :: nat
  nx_packet_data_end :: nat
  nx_packet_last :: nat
  nx_packet_queue_next :: nat
  nx_packet_tcp_queue_next :: nat
  nx_packet_length :: nat
  nx_packet_option_state :: nat
  nx_packet_ip_version :: nat
  nx_packet_identical_copy :: bool
  nx_packet_ip_header_length :: nat
  nx_packet_interface_ptr :: nat
  nx_packet_ip_header :: nat

text \<open>The values of \<open>nx_packet_tcp_queue_next\<close> and \<open>nx_packet_queue_next\<close> that mark a
  packet's owner.\<close>

abbreviation (input) NX_PACKET_FREE :: nat where "NX_PACKET_FREE \<equiv> 0xFFFFFFFF"
abbreviation (input) NX_PACKET_ALLOCATED :: nat where "NX_PACKET_ALLOCATED \<equiv> 0xAAAAAAAA"
abbreviation (input) NX_PACKET_ENQUEUED :: nat where "NX_PACKET_ENQUEUED \<equiv> 0xEEEEEEEE"
abbreviation (input) NX_DRIVER_TX_DONE :: nat where "NX_DRIVER_TX_DONE \<equiv> 0xDDDDDDDD"
abbreviation (input) NX_PACKET_POOL_ID :: nat where "NX_PACKET_POOL_ID \<equiv> 0x5041434B"
abbreviation (input) NX_IP_VERSION_V4 :: nat where "NX_IP_VERSION_V4 \<equiv> 4"
abbreviation (input) NX_IP_VERSION_V6 :: nat where "NX_IP_VERSION_V6 \<equiv> 6"
abbreviation (input) NX_NO_WAIT :: nat where "NX_NO_WAIT \<equiv> 0"
abbreviation (input) NX_NULL :: nat where "NX_NULL \<equiv> 0"

text \<open>NX_PACKET_POOL. The suspension list is a circular list of threads, head first.\<close>

record nx_packet_pool =
  nx_packet_pool_id :: nat
  nx_packet_pool_name :: nat
  nx_packet_pool_available :: nat
  nx_packet_pool_total :: nat
  nx_packet_pool_empty_requests :: nat
  nx_packet_pool_empty_suspensions :: nat
  nx_packet_pool_invalid_releases :: nat
  nx_packet_pool_available_list :: nat
  nx_packet_pool_start :: nat
  nx_packet_pool_size :: nat
  nx_packet_pool_payload_size :: nat
  nx_packet_pool_suspension_list :: "nat list"
  nx_packet_pool_suspended_count :: nat

text \<open>The suspension fields of TX_THREAD. \<open>tx_thread_suspend_packet\<close> is the content of the
  packet pointer that \<open>tx_thread_additional_suspend_info\<close> points to. A state other than
  TX_TCP_IP is only ever compared with it.\<close>

datatype tx_cleanup =
    TX_NO_CLEANUP | NX_PACKET_POOL_CLEANUP | NX_UDP_BIND_CLEANUP | NX_TCP_CLIENT_BIND_CLEANUP
  | NX_TCP_CLEANUP_DEFERRED | NX_UDP_RECEIVE_CLEANUP

datatype tx_state = TX_TCP_IP | TX_OTHER_STATE

record tx_thread =
  tx_thread_suspend_cleanup :: tx_cleanup
  tx_thread_suspend_control_block :: nat
  tx_thread_suspend_packet :: nat
  tx_thread_suspend_info :: nat
  tx_thread_state :: tx_state
  tx_thread_suspending :: bool
  tx_thread_remaining_ticks :: nat
  tx_thread_suspend_status :: nx_status

text \<open>Calls of the ThreadX kernel that return nothing are recorded in order.\<close>

datatype tx_call = Tx_thread_system_resume nat | Tx_thread_system_preempt_check

record nx_mem =
  nx_packets :: "nat \<rightharpoonup> nx_packet"
  nx_pools :: "nat \<rightharpoonup> nx_packet_pool"
  tx_threads :: "nat \<rightharpoonup> tx_thread"
  nx_memory :: byte_mem
  nx_packet_pool_created :: "nat list"
  nx_packet_pool_created_count :: nat
  tx_thread_preempt_disable :: nat
  tx_thread_current_ptr :: nat
  tx_calls :: "tx_call list"

definition put_packet :: "nat \<Rightarrow> nx_packet \<Rightarrow> nx_mem \<Rightarrow> nx_mem" where
  "put_packet p pk m = m\<lparr>nx_packets := (nx_packets m)(p \<mapsto> pk)\<rparr>"

definition put_pool :: "nat \<Rightarrow> nx_packet_pool \<Rightarrow> nx_mem \<Rightarrow> nx_mem" where
  "put_pool p pool m = m\<lparr>nx_pools := (nx_pools m)(p \<mapsto> pool)\<rparr>"

definition put_thread :: "nat \<Rightarrow> tx_thread \<Rightarrow> nx_mem \<Rightarrow> nx_mem" where
  "put_thread t th m = m\<lparr>tx_threads := (tx_threads m)(t \<mapsto> th)\<rparr>"

definition put_bytes :: "nat \<Rightarrow> byte list \<Rightarrow> nx_mem \<Rightarrow> nx_mem" where
  "put_bytes a bs m = m\<lparr>nx_memory := mem_write (nx_memory m) a bs\<rparr>"

lemmas put_defs = put_packet_def put_pool_def put_thread_def put_bytes_def

lemma put_packet_simps [simp]:
  "nx_packets (put_packet p pk m) = (nx_packets m)(p \<mapsto> pk)"
  "nx_pools (put_packet p pk m) = nx_pools m"
  "tx_threads (put_packet p pk m) = tx_threads m"
  "nx_memory (put_packet p pk m) = nx_memory m"
  by (simp_all add: put_packet_def)

lemma put_pool_simps [simp]:
  "nx_packets (put_pool p pool m) = nx_packets m"
  "nx_pools (put_pool p pool m) = (nx_pools m)(p \<mapsto> pool)"
  "tx_threads (put_pool p pool m) = tx_threads m"
  "nx_memory (put_pool p pool m) = nx_memory m"
  by (simp_all add: put_pool_def)

lemma put_thread_simps [simp]:
  "nx_packets (put_thread t th m) = nx_packets m"
  "nx_pools (put_thread t th m) = nx_pools m"
  "tx_threads (put_thread t th m) = (tx_threads m)(t \<mapsto> th)"
  "nx_memory (put_thread t th m) = nx_memory m"
  by (simp_all add: put_thread_def)

lemma put_bytes_simps [simp]:
  "nx_packets (put_bytes a bs m) = nx_packets m"
  "nx_pools (put_bytes a bs m) = nx_pools m"
  "tx_threads (put_bytes a bs m) = tx_threads m"
  "nx_memory (put_bytes a bs m) = mem_write (nx_memory m) a bs"
  by (simp_all add: put_bytes_def)

section \<open>Linked lists of packets\<close>

fun linked :: "(nx_packet \<Rightarrow> nat) \<Rightarrow> (nat \<rightharpoonup> nx_packet) \<Rightarrow> nat \<Rightarrow> nat list \<Rightarrow> bool" where
  "linked link h p [] \<longleftrightarrow> p = NX_NULL"
| "linked link h p (q # qs) \<longleftrightarrow>
     p = q \<and> q \<noteq> NX_NULL \<and> (\<exists>pk. h q = Some pk \<and> linked link h (link pk) qs)"

abbreviation chain :: "nx_mem \<Rightarrow> nat \<Rightarrow> nat list \<Rightarrow> bool" where
  "chain m \<equiv> linked nx_packet_next (nx_packets m)"

abbreviation queue :: "nx_mem \<Rightarrow> nat \<Rightarrow> nat list \<Rightarrow> bool" where
  "queue m \<equiv> linked nx_packet_queue_next (nx_packets m)"

lemma linked_null [simp]: "linked link h NX_NULL qs \<longleftrightarrow> qs = []"
  by (cases qs) auto

lemma linked_nonnull:
  "p \<noteq> NX_NULL \<Longrightarrow> linked link h p qs \<longleftrightarrow>
     (\<exists>pk rs. qs = p # rs \<and> h p = Some pk \<and> linked link h (link pk) rs)"
  by (cases qs) auto

lemma linked_unique: "linked link h p xs \<Longrightarrow> linked link h p ys \<Longrightarrow> xs = ys"
  by (induction xs arbitrary: p ys) (auto simp: linked_nonnull)

lemma linked_valid: "linked link h p qs \<Longrightarrow> q \<in> set qs \<Longrightarrow> q \<noteq> NX_NULL \<and> (\<exists>pk. h q = Some pk)"
  by (induction qs arbitrary: p) auto

lemma linked_cong:
  assumes "\<And>q. q \<in> set qs \<Longrightarrow> map_option link (h q) = map_option link (h' q)"
  shows "linked link h p qs \<longleftrightarrow> linked link h' p qs"
  using assms
proof (induction qs arbitrary: p)
  case (Cons q qs)
  have eq: "map_option link (h q) = map_option link (h' q)" using Cons.prems by simp
  have "linked link h r qs \<longleftrightarrow> linked link h' r qs" for r using Cons by simp
  then show ?case using eq by (cases "h q"; cases "h' q") auto
qed simp

lemma linked_upd_other [simp]: "q \<notin> set qs \<Longrightarrow> linked link (h(q \<mapsto> pk)) p qs \<longleftrightarrow> linked link h p qs"
  by (intro linked_cong) auto

lemma linked_upd_same_link:
  "h q = Some pk \<Longrightarrow> link pk' = link pk \<Longrightarrow> linked link (h(q \<mapsto> pk')) p qs \<longleftrightarrow> linked link h p qs"
  by (intro linked_cong) auto

lemma linked_hd: "linked link h p qs \<Longrightarrow> qs \<noteq> [] \<Longrightarrow> hd qs = p \<and> p \<noteq> NX_NULL"
  by (cases qs) auto

lemma linked_nil_iff: "linked link h p qs \<Longrightarrow> qs = [] \<longleftrightarrow> p = NX_NULL"
  by (cases qs) auto

text \<open>Hooking a second list onto the last element of a first one.\<close>

lemma linked_append_link:
  assumes "linked link h p (xs @ [x])" "distinct (xs @ [x])" "h x = Some pk"
    and "link pk' = r" "linked link h r ys" "x \<notin> set ys"
  shows "linked link (h(x \<mapsto> pk')) p (xs @ x # ys)"
  using assms by (induction xs arbitrary: p) auto

section \<open>The bytes of a packet and of a chain\<close>

text \<open>A packet's data lies between its prepend and its append pointer.\<close>

definition packet_bytes :: "nx_mem \<Rightarrow> nat \<Rightarrow> byte list" where
  "packet_bytes m a = (case nx_packets m a of
     None \<Rightarrow> []
   | Some pk \<Rightarrow> mem_read (nx_memory m) (nx_packet_prepend_ptr pk)
                 (nx_packet_append_ptr pk - nx_packet_prepend_ptr pk))"

definition chain_bytes :: "nx_mem \<Rightarrow> nat list \<Rightarrow> byte list" where
  "chain_bytes m ps = concat (map (packet_bytes m) ps)"

lemma chain_bytes_simps [simp]:
  "chain_bytes m [] = []"
  "chain_bytes m (p # ps) = packet_bytes m p @ chain_bytes m ps"
  "chain_bytes m (ps @ qs) = chain_bytes m ps @ chain_bytes m qs"
  by (simp_all add: chain_bytes_def)

text \<open>The pointers of a packet are in order, so its data lies inside its payload area.\<close>

definition packet_ok :: "nx_packet \<Rightarrow> bool" where
  "packet_ok pk \<longleftrightarrow>
     nx_packet_data_start pk \<le> nx_packet_prepend_ptr pk \<and>
     nx_packet_prepend_ptr pk \<le> nx_packet_append_ptr pk \<and>
     nx_packet_append_ptr pk \<le> nx_packet_data_end pk \<and>
     nx_packet_data_end pk < ULONG_RANGE"

text \<open>No two payload areas overlap.\<close>

definition separate :: "nx_packet \<Rightarrow> nx_packet \<Rightarrow> bool" where
  "separate pk qk \<longleftrightarrow>
     nx_packet_data_end pk \<le> nx_packet_data_start qk \<or>
     nx_packet_data_end qk \<le> nx_packet_data_start pk"

definition payloads_separate :: "nx_mem \<Rightarrow> bool" where
  "payloads_separate m \<longleftrightarrow>
     (\<forall>p q pk qk. nx_packets m p = Some pk \<longrightarrow> nx_packets m q = Some qk \<longrightarrow> p \<noteq> q \<longrightarrow> separate pk qk)"

definition room :: "nx_packet \<Rightarrow> nat" where
  "room pk = nx_packet_data_end pk - nx_packet_append_ptr pk"

lemma packet_okD:
  assumes "packet_ok pk"
  shows "nx_packet_data_start pk \<le> nx_packet_prepend_ptr pk"
    and "nx_packet_prepend_ptr pk \<le> nx_packet_append_ptr pk"
    and "nx_packet_append_ptr pk \<le> nx_packet_data_end pk"
    and "nx_packet_data_end pk < ULONG_RANGE"
  using assms by (auto simp: packet_ok_def)

lemma length_packet_bytes:
  "nx_packets m p = Some pk \<Longrightarrow>
     length (packet_bytes m p) = nx_packet_append_ptr pk - nx_packet_prepend_ptr pk"
  by (simp add: packet_bytes_def)

lemma packet_bytes_cong:
  assumes "nx_packets m p = Some pk" "nx_packets m' p = Some pk'"
    and "nx_packet_prepend_ptr pk' = nx_packet_prepend_ptr pk"
    and "nx_packet_append_ptr pk' = nx_packet_append_ptr pk"
    and "\<And>x. nx_packet_prepend_ptr pk \<le> x \<Longrightarrow> x < nx_packet_append_ptr pk \<Longrightarrow> nx_memory m' x = nx_memory m x"
  shows "packet_bytes m' p = packet_bytes m p"
  using assms by (auto simp: packet_bytes_def intro: mem_read_cong)

lemma chain_bytes_cong:
  "(\<And>p. p \<in> set ps \<Longrightarrow> packet_bytes m' p = packet_bytes m p) \<Longrightarrow> chain_bytes m' ps = chain_bytes m ps"
  by (simp add: chain_bytes_def cong: map_cong)

text \<open>A write into one packet's payload area leaves the data of every other packet.\<close>

lemma packet_bytes_put_bytes_other:
  assumes "payloads_separate m" "nx_packets m p = Some pk" "nx_packets m q = Some qk" "p \<noteq> q"
    and "packet_ok qk" "nx_packet_data_start pk \<le> a" "a + length bs \<le> nx_packet_data_end pk"
  shows "packet_bytes (put_bytes a bs m) q = packet_bytes m q"
proof -
  have "separate pk qk" using assms by (auto simp: payloads_separate_def)
  then show ?thesis
    using assms packet_okD [OF assms(5)]
    by (auto simp: packet_bytes_def separate_def intro!: mem_read_write_disjoint)
qed

end
