(* ===== verification/Nx_Packet_Pool.thy ===== *)
theory Nx_Packet_Pool imports Nx_Packet_Base begin

text \<open>
  Packet pools (common/src/nx_packet_pool_create.c, nx_packet_allocate.c,
  nx_packet_release.c, nx_packet_transmit_release.c, nx_packet_pool_cleanup.c,
  nx_packet_pool_delete.c, nx_packet_pool_info_get.c). A pool keeps its free packets on a
  singly linked list through \<open>nx_packet_queue_next\<close> and the threads that wait for a packet
  on a circular list. Each operation is one atomic step: the C code runs it with interrupts
  disabled, or on a packet only the caller holds. \<open>_tx_thread_system_suspend\<close> is a parameter:
  it maps the memory at the suspension to the memory when the thread runs again.
\<close>

section \<open>Creating a pool\<close>

text \<open>sizeof (NX_PACKET) with 32-bit pointers, and NX_PACKET_ALIGNMENT.\<close>

abbreviation (input) SIZEOF_NX_PACKET :: nat where "SIZEOF_NX_PACKET \<equiv> 60"
abbreviation (input) NX_PACKET_ALIGNMENT :: nat where "NX_PACKET_ALIGNMENT \<equiv> 4"

definition nx_align_up :: "nat \<Rightarrow> nat" where
  "nx_align_up a = (a + NX_PACKET_ALIGNMENT - 1) div NX_PACKET_ALIGNMENT * NX_PACKET_ALIGNMENT"

text \<open>The sizes the pool area is cut by: the rounded start, the usable size, the header size
  and the rounded payload size.\<close>

definition nx_pool_rounded_start :: "nat \<Rightarrow> nat" where
  "nx_pool_rounded_start pool_start = nx_align_up pool_start"

definition nx_pool_rounded_size :: "nat \<Rightarrow> nat \<Rightarrow> nat" where
  "nx_pool_rounded_size pool_start pool_size =
     ulong_sub pool_size (nx_pool_rounded_start pool_start - pool_start)
       div NX_PACKET_ALIGNMENT * NX_PACKET_ALIGNMENT"

definition nx_pool_header_size :: "nat \<Rightarrow> nat" where
  "nx_pool_header_size pool_start =
     nx_align_up (nx_pool_rounded_start pool_start + SIZEOF_NX_PACKET) - nx_pool_rounded_start pool_start"

definition nx_pool_rounded_payload :: "nat \<Rightarrow> nat \<Rightarrow> nat" where
  "nx_pool_rounded_payload header_size payload_size =
     ulong_sub (ulong_add (ulong_add header_size payload_size) (NX_PACKET_ALIGNMENT - 1)
                  div NX_PACKET_ALIGNMENT * NX_PACKET_ALIGNMENT) header_size"

text \<open>One turn of the walk over the pool area writes these fields of a header and keeps
  whatever the memory held in the others (\<open>raw\<close>).\<close>

definition nx_pool_header :: "nat \<Rightarrow> nat \<Rightarrow> nat \<Rightarrow> nat \<Rightarrow> nat \<Rightarrow> nx_packet \<Rightarrow> nx_packet" where
  "nx_pool_header pool_ptr header_size original_payload_size packet_ptr next_packet_ptr raw =
     raw\<lparr>nx_packet_queue_next := next_packet_ptr,
         nx_packet_pool_owner := pool_ptr,
         nx_packet_next := NX_NULL,
         nx_packet_tcp_queue_next := NX_PACKET_FREE,
         nx_packet_data_start := packet_ptr + header_size,
         nx_packet_data_end := packet_ptr + header_size + original_payload_size\<rparr>"

partial_function (option) nx_pool_walk ::
    "(nat \<Rightarrow> nx_packet) \<Rightarrow> nat \<Rightarrow> nat \<Rightarrow> nat \<Rightarrow> nat \<Rightarrow> nat \<Rightarrow> nat \<Rightarrow> nat \<Rightarrow> nx_mem \<Rightarrow> (nat \<times> nat \<times> nx_mem) option" where
  "nx_pool_walk raw pool_ptr header_size original_payload_size stride end_of_pool packet_ptr packets m =
     (if packet_ptr + stride \<le> end_of_pool
      then nx_pool_walk raw pool_ptr header_size original_payload_size stride end_of_pool
             (packet_ptr + stride) (ulong_add packets 1)
             (put_packet packet_ptr
                (nx_pool_header pool_ptr header_size original_payload_size packet_ptr
                   (packet_ptr + stride) (raw packet_ptr)) m)
      else Some (packet_ptr, packets, m))"

definition nx_packet_pool_create ::
    "(nat \<Rightarrow> nx_packet) \<Rightarrow> nat \<Rightarrow> nat \<Rightarrow> nat \<Rightarrow> nat \<Rightarrow> nat \<Rightarrow> nx_mem \<Rightarrow> (nx_status \<times> nx_mem) option" where
  "nx_packet_pool_create raw pool_ptr name_ptr payload_size pool_start pool_size m =
     (let start = nx_pool_rounded_start pool_start;
          size' = nx_pool_rounded_size pool_start pool_size;
          header_size = nx_pool_header_size pool_start;
          payload = nx_pool_rounded_payload header_size payload_size;
          stride = ulong_add payload header_size
      in do {
        (packet_ptr, packets, m1) \<leftarrow>
          nx_pool_walk raw pool_ptr header_size payload_size stride (start + size') start 0 m;
        last_pk \<leftarrow> nx_packets m1 (packet_ptr - stride);
        let m2 = put_packet (packet_ptr - stride) (last_pk\<lparr>nx_packet_queue_next := NX_NULL\<rparr>) m1;
        let pool = \<lparr>nx_packet_pool_id = NX_PACKET_POOL_ID, nx_packet_pool_name = name_ptr,
                    nx_packet_pool_available = packets, nx_packet_pool_total = packets,
                    nx_packet_pool_empty_requests = 0, nx_packet_pool_empty_suspensions = 0,
                    nx_packet_pool_invalid_releases = 0, nx_packet_pool_available_list = start,
                    nx_packet_pool_start = start, nx_packet_pool_size = size',
                    nx_packet_pool_payload_size = payload_size,
                    nx_packet_pool_suspension_list = [], nx_packet_pool_suspended_count = 0\<rparr>;
        Some (NX_SUCCESS,
          (put_pool pool_ptr pool m2)
            \<lparr>nx_packet_pool_created := ring_append (nx_packet_pool_created m2) pool_ptr,
             nx_packet_pool_created_count := ulong_add (nx_packet_pool_created_count m2) 1\<rparr>)
      })"

section \<open>Allocating a packet\<close>

text \<open>The fields of a packet that becomes allocated, but for its IP version, which the two
  places that do this set differently.\<close>

definition nx_packet_init :: "nat \<Rightarrow> nx_packet \<Rightarrow> nx_packet" where
  "nx_packet_init packet_type pk =
     pk\<lparr>nx_packet_queue_next := NX_NULL, nx_packet_next := NX_NULL, nx_packet_last := NX_NULL,
        nx_packet_length := 0,
        nx_packet_prepend_ptr := nx_packet_data_start pk + packet_type,
        nx_packet_append_ptr := nx_packet_data_start pk + packet_type,
        nx_packet_interface_ptr := NX_NULL,
        nx_packet_tcp_queue_next := NX_PACKET_ALLOCATED,
        nx_packet_option_state := 0,
        nx_packet_identical_copy := False,
        nx_packet_ip_header_length := 0\<rparr>"

text \<open>Preparing the current thread for suspension on the pool.\<close>

definition nx_packet_pool_suspend :: "nat \<Rightarrow> nx_packet_pool \<Rightarrow> nat \<Rightarrow> nat \<Rightarrow> nx_mem \<Rightarrow> (nat \<times> nx_mem) option" where
  "nx_packet_pool_suspend pool_ptr pool packet_type wait_option m = do {
     let thread_ptr = tx_thread_current_ptr m;
     th \<leftarrow> tx_threads m thread_ptr;
     let pool' = pool\<lparr>nx_packet_pool_empty_suspensions := ulong_add (nx_packet_pool_empty_suspensions pool) 1,
                      nx_packet_pool_suspension_list := ring_append (nx_packet_pool_suspension_list pool) thread_ptr,
                      nx_packet_pool_suspended_count := ulong_add (nx_packet_pool_suspended_count pool) 1\<rparr>;
     let th' = th\<lparr>tx_thread_suspend_cleanup := NX_PACKET_POOL_CLEANUP,
                  tx_thread_suspend_control_block := pool_ptr,
                  tx_thread_suspend_packet := NX_NULL,
                  tx_thread_suspend_info := packet_type,
                  tx_thread_state := TX_TCP_IP,
                  tx_thread_suspending := True,
                  tx_thread_remaining_ticks := wait_option\<rparr>;
     Some (thread_ptr,
       (put_thread thread_ptr th' (put_pool pool_ptr pool' m))
         \<lparr>tx_thread_preempt_disable := ulong_add (tx_thread_preempt_disable m) 1\<rparr>)
   }"

text \<open>\<open>packet_ptr\<close> is the value of the caller's packet pointer before the call; the result
  holds its value after the call.\<close>

definition nx_packet_allocate ::
    "(nat \<Rightarrow> nx_mem \<Rightarrow> nx_mem) \<Rightarrow> nat \<Rightarrow> nat \<Rightarrow> nat \<Rightarrow> nat \<Rightarrow> nx_mem \<Rightarrow> (nx_status \<times> nat \<times> nx_mem) option" where
  "nx_packet_allocate system_suspend pool_ptr packet_ptr packet_type wait_option m = do {
     pool \<leftarrow> nx_pools m pool_ptr;
     if nx_packet_pool_payload_size pool < packet_type then
       Some (NX_INVALID_PARAMETERS, packet_ptr, m)
     else if 0 < nx_packet_pool_available pool then do {
       let work_ptr = nx_packet_pool_available_list pool;
       pk \<leftarrow> nx_packets m work_ptr;
       let pool' = pool\<lparr>nx_packet_pool_available := nx_packet_pool_available pool - 1,
                        nx_packet_pool_available_list := nx_packet_queue_next pk\<rparr>;
       let pk' = (nx_packet_init packet_type pk)\<lparr>nx_packet_ip_version := NX_IP_VERSION_V4\<rparr>;
       Some (NX_SUCCESS, work_ptr, put_packet work_ptr pk' (put_pool pool_ptr pool' m))
     }
     else do {
       let pool' = pool\<lparr>nx_packet_pool_empty_requests := ulong_add (nx_packet_pool_empty_requests pool) 1\<rparr>;
       if wait_option \<noteq> 0 then do {
         (thread_ptr, m1) \<leftarrow> nx_packet_pool_suspend pool_ptr pool' packet_type wait_option m;
         let m2 = system_suspend thread_ptr m1;
         th \<leftarrow> tx_threads m2 thread_ptr;
         Some (tx_thread_suspend_status th, tx_thread_suspend_packet th, m2)
       }
       else Some (NX_NO_PACKET, NX_NULL, put_pool pool_ptr pool' m)
     }
   }"

section \<open>Releasing packets\<close>

text \<open>The invalid release counter, when the packet's pool pointer is a pool.\<close>

definition nx_packet_count_invalid :: "nx_packet \<Rightarrow> nx_mem \<Rightarrow> nx_mem option" where
  "nx_packet_count_invalid pk m =
     (if nx_packet_pool_owner pk = NX_NULL then Some m
      else do {
        pool \<leftarrow> nx_pools m (nx_packet_pool_owner pk);
        if nx_packet_pool_id pool = NX_PACKET_POOL_ID
        then Some (put_pool (nx_packet_pool_owner pk)
               (pool\<lparr>nx_packet_pool_invalid_releases := ulong_add (nx_packet_pool_invalid_releases pool) 1\<rparr>) m)
        else Some m
      })"

text \<open>A released packet goes to the first thread that waits for one, with its fields set for
  that thread, and otherwise to the head of the free list.\<close>

definition nx_packet_put_back :: "nat \<Rightarrow> nx_packet \<Rightarrow> nx_mem \<Rightarrow> nx_mem option" where
  "nx_packet_put_back packet_ptr pk m = do {
     let pool_ptr = nx_packet_pool_owner pk;
     pool \<leftarrow> nx_pools m pool_ptr;
     case nx_packet_pool_suspension_list pool of
       thread_ptr # rest \<Rightarrow> do {
         th \<leftarrow> tx_threads m thread_ptr;
         let pool' = pool\<lparr>nx_packet_pool_suspension_list := rest,
                          nx_packet_pool_suspended_count := ulong_sub (nx_packet_pool_suspended_count pool) 1\<rparr>;
         let pk' = (nx_packet_init (tx_thread_suspend_info th) pk)\<lparr>nx_packet_ip_version := 0\<rparr>;
         let th' = th\<lparr>tx_thread_suspend_cleanup := TX_NO_CLEANUP,
                      tx_thread_suspend_packet := packet_ptr,
                      tx_thread_suspend_status := NX_SUCCESS\<rparr>;
         Some ((put_thread thread_ptr th' (put_packet packet_ptr pk' (put_pool pool_ptr pool' m)))
                 \<lparr>tx_thread_preempt_disable := ulong_add (tx_thread_preempt_disable m) 1,
                  tx_calls := tx_calls m @ [Tx_thread_system_resume thread_ptr]\<rparr>)
       }
     | [] \<Rightarrow> do {
         let pk' = pk\<lparr>nx_packet_tcp_queue_next := NX_PACKET_FREE,
                      nx_packet_queue_next := nx_packet_pool_available_list pool\<rparr>;
         let pool' = pool\<lparr>nx_packet_pool_available_list := packet_ptr,
                          nx_packet_pool_available := ulong_add (nx_packet_pool_available pool) 1\<rparr>;
         Some (put_pool pool_ptr pool' (put_packet packet_ptr pk' m))
       }
   }"

partial_function (option) nx_packet_release :: "nat \<Rightarrow> nx_mem \<Rightarrow> (nx_status \<times> nx_mem) option" where
  "nx_packet_release packet_ptr m =
     (if packet_ptr = NX_NULL then Some (NX_SUCCESS, m)
      else do {
        pk \<leftarrow> nx_packets m packet_ptr;
        if nx_packet_tcp_queue_next pk \<noteq> NX_PACKET_ALLOCATED then do {
          m' \<leftarrow> nx_packet_count_invalid pk m;
          Some (NX_PTR_ERROR, m')
        }
        else do {
          m' \<leftarrow> nx_packet_put_back packet_ptr pk m;
          nx_packet_release (nx_packet_next pk) m'
        }
      })"

definition nx_packet_transmit_release :: "nat \<Rightarrow> nx_mem \<Rightarrow> (nx_status \<times> nx_mem) option" where
  "nx_packet_transmit_release packet_ptr m = do {
     pk \<leftarrow> nx_packets m packet_ptr;
     if nx_packet_tcp_queue_next pk \<noteq> NX_PACKET_ALLOCATED \<and> nx_packet_tcp_queue_next pk \<noteq> NX_PACKET_FREE then
       Some (NX_SUCCESS,
         put_packet packet_ptr
           (pk\<lparr>nx_packet_queue_next := NX_DRIVER_TX_DONE,
               nx_packet_prepend_ptr := nx_packet_prepend_ptr pk + nx_packet_ip_header_length pk,
               nx_packet_length := ulong_sub (nx_packet_length pk) (nx_packet_ip_header_length pk),
               nx_packet_ip_header_length := 0\<rparr>) m)
     else nx_packet_release packet_ptr m
   }"

section \<open>Timeouts, deletion and information\<close>

text \<open>The cleanup routine ThreadX runs when a thread stops waiting for a packet.\<close>

definition nx_packet_pool_cleanup :: "nat \<Rightarrow> nx_mem \<Rightarrow> nx_mem option" where
  "nx_packet_pool_cleanup thread_ptr m = do {
     th \<leftarrow> tx_threads m thread_ptr;
     let pool_ptr = tx_thread_suspend_control_block th;
     if tx_thread_suspend_cleanup th = TX_NO_CLEANUP \<or> pool_ptr = NX_NULL then Some m
     else do {
       pool \<leftarrow> nx_pools m pool_ptr;
       if nx_packet_pool_id pool \<noteq> NX_PACKET_POOL_ID then Some m
       else do {
         let pool' = pool\<lparr>nx_packet_pool_suspension_list := ring_remove thread_ptr (nx_packet_pool_suspension_list pool),
                          nx_packet_pool_suspended_count := ulong_sub (nx_packet_pool_suspended_count pool) 1\<rparr>;
         let th' = th\<lparr>tx_thread_suspend_cleanup := TX_NO_CLEANUP\<rparr>;
         let m1 = put_pool pool_ptr pool' m;
         if tx_thread_state th = TX_TCP_IP then
           Some ((put_thread thread_ptr (th'\<lparr>tx_thread_suspend_status := NX_NO_PACKET\<rparr>) m1)
                   \<lparr>tx_thread_preempt_disable := ulong_add (tx_thread_preempt_disable m) 1,
                    tx_calls := tx_calls m @ [Tx_thread_system_resume thread_ptr]\<rparr>)
         else Some (put_thread thread_ptr th' m1)
       }
     }
   }"

text \<open>Deleting a pool resumes its waiting threads in order; \<open>count\<close> is the suspended count and
  \<open>ring\<close> the suspension list as seen from the working thread pointer.\<close>

primrec nx_packet_pool_delete_loop :: "nat \<Rightarrow> nat \<Rightarrow> nat list \<Rightarrow> nx_mem \<Rightarrow> nx_mem option" where
  "nx_packet_pool_delete_loop pool_ptr 0 ring m = Some m"
| "nx_packet_pool_delete_loop pool_ptr (Suc count) ring m =
     (case ring of
        [] \<Rightarrow> None
      | thread_ptr # rest \<Rightarrow> do {
          th \<leftarrow> tx_threads m thread_ptr;
          pool \<leftarrow> nx_pools m pool_ptr;
          let th' = th\<lparr>tx_thread_suspend_cleanup := TX_NO_CLEANUP,
                       tx_thread_suspend_status := NX_POOL_DELETED\<rparr>;
          let m' = (put_thread thread_ptr th'
                      (put_pool pool_ptr (pool\<lparr>nx_packet_pool_suspended_count := count\<rparr>) m))
                     \<lparr>tx_thread_preempt_disable := ulong_add (tx_thread_preempt_disable m) 1,
                      tx_calls := tx_calls m @ [Tx_thread_system_resume thread_ptr]\<rparr>;
          nx_packet_pool_delete_loop pool_ptr count (rest @ [thread_ptr]) m'
        })"

definition nx_packet_pool_delete :: "nat \<Rightarrow> nx_mem \<Rightarrow> (nx_status \<times> nx_mem) option" where
  "nx_packet_pool_delete pool_ptr m = do {
     pool \<leftarrow> nx_pools m pool_ptr;
     let m1 = (put_pool pool_ptr (pool\<lparr>nx_packet_pool_id := 0\<rparr>) m)
                \<lparr>nx_packet_pool_created_count := ulong_sub (nx_packet_pool_created_count m) 1,
                 nx_packet_pool_created := ring_remove pool_ptr (nx_packet_pool_created m),
                 tx_thread_preempt_disable := ulong_add (tx_thread_preempt_disable m) 1\<rparr>;
     m2 \<leftarrow> nx_packet_pool_delete_loop pool_ptr (nx_packet_pool_suspended_count pool)
            (nx_packet_pool_suspension_list pool) m1;
     Some (NX_SUCCESS,
       m2\<lparr>tx_thread_preempt_disable := ulong_sub (tx_thread_preempt_disable m2) 1,
          tx_calls := tx_calls m2 @ [Tx_thread_system_preempt_check]\<rparr>)
   }"

text \<open>The five numbers a caller can ask for: total, free, empty requests, empty suspensions and
  invalid releases. A NULL destination asks for nothing.\<close>

definition nx_packet_pool_info_get ::
    "nat \<Rightarrow> bool \<Rightarrow> bool \<Rightarrow> bool \<Rightarrow> bool \<Rightarrow> bool \<Rightarrow> nx_mem \<Rightarrow>
       (nx_status \<times> nat option \<times> nat option \<times> nat option \<times> nat option \<times> nat option) option" where
  "nx_packet_pool_info_get pool_ptr total_packets free_packets empty_pool_requests
     empty_pool_suspensions invalid_packet_releases m = do {
     pool \<leftarrow> nx_pools m pool_ptr;
     Some (NX_SUCCESS,
       if total_packets then Some (nx_packet_pool_total pool) else None,
       if free_packets then Some (nx_packet_pool_available pool) else None,
       if empty_pool_requests then Some (nx_packet_pool_empty_requests pool) else None,
       if empty_pool_suspensions then Some (nx_packet_pool_empty_suspensions pool) else None,
       if invalid_packet_releases then Some (nx_packet_pool_invalid_releases pool) else None)
   }"

end
