(* ===== verification/Nx_Pool_Inv.thy ===== *)
theory Nx_Pool_Inv imports Nx_Packet_Pool begin

text \<open>
  The invariant of the packet pools and the proof that every pool operation keeps it. The
  ghost argument \<open>F\<close> gives the free packets of each pool in the order of its free list.
\<close>

section \<open>The invariant\<close>

definition pool_packets :: "nx_mem \<Rightarrow> nat \<Rightarrow> nat set" where
  "pool_packets m P = {a. \<exists>pk. nx_packets m a = Some pk \<and> nx_packet_pool_owner pk = P}"

text \<open>The free list holds exactly the pool's packets marked free, each once, and the available
  count is its length.\<close>

definition free_list_ok :: "nx_mem \<Rightarrow> nat \<Rightarrow> nx_packet_pool \<Rightarrow> nat list \<Rightarrow> bool" where
  "free_list_ok m P pool fs \<longleftrightarrow>
     queue m (nx_packet_pool_available_list pool) fs \<and> distinct fs \<and>
     nx_packet_pool_available pool = length fs \<and>
     (\<forall>a. a \<in> set fs \<longleftrightarrow> (\<exists>pk. nx_packets m a = Some pk \<and> nx_packet_pool_owner pk = P \<and>
                                nx_packet_tcp_queue_next pk = NX_PACKET_FREE))"

text \<open>Threads wait only at an empty pool, each once, for a packet type that fits.\<close>

definition waiting_ok :: "nx_mem \<Rightarrow> nat \<Rightarrow> nx_packet_pool \<Rightarrow> bool" where
  "waiting_ok m P pool \<longleftrightarrow>
     distinct (nx_packet_pool_suspension_list pool) \<and>
     nx_packet_pool_suspended_count pool = length (nx_packet_pool_suspension_list pool) \<and>
     length (nx_packet_pool_suspension_list pool) < ULONG_RANGE \<and>
     (nx_packet_pool_suspension_list pool \<noteq> [] \<longrightarrow> nx_packet_pool_available pool = 0) \<and>
     (\<forall>t \<in> set (nx_packet_pool_suspension_list pool). \<exists>th. tx_threads m t = Some th \<and>
        tx_thread_suspend_cleanup th = NX_PACKET_POOL_CLEANUP \<and>
        tx_thread_suspend_control_block th = P \<and>
        tx_thread_suspend_info th \<le> nx_packet_pool_payload_size pool)"

text \<open>A payload area of the pool's payload size, below the end of the address space.\<close>

definition slot_ok :: "nat \<Rightarrow> nx_packet \<Rightarrow> bool" where
  "slot_ok payload_size pk \<longleftrightarrow>
     nx_packet_data_end pk = nx_packet_data_start pk + payload_size \<and> nx_packet_data_end pk < ULONG_RANGE"

text \<open>The pool owns as many packets as it was created with, all of its payload size.\<close>

definition area_ok :: "nx_mem \<Rightarrow> nat \<Rightarrow> nx_packet_pool \<Rightarrow> bool" where
  "area_ok m P pool \<longleftrightarrow>
     P \<noteq> NX_NULL \<and> nx_packet_pool_id pool = NX_PACKET_POOL_ID \<and>
     finite (pool_packets m P) \<and> card (pool_packets m P) = nx_packet_pool_total pool \<and>
     nx_packet_pool_total pool < ULONG_RANGE \<and>
     (\<forall>a pk. nx_packets m a = Some pk \<longrightarrow> nx_packet_pool_owner pk = P \<longrightarrow>
        slot_ok (nx_packet_pool_payload_size pool) pk)"

definition pool_inv :: "nx_mem \<Rightarrow> nat \<Rightarrow> nat list \<Rightarrow> bool" where
  "pool_inv m P fs \<longleftrightarrow> (\<exists>pool. nx_pools m P = Some pool \<and>
     free_list_ok m P pool fs \<and> waiting_ok m P pool \<and> area_ok m P pool)"

definition pools_inv :: "nx_mem \<Rightarrow> (nat \<Rightarrow> nat list) \<Rightarrow> bool" where
  "pools_inv m F \<longleftrightarrow> (\<forall>P \<in> dom (nx_pools m). pool_inv m P (F P))"

text \<open>A packet a client may release: allocated, from a pool of the memory.\<close>

definition allocated :: "nx_mem \<Rightarrow> nat \<Rightarrow> bool" where
  "allocated m a \<longleftrightarrow> a \<noteq> NX_NULL \<and> (\<exists>pk. nx_packets m a = Some pk \<and>
     nx_packet_tcp_queue_next pk = NX_PACKET_ALLOCATED \<and> nx_packet_pool_owner pk \<in> dom (nx_pools m))"

definition live_packets :: "nx_mem \<Rightarrow> nat \<Rightarrow> nat set" where
  "live_packets m P = {a. \<exists>pk. nx_packets m a = Some pk \<and> nx_packet_pool_owner pk = P \<and>
     nx_packet_tcp_queue_next pk \<noteq> NX_PACKET_FREE}"

lemma pool_invE:
  assumes "pool_inv m P fs"
  obtains pool where "nx_pools m P = Some pool" "free_list_ok m P pool fs"
    "waiting_ok m P pool" "area_ok m P pool"
  using assms by (auto simp: pool_inv_def)

lemma pools_invD: "pools_inv m F \<Longrightarrow> nx_pools m P = Some pool \<Longrightarrow> pool_inv m P (F P)"
  by (auto simp: pools_inv_def)

lemma free_list_head:
  assumes "free_list_ok m P pool fs"
  shows "0 < nx_packet_pool_available pool \<longleftrightarrow> fs \<noteq> []"
  using assms by (auto simp: free_list_ok_def)

lemma free_list_member:
  assumes "free_list_ok m P pool fs" "a \<in> set fs" "nx_packets m a = Some pk"
  shows "nx_packet_pool_owner pk = P \<and> nx_packet_tcp_queue_next pk = NX_PACKET_FREE"
  using assms unfolding free_list_ok_def by (metis option.inject)

text \<open>Conservation: the available count and the packets in use make up the total.\<close>

lemma pool_inv_conservation:
  assumes "pool_inv m P fs" "nx_pools m P = Some pool"
  shows "nx_packet_pool_available pool + card (live_packets m P) = nx_packet_pool_total pool"
proof -
  have fl: "free_list_ok m P pool fs" and ar: "area_ok m P pool"
    using assms by (auto elim: pool_invE)
  have split: "pool_packets m P = set fs \<union> live_packets m P"
    using fl by (auto simp: free_list_ok_def pool_packets_def live_packets_def)
  have disj: "set fs \<inter> live_packets m P = {}"
    using fl by (auto simp: free_list_ok_def live_packets_def)
  have fin: "finite (live_packets m P)" using ar split by (simp add: area_ok_def)
  have "card (pool_packets m P) = card (set fs) + card (live_packets m P)"
    unfolding split by (rule card_Un_disjoint) (use fin disj in auto)
  then show ?thesis using fl ar by (simp add: free_list_ok_def area_ok_def distinct_card)
qed

section \<open>Changing headers and pools\<close>

text \<open>The parts of the invariant depend on a few fields only.\<close>

lemma pool_packets_put_packet:
  assumes "nx_packets m a = Some pk" "nx_packet_pool_owner pk' = nx_packet_pool_owner pk"
  shows "pool_packets (put_packet a pk' m) P = pool_packets m P"
  using assms by (auto simp: pool_packets_def)

lemma area_ok_put_packet:
  assumes "area_ok m P pool" "nx_packets m a = Some pk"
    and "nx_packet_pool_owner pk' = nx_packet_pool_owner pk"
    and "nx_packet_data_start pk' = nx_packet_data_start pk"
    and "nx_packet_data_end pk' = nx_packet_data_end pk"
  shows "area_ok (put_packet a pk' m) P pool"
proof -
  have "slot_ok n pk' \<longleftrightarrow> slot_ok n pk" for n using assms by (simp add: slot_ok_def)
  then show ?thesis
    using assms(1,2,3) by (auto simp: area_ok_def pool_packets_put_packet)
qed

lemma area_ok_cong:
  assumes "area_ok m P pool" "nx_packets m' = nx_packets m"
    and "nx_packet_pool_id pool' = nx_packet_pool_id pool"
    and "nx_packet_pool_total pool' = nx_packet_pool_total pool"
    and "nx_packet_pool_payload_size pool' = nx_packet_pool_payload_size pool"
  shows "area_ok m' P pool'"
  using assms by (auto simp: area_ok_def pool_packets_def)

lemma free_list_ok_cong:
  assumes "free_list_ok m P pool fs" "nx_packets m' = nx_packets m"
    and "nx_packet_pool_available pool' = nx_packet_pool_available pool"
    and "nx_packet_pool_available_list pool' = nx_packet_pool_available_list pool"
  shows "free_list_ok m' P pool' fs"
  using assms by (auto simp: free_list_ok_def)

lemma waiting_ok_cong:
  assumes "waiting_ok m P pool"
    and "nx_packet_pool_suspension_list pool' = nx_packet_pool_suspension_list pool"
    and "nx_packet_pool_suspended_count pool' = nx_packet_pool_suspended_count pool"
    and "nx_packet_pool_payload_size pool' = nx_packet_pool_payload_size pool"
    and "nx_packet_pool_available pool = 0 \<Longrightarrow> nx_packet_pool_available pool' = 0"
    and "\<And>t. t \<in> set (nx_packet_pool_suspension_list pool) \<Longrightarrow> tx_threads m' t = tx_threads m t"
  shows "waiting_ok m' P pool'"
  using assms by (auto simp: waiting_ok_def)

text \<open>A packet that is not free and stays so can change any field but its owner and its payload
  area: its links and pointers are the client's.\<close>

lemma free_list_ok_put_live:
  assumes "free_list_ok m P pool fs" "nx_packets m a = Some pk"
    and "nx_packet_pool_owner pk = P \<Longrightarrow> nx_packet_tcp_queue_next pk \<noteq> NX_PACKET_FREE"
    and "nx_packet_pool_owner pk' = nx_packet_pool_owner pk"
    and "nx_packet_pool_owner pk = P \<Longrightarrow> nx_packet_tcp_queue_next pk' \<noteq> NX_PACKET_FREE"
  shows "free_list_ok (put_packet a pk' m) P pool fs"
proof -
  have "a \<notin> set fs" using assms by (auto simp: free_list_ok_def)
  then show ?thesis using assms by (auto simp: free_list_ok_def)
qed

lemma pool_inv_put_live:
  assumes "pool_inv m P fs" "nx_packets m a = Some pk"
    and "nx_packet_tcp_queue_next pk \<noteq> NX_PACKET_FREE" "nx_packet_tcp_queue_next pk' \<noteq> NX_PACKET_FREE"
    and "nx_packet_pool_owner pk' = nx_packet_pool_owner pk"
    and "nx_packet_data_start pk' = nx_packet_data_start pk"
    and "nx_packet_data_end pk' = nx_packet_data_end pk"
  shows "pool_inv (put_packet a pk' m) P fs"
proof -
  obtain pool where P: "nx_pools m P = Some pool" "free_list_ok m P pool fs"
    "waiting_ok m P pool" "area_ok m P pool" using assms(1) by (rule pool_invE)
  have "free_list_ok (put_packet a pk' m) P pool fs"
    using P(2) assms by (auto intro: free_list_ok_put_live)
  moreover have "waiting_ok (put_packet a pk' m) P pool"
    using P(3) by (rule waiting_ok_cong) auto
  moreover have "area_ok (put_packet a pk' m) P pool"
    using P(4) assms by (auto intro: area_ok_put_packet)
  ultimately show ?thesis using P(1) by (auto simp: pool_inv_def)
qed

lemma pools_inv_put_live:
  assumes "pools_inv m F" "nx_packets m a = Some pk"
    and "nx_packet_tcp_queue_next pk \<noteq> NX_PACKET_FREE" "nx_packet_tcp_queue_next pk' \<noteq> NX_PACKET_FREE"
    and "nx_packet_pool_owner pk' = nx_packet_pool_owner pk"
    and "nx_packet_data_start pk' = nx_packet_data_start pk"
    and "nx_packet_data_end pk' = nx_packet_data_end pk"
  shows "pools_inv (put_packet a pk' m) F"
  using assms by (auto simp: pools_inv_def intro: pool_inv_put_live)

lemma pool_inv_bytes:
  "pool_inv (m\<lparr>nx_memory := b\<rparr>) P fs \<longleftrightarrow> pool_inv m P fs"
  by (simp add: pool_inv_def free_list_ok_def waiting_ok_def area_ok_def pool_packets_def)

lemma pools_inv_put_bytes [simp]: "pools_inv (put_bytes a bs m) F \<longleftrightarrow> pools_inv m F"
  by (simp add: pools_inv_def put_bytes_def pool_inv_bytes)

text \<open>The counters of kernel calls and of preemption play no part.\<close>

lemma pool_inv_kernel [simp]:
  "pool_inv (m\<lparr>tx_thread_preempt_disable := n\<rparr>) P fs \<longleftrightarrow> pool_inv m P fs"
  "pool_inv (m\<lparr>tx_calls := cs\<rparr>) P fs \<longleftrightarrow> pool_inv m P fs"
  by (simp_all add: pool_inv_def free_list_ok_def waiting_ok_def area_ok_def pool_packets_def)

lemma pools_inv_kernel [simp]:
  "pools_inv (m\<lparr>tx_thread_preempt_disable := n\<rparr>) F \<longleftrightarrow> pools_inv m F"
  "pools_inv (m\<lparr>tx_calls := cs\<rparr>) F \<longleftrightarrow> pools_inv m F"
  by (simp_all add: pools_inv_def)

lemma allocated_kernel [simp]:
  "allocated (m\<lparr>tx_thread_preempt_disable := n\<rparr>) a \<longleftrightarrow> allocated m a"
  "allocated (m\<lparr>tx_calls := cs\<rparr>) a \<longleftrightarrow> allocated m a"
  by (simp_all add: allocated_def)

section \<open>Steps of one pool leave the others\<close>

lemma pool_inv_other:
  assumes "pool_inv m Q gs" "Q \<noteq> P" "nx_packets m a = Some pk"
    and "nx_packet_pool_owner pk = P" "nx_packet_pool_owner pk' = P"
    and "nx_packet_data_start pk' = nx_packet_data_start pk"
    and "nx_packet_data_end pk' = nx_packet_data_end pk"
  shows "pool_inv (put_packet a pk' (put_pool P pool' m)) Q gs"
proof -
  let ?m = "put_packet a pk' (put_pool P pool' m)"
  obtain q where q: "nx_pools m Q = Some q" "free_list_ok m Q q gs" "waiting_ok m Q q" "area_ok m Q q"
    using assms(1) by (rule pool_invE)
  have "free_list_ok (put_pool P pool' m) Q q gs" using q(2) by (rule free_list_ok_cong) auto
  then have "free_list_ok ?m Q q gs"
    using assms by (auto intro: free_list_ok_put_live)
  moreover have "waiting_ok ?m Q q" using q(3) by (rule waiting_ok_cong) auto
  moreover have "area_ok (put_pool P pool' m) Q q" using q(4) by (rule area_ok_cong) auto
  then have "area_ok ?m Q q" using assms by (auto intro: area_ok_put_packet)
  ultimately show ?thesis using q(1) assms(2) by (auto simp: pool_inv_def)
qed

text \<open>A step on the pool \<open>P\<close> that rewrites one of its headers and its control block.\<close>

lemma pools_inv_step:
  assumes "pools_inv m F" "nx_packets m a = Some pk" "nx_packet_pool_owner pk = P"
    and "nx_packet_pool_owner pk' = P"
    and "nx_packet_data_start pk' = nx_packet_data_start pk"
    and "nx_packet_data_end pk' = nx_packet_data_end pk"
    and "pool_inv (put_packet a pk' (put_pool P pool' m)) P fs"
  shows "pools_inv (put_packet a pk' (put_pool P pool' m)) (F(P := fs))"
  unfolding pools_inv_def
proof
  fix Q assume Q: "Q \<in> dom (nx_pools (put_packet a pk' (put_pool P pool' m)))"
  show "pool_inv (put_packet a pk' (put_pool P pool' m)) Q ((F(P := fs)) Q)"
  proof (cases "Q = P")
    case True
    then show ?thesis using assms(7) by simp
  next
    case False
    then have "pool_inv m Q (F Q)" using assms(1) Q by (auto simp: pools_inv_def)
    then show ?thesis using assms False by (auto intro: pool_inv_other)
  qed
qed

lemma nx_packet_init_simps [simp]:
  "nx_packet_pool_owner (nx_packet_init n pk) = nx_packet_pool_owner pk"
  "nx_packet_next (nx_packet_init n pk) = NX_NULL"
  "nx_packet_last (nx_packet_init n pk) = NX_NULL"
  "nx_packet_queue_next (nx_packet_init n pk) = NX_NULL"
  "nx_packet_length (nx_packet_init n pk) = 0"
  "nx_packet_data_start (nx_packet_init n pk) = nx_packet_data_start pk"
  "nx_packet_data_end (nx_packet_init n pk) = nx_packet_data_end pk"
  "nx_packet_prepend_ptr (nx_packet_init n pk) = nx_packet_data_start pk + n"
  "nx_packet_append_ptr (nx_packet_init n pk) = nx_packet_data_start pk + n"
  "nx_packet_tcp_queue_next (nx_packet_init n pk) = NX_PACKET_ALLOCATED"
  by (simp_all add: nx_packet_init_def)

section \<open>Allocation\<close>

definition alloc_header :: "nat \<Rightarrow> nx_packet \<Rightarrow> nx_packet" where
  "alloc_header packet_type pk = (nx_packet_init packet_type pk)\<lparr>nx_packet_ip_version := NX_IP_VERSION_V4\<rparr>"

lemma alloc_header_simps [simp]:
  "nx_packet_pool_owner (alloc_header n pk) = nx_packet_pool_owner pk"
  "nx_packet_next (alloc_header n pk) = NX_NULL"
  "nx_packet_last (alloc_header n pk) = NX_NULL"
  "nx_packet_length (alloc_header n pk) = 0"
  "nx_packet_data_start (alloc_header n pk) = nx_packet_data_start pk"
  "nx_packet_data_end (alloc_header n pk) = nx_packet_data_end pk"
  "nx_packet_prepend_ptr (alloc_header n pk) = nx_packet_data_start pk + n"
  "nx_packet_append_ptr (alloc_header n pk) = nx_packet_data_start pk + n"
  "nx_packet_tcp_queue_next (alloc_header n pk) = NX_PACKET_ALLOCATED"
  "nx_packet_ip_version (alloc_header n pk) = NX_IP_VERSION_V4"
  by (simp_all add: alloc_header_def)

text \<open>The state after the head of the free list has been taken.\<close>

definition taken :: "nat \<Rightarrow> nx_packet_pool \<Rightarrow> nat \<Rightarrow> nat \<Rightarrow> nx_packet \<Rightarrow> nx_mem \<Rightarrow> nx_mem" where
  "taken P pool packet_type a pk m =
     put_packet a (alloc_header packet_type pk)
       (put_pool P (pool\<lparr>nx_packet_pool_available := nx_packet_pool_available pool - 1,
                         nx_packet_pool_available_list := nx_packet_queue_next pk\<rparr>) m)"

lemma free_listD:
  assumes "pools_inv m F" "nx_pools m P = Some pool" "a \<in> set (F P)"
  shows "\<exists>pk. nx_packets m a = Some pk \<and> nx_packet_pool_owner pk = P \<and>
              nx_packet_tcp_queue_next pk = NX_PACKET_FREE \<and>
              slot_ok (nx_packet_pool_payload_size pool) pk \<and> a \<noteq> NX_NULL"
proof -
  have inv: "pool_inv m P (F P)" using assms(1,2) by (rule pools_invD)
  then have fl: "free_list_ok m P pool (F P)" and ar: "area_ok m P pool"
    using assms(2) by (auto elim: pool_invE)
  obtain pk where pk: "nx_packets m a = Some pk" "nx_packet_pool_owner pk = P"
      "nx_packet_tcp_queue_next pk = NX_PACKET_FREE"
    using fl assms(3) by (auto simp: free_list_ok_def)
  have "a \<noteq> NX_NULL" using fl assms(3) by (auto simp: free_list_ok_def dest: linked_valid)
  then show ?thesis using pk ar by (auto simp: area_ok_def)
qed

lemma taken_inv:
  assumes inv: "pools_inv m F" and P: "nx_pools m P = Some pool" and F: "F P = a # fs"
    and pk: "nx_packets m a = Some pk" and type: "packet_type \<le> nx_packet_pool_payload_size pool"
  shows "pools_inv (taken P pool packet_type a pk m) (F(P := fs))"
proof -
  have pinv: "pool_inv m P (a # fs)" using pools_invD [OF inv P] F by simp
  then have fl: "free_list_ok m P pool (a # fs)" and wt: "waiting_ok m P pool" and ar: "area_ok m P pool"
    using P by (auto elim: pool_invE)
  have own: "nx_packet_pool_owner pk = P" using free_list_member [OF fl, of a pk] pk by simp
  have fl': "free_list_ok (taken P pool packet_type a pk m) P
      (pool\<lparr>nx_packet_pool_available := nx_packet_pool_available pool - 1,
            nx_packet_pool_available_list := nx_packet_queue_next pk\<rparr>) fs"
    using fl pk own by (auto simp: free_list_ok_def taken_def)
  have wt': "waiting_ok (taken P pool packet_type a pk m) P
      (pool\<lparr>nx_packet_pool_available := nx_packet_pool_available pool - 1,
            nx_packet_pool_available_list := nx_packet_queue_next pk\<rparr>)"
    using wt by (rule waiting_ok_cong) (auto simp: taken_def)
  have "area_ok (put_pool P (pool\<lparr>nx_packet_pool_available := nx_packet_pool_available pool - 1,
            nx_packet_pool_available_list := nx_packet_queue_next pk\<rparr>) m) P
       (pool\<lparr>nx_packet_pool_available := nx_packet_pool_available pool - 1,
            nx_packet_pool_available_list := nx_packet_queue_next pk\<rparr>)"
    using ar by (rule area_ok_cong) auto
  then have ar': "area_ok (taken P pool packet_type a pk m) P
       (pool\<lparr>nx_packet_pool_available := nx_packet_pool_available pool - 1,
            nx_packet_pool_available_list := nx_packet_queue_next pk\<rparr>)"
    unfolding taken_def by (rule area_ok_put_packet) (use pk in auto)
  have "pool_inv (taken P pool packet_type a pk m) P fs"
    using fl' wt' ar' by (auto simp: pool_inv_def taken_def)
  then show ?thesis
    unfolding taken_def by (intro pools_inv_step [OF inv pk own]) (auto simp: own taken_def)
qed

lemma nx_packet_allocate_success:
  assumes inv: "pools_inv m F" and P: "nx_pools m P = Some pool" and F: "F P = a # fs"
    and type: "packet_type \<le> nx_packet_pool_payload_size pool"
  obtains pk where "nx_packets m a = Some pk" "nx_packet_pool_owner pk = P" "a \<noteq> NX_NULL"
    "nx_packet_tcp_queue_next pk = NX_PACKET_FREE" "slot_ok (nx_packet_pool_payload_size pool) pk"
    "nx_packet_allocate S P v packet_type w m = Some (NX_SUCCESS, a, taken P pool packet_type a pk m)"
    "pools_inv (taken P pool packet_type a pk m) (F(P := fs))"
proof -
  obtain pk where pk: "nx_packets m a = Some pk" "nx_packet_pool_owner pk = P"
      "nx_packet_tcp_queue_next pk = NX_PACKET_FREE" "slot_ok (nx_packet_pool_payload_size pool) pk" "a \<noteq> NX_NULL"
    using free_listD [OF inv P, of a] F by auto
  have fl: "free_list_ok m P pool (a # fs)" using pools_invD [OF inv P] P F by (auto elim: pool_invE)
  then have hd: "nx_packet_pool_available_list pool = a" and av: "0 < nx_packet_pool_available pool"
    by (auto simp: free_list_ok_def)
  have "nx_packet_allocate S P v packet_type w m = Some (NX_SUCCESS, a, taken P pool packet_type a pk m)"
    using P type av hd pk(1)
    by (simp add: nx_packet_allocate_def taken_def alloc_header_def Let_def)
  then show ?thesis
    using that pk taken_inv [OF inv P F pk(1) type] by blast
qed

definition refused :: "nat \<Rightarrow> nx_packet_pool \<Rightarrow> nx_mem \<Rightarrow> nx_mem" where
  "refused P pool m =
     put_pool P (pool\<lparr>nx_packet_pool_empty_requests := ulong_add (nx_packet_pool_empty_requests pool) 1\<rparr>) m"

lemma pools_inv_put_pool:
  assumes "pools_inv m F" "nx_pools m P = Some pool"
    and "nx_packet_pool_available pool' = nx_packet_pool_available pool"
    and "nx_packet_pool_available_list pool' = nx_packet_pool_available_list pool"
    and "nx_packet_pool_suspension_list pool' = nx_packet_pool_suspension_list pool"
    and "nx_packet_pool_suspended_count pool' = nx_packet_pool_suspended_count pool"
    and "nx_packet_pool_payload_size pool' = nx_packet_pool_payload_size pool"
    and "nx_packet_pool_total pool' = nx_packet_pool_total pool"
    and "nx_packet_pool_id pool' = nx_packet_pool_id pool"
  shows "pools_inv (put_pool P pool' m) F"
  unfolding pools_inv_def
proof
  fix Q assume "Q \<in> dom (nx_pools (put_pool P pool' m))"
  then have "pool_inv m Q (F Q)" using assms(1,2) by (auto simp: pools_inv_def split: if_splits)
  then obtain q where q: "nx_pools m Q = Some q" "free_list_ok m Q q (F Q)" "waiting_ok m Q q" "area_ok m Q q"
    by (rule pool_invE)
  define q' where "q' = (if Q = P then pool' else q)"
  have "free_list_ok (put_pool P pool' m) Q q' (F Q)"
    using q(2) by (rule free_list_ok_cong) (use assms q in \<open>auto simp: q'_def\<close>)
  moreover have "waiting_ok (put_pool P pool' m) Q q'"
    using q(3) by (rule waiting_ok_cong) (use assms q in \<open>auto simp: q'_def\<close>)
  moreover have "area_ok (put_pool P pool' m) Q q'"
    using q(4) by (rule area_ok_cong) (use assms q in \<open>auto simp: q'_def\<close>)
  ultimately show "pool_inv (put_pool P pool' m) Q (F Q)"
    using q(1) by (auto simp: pool_inv_def q'_def)
qed

lemma nx_packet_allocate_empty:
  assumes inv: "pools_inv m F" and P: "nx_pools m P = Some pool" and F: "F P = []"
    and type: "packet_type \<le> nx_packet_pool_payload_size pool"
  shows "nx_packet_allocate S P v packet_type NX_NO_WAIT m = Some (NX_NO_PACKET, NX_NULL, refused P pool m)"
    and "pools_inv (refused P pool m) F"
proof -
  have "nx_packet_pool_available pool = 0"
    using pools_invD [OF inv P] P F by (auto elim!: pool_invE simp: free_list_ok_def)
  then show "nx_packet_allocate S P v packet_type NX_NO_WAIT m = Some (NX_NO_PACKET, NX_NULL, refused P pool m)"
    using P type by (simp add: nx_packet_allocate_def refused_def Let_def)
  show "pools_inv (refused P pool m) F"
    unfolding refused_def by (rule pools_inv_put_pool [OF inv P]) auto
qed

section \<open>Release\<close>

definition idle :: "nx_mem \<Rightarrow> nat \<Rightarrow> bool" where
  "idle m P \<longleftrightarrow> (\<forall>pool. nx_pools m P = Some pool \<longrightarrow> nx_packet_pool_suspension_list pool = [])"

text \<open>The state after a packet went to the head of the free list, and after it went to the
  waiting thread \<open>t\<close>.\<close>

definition freed :: "nat \<Rightarrow> nx_packet_pool \<Rightarrow> nat \<Rightarrow> nx_packet \<Rightarrow> nx_mem \<Rightarrow> nx_mem" where
  "freed P pool a pk m =
     put_packet a (pk\<lparr>nx_packet_tcp_queue_next := NX_PACKET_FREE,
                      nx_packet_queue_next := nx_packet_pool_available_list pool\<rparr>)
       (put_pool P (pool\<lparr>nx_packet_pool_available_list := a,
                         nx_packet_pool_available := ulong_add (nx_packet_pool_available pool) 1\<rparr>) m)"

definition handed :: "nat \<Rightarrow> nx_packet_pool \<Rightarrow> nat \<Rightarrow> nx_packet \<Rightarrow> nat \<Rightarrow> tx_thread \<Rightarrow> nx_mem \<Rightarrow> nx_mem" where
  "handed P pool a pk t th m =
     (put_thread t (th\<lparr>tx_thread_suspend_cleanup := TX_NO_CLEANUP, tx_thread_suspend_packet := a,
                       tx_thread_suspend_status := NX_SUCCESS\<rparr>)
        (put_packet a ((nx_packet_init (tx_thread_suspend_info th) pk)\<lparr>nx_packet_ip_version := 0\<rparr>)
          (put_pool P (pool\<lparr>nx_packet_pool_suspension_list := tl (nx_packet_pool_suspension_list pool),
                            nx_packet_pool_suspended_count := ulong_sub (nx_packet_pool_suspended_count pool) 1\<rparr>) m)))
       \<lparr>tx_thread_preempt_disable := ulong_add (tx_thread_preempt_disable m) 1,
        tx_calls := tx_calls m @ [Tx_thread_system_resume t]\<rparr>"

lemma put_back_cases:
  assumes "nx_pools m P = Some pool" "nx_packet_pool_owner pk = P"
  shows "nx_packet_put_back a pk m =
    (case nx_packet_pool_suspension_list pool of
       [] \<Rightarrow> Some (freed P pool a pk m)
     | t # rest \<Rightarrow> map_option (\<lambda>th. handed P pool a pk t th m) (tx_threads m t))"
proof (cases "nx_packet_pool_suspension_list pool")
  case Nil
  then show ?thesis
    using assms by (simp add: nx_packet_put_back_def freed_def put_pool_def put_packet_def)
next
  case (Cons t rest)
  then show ?thesis
    using assms
    by (cases "tx_threads m t")
      (simp_all add: nx_packet_put_back_def handed_def put_pool_def put_packet_def put_thread_def)
qed

lemma available_less_total:
  assumes "pool_inv m P fs" "nx_pools m P = Some pool" "nx_packets m a = Some pk"
    "nx_packet_pool_owner pk = P" "nx_packet_tcp_queue_next pk \<noteq> NX_PACKET_FREE"
  shows "Suc (nx_packet_pool_available pool) < ULONG_RANGE"
proof -
  have ar: "area_ok m P pool" using assms by (auto elim: pool_invE)
  have "a \<in> live_packets m P" using assms by (auto simp: live_packets_def)
  moreover have "live_packets m P \<subseteq> pool_packets m P" by (auto simp: live_packets_def pool_packets_def)
  then have "finite (live_packets m P)" using ar by (auto simp: area_ok_def intro: finite_subset)
  ultimately have "0 < card (live_packets m P)" by (auto simp: card_gt_0_iff)
  then show ?thesis
    using pool_inv_conservation [OF assms(1,2)] ar by (simp add: area_ok_def)
qed

lemma freed_inv:
  assumes inv: "pools_inv m F" and P: "nx_pools m P = Some pool"
    and pk: "nx_packets m a = Some pk" "nx_packet_pool_owner pk = P" "a \<noteq> NX_NULL"
    and live: "nx_packet_tcp_queue_next pk \<noteq> NX_PACKET_FREE"
    and nobody: "nx_packet_pool_suspension_list pool = []"
  shows "pools_inv (freed P pool a pk m) (F(P := a # F P))"
proof -
  have pinv: "pool_inv m P (F P)" by (rule pools_invD [OF inv P])
  then have fl: "free_list_ok m P pool (F P)" and wt: "waiting_ok m P pool" and ar: "area_ok m P pool"
    using P by (auto elim: pool_invE)
  have new: "a \<notin> set (F P)" using free_list_member [OF fl _ pk(1)] live by auto
  have av: "ulong_add (nx_packet_pool_available pool) 1 = Suc (nx_packet_pool_available pool)"
    using available_less_total [OF pinv P pk(1,2) live] by simp
  let ?pool = "pool\<lparr>nx_packet_pool_available_list := a,
                   nx_packet_pool_available := ulong_add (nx_packet_pool_available pool) 1\<rparr>"
  have "free_list_ok (freed P pool a pk m) P ?pool (a # F P)"
    using fl pk new av by (auto simp: free_list_ok_def freed_def)
  moreover have "waiting_ok (freed P pool a pk m) P ?pool"
    using wt nobody by (auto simp: waiting_ok_def freed_def)
  moreover have "area_ok (put_pool P ?pool m) P ?pool" using ar by (rule area_ok_cong) auto
  then have "area_ok (freed P pool a pk m) P ?pool"
    unfolding freed_def by (rule area_ok_put_packet) (use pk in auto)
  ultimately have "pool_inv (freed P pool a pk m) P (a # F P)"
    by (auto simp: pool_inv_def freed_def)
  then show ?thesis
    unfolding freed_def by (intro pools_inv_step [OF inv pk(1,2)]) (auto simp: pk(2))
qed

lemma pool_inv_put_thread:
  assumes "pool_inv m Q gs"
    and "\<And>pool. nx_pools m Q = Some pool \<Longrightarrow> t \<notin> set (nx_packet_pool_suspension_list pool)"
  shows "pool_inv (put_thread t th m) Q gs"
proof -
  obtain q where q: "nx_pools m Q = Some q" "free_list_ok m Q q gs" "waiting_ok m Q q" "area_ok m Q q"
    using assms(1) by (rule pool_invE)
  have "free_list_ok (put_thread t th m) Q q gs" using q(2) by (rule free_list_ok_cong) auto
  moreover have "waiting_ok (put_thread t th m) Q q"
    using q(3) by (rule waiting_ok_cong) (use assms(2) q(1) in auto)
  moreover have "area_ok (put_thread t th m) Q q" using q(4) by (rule area_ok_cong) auto
  ultimately show ?thesis using q(1) by (auto simp: pool_inv_def)
qed

lemma waiting_control_block:
  assumes "pools_inv m F" "nx_pools m Q = Some q" "t \<in> set (nx_packet_pool_suspension_list q)"
  shows "\<exists>th. tx_threads m t = Some th \<and> tx_thread_suspend_control_block th = Q \<and>
     tx_thread_suspend_cleanup th = NX_PACKET_POOL_CLEANUP \<and>
     tx_thread_suspend_info th \<le> nx_packet_pool_payload_size q"
proof -
  have "waiting_ok m Q q" using pools_invD [OF assms(1,2)] assms(2) by (auto elim: pool_invE)
  then show ?thesis using assms(3) by (auto simp: waiting_ok_def)
qed

lemma handed_inv:
  assumes inv: "pools_inv m F" and P: "nx_pools m P = Some pool"
    and pk: "nx_packets m a = Some pk" "nx_packet_pool_owner pk = P"
    and live: "nx_packet_tcp_queue_next pk \<noteq> NX_PACKET_FREE"
    and susp: "nx_packet_pool_suspension_list pool = t # rest"
    and th: "tx_threads m t = Some th"
  shows "pools_inv (handed P pool a pk t th m) F"
proof -
  have pinv: "pool_inv m P (F P)" by (rule pools_invD [OF inv P])
  then have fl: "free_list_ok m P pool (F P)" and wt: "waiting_ok m P pool" and ar: "area_ok m P pool"
    using P by (auto elim: pool_invE)
  let ?pool = "pool\<lparr>nx_packet_pool_suspension_list := tl (nx_packet_pool_suspension_list pool),
                   nx_packet_pool_suspended_count := ulong_sub (nx_packet_pool_suspended_count pool) 1\<rparr>"
  let ?pk = "(nx_packet_init (tx_thread_suspend_info th) pk)\<lparr>nx_packet_ip_version := 0\<rparr>"
  let ?m = "put_packet a ?pk (put_pool P ?pool m)"
  have "free_list_ok (put_pool P ?pool m) P ?pool (F P)" using fl by (rule free_list_ok_cong) auto
  then have "free_list_ok ?m P ?pool (F P)"
    by (rule free_list_ok_put_live) (use pk live in auto)
  moreover have "waiting_ok ?m P ?pool"
    using wt susp by (auto simp: waiting_ok_def)
  moreover have "area_ok (put_pool P ?pool m) P ?pool" using ar by (rule area_ok_cong) auto
  then have "area_ok ?m P ?pool" by (rule area_ok_put_packet) (use pk in auto)
  ultimately have "pool_inv ?m P (F P)" by (auto simp: pool_inv_def)
  then have "pools_inv ?m (F(P := F P))"
    by (intro pools_inv_step [OF inv pk]) (auto simp: pk)
  then have step: "pools_inv ?m F" by simp
  have gone: "t \<notin> set (nx_packet_pool_suspension_list q)" if "nx_pools ?m Q = Some q" for Q q
  proof (cases "Q = P")
    case True
    then show ?thesis using that wt susp by (auto simp: waiting_ok_def)
  next
    case False
    then have Q: "nx_pools m Q = Some q" using that by simp
    show ?thesis
    proof
      assume t: "t \<in> set (nx_packet_pool_suspension_list q)"
      have "tx_thread_suspend_control_block th = Q"
        using waiting_control_block [OF inv Q t] th by simp
      moreover have "tx_thread_suspend_control_block th = P"
        using waiting_control_block [OF inv P, of t] susp th by auto
      ultimately show False using False by simp
    qed
  qed
  have "pool_inv (put_thread t x ?m) Q (F Q)" if "Q \<in> dom (nx_pools ?m)" for x Q
    by (rule pool_inv_put_thread) (use step that gone in \<open>auto simp only: pools_inv_def\<close>)
  then have "pools_inv (put_thread t x ?m) F" for x
    unfolding pools_inv_def put_thread_simps by blast
  then show ?thesis by (simp add: handed_def)
qed

text \<open>Releasing one packet: the invariant, and what the step leaves alone.\<close>

lemma put_back_inv:
  assumes inv: "pools_inv m F" and al: "allocated m a" and pk: "nx_packets m a = Some pk"
  obtains m' F' where "nx_packet_put_back a pk m = Some m'" "pools_inv m' F'"
    "\<And>b. b \<noteq> a \<Longrightarrow> nx_packets m' b = nx_packets m b" "dom (nx_pools m') = dom (nx_pools m)"
    "idle m (nx_packet_pool_owner pk) \<Longrightarrow> F' = F(nx_packet_pool_owner pk := a # F (nx_packet_pool_owner pk))"
    "\<And>P. idle m P \<Longrightarrow> idle m' P"
proof -
  define P where "P = nx_packet_pool_owner pk"
  have a: "a \<noteq> NX_NULL" and live: "nx_packet_tcp_queue_next pk \<noteq> NX_PACKET_FREE"
    and "P \<in> dom (nx_pools m)"
    using al pk by (auto simp: allocated_def P_def)
  then obtain pool where P: "nx_pools m P = Some pool" by auto
  have own: "nx_packet_pool_owner pk = P" by (simp add: P_def)
  show thesis
  proof (cases "nx_packet_pool_suspension_list pool")
    case Nil
    have "nx_packet_put_back a pk m = Some (freed P pool a pk m)"
      using put_back_cases [OF P own] Nil by simp
    moreover have "pools_inv (freed P pool a pk m) (F(P := a # F P))"
      by (rule freed_inv [OF inv P pk own a live Nil])
    ultimately show thesis
      using P Nil own
      by (intro that [of "freed P pool a pk m" "F(P := a # F P)"])
        (auto simp: freed_def idle_def dom_def split: if_splits)
  next
    case (Cons t rest)
    obtain th where th: "tx_threads m t = Some th"
      using waiting_control_block [OF inv P, of t] Cons by auto
    have "nx_packet_put_back a pk m = Some (handed P pool a pk t th m)"
      using put_back_cases [OF P own] Cons th by simp
    moreover have "pools_inv (handed P pool a pk t th m) F"
      by (rule handed_inv [OF inv P pk own live Cons th])
    ultimately show thesis
      using P Cons own
      by (intro that [of "handed P pool a pk t th m" F])
        (auto simp: handed_def idle_def dom_def split: if_splits)
  qed
qed

text \<open>The free lists after a chain has gone back with no thread waiting: the packets of each
  pool in reverse order at the front.\<close>

fun released :: "nx_mem \<Rightarrow> (nat \<Rightarrow> nat list) \<Rightarrow> nat list \<Rightarrow> nat \<Rightarrow> nat list" where
  "released m F [] = F"
| "released m F (a # ps) =
     (case nx_packets m a of
        None \<Rightarrow> F
      | Some pk \<Rightarrow> released m (F(nx_packet_pool_owner pk := a # F (nx_packet_pool_owner pk))) ps)"

lemma released_cong:
  "(\<And>b. b \<in> set ps \<Longrightarrow> nx_packets m' b = nx_packets m b) \<Longrightarrow> released m' F ps = released m F ps"
  by (induction ps arbitrary: F) (auto split: option.splits)

definition owned_by :: "nx_mem \<Rightarrow> nat \<Rightarrow> nat \<Rightarrow> bool" where
  "owned_by m P a \<longleftrightarrow> (\<exists>pk. nx_packets m a = Some pk \<and> nx_packet_pool_owner pk = P)"

lemma released_at:
  "(\<And>a. a \<in> set ps \<Longrightarrow> nx_packets m a \<noteq> None) \<Longrightarrow>
     released m F ps P = rev (filter (owned_by m P) ps) @ F P"
proof (induction ps arbitrary: F)
  case (Cons a ps)
  then obtain pk where "nx_packets m a = Some pk" by fastforce
  then show ?case using Cons by (auto simp: owned_by_def)
qed simp

lemma nx_packet_release_chain:
  assumes "pools_inv m F" "chain m p ps" "distinct ps" "\<And>a. a \<in> set ps \<Longrightarrow> allocated m a"
  obtains m' F' where "nx_packet_release p m = Some (NX_SUCCESS, m')" "pools_inv m' F'"
    "\<And>b. b \<notin> set ps \<Longrightarrow> nx_packets m' b = nx_packets m b" "dom (nx_pools m') = dom (nx_pools m)"
    "(\<And>P. idle m P) \<Longrightarrow> F' = released m F ps" "\<And>P. idle m P \<Longrightarrow> idle m' P"
  using assms
proof (induction ps arbitrary: p m F thesis)
  case Nil
  then show ?case by (simp add: nx_packet_release.simps)
next
  case (Cons a ps)
  then obtain pk where pk: "nx_packets m a = Some pk" and p: "p = a" "a \<noteq> NX_NULL"
    and tl: "chain m (nx_packet_next pk) ps" and al: "allocated m a"
    by auto
  obtain m1 F1 where m1: "nx_packet_put_back a pk m = Some m1" "pools_inv m1 F1"
    "\<And>b. b \<noteq> a \<Longrightarrow> nx_packets m1 b = nx_packets m b" "dom (nx_pools m1) = dom (nx_pools m)"
    "idle m (nx_packet_pool_owner pk) \<Longrightarrow> F1 = F(nx_packet_pool_owner pk := a # F (nx_packet_pool_owner pk))"
    "\<And>P. idle m P \<Longrightarrow> idle m1 P"
    using put_back_inv [OF Cons.prems(2) al pk] by metis
  have same: "nx_packets m1 b = nx_packets m b" if "b \<in> set ps" for b
    using m1(3) [of b] Cons.prems(4) that by (cases "b = a") auto
  have "chain m1 (nx_packet_next pk) ps" using tl same linked_cong [of ps] by (metis (no_types))
  moreover have "allocated m1 b" if "b \<in> set ps" for b
    using Cons.prems(5) [of b] same [OF that] that m1(4) by (auto simp: allocated_def)
  ultimately obtain m' F' where m': "nx_packet_release (nx_packet_next pk) m1 = Some (NX_SUCCESS, m')"
    "pools_inv m' F'" "\<And>b. b \<notin> set ps \<Longrightarrow> nx_packets m' b = nx_packets m1 b"
    "dom (nx_pools m') = dom (nx_pools m1)" "(\<And>P. idle m1 P) \<Longrightarrow> F' = released m1 F1 ps"
    "\<And>P. idle m1 P \<Longrightarrow> idle m' P"
    using Cons.IH [OF _ m1(2)] Cons.prems(4) by (metis distinct.simps(2))
  have "nx_packet_release p m = Some (NX_SUCCESS, m')"
    using p pk al m1(1) m'(1) by (subst nx_packet_release.simps) (auto simp: allocated_def)
  moreover have "F' = released m F (a # ps)" if "\<And>P. idle m P"
    using that m'(5) m1(5,6) pk same by (simp add: released_cong [of ps m1 m])
  ultimately show ?case
    using Cons.prems(1) m' m1 by auto
qed

end
