(* ===== verification/Nx_Pool_Create.thy ===== *)
theory Nx_Pool_Create imports Nx_Pool_Inv begin

text \<open>
  \<open>nx_packet_pool_create\<close> cuts an area of memory into packets and builds a pool that
  satisfies the invariant of the pool operations.
\<close>

section \<open>The sizes\<close>

lemma nx_align_up_dvd [simp]: "4 dvd nx_align_up a"
  by (simp add: nx_align_up_def)

lemma nx_align_up_bounds: "a \<le> nx_align_up a \<and> nx_align_up a < a + 4"
  unfolding nx_align_up_def by presburger

lemma nx_align_up_add_multiple: "4 dvd a \<Longrightarrow> nx_align_up (a + k) = a + nx_align_up k"
  unfolding nx_align_up_def by presburger

lemma nx_pool_header_size_eq [simp]: "nx_pool_header_size pool_start = SIZEOF_NX_PACKET"
proof -
  have "nx_align_up (nx_pool_rounded_start pool_start + 60) = nx_pool_rounded_start pool_start + 60"
    by (subst nx_align_up_add_multiple) (simp_all add: nx_pool_rounded_start_def nx_align_up_def)
  then show ?thesis by (simp add: nx_pool_header_size_def)
qed

text \<open>Away from the wrap, the rounded payload is the payload rounded up to the alignment.\<close>

lemma nx_pool_rounded_payload_eq:
  assumes "payload_size + 63 < ULONG_RANGE"
  shows "nx_pool_rounded_payload SIZEOF_NX_PACKET payload_size = nx_align_up payload_size"
proof -
  have e: "(60 + payload_size + 3) div 4 * 4 = 60 + nx_align_up payload_size"
    unfolding nx_align_up_def by presburger
  then show ?thesis
    using assms nx_align_up_bounds [of payload_size] by (simp add: nx_pool_rounded_payload_def)
qed

definition pool_stride :: "nat \<Rightarrow> nat" where
  "pool_stride payload_size = nx_align_up payload_size + SIZEOF_NX_PACKET"

definition pool_addresses :: "nat \<Rightarrow> nat \<Rightarrow> nat \<Rightarrow> nat list" where
  "pool_addresses start stride n = map (\<lambda>i. start + i * stride) [0..<n]"

lemma pool_addresses_Suc:
  "pool_addresses start stride (Suc n) = start # pool_addresses (start + stride) stride n"
proof -
  have "[0..<Suc n] = 0 # map Suc [0..<n]" by (simp add: upt_conv_Cons map_Suc_upt del: upt_Suc)
  then show ?thesis by (simp add: pool_addresses_def comp_def add.assoc del: upt_Suc)
qed

lemma set_pool_addresses: "a \<in> set (pool_addresses start stride n) \<longleftrightarrow> (\<exists>i<n. a = start + i * stride)"
  by (auto simp: pool_addresses_def)

lemma distinct_pool_addresses: "0 < stride \<Longrightarrow> distinct (pool_addresses start stride n)"
  by (auto simp: pool_addresses_def distinct_map inj_on_def)

lemma length_pool_addresses [simp]: "length (pool_addresses start stride n) = n"
  by (simp add: pool_addresses_def)

section \<open>The walk\<close>

primrec walked :: "(nat \<Rightarrow> nx_packet) \<Rightarrow> nat \<Rightarrow> nat \<Rightarrow> nat \<Rightarrow> nat \<Rightarrow> nat \<Rightarrow> nx_mem \<Rightarrow> nx_mem" where
  "walked raw P payload stride 0 p m = m"
| "walked raw P payload stride (Suc n) p m =
     walked raw P payload stride n (p + stride)
       (put_packet p (nx_pool_header P SIZEOF_NX_PACKET payload p (p + stride) (raw p)) m)"

lemma nx_pool_walk_eq:
  assumes "p + n * stride \<le> end_of_pool" "end_of_pool < p + Suc n * stride" "packets + n < ULONG_RANGE"
  shows "nx_pool_walk raw P SIZEOF_NX_PACKET payload stride end_of_pool p packets m =
    Some (p + n * stride, packets + n, walked raw P payload stride n p m)"
  using assms
proof (induction n arbitrary: p packets m)
  case 0
  then show ?case by (subst nx_pool_walk.simps) simp
next
  case (Suc n)
  have "p + stride \<le> end_of_pool" using Suc.prems(1) by simp
  then show ?case
    using Suc.IH [of "p + stride" "packets + 1"] Suc.prems
    by (subst nx_pool_walk.simps) (simp add: add.assoc add.left_commute)
qed

lemma walked_frame:
  "nx_pools (walked raw P payload stride n p m) = nx_pools m \<and>
   tx_threads (walked raw P payload stride n p m) = tx_threads m \<and>
   nx_memory (walked raw P payload stride n p m) = nx_memory m"
  by (induction n arbitrary: p m) auto

lemma walked_packets:
  assumes "0 < stride"
  shows "nx_packets (walked raw P payload stride n p m) a =
    (if a \<in> set (pool_addresses p stride n)
     then Some (nx_pool_header P SIZEOF_NX_PACKET payload a (a + stride) (raw a))
     else nx_packets m a)"
proof (induction n arbitrary: p m)
  case 0
  then show ?case by (simp add: pool_addresses_def)
next
  case (Suc n)
  have "p \<notin> set (pool_addresses (p + stride) stride n)"
    using assms by (auto simp: set_pool_addresses)
  then show ?case using Suc.IH by (simp add: pool_addresses_Suc)
qed

lemma linked_pool_addresses:
  assumes "p \<noteq> NX_NULL"
    and "\<And>i. i < n \<Longrightarrow> \<exists>pk. h (p + i * stride) = Some pk \<and>
           link pk = (if Suc i = n then NX_NULL else p + Suc i * stride)"
  shows "linked link h (if n = 0 then NX_NULL else p) (pool_addresses p stride n)"
  using assms
proof (induction n arbitrary: p)
  case 0
  then show ?case by (simp add: pool_addresses_def)
next
  case (Suc n)
  obtain pk where pk: "h p = Some pk" "link pk = (if n = 0 then NX_NULL else p + stride)"
    using Suc.prems(2) [of 0] by auto
  have "linked link h (if n = 0 then NX_NULL else p + stride) (pool_addresses (p + stride) stride n)"
  proof (rule Suc.IH)
    show "\<exists>pk. h (p + stride + i * stride) = Some pk \<and>
        link pk = (if Suc i = n then NX_NULL else p + stride + Suc i * stride)" if "i < n" for i
      using Suc.prems(2) [of "Suc i"] that by (cases "n = Suc i") (simp_all add: add.assoc)
  qed (use Suc.prems(1) in simp)
  then show ?case using pk Suc.prems(1) by (simp add: pool_addresses_Suc)
qed

section \<open>The new pool\<close>

text \<open>What the caller hands over: an area of fresh memory that holds at least one packet and
  does not wrap, and an unused control block.\<close>

definition pool_area :: "nat \<Rightarrow> nat \<Rightarrow> nat \<Rightarrow> nat \<Rightarrow> nx_mem \<Rightarrow> bool" where
  "pool_area P payload_size pool_start pool_size m \<longleftrightarrow>
     P \<noteq> NX_NULL \<and> P \<notin> dom (nx_pools m) \<and> pool_packets m P = {} \<and>
     0 < pool_start \<and> payload_size + 63 < ULONG_RANGE \<and>
     pool_start + pool_size < ULONG_RANGE \<and>
     nx_pool_rounded_start pool_start \<le> pool_start + pool_size \<and>
     pool_stride payload_size \<le> nx_pool_rounded_size pool_start pool_size \<and>
     (\<forall>a. pool_start \<le> a \<longrightarrow> a < pool_start + pool_size \<longrightarrow> nx_packets m a = None)"

definition pool_count :: "nat \<Rightarrow> nat \<Rightarrow> nat \<Rightarrow> nat" where
  "pool_count payload_size pool_start pool_size =
     nx_pool_rounded_size pool_start pool_size div pool_stride payload_size"

definition created_addresses :: "nat \<Rightarrow> nat \<Rightarrow> nat \<Rightarrow> nat list" where
  "created_addresses payload_size pool_start pool_size =
     pool_addresses (nx_pool_rounded_start pool_start) (pool_stride payload_size)
       (pool_count payload_size pool_start pool_size)"

lemma pool_stride_pos [simp]: "0 < pool_stride payload_size"
  by (simp add: pool_stride_def)

lemma created_in_area:
  assumes area: "pool_area P payload_size pool_start pool_size m"
    and a: "a \<in> set (created_addresses payload_size pool_start pool_size)"
  shows "pool_start \<le> a" "a + pool_stride payload_size \<le> pool_start + pool_size"
proof -
  let ?start = "nx_pool_rounded_start pool_start" and ?stride = "pool_stride payload_size"
  let ?size = "nx_pool_rounded_size pool_start pool_size"
  have start: "pool_start \<le> ?start"
    using nx_align_up_bounds by (simp add: nx_pool_rounded_start_def)
  have "?size \<le> ulong_sub pool_size (?start - pool_start)"
    unfolding nx_pool_rounded_size_def by (rule div_times_less_eq_dividend)
  also have "\<dots> = pool_size - (?start - pool_start)"
    using area start by (intro ulong_sub_exact) (auto simp: pool_area_def)
  finally have size: "?start + ?size \<le> pool_start + pool_size"
    using area start by (auto simp: pool_area_def)
  obtain i where i: "i < pool_count payload_size pool_start pool_size" "a = ?start + i * ?stride"
    using a by (auto simp: created_addresses_def set_pool_addresses)
  have "Suc i * ?stride \<le> ?size div ?stride * ?stride"
    using i(1) by (intro mult_le_mono1) (simp add: pool_count_def)
  also have "\<dots> \<le> ?size" by simp
  finally have "a + ?stride \<le> ?start + ?size" using i(2) by simp
  then show "a + ?stride \<le> pool_start + pool_size" using size by simp
  show "pool_start \<le> a" using start i(2) by simp
qed

text \<open>The headers after the walk and the closing of the free list.\<close>

definition created_header :: "(nat \<Rightarrow> nx_packet) \<Rightarrow> nat \<Rightarrow> nat \<Rightarrow> nat \<Rightarrow> nat \<Rightarrow> nat \<Rightarrow> nx_packet" where
  "created_header raw P payload_size pool_start pool_size a =
     (nx_pool_header P SIZEOF_NX_PACKET payload_size a (a + pool_stride payload_size) (raw a))
       \<lparr>nx_packet_queue_next :=
          (if a = last (created_addresses payload_size pool_start pool_size) then NX_NULL
           else a + pool_stride payload_size)\<rparr>"

definition created_pool :: "nat \<Rightarrow> nat \<Rightarrow> nat \<Rightarrow> nat \<Rightarrow> nx_packet_pool" where
  "created_pool name payload_size pool_start pool_size =
     \<lparr>nx_packet_pool_id = NX_PACKET_POOL_ID, nx_packet_pool_name = name,
      nx_packet_pool_available = pool_count payload_size pool_start pool_size,
      nx_packet_pool_total = pool_count payload_size pool_start pool_size,
      nx_packet_pool_empty_requests = 0, nx_packet_pool_empty_suspensions = 0,
      nx_packet_pool_invalid_releases = 0,
      nx_packet_pool_available_list = nx_pool_rounded_start pool_start,
      nx_packet_pool_start = nx_pool_rounded_start pool_start,
      nx_packet_pool_size = nx_pool_rounded_size pool_start pool_size,
      nx_packet_pool_payload_size = payload_size,
      nx_packet_pool_suspension_list = [], nx_packet_pool_suspended_count = 0\<rparr>"

lemma pool_count_pos:
  assumes "pool_area P payload_size pool_start pool_size m"
  shows "0 < pool_count payload_size pool_start pool_size"
    and "pool_count payload_size pool_start pool_size < ULONG_RANGE"
proof -
  show "0 < pool_count payload_size pool_start pool_size"
    using assms by (auto simp: pool_area_def pool_count_def div_greater_zero_iff)
  have "pool_count payload_size pool_start pool_size \<le> nx_pool_rounded_size pool_start pool_size"
    by (simp add: pool_count_def)
  also have "\<dots> < ULONG_RANGE"
    unfolding nx_pool_rounded_size_def
    by (rule le_less_trans [OF div_times_less_eq_dividend]) simp
  finally show "pool_count payload_size pool_start pool_size < ULONG_RANGE" .
qed

lemma last_created_address:
  assumes "pool_area P payload_size pool_start pool_size m"
  shows "last (created_addresses payload_size pool_start pool_size) =
    nx_pool_rounded_start pool_start +
      (pool_count payload_size pool_start pool_size - 1) * pool_stride payload_size"
proof -
  have "created_addresses payload_size pool_start pool_size \<noteq> []"
    using pool_count_pos [OF assms] by (auto simp: created_addresses_def pool_addresses_def)
  then show ?thesis
    using pool_count_pos [OF assms]
    by (simp add: last_conv_nth created_addresses_def pool_addresses_def)
qed

lemma nx_packet_pool_create_eq:
  assumes area: "pool_area P payload_size pool_start pool_size m"
  obtains m' where
    "nx_packet_pool_create raw P name payload_size pool_start pool_size m = Some (NX_SUCCESS, m')"
    "nx_pools m' = (nx_pools m)(P \<mapsto> created_pool name payload_size pool_start pool_size)"
    "tx_threads m' = tx_threads m" "nx_memory m' = nx_memory m"
    "\<And>a. nx_packets m' a =
       (if a \<in> set (created_addresses payload_size pool_start pool_size)
        then Some (created_header raw P payload_size pool_start pool_size a) else nx_packets m a)"
proof -
  let ?start = "nx_pool_rounded_start pool_start" and ?stride = "pool_stride payload_size"
  let ?size = "nx_pool_rounded_size pool_start pool_size"
  define n where "n = pool_count payload_size pool_start pool_size"
  have n: "0 < n" "n < ULONG_RANGE" using pool_count_pos [OF area] by (simp_all add: n_def)
  have stride_fit: "?stride < ULONG_RANGE" and pay: "payload_size + 63 < ULONG_RANGE"
    using area nx_align_up_bounds [of payload_size]
    by (auto simp: pool_area_def pool_stride_def)
  then have stride: "ulong_add (nx_pool_rounded_payload SIZEOF_NX_PACKET payload_size) SIZEOF_NX_PACKET = ?stride"
    by (simp add: nx_pool_rounded_payload_eq pool_stride_def)
  have d: "n * ?stride \<le> ?size" "?size < Suc n * ?stride"
    unfolding n_def pool_count_def by (simp_all add: dividend_less_div_times)
  define m1 where "m1 = walked raw P payload_size ?stride n ?start m"
  have walk: "nx_pool_walk raw P SIZEOF_NX_PACKET payload_size ?stride (?start + ?size) ?start 0 m =
      Some (?start + n * ?stride, n, m1)"
    using nx_pool_walk_eq [of ?start n ?stride "?start + ?size" 0 raw P payload_size m] d n
    by (simp add: m1_def)
  define z where "z = ?start + (n - 1) * ?stride"
  have z: "?start + n * ?stride - ?stride = z" "z \<in> set (pool_addresses ?start ?stride n)"
    using n by (auto simp: z_def set_pool_addresses diff_mult_distrib intro: exI [of _ "n - 1"])
  have zlast: "z = last (created_addresses payload_size pool_start pool_size)"
    using last_created_address [OF area] by (simp add: z_def n_def)
  have m1: "nx_packets m1 a = (if a \<in> set (pool_addresses ?start ?stride n)
      then Some (nx_pool_header P SIZEOF_NX_PACKET payload_size a (a + ?stride) (raw a))
      else nx_packets m a)" for a
    unfolding m1_def by (rule walked_packets) simp
  define m2 where "m2 = put_packet z
    ((nx_pool_header P SIZEOF_NX_PACKET payload_size z (z + ?stride) (raw z))\<lparr>nx_packet_queue_next := NX_NULL\<rparr>) m1"
  define m' where "m' = (put_pool P (created_pool name payload_size pool_start pool_size) m2)
     \<lparr>nx_packet_pool_created := ring_append (nx_packet_pool_created m2) P,
      nx_packet_pool_created_count := ulong_add (nx_packet_pool_created_count m2) 1\<rparr>"
  show thesis
  proof (rule that [of m'])
    show "nx_packet_pool_create raw P name payload_size pool_start pool_size m = Some (NX_SUCCESS, m')"
      using walk stride z m1 [of z]
      by (simp add: nx_packet_pool_create_def Let_def m'_def m2_def created_pool_def n_def [symmetric]
                    add.commute [of _ ?start])
    show "nx_packets m' a =
       (if a \<in> set (created_addresses payload_size pool_start pool_size)
        then Some (created_header raw P payload_size pool_start pool_size a) else nx_packets m a)" for a
      using z(2) zlast m1
      by (auto simp: m'_def m2_def created_header_def created_addresses_def n_def [symmetric]
                     nx_pool_header_def)
  qed (use walked_frame [of raw P payload_size ?stride n ?start m] in
        \<open>auto simp: m'_def m2_def m1_def\<close>)
qed

section \<open>The invariant\<close>

text \<open>Headers that appear at unused addresses with another owner leave a pool as it is.\<close>

lemma pool_inv_more_packets:
  assumes inv: "pool_inv m Q gs"
    and old: "\<And>a pk. nx_packets m a = Some pk \<Longrightarrow> nx_packets m' a = Some pk"
    and new: "\<And>a pk. nx_packets m a = None \<Longrightarrow> nx_packets m' a = Some pk \<Longrightarrow> nx_packet_pool_owner pk \<noteq> Q"
    and same: "nx_pools m' Q = nx_pools m Q" "tx_threads m' = tx_threads m"
  shows "pool_inv m' Q gs"
proof -
  obtain q where q: "nx_pools m Q = Some q" "free_list_ok m Q q gs" "waiting_ok m Q q" "area_ok m Q q"
    using inv by (rule pool_invE)
  have mine: "(nx_packets m' a = Some pk \<and> nx_packet_pool_owner pk = Q) \<longleftrightarrow>
      (nx_packets m a = Some pk \<and> nx_packet_pool_owner pk = Q)" for a pk
    using old [of a] new [of a] by (cases "nx_packets m a") auto
  have "queue m' (nx_packet_pool_available_list q) gs \<longleftrightarrow> queue m (nx_packet_pool_available_list q) gs"
    using q(2) old by (intro linked_cong) (auto simp: free_list_ok_def)
  then have "free_list_ok m' Q q gs"
    using q(2) mine unfolding free_list_ok_def by (metis (no_types, lifting))
  moreover have "waiting_ok m' Q q" using q(3) same(2) by (simp add: waiting_ok_def)
  moreover have "pool_packets m' Q = pool_packets m Q" using mine by (auto simp: pool_packets_def)
  then have "area_ok m' Q q" using q(4) mine unfolding area_ok_def by metis
  ultimately show ?thesis using q(1) same(1) by (auto simp: pool_inv_def)
qed

lemma created_header_simps [simp]:
  "nx_packet_pool_owner (created_header raw P n s z a) = P"
  "nx_packet_tcp_queue_next (created_header raw P n s z a) = NX_PACKET_FREE"
  "nx_packet_data_start (created_header raw P n s z a) = a + SIZEOF_NX_PACKET"
  "nx_packet_data_end (created_header raw P n s z a) = a + SIZEOF_NX_PACKET + n"
  by (simp_all add: created_header_def nx_pool_header_def)

lemma created_slot_ok:
  assumes area: "pool_area P payload_size pool_start pool_size m"
    and a: "a \<in> set (created_addresses payload_size pool_start pool_size)"
  shows "slot_ok payload_size (created_header raw P payload_size pool_start pool_size a)"
    and "a + SIZEOF_NX_PACKET + payload_size \<le> a + pool_stride payload_size"
proof -
  show "a + SIZEOF_NX_PACKET + payload_size \<le> a + pool_stride payload_size"
    using nx_align_up_bounds [of payload_size] by (simp add: pool_stride_def)
  then show "slot_ok payload_size (created_header raw P payload_size pool_start pool_size a)"
    using created_in_area [OF area a] area by (simp add: slot_ok_def pool_area_def)
qed

lemma created_addresses_distinct [simp]: "distinct (created_addresses n s z)"
  by (simp add: created_addresses_def distinct_pool_addresses)

lemma created_addresses_length [simp]: "length (created_addresses n s z) = pool_count n s z"
  by (simp add: created_addresses_def)

lemma created_queue:
  assumes area: "pool_area P payload_size pool_start pool_size m"
    and packets: "\<And>a. a \<in> set (created_addresses payload_size pool_start pool_size) \<Longrightarrow>
       nx_packets m' a = Some (created_header raw P payload_size pool_start pool_size a)"
  shows "queue m' (nx_pool_rounded_start pool_start) (created_addresses payload_size pool_start pool_size)"
proof -
  let ?start = "nx_pool_rounded_start pool_start" and ?stride = "pool_stride payload_size"
  let ?n = "pool_count payload_size pool_start pool_size"
  have n: "0 < ?n" by (rule pool_count_pos [OF area])
  have "?start \<noteq> NX_NULL"
    using nx_align_up_bounds [of pool_start] area by (simp add: nx_pool_rounded_start_def pool_area_def)
  moreover have "\<exists>pk. nx_packets m' (?start + i * ?stride) = Some pk \<and>
      nx_packet_queue_next pk = (if Suc i = ?n then NX_NULL else ?start + Suc i * ?stride)"
    if i: "i < ?n" for i
  proof -
    have "?start + i * ?stride \<in> set (created_addresses payload_size pool_start pool_size)"
      using i by (auto simp: created_addresses_def set_pool_addresses)
    moreover have "?start + i * ?stride = last (created_addresses payload_size pool_start pool_size)
        \<longleftrightarrow> Suc i = ?n"
      using last_created_address [OF area] n i pool_stride_pos [of payload_size]
      by (auto simp del: pool_stride_pos)
    ultimately show ?thesis using packets by (auto simp: created_header_def)
  qed
  ultimately show ?thesis
    using n linked_pool_addresses [of ?start ?n "nx_packets m'" ?stride nx_packet_queue_next]
    by (simp add: created_addresses_def)
qed

lemma created_inv:
  assumes inv: "pools_inv m F" and area: "pool_area P payload_size pool_start pool_size m"
    and pools: "nx_pools m' = (nx_pools m)(P \<mapsto> created_pool name payload_size pool_start pool_size)"
    and threads: "tx_threads m' = tx_threads m"
    and packets: "\<And>a. nx_packets m' a =
       (if a \<in> set (created_addresses payload_size pool_start pool_size)
        then Some (created_header raw P payload_size pool_start pool_size a) else nx_packets m a)"
  shows "pools_inv m' (F(P := created_addresses payload_size pool_start pool_size))"
  unfolding pools_inv_def
proof
  let ?as = "created_addresses payload_size pool_start pool_size"
  let ?pool = "created_pool name payload_size pool_start pool_size"
  have unused: "nx_packets m a = None" if "a \<in> set ?as" for a
  proof -
    have "a < pool_start + pool_size"
      using created_in_area(2) [OF area that] pool_stride_pos [of payload_size] by linarith
    then show ?thesis using created_in_area(1) [OF area that] area by (simp add: pool_area_def)
  qed
  have none: "nx_packets m a = Some pk \<Longrightarrow> nx_packet_pool_owner pk \<noteq> P" for a pk
    using area by (auto simp: pool_area_def pool_packets_def)
  fix Q assume Q: "Q \<in> dom (nx_pools m')"
  show "pool_inv m' Q ((F(P := ?as)) Q)"
  proof (cases "Q = P")
    case True
    have mine: "pool_packets m' P = set ?as" using packets none by (auto simp: pool_packets_def)
    have "free_list_ok m' P ?pool ?as"
      using created_queue [OF area, of m' raw] packets none
      by (auto simp: free_list_ok_def created_pool_def)
    moreover have "waiting_ok m' P ?pool" by (simp add: waiting_ok_def created_pool_def)
    moreover have "area_ok m' P ?pool"
      using mine packets none pool_count_pos [OF area] area created_slot_ok [OF area]
      by (auto simp: area_ok_def created_pool_def distinct_card pool_area_def)
    ultimately show ?thesis using True pools by (auto simp: pool_inv_def)
  next
    case False
    then have "pool_inv m Q (F Q)" using inv Q pools by (auto simp: pools_inv_def)
    then have "pool_inv m' Q (F Q)"
      by (rule pool_inv_more_packets) (use False packets unused pools threads in \<open>auto split: if_splits\<close>)
    then show ?thesis using False by simp
  qed
qed

text \<open>The new payload areas overlap neither each other nor the old ones, when the old ones lie
  outside the area that was handed over.\<close>

lemma created_separate:
  assumes sep: "payloads_separate m" and area: "pool_area P payload_size pool_start pool_size m"
    and old: "\<And>a pk. nx_packets m a = Some pk \<Longrightarrow>
       nx_packet_data_end pk \<le> pool_start \<or> pool_start + pool_size \<le> nx_packet_data_start pk"
    and packets: "\<And>a. nx_packets m' a =
       (if a \<in> set (created_addresses payload_size pool_start pool_size)
        then Some (created_header raw P payload_size pool_start pool_size a) else nx_packets m a)"
  shows "payloads_separate m'"
proof -
  let ?as = "created_addresses payload_size pool_start pool_size"
  let ?h = "created_header raw P payload_size pool_start pool_size"
  have two: "separate (?h a) (?h b)" if ab: "a \<in> set ?as" "b \<in> set ?as" "a \<noteq> b" for a b
  proof -
    obtain i j where ij: "a = nx_pool_rounded_start pool_start + i * pool_stride payload_size"
      "b = nx_pool_rounded_start pool_start + j * pool_stride payload_size"
      using ab(1,2) unfolding created_addresses_def set_pool_addresses by blast
    have "i < j \<or> j < i" using ij ab(3) by (metis nat_neq_iff)
    then have "Suc i * pool_stride payload_size \<le> j * pool_stride payload_size \<or>
        Suc j * pool_stride payload_size \<le> i * pool_stride payload_size"
      by (auto intro: mult_le_mono1 simp del: mult_Suc)
    then have "a + pool_stride payload_size \<le> b \<or> b + pool_stride payload_size \<le> a"
      unfolding ij by auto
    then show ?thesis
      using created_slot_ok(2) [OF area ab(1)] created_slot_ok(2) [OF area ab(2)]
      by (auto simp: separate_def)
  qed
  have mixed: "separate (?h a) pk \<and> separate pk (?h a)"
    if a: "a \<in> set ?as" and pk: "nx_packets m b = Some pk" for a b pk
    using created_in_area [OF area a] created_slot_ok(2) [OF area a] old [OF pk]
    by (auto simp: separate_def)
  show ?thesis
    using sep two mixed packets by (auto simp: payloads_separate_def split: if_splits)
qed

end
