(* ===== verification/Nx_Pool_Steps.thy ===== *)
theory Nx_Pool_Steps imports Nx_Pool_Create begin

text \<open>
  Threads that wait for a packet, and the pool operations as steps of a system: a step is one
  critical section of the C code (an allocation that succeeds or is refused, a thread that
  starts to wait, a release, a timeout) or a client's work on a packet it holds. The
  invariant of \<open>Nx_Pool_Inv\<close> holds in every reachable state.
\<close>

section \<open>Starting to wait\<close>

definition waiting :: "nx_mem \<Rightarrow> nat \<Rightarrow> bool" where
  "waiting m t \<longleftrightarrow> (\<exists>P pool. nx_pools m P = Some pool \<and> t \<in> set (nx_packet_pool_suspension_list pool))"

lemma pools_inv_threads_step:
  assumes inv: "pools_inv m F" and P: "nx_pools m P = Some pool"
    and av: "nx_packet_pool_available pool' = nx_packet_pool_available pool"
      "nx_packet_pool_available_list pool' = nx_packet_pool_available_list pool"
    and area: "nx_packet_pool_payload_size pool' = nx_packet_pool_payload_size pool"
      "nx_packet_pool_total pool' = nx_packet_pool_total pool"
      "nx_packet_pool_id pool' = nx_packet_pool_id pool"
    and others: "\<And>Q q. Q \<noteq> P \<Longrightarrow> nx_pools m Q = Some q \<Longrightarrow> t \<notin> set (nx_packet_pool_suspension_list q)"
    and wait: "waiting_ok (put_thread t th (put_pool P pool' m)) P pool'"
  shows "pools_inv (put_thread t th (put_pool P pool' m)) F"
  unfolding pools_inv_def
proof
  let ?m = "put_thread t th (put_pool P pool' m)"
  fix Q assume Q: "Q \<in> dom (nx_pools ?m)"
  show "pool_inv ?m Q (F Q)"
  proof (cases "Q = P")
    case True
    have pinv: "free_list_ok m P pool (F P)" "area_ok m P pool"
      using pools_invD [OF inv P] P by (auto elim: pool_invE)
    have "free_list_ok ?m P pool' (F P)" using pinv(1) by (rule free_list_ok_cong) (use av in auto)
    moreover have "area_ok ?m P pool'" using pinv(2) by (rule area_ok_cong) (use area in auto)
    ultimately show ?thesis using wait True by (auto simp: pool_inv_def)
  next
    case False
    then obtain q where q: "nx_pools m Q = Some q" using Q by auto
    then obtain q' where q': "nx_pools m Q = Some q'" "free_list_ok m Q q' (F Q)" "waiting_ok m Q q'" "area_ok m Q q'"
      using pools_invD [OF inv q] by (auto elim: pool_invE)
    have "free_list_ok ?m Q q' (F Q)" using q'(2) by (rule free_list_ok_cong) auto
    moreover have "waiting_ok ?m Q q'"
      using q'(3) by (rule waiting_ok_cong) (use others [OF False q'(1)] in auto)
    moreover have "area_ok ?m Q q'" using q'(4) by (rule area_ok_cong) auto
    ultimately show ?thesis using q'(1) False by (auto simp: pool_inv_def)
  qed
qed

lemma nx_packet_pool_suspend_inv:
  assumes inv: "pools_inv m F" and P: "nx_pools m P = Some pool"
    and same: "pool' = pool\<lparr>nx_packet_pool_empty_requests := n\<rparr>"
    and empty: "nx_packet_pool_available pool = 0"
    and type: "packet_type \<le> nx_packet_pool_payload_size pool"
    and fresh: "\<not> waiting m (tx_thread_current_ptr m)"
    and fits: "Suc (length (nx_packet_pool_suspension_list pool)) < ULONG_RANGE"
    and step: "nx_packet_pool_suspend P pool' packet_type w m = Some (t, m')"
  shows "pools_inv m' F"
proof -
  obtain th where th: "tx_threads m (tx_thread_current_ptr m) = Some th" and t: "t = tx_thread_current_ptr m"
    using step by (auto simp: nx_packet_pool_suspend_def Let_def split: bind_splits)
  define p where "p = pool'\<lparr>nx_packet_pool_empty_suspensions := ulong_add (nx_packet_pool_empty_suspensions pool') 1,
     nx_packet_pool_suspension_list := ring_append (nx_packet_pool_suspension_list pool') t,
     nx_packet_pool_suspended_count := ulong_add (nx_packet_pool_suspended_count pool') 1\<rparr>"
  define h where "h = th\<lparr>tx_thread_suspend_cleanup := NX_PACKET_POOL_CLEANUP,
     tx_thread_suspend_control_block := P, tx_thread_suspend_packet := NX_NULL,
     tx_thread_suspend_info := packet_type, tx_thread_state := TX_TCP_IP,
     tx_thread_suspending := True, tx_thread_remaining_ticks := w\<rparr>"
  have m': "m' = (put_thread t h (put_pool P p m))
      \<lparr>tx_thread_preempt_disable := ulong_add (tx_thread_preempt_disable m) 1\<rparr>"
    using step th t by (simp add: nx_packet_pool_suspend_def p_def h_def Let_def)
  have wt: "waiting_ok m P pool" using pools_invD [OF inv P] P by (auto elim: pool_invE)
  have gone: "t \<notin> set (nx_packet_pool_suspension_list q)" if "nx_pools m Q = Some q" for Q q
    using fresh that t by (auto simp: waiting_def)
  have "pools_inv (put_thread t h (put_pool P p m)) F"
  proof (rule pools_inv_threads_step [OF inv P])
    show "waiting_ok (put_thread t h (put_pool P p m)) P p"
      using wt gone [OF P] type empty fits same
      by (auto simp: waiting_ok_def p_def h_def)
  qed (use gone same in \<open>auto simp: p_def\<close>)
  then show ?thesis unfolding m' by simp
qed

section \<open>Timeout\<close>

text \<open>The state after a waiting thread was taken off its pool's list.\<close>

lemma nx_packet_pool_cleanup_inv:
  assumes inv: "pools_inv m F" and P: "nx_pools m P = Some pool"
    and t: "t \<in> set (nx_packet_pool_suspension_list pool)"
  obtains m' th th' where "nx_packet_pool_cleanup t m = Some m'" "pools_inv m' F"
    "nx_packets m' = nx_packets m" "nx_memory m' = nx_memory m"
    "nx_pools m' = (nx_pools m)(P \<mapsto> pool\<lparr>
       nx_packet_pool_suspension_list := remove1 t (nx_packet_pool_suspension_list pool),
       nx_packet_pool_suspended_count := nx_packet_pool_suspended_count pool - 1\<rparr>)"
    "tx_threads m t = Some th" "tx_threads m' = (tx_threads m)(t \<mapsto> th')"
    "tx_thread_suspend_cleanup th' = TX_NO_CLEANUP"
    "tx_thread_state th = TX_TCP_IP \<Longrightarrow> tx_thread_suspend_status th' = NX_NO_PACKET \<and>
       tx_calls m' = tx_calls m @ [Tx_thread_system_resume t]"
    "tx_thread_state th \<noteq> TX_TCP_IP \<Longrightarrow> tx_calls m' = tx_calls m"
proof -
  have wt: "waiting_ok m P pool" and ar: "area_ok m P pool"
    using pools_invD [OF inv P] P by (auto elim: pool_invE)
  obtain th where th: "tx_threads m t = Some th" "tx_thread_suspend_control_block th = P"
    "tx_thread_suspend_cleanup th = NX_PACKET_POOL_CLEANUP"
    using waiting_control_block [OF inv P t] by auto
  define p where "p = pool\<lparr>
     nx_packet_pool_suspension_list := ring_remove t (nx_packet_pool_suspension_list pool),
     nx_packet_pool_suspended_count := ulong_sub (nx_packet_pool_suspended_count pool) 1\<rparr>"
  have count: "0 < nx_packet_pool_suspended_count pool" "nx_packet_pool_suspended_count pool < ULONG_RANGE"
    using wt t by (auto simp: waiting_ok_def dest: length_pos_if_in_set)
  have wait: "waiting_ok (put_thread t h (put_pool P p m)) P p" for h
    using wt t count by (auto simp: waiting_ok_def p_def length_pos_if_in_set Suc_leI)
  have others: "t \<notin> set (nx_packet_pool_suspension_list q)" if "Q \<noteq> P" "nx_pools m Q = Some q" for Q q
    using waiting_control_block [OF inv that(2), of t] th that(1) by auto
  have step: "pools_inv (put_thread t h (put_pool P p m)) F" for h
    by (rule pools_inv_threads_step [OF inv P]) (use wait others in \<open>auto simp: p_def\<close>)
  define h where "h = th\<lparr>tx_thread_suspend_cleanup := TX_NO_CLEANUP,
     tx_thread_suspend_status := (if tx_thread_state th = TX_TCP_IP then NX_NO_PACKET
                                  else tx_thread_suspend_status th)\<rparr>"
  define m' where "m' = (if tx_thread_state th = TX_TCP_IP
     then (put_thread t h (put_pool P p m))
            \<lparr>tx_thread_preempt_disable := ulong_add (tx_thread_preempt_disable m) 1,
             tx_calls := tx_calls m @ [Tx_thread_system_resume t]\<rparr>
     else put_thread t h (put_pool P p m))"
  have p: "p = pool\<lparr>
       nx_packet_pool_suspension_list := remove1 t (nx_packet_pool_suspension_list pool),
       nx_packet_pool_suspended_count := nx_packet_pool_suspended_count pool - 1\<rparr>"
    using count by (simp add: p_def ring_remove_def)
  show thesis
  proof (rule that [of m' th h])
    show "nx_packet_pool_cleanup t m = Some m'"
      using th P ar
      by (auto simp: nx_packet_pool_cleanup_def m'_def h_def p_def area_ok_def Let_def
                     put_pool_def put_thread_def)
    show "pools_inv m' F" using step by (simp add: m'_def)
  qed (use p th in \<open>auto simp: m'_def h_def put_pool_def put_thread_def\<close>)
qed

section \<open>The step relation\<close>

text \<open>What a client does to a packet it holds: it may write any field but the owner and the
  bounds of the payload area, as long as the packet is not marked free.\<close>

definition client_write :: "nx_packet \<Rightarrow> nx_packet \<Rightarrow> bool" where
  "client_write pk pk' \<longleftrightarrow>
     nx_packet_tcp_queue_next pk \<noteq> NX_PACKET_FREE \<and> nx_packet_tcp_queue_next pk' \<noteq> NX_PACKET_FREE \<and>
     nx_packet_pool_owner pk' = nx_packet_pool_owner pk \<and>
     nx_packet_data_start pk' = nx_packet_data_start pk \<and>
     nx_packet_data_end pk' = nx_packet_data_end pk"

inductive pool_step :: "nx_mem \<Rightarrow> nx_mem \<Rightarrow> bool" where
  step_create: "pool_area P payload_size pool_start pool_size m \<Longrightarrow>
     nx_packet_pool_create raw P name payload_size pool_start pool_size m = Some (s, m') \<Longrightarrow>
     pool_step m m'"
| step_allocate: "P \<in> dom (nx_pools m) \<Longrightarrow>
     nx_packet_allocate S P v packet_type NX_NO_WAIT m = Some (s, a, m') \<Longrightarrow> pool_step m m'"
| step_suspend: "nx_pools m P = Some pool \<Longrightarrow> nx_packet_pool_available pool = 0 \<Longrightarrow>
     packet_type \<le> nx_packet_pool_payload_size pool \<Longrightarrow>
     \<not> waiting m (tx_thread_current_ptr m) \<Longrightarrow>
     Suc (length (nx_packet_pool_suspension_list pool)) < ULONG_RANGE \<Longrightarrow>
     nx_packet_pool_suspend P
       (pool\<lparr>nx_packet_pool_empty_requests := ulong_add (nx_packet_pool_empty_requests pool) 1\<rparr>)
       packet_type w m = Some (t, m') \<Longrightarrow> pool_step m m'"
| step_release: "chain m p ps \<Longrightarrow> distinct ps \<Longrightarrow> (\<And>a. a \<in> set ps \<Longrightarrow> allocated m a) \<Longrightarrow>
     nx_packet_release p m = Some (s, m') \<Longrightarrow> pool_step m m'"
| step_timeout: "nx_pools m P = Some pool \<Longrightarrow> t \<in> set (nx_packet_pool_suspension_list pool) \<Longrightarrow>
     nx_packet_pool_cleanup t m = Some m' \<Longrightarrow> pool_step m m'"
| step_client: "nx_packets m a = Some pk \<Longrightarrow> client_write pk pk' \<Longrightarrow>
     pool_step m (put_packet a pk' (put_bytes b bs m))"

inductive_cases pool_stepE: "pool_step m m'"

lemma allocate_step_inv:
  assumes inv: "pools_inv m F" and P: "P \<in> dom (nx_pools m)"
    and step: "nx_packet_allocate S P v packet_type NX_NO_WAIT m = Some (s, a, m')"
  shows "\<exists>F'. pools_inv m' F'"
proof -
  obtain pool where pool: "nx_pools m P = Some pool" using P by auto
  show ?thesis
  proof (cases "nx_packet_pool_payload_size pool < packet_type")
    case True
    then have "m' = m" using step pool by (simp add: nx_packet_allocate_def)
    then show ?thesis using inv by auto
  next
    case False
    then have type: "packet_type \<le> nx_packet_pool_payload_size pool" by simp
    show ?thesis
    proof (cases "F P")
      case Nil
      then show ?thesis
        using nx_packet_allocate_empty [OF inv pool Nil type] step by auto
    next
      case (Cons b fs)
      then show ?thesis
        using nx_packet_allocate_success [OF inv pool Cons type, of S v NX_NO_WAIT] step
        by (metis option.inject prod.inject)
    qed
  qed
qed

lemma pool_step_inv: "pool_step m m' \<Longrightarrow> pools_inv m F \<Longrightarrow> \<exists>F'. pools_inv m' F'"
proof (induction rule: pool_step.induct)
  case (step_create P payload_size pool_start pool_size m raw name s m')
  show ?case
    using nx_packet_pool_create_eq [OF step_create(1), of raw name]
      created_inv [OF step_create(3,1)] step_create(2)
    by (metis option.inject prod.inject)
next
  case (step_allocate P m S v packet_type s a m')
  then show ?case using allocate_step_inv by blast
next
  case (step_suspend m P pool packet_type w t m')
  then show ?case using nx_packet_pool_suspend_inv by blast
next
  case (step_release m p ps s m')
  then show ?case
    using nx_packet_release_chain [OF step_release(5,1,2,3)] by (metis option.inject prod.inject)
next
  case (step_timeout m P pool t m')
  then show ?case
    using nx_packet_pool_cleanup_inv [OF step_timeout(4,1,2)] by (metis option.inject)
next
  case (step_client m a pk pk' b bs)
  then have "pools_inv (put_packet a pk' (put_bytes b bs m)) F"
    by (intro pools_inv_put_live [of _ _ _ pk]) (auto simp: client_write_def)
  then show ?case by blast
qed

text \<open>Before the first pool is created there is nothing.\<close>

definition pool_system_start :: "nx_mem \<Rightarrow> bool" where
  "pool_system_start m \<longleftrightarrow> nx_pools m = Map.empty"

lemma pool_reachable_inv:
  "pool_step\<^sup>*\<^sup>* m0 m \<Longrightarrow> pool_system_start m0 \<Longrightarrow> \<exists>F. pools_inv m F"
proof (induction rule: rtranclp_induct)
  case base
  then show ?case by (auto simp: pools_inv_def pool_system_start_def)
next
  case (step m m')
  then show ?case using pool_step_inv by blast
qed

end
