(* ===== verification/Nx_Pool_Client.thy ===== *)
theory Nx_Pool_Client imports Nx_Pool_Steps begin

text \<open>
  What a client of a packet pool relies on, as an interface: a source of resources that gives
  each one to a single holder, takes it back and loses none. \<open>nx_packet_allocate\<close> and
  \<open>nx_packet_release\<close> provide it. A client script is a sequence of takes and gives.
\<close>

section \<open>The interface\<close>

text \<open>The client's next call: take a resource, or give back the one it holds at an index.\<close>

datatype client_call = Take | Give nat

fun client_step :: "('s \<Rightarrow> 'r option \<times> 's) \<Rightarrow> ('r \<Rightarrow> 's \<Rightarrow> 's option) \<Rightarrow> client_call \<Rightarrow>
    'r list \<times> 's \<Rightarrow> ('r list \<times> 's) option" where
  "client_step tk gv Take (got, s) =
     (case tk s of (None, s') \<Rightarrow> Some (got, s') | (Some r, s') \<Rightarrow> Some (got @ [r], s'))"
| "client_step tk gv (Give i) (got, s) =
     (if i < length got
      then map_option (\<lambda>s'. (take i got @ drop (Suc i) got, s')) (gv (got ! i) s)
      else Some (got, s))"

primrec client_run :: "('s \<Rightarrow> 'r option \<times> 's) \<Rightarrow> ('r \<Rightarrow> 's \<Rightarrow> 's option) \<Rightarrow> client_call list \<Rightarrow>
    'r list \<times> 's \<Rightarrow> ('r list \<times> 's) option" where
  "client_run tk gv [] st = Some st"
| "client_run tk gv (c # cs) st = Option.bind (client_step tk gv c st) (client_run tk gv cs)"

lemma delete_nth:
  assumes "i < length xs" "distinct xs"
  shows "set (take i xs @ drop (Suc i) xs) = set xs - {xs ! i}"
    and "distinct (take i xs @ drop (Suc i) xs)"
    and "length (take i xs @ drop (Suc i) xs) = length xs - 1"
proof -
  have xs: "xs = take i xs @ xs ! i # drop (Suc i) xs" using assms(1) by (rule id_take_nth_drop)
  have d: "distinct (take i xs @ xs ! i # drop (Suc i) xs)" using assms(2) xs by simp
  have "set xs = set (take i xs @ xs ! i # drop (Suc i) xs)" using xs by simp
  then show "set (take i xs @ drop (Suc i) xs) = set xs - {xs ! i}" using d by auto
  show "distinct (take i xs @ drop (Suc i) xs)" using d by simp
  show "length (take i xs @ drop (Suc i) xs) = length xs - 1" using assms(1) by simp
qed

locale resource_source =
  fixes inv :: "'s \<Rightarrow> bool" and held :: "'s \<Rightarrow> 'r set"
    and available :: "'s \<Rightarrow> nat" and total :: "'s \<Rightarrow> nat"
    and tk :: "'s \<Rightarrow> 'r option \<times> 's" and gv :: "'r \<Rightarrow> 's \<Rightarrow> 's option"
  assumes conserve: "inv s \<Longrightarrow> finite (held s) \<and> available s + card (held s) = total s"
    and tk_some: "inv s \<Longrightarrow> tk s = (Some r, s') \<Longrightarrow>
      inv s' \<and> r \<notin> held s \<and> held s' = insert r (held s) \<and> total s' = total s"
    and tk_none: "inv s \<Longrightarrow> tk s = (None, s') \<Longrightarrow>
      inv s' \<and> held s' = held s \<and> total s' = total s \<and> available s = 0"
    and gv_held: "inv s \<Longrightarrow> r \<in> held s \<Longrightarrow>
      \<exists>s'. gv r s = Some s' \<and> inv s' \<and> held s' = held s - {r} \<and> total s' = total s"
begin

definition owns :: "'r list \<times> 's \<Rightarrow> bool" where
  "owns st \<longleftrightarrow> inv (snd st) \<and> distinct (fst st) \<and> set (fst st) = held (snd st)"

lemma owns_available:
  assumes "owns (got, s)"
  shows "available s + length got = total s"
proof -
  have "card (held s) = length got" using assms by (metis owns_def fst_conv snd_conv distinct_card)
  then show ?thesis using assms conserve [of s] by (simp add: owns_def)
qed

lemma client_step_owns:
  assumes "owns (got, s)"
  shows "\<exists>got' s'. client_step tk gv c (got, s) = Some (got', s') \<and> owns (got', s') \<and> total s' = total s"
proof (cases c)
  case Take
  obtain r s' where t: "tk s = (r, s')" by fastforce
  show ?thesis
    using assms Take t tk_some [of s _ s'] tk_none [of s s'] by (cases r) (auto simp: owns_def)
next
  case (Give i)
  show ?thesis
  proof (cases "i < length got")
    case True
    then have "got ! i \<in> held s" using assms nth_mem by (fastforce simp: owns_def)
    then obtain s' where "gv (got ! i) s = Some s'" "inv s'" "held s' = held s - {got ! i}" "total s' = total s"
      using gv_held [of s "got ! i"] assms by (auto simp: owns_def)
    then show ?thesis
      using assms Give True delete_nth [OF True] by (auto simp: owns_def simp del: set_append)
  qed (use assms Give in auto)
qed

lemma client_run_owns:
  "owns (got, s) \<Longrightarrow>
     \<exists>got' s'. client_run tk gv cs (got, s) = Some (got', s') \<and> owns (got', s') \<and> total s' = total s"
proof (induction cs arbitrary: got s)
  case (Cons c cs)
  then show ?case using client_step_owns [of got s c] by fastforce
qed simp

text \<open>A take succeeds exactly when fewer resources than the total are held.\<close>

lemma tk_succeeds_iff:
  assumes "owns (got, s)"
  shows "(\<exists>r s'. tk s = (Some r, s')) \<longleftrightarrow> length got < total s"
proof -
  obtain r s' where t: "tk s = (r, s')" by fastforce
  have own: "inv s" "available s + length got = total s" "card (held s) = length got"
    using assms owns_available [OF assms] conserve [of s] by (auto simp: owns_def)
  show ?thesis
  proof (cases r)
    case None
    then show ?thesis using t tk_none [of s s'] own by auto
  next
    case (Some x)
    then have "inv s'" "held s' = insert x (held s)" "x \<notin> held s" "total s' = total s"
      using t tk_some [of s x s'] own by auto
    then have "Suc (length got) \<le> total s" using conserve [of s'] conserve [of s] own by auto
    then show ?thesis using t Some by auto
  qed
qed

end

section \<open>The pool as a source\<close>

definition all_idle :: "nx_mem \<Rightarrow> bool" where
  "all_idle m \<longleftrightarrow> (\<forall>P. idle m P)"

text \<open>A client that holds each packet by itself: no chains, no queues.\<close>

definition pool_client_inv :: "nat \<Rightarrow> nat \<Rightarrow> nx_mem \<Rightarrow> bool" where
  "pool_client_inv P packet_type m \<longleftrightarrow>
     (\<exists>F pool. pools_inv m F \<and> nx_pools m P = Some pool \<and> packet_type \<le> nx_packet_pool_payload_size pool) \<and>
     all_idle m \<and>
     (\<forall>a \<in> live_packets m P. \<exists>pk. nx_packets m a = Some pk \<and> a \<noteq> NX_NULL \<and>
        nx_packet_tcp_queue_next pk = NX_PACKET_ALLOCATED \<and> nx_packet_next pk = NX_NULL)"

definition pool_number :: "(nx_packet_pool \<Rightarrow> nat) \<Rightarrow> nat \<Rightarrow> nx_mem \<Rightarrow> nat" where
  "pool_number f P m = (case nx_pools m P of None \<Rightarrow> 0 | Some pool \<Rightarrow> f pool)"

definition pool_take :: "nat \<Rightarrow> nat \<Rightarrow> nx_mem \<Rightarrow> nat option \<times> nx_mem" where
  "pool_take P packet_type m = (case nx_packet_allocate (\<lambda>_. id) P NX_NULL packet_type NX_NO_WAIT m of
     Some (NX_SUCCESS, a, m') \<Rightarrow> (Some a, m')
   | Some (_, _, m') \<Rightarrow> (None, m')
   | None \<Rightarrow> (None, m))"

definition pool_give :: "nat \<Rightarrow> nx_mem \<Rightarrow> nx_mem option" where
  "pool_give a m = (case nx_packet_release a m of Some (NX_SUCCESS, m') \<Rightarrow> Some m' | _ \<Rightarrow> None)"

lemma nx_packet_release_single:
  assumes inv: "pools_inv m F" and P: "nx_pools m P = Some pool"
    and pk: "nx_packets m a = Some pk" "nx_packet_pool_owner pk = P" "a \<noteq> NX_NULL"
    and mark: "nx_packet_tcp_queue_next pk = NX_PACKET_ALLOCATED" "nx_packet_next pk = NX_NULL"
    and nobody: "nx_packet_pool_suspension_list pool = []"
  shows "nx_packet_release a m = Some (NX_SUCCESS, freed P pool a pk m)"
    and "pools_inv (freed P pool a pk m) (F(P := a # F P))"
proof -
  have "nx_packet_release NX_NULL x = Some (NX_SUCCESS, x)" for x
    by (subst nx_packet_release.simps) simp
  then show "nx_packet_release a m = Some (NX_SUCCESS, freed P pool a pk m)"
    using pk mark nobody put_back_cases [OF P pk(2), of a]
    by (subst nx_packet_release.simps) simp
  show "pools_inv (freed P pool a pk m) (F(P := a # F P))"
    by (rule freed_inv [OF inv P pk]) (use mark nobody in auto)
qed

lemma live_taken:
  assumes "nx_packets m a = Some pk" "nx_packet_pool_owner pk = P"
  shows "live_packets (taken P pool n a pk m) P = insert a (live_packets m P)"
  using assms by (auto simp: live_packets_def taken_def)

lemma live_freed:
  assumes "nx_packets m a = Some pk"
  shows "live_packets (freed P pool a pk m) P = live_packets m P - {a}"
  using assms by (auto simp: live_packets_def freed_def)

lemma pool_take_cases:
  assumes "pool_client_inv P n m"
  shows "\<exists>m' r. pool_take P n m = (r, m') \<and> pool_client_inv P n m' \<and>
     pool_number nx_packet_pool_total P m' = pool_number nx_packet_pool_total P m \<and>
     (case r of
        Some a \<Rightarrow> a \<notin> live_packets m P \<and> live_packets m' P = insert a (live_packets m P)
      | None \<Rightarrow> live_packets m' P = live_packets m P \<and> pool_number nx_packet_pool_available P m = 0)"
proof -
  obtain F pool where inv: "pools_inv m F" and P: "nx_pools m P = Some pool"
    and type: "n \<le> nx_packet_pool_payload_size pool" and idle: "all_idle m"
    and live: "\<forall>a \<in> live_packets m P. \<exists>pk. nx_packets m a = Some pk \<and> a \<noteq> NX_NULL \<and>
        nx_packet_tcp_queue_next pk = NX_PACKET_ALLOCATED \<and> nx_packet_next pk = NX_NULL"
    using assms by (auto simp: pool_client_inv_def)
  show ?thesis
  proof (cases "F P")
    case Nil
    have res: "pool_take P n m = (None, refused P pool m)"
      using nx_packet_allocate_empty(1) [OF inv P Nil type] by (simp add: pool_take_def)
    have inv': "pools_inv (refused P pool m) F" by (rule nx_packet_allocate_empty(2) [OF inv P Nil type])
    have same: "live_packets (refused P pool m) P = live_packets m P"
      "nx_packets (refused P pool m) = nx_packets m"
      by (simp_all add: refused_def live_packets_def)
    have zero: "nx_packet_pool_available pool = 0"
      using pools_invD [OF inv P] P Nil by (auto elim!: pool_invE simp: free_list_ok_def)
    have "all_idle (refused P pool m)"
      using idle P by (auto simp: all_idle_def idle_def refused_def)
    moreover have "\<exists>q. nx_pools (refused P pool m) P = Some q \<and> n \<le> nx_packet_pool_payload_size q \<and>
        nx_packet_pool_total q = nx_packet_pool_total pool"
      using type by (simp add: refused_def)
    ultimately show ?thesis
      using res inv' same live zero P by (auto simp: pool_client_inv_def pool_number_def)
  next
    case (Cons a fs)
    obtain pk where pk: "nx_packets m a = Some pk" "nx_packet_pool_owner pk = P" "a \<noteq> NX_NULL"
      "nx_packet_tcp_queue_next pk = NX_PACKET_FREE"
      and res: "nx_packet_allocate (\<lambda>_. id) P NX_NULL n NX_NO_WAIT m =
        Some (NX_SUCCESS, a, taken P pool n a pk m)"
      and inv': "pools_inv (taken P pool n a pk m) (F(P := fs))"
      using nx_packet_allocate_success [OF inv P Cons type] by metis
    have "pool_take P n m = (Some a, taken P pool n a pk m)" using res by (simp add: pool_take_def)
    moreover have "a \<notin> live_packets m P" using pk by (auto simp: live_packets_def)
    moreover have "all_idle (taken P pool n a pk m)"
      using idle P by (auto simp: all_idle_def idle_def taken_def)
    moreover have "\<exists>q. nx_pools (taken P pool n a pk m) P = Some q \<and> n \<le> nx_packet_pool_payload_size q \<and>
        nx_packet_pool_total q = nx_packet_pool_total pool"
      using type by (simp add: taken_def)
    moreover have "\<exists>pk'. nx_packets (taken P pool n a pk m) b = Some pk' \<and> b \<noteq> NX_NULL \<and>
        nx_packet_tcp_queue_next pk' = NX_PACKET_ALLOCATED \<and> nx_packet_next pk' = NX_NULL"
      if "b \<in> insert a (live_packets m P)" for b
      using that live pk by (cases "b = a") (auto simp: taken_def)
    ultimately show ?thesis
      using inv' P live_taken [OF pk(1,2)] by (auto simp: pool_client_inv_def pool_number_def)
  qed
qed

lemma pool_give_held:
  assumes "pool_client_inv P n m" "a \<in> live_packets m P"
  shows "\<exists>m'. pool_give a m = Some m' \<and> pool_client_inv P n m' \<and>
     live_packets m' P = live_packets m P - {a} \<and>
     pool_number nx_packet_pool_total P m' = pool_number nx_packet_pool_total P m"
proof -
  obtain F pool where inv: "pools_inv m F" and P: "nx_pools m P = Some pool"
    and type: "n \<le> nx_packet_pool_payload_size pool" and idle: "all_idle m"
    and live: "\<forall>a \<in> live_packets m P. \<exists>pk. nx_packets m a = Some pk \<and> a \<noteq> NX_NULL \<and>
        nx_packet_tcp_queue_next pk = NX_PACKET_ALLOCATED \<and> nx_packet_next pk = NX_NULL"
    using assms by (auto simp: pool_client_inv_def)
  obtain pk where pk: "nx_packets m a = Some pk" "nx_packet_pool_owner pk = P" "a \<noteq> NX_NULL"
    "nx_packet_tcp_queue_next pk = NX_PACKET_ALLOCATED" "nx_packet_next pk = NX_NULL"
    using live assms(2) by (auto simp: live_packets_def)
  have nobody: "nx_packet_pool_suspension_list pool = []"
    using idle P by (auto simp: all_idle_def idle_def)
  note rel = nx_packet_release_single [OF inv P pk nobody]
  have "pool_give a m = Some (freed P pool a pk m)" using rel(1) by (simp add: pool_give_def)
  moreover have "all_idle (freed P pool a pk m)"
    using idle P by (auto simp: all_idle_def idle_def freed_def)
  moreover have "\<exists>q. nx_pools (freed P pool a pk m) P = Some q \<and> n \<le> nx_packet_pool_payload_size q \<and>
      nx_packet_pool_total q = nx_packet_pool_total pool"
    using type by (simp add: freed_def)
  moreover have "nx_packets (freed P pool a pk m) b = nx_packets m b" if "b \<noteq> a" for b
    using that by (simp add: freed_def)
  ultimately show ?thesis
    using rel(2) P live live_freed [OF pk(1)] by (auto simp: pool_client_inv_def pool_number_def)
qed

lemma pool_client_conserve:
  assumes "pool_client_inv P n m"
  shows "finite (live_packets m P) \<and> pool_number nx_packet_pool_available P m + card (live_packets m P) =
     pool_number nx_packet_pool_total P m"
proof -
  obtain F pool where inv: "pools_inv m F" and P: "nx_pools m P = Some pool"
    using assms by (auto simp: pool_client_inv_def)
  have "live_packets m P \<subseteq> pool_packets m P" by (auto simp: live_packets_def pool_packets_def)
  moreover have "finite (pool_packets m P)"
    using pools_invD [OF inv P] by (auto elim!: pool_invE simp: area_ok_def)
  ultimately show ?thesis
    using pool_inv_conservation [OF pools_invD [OF inv P] P] P
    by (auto simp: pool_number_def intro: finite_subset)
qed

interpretation nx_pool: resource_source "pool_client_inv P n" "\<lambda>m. live_packets m P"
    "pool_number nx_packet_pool_available P" "pool_number nx_packet_pool_total P"
    "pool_take P n" pool_give for P n
proof unfold_locales
  show "\<exists>s'. pool_give r s = Some s' \<and> pool_client_inv P n s' \<and> live_packets s' P = live_packets s P - {r} \<and>
      pool_number nx_packet_pool_total P s' = pool_number nx_packet_pool_total P s"
    if "pool_client_inv P n s" "r \<in> live_packets s P" for s r
    using pool_give_held [OF that] .
qed (use pool_client_conserve pool_take_cases in \<open>fastforce split: option.splits\<close>)+

end
