(* ===== verification/Nx_Pool_Demo.thy ===== *)
theory Nx_Pool_Demo imports Nx_Pool_Client begin

text \<open>
  A concrete memory on which the properties of the pools are evaluated: a pool at address 16
  with two packets of 32 bytes, cut from the 200 bytes at address 1000.
\<close>

section \<open>A concrete pool\<close>

definition blank_packet :: nx_packet where
  "blank_packet = \<lparr>nx_packet_pool_owner = 0, nx_packet_next = 0, nx_packet_prepend_ptr = 0,
     nx_packet_append_ptr = 0, nx_packet_data_start = 0, nx_packet_data_end = 0,
     nx_packet_last = 0, nx_packet_queue_next = 0, nx_packet_tcp_queue_next = 0,
     nx_packet_length = 0, nx_packet_option_state = 0, nx_packet_ip_version = 0,
     nx_packet_identical_copy = False, nx_packet_ip_header_length = 0,
     nx_packet_interface_ptr = 0, nx_packet_ip_header = 0\<rparr>"

definition demo_thread :: tx_thread where
  "demo_thread = \<lparr>tx_thread_suspend_cleanup = TX_NO_CLEANUP, tx_thread_suspend_control_block = 0,
     tx_thread_suspend_packet = 0, tx_thread_suspend_info = 0, tx_thread_state = TX_OTHER_STATE,
     tx_thread_suspending = False, tx_thread_remaining_ticks = 0,
     tx_thread_suspend_status = NX_SUCCESS\<rparr>"

definition empty_mem :: nx_mem where
  "empty_mem = \<lparr>nx_packets = Map.empty, nx_pools = Map.empty,
     tx_threads = [500 \<mapsto> demo_thread], nx_memory = (\<lambda>a. 0),
     nx_packet_pool_created = [], nx_packet_pool_created_count = 0,
     tx_thread_preempt_disable = 0, tx_thread_current_ptr = 500, tx_calls = []\<rparr>"

definition demo_header :: "nat \<Rightarrow> nat \<Rightarrow> nx_packet" where
  "demo_header a next_free = blank_packet\<lparr>nx_packet_pool_owner := 16, nx_packet_queue_next := next_free,
     nx_packet_tcp_queue_next := NX_PACKET_FREE,
     nx_packet_data_start := a + 60, nx_packet_data_end := a + 92\<rparr>"

definition demo_mem :: nx_mem where
  "demo_mem = empty_mem\<lparr>
     nx_packets := [1000 \<mapsto> demo_header 1000 1092, 1092 \<mapsto> demo_header 1092 0],
     nx_pools := [16 \<mapsto> created_pool 7 32 1000 200]\<rparr>"

definition demo_free :: "nat \<Rightarrow> nat list" where
  "demo_free = (\<lambda>P. []) (16 := [1000, 1092])"

lemma demo_sizes [simp]:
  "nx_pool_rounded_start 1000 = 1000" "nx_pool_rounded_size 1000 200 = 200"
  "pool_stride 32 = 92" "pool_count 32 1000 200 = 2" "created_addresses 32 1000 200 = [1000, 1092]"
  by (simp_all add: nx_pool_rounded_start_def nx_pool_rounded_size_def nx_align_up_def pool_stride_def
      pool_count_def created_addresses_def pool_addresses_def upt_rec)

lemma demo_area: "pool_area 16 32 1000 200 empty_mem"
  by (simp add: pool_area_def empty_mem_def pool_packets_def)

lemma demo_start: "pools_inv empty_mem (\<lambda>P. [])" "payloads_separate empty_mem"
  by (simp_all add: pools_inv_def empty_mem_def payloads_separate_def)

lemma demo_headers [simp]:
  "created_header (\<lambda>a. blank_packet) 16 32 1000 200 1000 = demo_header 1000 1092"
  "created_header (\<lambda>a. blank_packet) 16 32 1000 200 1092 = demo_header 1092 0"
  by (simp_all add: created_header_def nx_pool_header_def demo_header_def blank_packet_def)

lemma demo_inv: "pools_inv demo_mem demo_free"
proof -
  have "pools_inv demo_mem ((\<lambda>P. []) (16 := created_addresses 32 1000 200))"
    by (rule created_inv [OF demo_start(1) demo_area, of _ 7 "\<lambda>a. blank_packet"])
      (simp_all add: demo_mem_def empty_mem_def)
  then show ?thesis by (simp add: demo_free_def)
qed

lemma demo_pool: "nx_pools demo_mem 16 = Some (created_pool 7 32 1000 200)"
  by (simp add: demo_mem_def)

lemma demo_idle: "all_idle demo_mem"
  by (auto simp: all_idle_def idle_def demo_mem_def created_pool_def)

lemma demo_separate: "payloads_separate demo_mem"
  by (rule created_separate [OF demo_start(2) demo_area, of _ "\<lambda>a. blank_packet"])
    (simp_all add: demo_mem_def empty_mem_def)

text \<open>The demo memory with its first packet allocated for a packet type of 4 bytes.\<close>

definition demo_mem1 :: nx_mem where
  "demo_mem1 = taken 16 (created_pool 7 32 1000 200) 4 1000 (demo_header 1000 1092) demo_mem"

definition demo_free1 :: "nat \<Rightarrow> nat list" where
  "demo_free1 = demo_free(16 := [1092])"

lemma demo_inv1: "pools_inv demo_mem1 demo_free1"
  unfolding demo_mem1_def demo_free1_def
  by (rule taken_inv [OF demo_inv demo_pool])
    (simp_all add: demo_free_def demo_mem_def created_pool_def)

lemma demo_allocated1: "allocated demo_mem1 1000"
  by (simp add: allocated_def demo_mem1_def taken_def demo_header_def demo_mem_def)

lemma demo_packet1: "nx_packets demo_mem1 1000 = Some (alloc_header 4 (demo_header 1000 1092))"
  by (simp add: demo_mem1_def taken_def)

lemma demo_idle1: "idle demo_mem1 P"
  by (auto simp: idle_def demo_mem1_def taken_def demo_mem_def created_pool_def)

text \<open>The demo memory with both packets in use and thread 500 waiting for a third.\<close>

definition demo_mem2 :: nx_mem where
  "demo_mem2 = demo_mem\<lparr>
     nx_packets := [1000 \<mapsto> alloc_header 0 (demo_header 1000 1092), 1092 \<mapsto> alloc_header 0 (demo_header 1092 0)],
     nx_pools := [16 \<mapsto> (created_pool 7 32 1000 200)\<lparr>nx_packet_pool_available := 0,
        nx_packet_pool_available_list := 0, nx_packet_pool_empty_requests := 1\<rparr>]\<rparr>"

definition demo_pool3 :: nx_packet_pool where
  "demo_pool3 = (created_pool 7 32 1000 200)\<lparr>nx_packet_pool_available := 0,
     nx_packet_pool_available_list := 0, nx_packet_pool_empty_requests := 1,
     nx_packet_pool_empty_suspensions := 1, nx_packet_pool_suspension_list := [500],
     nx_packet_pool_suspended_count := 1\<rparr>"

definition demo_thread3 :: tx_thread where
  "demo_thread3 = demo_thread\<lparr>tx_thread_suspend_cleanup := NX_PACKET_POOL_CLEANUP,
     tx_thread_suspend_control_block := 16, tx_thread_suspend_info := 8, tx_thread_state := TX_TCP_IP,
     tx_thread_suspending := True, tx_thread_remaining_ticks := 100\<rparr>"

definition demo_mem3 :: nx_mem where
  "demo_mem3 = demo_mem2\<lparr>nx_pools := [16 \<mapsto> demo_pool3], tx_threads := [500 \<mapsto> demo_thread3],
     nx_packet_pool_created := [16], nx_packet_pool_created_count := 1\<rparr>"

lemma demo_free_list_empty:
  assumes "nx_packets m = nx_packets demo_mem2" "nx_packet_pool_available pool = 0"
    "nx_packet_pool_available_list pool = 0"
  shows "free_list_ok m 16 pool []"
  using assms by (auto simp: free_list_ok_def demo_mem2_def demo_header_def split: if_splits)

lemma demo_area_ok:
  assumes "nx_packets m = nx_packets demo_mem2" "nx_packet_pool_id pool = NX_PACKET_POOL_ID"
    "nx_packet_pool_total pool = 2" "nx_packet_pool_payload_size pool = 32"
  shows "area_ok m 16 pool"
proof -
  have "pool_packets m 16 = {1000, 1092}"
    using assms(1) by (auto simp: pool_packets_def demo_mem2_def demo_header_def split: if_splits)
  then show ?thesis
    using assms by (auto simp: area_ok_def demo_mem2_def demo_header_def slot_ok_def split: if_splits)
qed

lemma demo_inv2: "pools_inv demo_mem2 (\<lambda>P. [])"
  using demo_free_list_empty [of demo_mem2] demo_area_ok [of demo_mem2]
  by (auto simp: pools_inv_def pool_inv_def waiting_ok_def demo_mem2_def created_pool_def split: if_splits)

lemma demo_inv3: "pools_inv demo_mem3 (\<lambda>P. [])"
  using demo_free_list_empty [of demo_mem3] demo_area_ok [of demo_mem3]
  by (auto simp: pools_inv_def pool_inv_def waiting_ok_def demo_mem3_def demo_pool3_def demo_thread3_def
      created_pool_def demo_mem2_def split: if_splits)

lemma demo_pool3_at: "nx_pools demo_mem3 16 = Some demo_pool3"
  by (simp add: demo_mem3_def)

end
