(* ===== verification/Nx_Pool_Props.thy ===== *)
theory Nx_Pool_Props imports Nx_Pool_Demo begin

text \<open>
  The properties of the packet pools. The demo memories of \<open>Nx_Pool_Demo\<close> are their
  witnesses.
\<close>

section \<open>Lemmas of this group\<close>

lemma free_listI:
  assumes "pools_inv m F" "nx_pools m P = Some pool" "nx_packets m a = Some pk"
    "nx_packet_pool_owner pk = P" "nx_packet_tcp_queue_next pk = NX_PACKET_FREE"
  shows "a \<in> set (F P)"
  using pools_invD [OF assms(1,2)] assms(2-5) by (auto elim!: pool_invE simp: free_list_ok_def)

text \<open>A release of a packet that is not marked allocated.\<close>

definition rejected :: "nat \<Rightarrow> nx_packet_pool \<Rightarrow> nx_mem \<Rightarrow> nx_mem" where
  "rejected P pool m =
     put_pool P (pool\<lparr>nx_packet_pool_invalid_releases := ulong_add (nx_packet_pool_invalid_releases pool) 1\<rparr>) m"

lemma nx_packet_release_rejected:
  assumes inv: "pools_inv m F" and P: "nx_pools m P = Some pool"
    and pk: "nx_packets m a = Some pk" "nx_packet_pool_owner pk = P" "a \<noteq> NX_NULL"
    and mark: "nx_packet_tcp_queue_next pk \<noteq> NX_PACKET_ALLOCATED"
  shows "nx_packet_release a m = Some (NX_PTR_ERROR, rejected P pool m)" "pools_inv (rejected P pool m) F"
proof -
  have "P \<noteq> NX_NULL" "nx_packet_pool_id pool = NX_PACKET_POOL_ID"
    using pools_invD [OF inv P] P by (auto elim!: pool_invE simp: area_ok_def)
  then show "nx_packet_release a m = Some (NX_PTR_ERROR, rejected P pool m)"
    using pk mark P by (subst nx_packet_release.simps) (simp add: nx_packet_count_invalid_def rejected_def)
  show "pools_inv (rejected P pool m) F"
    unfolding rejected_def by (rule pools_inv_put_pool [OF inv P]) auto
qed

lemma nx_packet_release_handed:
  assumes inv: "pools_inv m F" and P: "nx_pools m P = Some pool"
    and pk: "nx_packets m a = Some pk" "nx_packet_pool_owner pk = P" "a \<noteq> NX_NULL"
    and mark: "nx_packet_tcp_queue_next pk = NX_PACKET_ALLOCATED" "nx_packet_next pk = NX_NULL"
    and susp: "nx_packet_pool_suspension_list pool = t # rest" and th: "tx_threads m t = Some th"
  shows "nx_packet_release a m = Some (NX_SUCCESS, handed P pool a pk t th m)"
    "pools_inv (handed P pool a pk t th m) F"
proof -
  have "nx_packet_release NX_NULL x = Some (NX_SUCCESS, x)" for x
    by (subst nx_packet_release.simps) simp
  then show "nx_packet_release a m = Some (NX_SUCCESS, handed P pool a pk t th m)"
    using pk mark susp th put_back_cases [OF P pk(2), of a]
    by (subst nx_packet_release.simps) simp
  show "pools_inv (handed P pool a pk t th m) F"
    by (rule handed_inv [OF inv P pk(1,2) _ susp th]) (use mark in simp)
qed

text \<open>Deleting a pool: the loop resumes the threads from the working pointer on.\<close>

definition deleted_thread :: "tx_thread \<Rightarrow> tx_thread" where
  "deleted_thread th = th\<lparr>tx_thread_suspend_cleanup := TX_NO_CLEANUP,
     tx_thread_suspend_status := NX_POOL_DELETED\<rparr>"

definition threads_deleted :: "nat \<Rightarrow> nat list \<Rightarrow> nx_mem \<Rightarrow> nx_mem \<Rightarrow> bool" where
  "threads_deleted P ts m m' \<longleftrightarrow>
     (\<forall>t. tx_threads m' t = (if t \<in> set ts then map_option deleted_thread (tx_threads m t) else tx_threads m t)) \<and>
     tx_calls m' = tx_calls m @ map Tx_thread_system_resume ts \<and>
     nx_packets m' = nx_packets m \<and> nx_memory m' = nx_memory m \<and>
     (\<forall>Q. Q \<noteq> P \<longrightarrow> nx_pools m' Q = nx_pools m Q) \<and>
     map_option nx_packet_pool_id (nx_pools m' P) = map_option nx_packet_pool_id (nx_pools m P) \<and>
     (if ts = [] then m' = m else map_option nx_packet_pool_suspended_count (nx_pools m' P) = Some 0) \<and>
     nx_packet_pool_created m' = nx_packet_pool_created m \<and>
     nx_packet_pool_created_count m' = nx_packet_pool_created_count m"

lemma nx_packet_pool_delete_loop_eq:
  assumes "\<And>t. t \<in> set ts \<Longrightarrow> tx_threads m t \<noteq> None" "distinct ts" "P \<in> dom (nx_pools m)"
  shows "\<exists>m'. nx_packet_pool_delete_loop P (length ts) (ts @ us) m = Some m' \<and> threads_deleted P ts m m'"
  using assms
proof (induction ts arbitrary: us m)
  case Nil
  then show ?case by (simp add: threads_deleted_def)
next
  case (Cons t ts)
  obtain th where th: "tx_threads m t = Some th" using Cons.prems(1) [of t] by auto
  obtain pool where pool: "nx_pools m P = Some pool" using Cons.prems(3) by auto
  define m1 where "m1 = (put_thread t (deleted_thread th)
      (put_pool P (pool\<lparr>nx_packet_pool_suspended_count := length ts\<rparr>) m))
      \<lparr>tx_thread_preempt_disable := ulong_add (tx_thread_preempt_disable m) 1,
       tx_calls := tx_calls m @ [Tx_thread_system_resume t]\<rparr>"
  have m1: "nx_pools m1 = (nx_pools m)(P \<mapsto> pool\<lparr>nx_packet_pool_suspended_count := length ts\<rparr>)"
    "tx_threads m1 = (tx_threads m)(t \<mapsto> deleted_thread th)"
    "tx_calls m1 = tx_calls m @ [Tx_thread_system_resume t]" "nx_packets m1 = nx_packets m"
    "nx_memory m1 = nx_memory m" "nx_packet_pool_created m1 = nx_packet_pool_created m"
    "nx_packet_pool_created_count m1 = nx_packet_pool_created_count m"
    by (simp_all add: m1_def put_pool_def put_thread_def)
  have t: "t \<notin> set ts" "distinct ts" using Cons.prems(2) by auto
  have "tx_threads m1 u \<noteq> None" if "u \<in> set ts" for u
    using Cons.prems(1) [of u] that m1(2) by auto
  moreover have "P \<in> dom (nx_pools m1)" using m1(1) by simp
  ultimately obtain m' where m': "nx_packet_pool_delete_loop P (length ts) (ts @ us @ [t]) m1 = Some m'"
    "threads_deleted P ts m1 m'"
    using Cons.IH [of m1 "us @ [t]"] t(2) by blast
  have "nx_packet_pool_delete_loop P (length (t # ts)) ((t # ts) @ us) m = Some m'"
    using th pool m'(1) by (simp add: m1_def deleted_thread_def Let_def)
  moreover have "threads_deleted P (t # ts) m m'"
    using m'(2) m1 th pool t(1) by (auto simp: threads_deleted_def split: if_splits)
  ultimately show ?case by blast
qed

section \<open>Properties\<close>






text \<open>C3: with a free packet, \<open>nx_packet_allocate\<close> hands out the head of the free list: an empty
  packet of one header, data area after the room for the packet type, marked allocated. No
  other packet and no payload byte changes, and the rest of the free list stays in order.\<close>

theorem nx_packet_allocate_takes_head:
  assumes "pools_inv m F" "nx_pools m P = Some pool" "F P = a # fs"
    and "packet_type \<le> nx_packet_pool_payload_size pool"
  shows "\<exists>pk m'. nx_packet_allocate S P v packet_type w m = Some (NX_SUCCESS, a, m') \<and>
     pools_inv m' (F(P := fs)) \<and> nx_packets m' = (nx_packets m)(a \<mapsto> pk) \<and> nx_memory m' = nx_memory m \<and>
     nx_packet_pool_owner pk = P \<and> nx_packet_tcp_queue_next pk = NX_PACKET_ALLOCATED \<and>
     nx_packet_next pk = NX_NULL \<and> nx_packet_length pk = 0 \<and> nx_packet_ip_version pk = NX_IP_VERSION_V4 \<and>
     nx_packet_prepend_ptr pk = nx_packet_data_start pk + packet_type \<and>
     nx_packet_append_ptr pk = nx_packet_prepend_ptr pk \<and> packet_ok pk \<and>
     nx_packet_data_end pk = nx_packet_data_start pk + nx_packet_pool_payload_size pool"
proof -
  obtain pk where "nx_packets m a = Some pk" "nx_packet_pool_owner pk = P"
    "slot_ok (nx_packet_pool_payload_size pool) pk"
    "nx_packet_allocate S P v packet_type w m = Some (NX_SUCCESS, a, taken P pool packet_type a pk m)"
    "pools_inv (taken P pool packet_type a pk m) (F(P := fs))"
    using nx_packet_allocate_success [OF assms] by metis
  then show ?thesis
    using assms(4) by (auto simp: taken_def slot_ok_def packet_ok_def)
qed

lemma nx_packet_allocate_takes_head_witness:
  "\<exists>m'. nx_packet_allocate (\<lambda>_. id) 16 0 4 0 demo_mem = Some (NX_SUCCESS, 1000, m') \<and>
     pools_inv m' (demo_free(16 := [1092]))"
  using nx_packet_allocate_takes_head [OF demo_inv demo_pool, of 1000 "[1092]" 4 "\<lambda>_. id" 0 0]
  by (auto simp: demo_free_def created_pool_def)

text \<open>C4: the branches of \<open>nx_packet_allocate\<close> that hand out nothing. A packet type beyond the
  payload size is refused before anything changes. An empty pool is reported at once to a
  caller that does not wait, and the request counted. A caller that waits becomes the last
  thread of the suspension list, and the call returns what its thread block holds when the
  kernel resumes it.\<close>

theorem nx_packet_allocate_empty_branches:
  assumes "nx_pools m P = Some pool"
  shows "(nx_packet_pool_payload_size pool < packet_type \<longrightarrow>
       nx_packet_allocate S P v packet_type w m = Some (NX_INVALID_PARAMETERS, v, m)) \<and>
     (packet_type \<le> nx_packet_pool_payload_size pool \<and> nx_packet_pool_available pool = 0 \<longrightarrow>
       nx_packet_allocate S P v packet_type NX_NO_WAIT m = Some (NX_NO_PACKET, NX_NULL,
         put_pool P (pool\<lparr>nx_packet_pool_empty_requests := ulong_add (nx_packet_pool_empty_requests pool) 1\<rparr>) m) \<and>
       (w \<noteq> NX_NO_WAIT \<and> tx_threads m (tx_thread_current_ptr m) = Some th \<longrightarrow>
        (\<exists>m1 pool1 th1. nx_pools m1 P = Some pool1 \<and>
           nx_packet_pool_suspension_list pool1 = nx_packet_pool_suspension_list pool @ [tx_thread_current_ptr m] \<and>
           tx_threads m1 (tx_thread_current_ptr m) = Some th1 \<and>
           tx_thread_suspend_control_block th1 = P \<and> tx_thread_suspend_info th1 = packet_type \<and>
           tx_thread_remaining_ticks th1 = w \<and> nx_packets m1 = nx_packets m \<and>
           nx_packet_allocate S P v packet_type w m =
             map_option (\<lambda>h. (tx_thread_suspend_status h, tx_thread_suspend_packet h,
                              S (tx_thread_current_ptr m) m1))
               (tx_threads (S (tx_thread_current_ptr m) m1) (tx_thread_current_ptr m)))))"
proof (intro conjI impI; (elim conjE)?)
  assume type: "packet_type \<le> nx_packet_pool_payload_size pool" and empty: "nx_packet_pool_available pool = 0"
    and w: "w \<noteq> NX_NO_WAIT" and th: "tx_threads m (tx_thread_current_ptr m) = Some th"
  define m1 where "m1 = snd (the (nx_packet_pool_suspend P
     (pool\<lparr>nx_packet_pool_empty_requests := ulong_add (nx_packet_pool_empty_requests pool) 1\<rparr>) packet_type w m))"
  have susp: "nx_packet_pool_suspend P
     (pool\<lparr>nx_packet_pool_empty_requests := ulong_add (nx_packet_pool_empty_requests pool) 1\<rparr>) packet_type w m
       = Some (tx_thread_current_ptr m, m1)"
    using th by (simp add: m1_def nx_packet_pool_suspend_def Let_def)
  have call: "nx_packet_allocate S P v packet_type w m =
      map_option (\<lambda>h. (tx_thread_suspend_status h, tx_thread_suspend_packet h, S (tx_thread_current_ptr m) m1))
        (tx_threads (S (tx_thread_current_ptr m) m1) (tx_thread_current_ptr m))"
    using assms type empty w susp
    by (cases "tx_threads (S (tx_thread_current_ptr m) m1) (tx_thread_current_ptr m)")
      (simp_all add: nx_packet_allocate_def Let_def)
  show "\<exists>m1 pool1 th1. nx_pools m1 P = Some pool1 \<and>
           nx_packet_pool_suspension_list pool1 = nx_packet_pool_suspension_list pool @ [tx_thread_current_ptr m] \<and>
           tx_threads m1 (tx_thread_current_ptr m) = Some th1 \<and>
           tx_thread_suspend_control_block th1 = P \<and> tx_thread_suspend_info th1 = packet_type \<and>
           tx_thread_remaining_ticks th1 = w \<and> nx_packets m1 = nx_packets m \<and>
           nx_packet_allocate S P v packet_type w m =
             map_option (\<lambda>h. (tx_thread_suspend_status h, tx_thread_suspend_packet h,
                              S (tx_thread_current_ptr m) m1))
               (tx_threads (S (tx_thread_current_ptr m) m1) (tx_thread_current_ptr m))"
    by (rule exI [of _ m1], use call th in
        \<open>simp add: m1_def nx_packet_pool_suspend_def Let_def ring_append_def put_pool_def put_thread_def\<close>)
qed (use assms in \<open>simp_all add: nx_packet_allocate_def Let_def\<close>)

lemma nx_packet_allocate_empty_branches_witness:
  "nx_packet_allocate (\<lambda>_. id) 16 9 33 0 demo_mem = Some (NX_INVALID_PARAMETERS, 9, demo_mem) \<and>
   (\<exists>m'. nx_packet_allocate (\<lambda>_. id) 16 9 4 0 demo_mem2 = Some (NX_NO_PACKET, 0, m'))"
  using nx_packet_allocate_empty_branches [OF demo_pool, of 33 "\<lambda>_. id" 9 0]
    nx_packet_allocate_empty_branches [of demo_mem2 16 _ 4 "\<lambda>_. id" 9]
  by (simp add: demo_mem2_def created_pool_def)

text \<open>C5: releasing a chain of allocated packets with no thread waiting puts every packet of
  the chain at the head of its own pool's free list, one after the other, so the chain comes to
  lie there in reverse order. No packet outside the chain changes, and the invariant holds
  again.\<close>

theorem nx_packet_release_returns_chain:
  assumes "pools_inv m F" "chain m p ps" "distinct ps" "\<And>a. a \<in> set ps \<Longrightarrow> allocated m a" "all_idle m"
  shows "\<exists>m' F'. nx_packet_release p m = Some (NX_SUCCESS, m') \<and> pools_inv m' F' \<and> all_idle m' \<and>
     (\<forall>P. F' P = rev (filter (owned_by m P) ps) @ F P) \<and>
     (\<forall>b. b \<notin> set ps \<longrightarrow> nx_packets m' b = nx_packets m b)"
proof -
  obtain m' F' where m': "nx_packet_release p m = Some (NX_SUCCESS, m')" "pools_inv m' F'"
    "\<And>b. b \<notin> set ps \<Longrightarrow> nx_packets m' b = nx_packets m b" "F' = released m F ps" "all_idle m'"
    using nx_packet_release_chain [OF assms(1-4)] assms(5) by (metis all_idle_def)
  have "nx_packets m a \<noteq> None" if "a \<in> set ps" for a
    using assms(4) [OF that] by (auto simp: allocated_def)
  then have "F' P = rev (filter (owned_by m P) ps) @ F P" for P
    unfolding m'(4) by (intro released_at) auto
  then show ?thesis using m' by blast
qed

lemma nx_packet_release_returns_chain_witness:
  "\<exists>m' F'. nx_packet_release 1000 demo_mem1 = Some (NX_SUCCESS, m') \<and> pools_inv m' F' \<and>
     F' 16 = [1000, 1092]"
proof -
  have "chain demo_mem1 1000 [1000]" "all_idle demo_mem1"
    using demo_packet1 demo_idle1 by (simp_all add: all_idle_def)
  then obtain m' F' where m': "nx_packet_release 1000 demo_mem1 = Some (NX_SUCCESS, m')" "pools_inv m' F'"
    "\<forall>P. F' P = rev (filter (owned_by demo_mem1 P) [1000]) @ demo_free1 P"
    using nx_packet_release_returns_chain [OF demo_inv1, of 1000 "[1000]"] demo_allocated1 by auto
  have "F' 16 = [1000, 1092]"
    using m'(3) demo_packet1 by (simp add: owned_by_def demo_free1_def alloc_header_def demo_header_def)
  then show ?thesis using m' by blast
qed

text \<open>Allocating a packet and releasing it again is a round trip: the free list and the
  counters of the pool are what they were, and so is every other packet.\<close>

theorem nx_packet_allocate_release_roundtrip:
  assumes "pools_inv m F" "nx_pools m P = Some pool" "F P = a # fs"
    and "packet_type \<le> nx_packet_pool_payload_size pool" "nx_packet_pool_suspension_list pool = []"
  shows "\<exists>m1 m2. nx_packet_allocate S P v packet_type w m = Some (NX_SUCCESS, a, m1) \<and>
     nx_packet_release a m1 = Some (NX_SUCCESS, m2) \<and> pools_inv m2 F \<and>
     nx_pools m2 = nx_pools m \<and> (\<forall>b. b \<noteq> a \<longrightarrow> nx_packets m2 b = nx_packets m b) \<and>
     nx_memory m2 = nx_memory m"
proof -
  have fl: "free_list_ok m P pool (a # fs)" using pools_invD [OF assms(1,2)] assms(2,3) by (auto elim: pool_invE)
  obtain pk where pk: "nx_packets m a = Some pk" "nx_packet_pool_owner pk = P" "a \<noteq> NX_NULL"
    and call: "nx_packet_allocate S P v packet_type w m = Some (NX_SUCCESS, a, taken P pool packet_type a pk m)"
    and inv1: "pools_inv (taken P pool packet_type a pk m) (F(P := fs))"
    using nx_packet_allocate_success [OF assms(1-4)] by metis
  define m1 where "m1 = taken P pool packet_type a pk m"
  define pool1 where "pool1 = pool\<lparr>nx_packet_pool_available := nx_packet_pool_available pool - 1,
     nx_packet_pool_available_list := nx_packet_queue_next pk\<rparr>"
  have at: "nx_pools m1 P = Some pool1" "nx_packets m1 a = Some (alloc_header packet_type pk)"
    by (simp_all add: m1_def pool1_def taken_def)
  have nobody: "nx_packet_pool_suspension_list pool1 = []" using assms(5) by (simp add: pool1_def)
  note rel = nx_packet_release_single [OF _ at(1,2), of "F(P := fs)"]
  define m2 where "m2 = freed P pool1 a (alloc_header packet_type pk) m1"
  have "nx_packet_release a m1 = Some (NX_SUCCESS, m2)"
    using rel(1) inv1 pk nobody by (simp add: m2_def m1_def)
  moreover have "pools_inv m2 (F(P := a # fs))"
    using rel(2) inv1 pk nobody by (simp add: m2_def m1_def)
  then have "pools_inv m2 F" using assms(3) by (metis fun_upd_triv)
  moreover have "nx_pools m2 P = Some pool"
  proof -
    have pos: "0 < nx_packet_pool_available pool" and hd: "nx_packet_pool_available_list pool = a"
      using fl by (auto simp: free_list_ok_def)
    have "nx_packet_pool_available pool < ULONG_RANGE"
      using pool_inv_conservation [OF pools_invD [OF assms(1,2)] assms(2)] pools_invD [OF assms(1,2)] assms(2)
      by (auto elim!: pool_invE simp: area_ok_def)
    then show ?thesis using pos hd by (simp add: m2_def freed_def pool1_def)
  qed
  then have "nx_pools m2 = nx_pools m"
    using assms(2) by (auto simp: fun_eq_iff m2_def m1_def freed_def taken_def)
  moreover have "\<forall>b. b \<noteq> a \<longrightarrow> nx_packets m2 b = nx_packets m b" "nx_memory m2 = nx_memory m"
    by (simp_all add: m2_def m1_def freed_def taken_def)
  ultimately show ?thesis using call m1_def by blast
qed

lemma nx_packet_allocate_release_roundtrip_witness:
  "\<exists>m1 m2. nx_packet_allocate (\<lambda>_. id) 16 0 4 0 demo_mem = Some (NX_SUCCESS, 1000, m1) \<and>
     nx_packet_release 1000 m1 = Some (NX_SUCCESS, m2) \<and> nx_pools m2 = nx_pools demo_mem"
  using nx_packet_allocate_release_roundtrip [OF demo_inv demo_pool, of 1000 "[1092]" 4 "\<lambda>_. id" 0 0]
  by (auto simp: demo_free_def created_pool_def)

text \<open>C6: a double release is caught. When a chain has been released with no thread waiting, a
  second release of the same packet returns the pointer error, counts an invalid release and
  changes no packet and no free list.\<close>

theorem nx_packet_release_twice:
  assumes "pools_inv m F" "chain m p ps" "distinct ps" "\<And>a. a \<in> set ps \<Longrightarrow> allocated m a" "all_idle m"
    and "p \<noteq> NX_NULL"
  shows "\<exists>m1 m2 F1. nx_packet_release p m = Some (NX_SUCCESS, m1) \<and>
     nx_packet_release p m1 = Some (NX_PTR_ERROR, m2) \<and> pools_inv m1 F1 \<and> pools_inv m2 F1 \<and>
     nx_packets m2 = nx_packets m1 \<and> nx_memory m2 = nx_memory m1 \<and>
     (\<exists>P q. nx_pools m1 P = Some q \<and> owned_by m P p \<and>
        nx_pools m2 = (nx_pools m1)(P \<mapsto>
          q\<lparr>nx_packet_pool_invalid_releases := ulong_add (nx_packet_pool_invalid_releases q) 1\<rparr>))"
proof -
  obtain m1 F1 where m1: "nx_packet_release p m = Some (NX_SUCCESS, m1)" "pools_inv m1 F1"
    "F1 = released m F ps" "dom (nx_pools m1) = dom (nx_pools m)"
    using nx_packet_release_chain [OF assms(1-4)] assms(5) by (metis all_idle_def)
  have p: "p \<in> set ps" using assms(2,6) by (cases ps) auto
  obtain pk where pk: "nx_packets m p = Some pk" "nx_packet_pool_owner pk \<in> dom (nx_pools m)"
    using assms(4) [OF p] by (auto simp: allocated_def)
  define P where "P = nx_packet_pool_owner pk"
  obtain q where q: "nx_pools m1 P = Some q" using pk(2) m1(4) P_def by auto
  have "nx_packets m a \<noteq> None" if "a \<in> set ps" for a
    using assms(4) [OF that] by (auto simp: allocated_def)
  then have "F1 P = rev (filter (owned_by m P) ps) @ F P"
    unfolding m1(3) by (intro released_at) auto
  then have "p \<in> set (F1 P)" using p pk(1) by (auto simp: owned_by_def P_def)
  then obtain pk1 where pk1: "nx_packets m1 p = Some pk1" "nx_packet_pool_owner pk1 = P"
    "nx_packet_tcp_queue_next pk1 = NX_PACKET_FREE" "p \<noteq> NX_NULL"
    using free_listD [OF m1(2) q, of p] by blast
  have "nx_packet_release p m1 = Some (NX_PTR_ERROR, rejected P q m1)" "pools_inv (rejected P q m1) F1"
    by (rule nx_packet_release_rejected [OF m1(2) q pk1(1,2,4)]; use pk1(3) in simp)+
  moreover have "owned_by m P p" using pk(1) by (simp add: owned_by_def P_def)
  ultimately show ?thesis using m1 q by (fastforce simp: rejected_def)
qed

lemma nx_packet_release_twice_witness:
  "\<exists>m1 m2. nx_packet_release 1000 demo_mem1 = Some (NX_SUCCESS, m1) \<and>
     nx_packet_release 1000 m1 = Some (NX_PTR_ERROR, m2) \<and> nx_packets m2 = nx_packets m1"
proof -
  have "chain demo_mem1 1000 [1000]" "all_idle demo_mem1"
    using demo_packet1 demo_idle1 by (simp_all add: all_idle_def)
  then show ?thesis
    using nx_packet_release_twice [OF demo_inv1, of 1000 "[1000]"] demo_allocated1 by fastforce
qed

text \<open>C7: when a thread waits, a released packet goes to the first thread of the suspension
  list instead of the free list: the packet is set up for the packet type that thread asked
  for, the thread gets its address and a success status and is resumed, and the thread behind
  it becomes the first. The IP version of the packet is 0 here, while \<open>nx_packet_allocate\<close>
  sets version 4.\<close>

theorem nx_packet_release_hands_over:
  assumes "pools_inv m F" "nx_pools m P = Some pool" "nx_packets m a = Some pk"
    and "nx_packet_pool_owner pk = P" "a \<noteq> NX_NULL" "nx_packet_tcp_queue_next pk = NX_PACKET_ALLOCATED"
    and "nx_packet_next pk = NX_NULL" "nx_packet_pool_suspension_list pool = t # rest"
  shows "\<exists>m' pk' pool' th th'. nx_packet_release a m = Some (NX_SUCCESS, m') \<and> pools_inv m' F \<and>
     nx_packets m' = (nx_packets m)(a \<mapsto> pk') \<and>
     nx_packet_tcp_queue_next pk' = NX_PACKET_ALLOCATED \<and> packet_ok pk' \<and> nx_packet_length pk' = 0 \<and>
     nx_packet_ip_version pk' = 0 \<and> tx_threads m t = Some th \<and>
     nx_packet_prepend_ptr pk' = nx_packet_data_start pk + tx_thread_suspend_info th \<and>
     nx_packet_append_ptr pk' = nx_packet_prepend_ptr pk' \<and>
     tx_threads m' = (tx_threads m)(t \<mapsto> th') \<and> tx_thread_suspend_packet th' = a \<and>
     tx_thread_suspend_status th' = NX_SUCCESS \<and> tx_thread_suspend_cleanup th' = TX_NO_CLEANUP \<and>
     tx_calls m' = tx_calls m @ [Tx_thread_system_resume t] \<and>
     nx_pools m' = (nx_pools m)(P \<mapsto> pool') \<and> nx_packet_pool_suspension_list pool' = rest \<and>
     nx_packet_pool_available pool' = 0"
proof -
  obtain th where th: "tx_threads m t = Some th" "tx_thread_suspend_info th \<le> nx_packet_pool_payload_size pool"
    using waiting_control_block [OF assms(1,2), of t] assms(8) by auto
  have "slot_ok (nx_packet_pool_payload_size pool) pk" "nx_packet_pool_available pool = 0"
    using pools_invD [OF assms(1,2)] assms(2,3,4,8) by (auto elim!: pool_invE simp: area_ok_def waiting_ok_def)
  then show ?thesis
    using nx_packet_release_handed [OF assms th(1)] th assms(8)
    by (intro exI [of _ "handed P pool a pk t th m"]
          exI [of _ "(nx_packet_init (tx_thread_suspend_info th) pk)\<lparr>nx_packet_ip_version := 0\<rparr>"]
          exI [of _ "pool\<lparr>nx_packet_pool_suspension_list := rest,
             nx_packet_pool_suspended_count := ulong_sub (nx_packet_pool_suspended_count pool) 1\<rparr>"]
          exI [of _ th]
          exI [of _ "th\<lparr>tx_thread_suspend_cleanup := TX_NO_CLEANUP, tx_thread_suspend_packet := a,
             tx_thread_suspend_status := NX_SUCCESS\<rparr>"])
      (simp add: handed_def packet_ok_def slot_ok_def put_thread_def put_packet_def put_pool_def)
qed

lemma nx_packet_release_hands_over_witness:
  "\<exists>m'. nx_packet_release 1000 demo_mem3 = Some (NX_SUCCESS, m') \<and>
     tx_calls m' = [Tx_thread_system_resume 500] \<and> tx_thread_suspend_packet (the (tx_threads m' 500)) = 1000"
  using nx_packet_release_hands_over
    [OF demo_inv3 demo_pool3_at, of 1000 "alloc_header 0 (demo_header 1000 1092)" 500 "[]"]
  by (auto simp: demo_mem3_def demo_mem2_def demo_pool3_def demo_header_def demo_mem_def empty_mem_def)

text \<open>C8: a thread whose wait times out is taken off its pool's suspension list wherever it
  stands, is resumed with the no-packet status, and no packet changes; the threads that keep
  waiting keep their order.\<close>

theorem nx_packet_pool_cleanup_timeout:
  assumes "pools_inv m F" "nx_pools m P = Some pool" "nx_packet_pool_suspension_list pool = us @ t # vs"
    and "tx_threads m t = Some th" "tx_thread_state th = TX_TCP_IP"
  shows "\<exists>m' pool' th'. nx_packet_pool_cleanup t m = Some m' \<and> pools_inv m' F \<and>
     nx_packets m' = nx_packets m \<and> nx_pools m' = (nx_pools m)(P \<mapsto> pool') \<and>
     nx_packet_pool_suspension_list pool' = us @ vs \<and>
     nx_packet_pool_suspended_count pool' = length (us @ vs) \<and>
     tx_threads m' = (tx_threads m)(t \<mapsto> th') \<and> tx_thread_suspend_status th' = NX_NO_PACKET \<and>
     tx_thread_suspend_cleanup th' = TX_NO_CLEANUP \<and> tx_calls m' = tx_calls m @ [Tx_thread_system_resume t]"
proof -
  have t: "t \<in> set (nx_packet_pool_suspension_list pool)" using assms(3) by simp
  have "waiting_ok m P pool" using pools_invD [OF assms(1,2)] assms(2) by (auto elim: pool_invE)
  then have count: "nx_packet_pool_suspended_count pool = Suc (length (us @ vs))" "t \<notin> set us"
    using assms(3) by (auto simp: waiting_ok_def)
  have rest: "remove1 t (us @ t # vs) = us @ vs" using count(2) by (simp add: remove1_append)
  show ?thesis
  proof (rule nx_packet_pool_cleanup_inv [OF assms(1,2) t])
    fix m' th0 th'
    assume m': "nx_packet_pool_cleanup t m = Some m'" "pools_inv m' F" "nx_packets m' = nx_packets m"
      "nx_pools m' = (nx_pools m)(P \<mapsto> pool\<lparr>
         nx_packet_pool_suspension_list := remove1 t (nx_packet_pool_suspension_list pool),
         nx_packet_pool_suspended_count := nx_packet_pool_suspended_count pool - 1\<rparr>)"
      "tx_threads m t = Some th0" "tx_threads m' = (tx_threads m)(t \<mapsto> th')"
      "tx_thread_suspend_cleanup th' = TX_NO_CLEANUP"
      "tx_thread_state th0 = TX_TCP_IP \<Longrightarrow> tx_thread_suspend_status th' = NX_NO_PACKET \<and>
         tx_calls m' = tx_calls m @ [Tx_thread_system_resume t]"
    show ?thesis
      by (rule exI [of _ m'], rule exI, rule exI [of _ th'], intro conjI, rule m'(1), rule m'(2), rule m'(3),
          rule m'(4)) (use m'(5-8) assms(3,4,5) count rest in auto)
  qed
qed

lemma nx_packet_pool_cleanup_timeout_witness:
  "\<exists>m'. nx_packet_pool_cleanup 500 demo_mem3 = Some m' \<and> tx_calls m' = [Tx_thread_system_resume 500]"
  using nx_packet_pool_cleanup_timeout [OF demo_inv3 demo_pool3_at, of "[]" 500 "[]" demo_thread3]
  by (auto simp: demo_mem3_def demo_mem2_def demo_pool3_def demo_thread3_def demo_mem_def empty_mem_def)

text \<open>C9: deleting a pool resumes every thread that waits on it, in the order of the
  suspension list, with the pool-deleted status, removes the pool from the list of created
  pools and clears its identification, so that later releases into it are not counted; no
  packet changes.\<close>

theorem nx_packet_pool_delete_resumes_all:
  assumes "pools_inv m F" "nx_pools m P = Some pool"
  shows "\<exists>m' pool'. nx_packet_pool_delete P m = Some (NX_SUCCESS, m') \<and>
     nx_pools m' P = Some pool' \<and> nx_packet_pool_id pool' = 0 \<and> nx_packet_pool_suspended_count pool' = 0 \<and>
     tx_calls m' = tx_calls m @
       map Tx_thread_system_resume (nx_packet_pool_suspension_list pool) @ [Tx_thread_system_preempt_check] \<and>
     (\<forall>t. tx_threads m' t = (if t \<in> set (nx_packet_pool_suspension_list pool)
        then map_option (\<lambda>th. th\<lparr>tx_thread_suspend_cleanup := TX_NO_CLEANUP,
                                 tx_thread_suspend_status := NX_POOL_DELETED\<rparr>) (tx_threads m t)
        else tx_threads m t)) \<and>
     nx_packet_pool_created m' = ring_remove P (nx_packet_pool_created m) \<and>
     nx_packets m' = nx_packets m \<and> (\<forall>Q. Q \<noteq> P \<longrightarrow> nx_pools m' Q = nx_pools m Q)"
proof -
  have wt: "waiting_ok m P pool" using pools_invD [OF assms] assms(2) by (auto elim: pool_invE)
  define ts where "ts = nx_packet_pool_suspension_list pool"
  define m1 where "m1 = (put_pool P (pool\<lparr>nx_packet_pool_id := 0\<rparr>) m)
     \<lparr>nx_packet_pool_created_count := ulong_sub (nx_packet_pool_created_count m) 1,
      nx_packet_pool_created := ring_remove P (nx_packet_pool_created m),
      tx_thread_preempt_disable := ulong_add (tx_thread_preempt_disable m) 1\<rparr>"
  have m1: "tx_threads m1 = tx_threads m" "tx_calls m1 = tx_calls m" "nx_packets m1 = nx_packets m"
    "nx_pools m1 = (nx_pools m)(P \<mapsto> pool\<lparr>nx_packet_pool_id := 0\<rparr>)"
    "nx_packet_pool_created m1 = ring_remove P (nx_packet_pool_created m)"
    by (simp_all add: m1_def put_pool_def)
  have "distinct ts" "nx_packet_pool_suspended_count pool = length ts"
    "\<And>t. t \<in> set ts \<Longrightarrow> tx_threads m1 t \<noteq> None"
    using wt m1(1) by (auto simp: waiting_ok_def ts_def)
  then obtain m2 where m2: "nx_packet_pool_delete_loop P (nx_packet_pool_suspended_count pool) ts m1 = Some m2"
    "threads_deleted P ts m1 m2"
    using nx_packet_pool_delete_loop_eq [of ts m1 P "[]"] m1(4) by auto
  define m' where "m' = m2\<lparr>tx_thread_preempt_disable := ulong_sub (tx_thread_preempt_disable m2) 1,
     tx_calls := tx_calls m2 @ [Tx_thread_system_preempt_check]\<rparr>"
  have call: "nx_packet_pool_delete P m = Some (NX_SUCCESS, m')"
    using assms(2) m2(1) by (simp add: nx_packet_pool_delete_def m1_def m'_def ts_def Let_def)
  obtain pool' where pool': "nx_pools m2 P = Some pool'" "nx_packet_pool_id pool' = 0"
    "nx_packet_pool_suspended_count pool' = 0"
    using m2(2) m1(4) wt by (auto simp: threads_deleted_def waiting_ok_def ts_def split: if_splits)
  show ?thesis
    by (rule exI [of _ m'], rule exI [of _ pool'])
      (use call pool' m2(2) m1 in
        \<open>auto simp: m'_def threads_deleted_def deleted_thread_def [abs_def] ts_def [symmetric] split: if_splits\<close>)
qed

lemma nx_packet_pool_delete_resumes_all_witness:
  "\<exists>m'. nx_packet_pool_delete 16 demo_mem3 = Some (NX_SUCCESS, m') \<and>
     tx_calls m' = [Tx_thread_system_resume 500, Tx_thread_system_preempt_check]"
  using nx_packet_pool_delete_resumes_all [OF demo_inv3 demo_pool3_at]
  by (auto simp: demo_mem3_def demo_mem2_def demo_pool3_def demo_mem_def empty_mem_def)

text \<open>C10: a client that only takes packets from one pool and gives back packets it holds,
  in any order, never gets a packet it already holds, never loses one, and holds as many as
  are missing from the pool. An allocation fails only when it holds them all.\<close>

theorem pool_client_never_loses:
  assumes "pool_client_inv P packet_type m" "live_packets m P = {}"
  shows "\<exists>got m'. client_run (pool_take P packet_type) pool_give calls ([], m) = Some (got, m') \<and>
     pool_client_inv P packet_type m' \<and> distinct got \<and> set got = live_packets m' P \<and>
     pool_number nx_packet_pool_available P m' + length got = pool_number nx_packet_pool_total P m \<and>
     ((\<exists>a m''. pool_take P packet_type m' = (Some a, m'')) \<longleftrightarrow>
        length got < pool_number nx_packet_pool_total P m)"
proof -
  have "nx_pool.owns P packet_type ([], m)" using assms by (simp add: nx_pool.owns_def)
  then obtain got m' where run: "client_run (pool_take P packet_type) pool_give calls ([], m) = Some (got, m')"
    "nx_pool.owns P packet_type (got, m')"
    "pool_number nx_packet_pool_total P m' = pool_number nx_packet_pool_total P m"
    using nx_pool.client_run_owns by blast
  show ?thesis
    using run nx_pool.owns_available [OF run(2)] nx_pool.tk_succeeds_iff [OF run(2)]
    by (auto simp: nx_pool.owns_def)
qed

lemma pool_client_never_loses_witness:
  "\<exists>got m'. client_run (pool_take 16 4) pool_give [Take, Take, Give 0, Take, Take] ([], demo_mem) = Some (got, m') \<and>
     distinct got"
proof -
  have live: "live_packets demo_mem 16 = {}"
    by (auto simp: live_packets_def demo_mem_def empty_mem_def demo_header_def split: if_splits)
  moreover have "pool_client_inv 16 4 demo_mem"
    using demo_inv demo_pool demo_idle live
    by (force simp: pool_client_inv_def created_pool_def)
  ultimately show ?thesis
    using pool_client_never_loses [of 16 4 demo_mem "[Take, Take, Give 0, Take, Take]"] by blast
qed

end
