(* ===== verification/Nx_Packet_Data.thy ===== *)
theory Nx_Packet_Data imports Nx_Packet_Pool begin

text \<open>
  The data services of packets (common/src/nx_packet_data_append.c,
  nx_packet_data_retrieve.c, nx_packet_data_extract_offset.c, nx_packet_copy.c,
  nx_packet_data_adjust.c, nx_packet_length_get.c). Data lies in the payload areas of a chain
  of packets; buffers of the caller are addresses of the same byte memory. Every loop follows
  the chain, so it is a partial function: it returns if the chain ends.
\<close>

definition modify_packet :: "nat \<Rightarrow> (nx_packet \<Rightarrow> nx_packet) \<Rightarrow> nx_mem \<Rightarrow> nx_mem option" where
  "modify_packet p f m = do { pk \<leftarrow> nx_packets m p; Some (put_packet p (f pk) m) }"

text \<open>The ULONG difference of the two pointers that bound a packet's free room or its data.\<close>

definition nx_packet_room :: "nx_packet \<Rightarrow> nat" where
  "nx_packet_room pk = ulong_sub (nx_packet_data_end pk) (nx_packet_append_ptr pk)"

definition nx_packet_data_size :: "nx_packet \<Rightarrow> nat" where
  "nx_packet_data_size pk = ulong_sub (nx_packet_append_ptr pk) (nx_packet_prepend_ptr pk)"

section \<open>Appending data\<close>

text \<open>The walk from the last packet on: the room of the packets passed and the last of them.\<close>

partial_function (option) nx_append_walk :: "nat \<Rightarrow> nat \<Rightarrow> nx_mem \<Rightarrow> (nat \<times> nat) option" where
  "nx_append_walk work_ptr available_bytes m = do {
     pk \<leftarrow> nx_packets m work_ptr;
     let available = ulong_add available_bytes (nx_packet_room pk);
     if nx_packet_next pk = NX_NULL then Some (available, work_ptr)
     else nx_append_walk (nx_packet_next pk) available m
   }"

text \<open>Linking a new packet to the temporary list, which keeps its own tail in the last pointer
  of its head.\<close>

definition nx_append_link :: "nat \<Rightarrow> nat \<Rightarrow> nx_mem \<Rightarrow> (nat \<times> nx_mem) option" where
  "nx_append_link new_list_ptr work_ptr m =
     (if new_list_ptr = NX_NULL then Some (work_ptr, m)
      else do {
        head \<leftarrow> nx_packets m new_list_ptr;
        if nx_packet_last head \<noteq> NX_NULL then do {
          m1 \<leftarrow> modify_packet (nx_packet_last head) (\<lambda>pk. pk\<lparr>nx_packet_next := work_ptr\<rparr>) m;
          m2 \<leftarrow> modify_packet new_list_ptr (\<lambda>pk. pk\<lparr>nx_packet_last := work_ptr\<rparr>) m1;
          Some (new_list_ptr, m2)
        }
        else Some (new_list_ptr,
          put_packet new_list_ptr (head\<lparr>nx_packet_last := work_ptr, nx_packet_next := work_ptr\<rparr>) m)
      })"

partial_function (option) nx_append_allocate ::
    "(nat \<Rightarrow> nx_mem \<Rightarrow> nx_mem) \<Rightarrow> nat \<Rightarrow> nat \<Rightarrow> nat \<Rightarrow> nat \<Rightarrow> nat \<Rightarrow> nat \<Rightarrow> nx_mem \<Rightarrow> (nx_status \<times> nat \<times> nx_mem) option" where
  "nx_append_allocate S pool_ptr wait_option data_size work_ptr new_list_ptr available_bytes m =
     (if available_bytes < data_size then do {
        (status, work_ptr, m1) \<leftarrow> nx_packet_allocate S pool_ptr work_ptr 0 wait_option m;
        if status \<noteq> NX_SUCCESS then
          (if new_list_ptr \<noteq> NX_NULL then do {
             (_, m2) \<leftarrow> nx_packet_release new_list_ptr m1;
             Some (status, new_list_ptr, m2)
           }
           else Some (status, new_list_ptr, m1))
        else do {
          (new_list_ptr, m2) \<leftarrow> nx_append_link new_list_ptr work_ptr m1;
          pk \<leftarrow> nx_packets m2 work_ptr;
          nx_append_allocate S pool_ptr wait_option data_size work_ptr new_list_ptr
            (ulong_add available_bytes (nx_packet_room pk)) m2
        }
      }
      else Some (NX_SUCCESS, new_list_ptr, m))"

partial_function (option) nx_append_copy :: "nat \<Rightarrow> nat \<Rightarrow> nat \<Rightarrow> nat \<Rightarrow> nx_mem \<Rightarrow> nx_mem option" where
  "nx_append_copy packet_ptr work_ptr source_ptr data_size m =
     (if data_size = 0 then Some m
      else do {
        pk \<leftarrow> nx_packets m work_ptr;
        let copy_size = (if data_size < nx_packet_room pk then data_size else nx_packet_room pk);
        let m1 = put_packet work_ptr (pk\<lparr>nx_packet_append_ptr := nx_packet_append_ptr pk + copy_size\<rparr>)
                   (put_bytes (nx_packet_append_ptr pk) (mem_read (nx_memory m) source_ptr copy_size) m);
        if data_size - copy_size \<noteq> 0 then do {
          m2 \<leftarrow> modify_packet packet_ptr (\<lambda>head. head\<lparr>nx_packet_last := nx_packet_next pk\<rparr>) m1;
          nx_append_copy packet_ptr (nx_packet_next pk) (source_ptr + copy_size) (data_size - copy_size) m2
        }
        else Some m1
      })"

definition nx_packet_data_append ::
    "(nat \<Rightarrow> nx_mem \<Rightarrow> nx_mem) \<Rightarrow> nat \<Rightarrow> nat \<Rightarrow> nat \<Rightarrow> nat \<Rightarrow> nat \<Rightarrow> nx_mem \<Rightarrow> (nx_status \<times> nx_mem) option" where
  "nx_packet_data_append S packet_ptr data_start data_size pool_ptr wait_option m = do {
     head \<leftarrow> nx_packets m packet_ptr;
     (available_bytes, last_packet) \<leftarrow>
       (if nx_packet_last head \<noteq> NX_NULL then nx_append_walk (nx_packet_last head) 0 m
        else Some (nx_packet_room head, NX_NULL));
     (status, m1) \<leftarrow>
       (if available_bytes < data_size then do {
          (status, new_list_ptr, m1) \<leftarrow>
            nx_append_allocate S pool_ptr wait_option data_size NX_NULL NX_NULL available_bytes m;
          if status \<noteq> NX_SUCCESS then Some (status, m1)
          else do {
            m2 \<leftarrow> modify_packet (if last_packet \<noteq> NX_NULL then last_packet else packet_ptr)
                   (\<lambda>pk. pk\<lparr>nx_packet_next := new_list_ptr\<rparr>) m1;
            m3 \<leftarrow> modify_packet new_list_ptr (\<lambda>pk. pk\<lparr>nx_packet_last := NX_NULL\<rparr>) m2;
            Some (NX_SUCCESS, m3)
          }
        }
        else Some (NX_SUCCESS, m));
     if status \<noteq> NX_SUCCESS then Some (status, m1)
     else do {
       m2 \<leftarrow> modify_packet packet_ptr (\<lambda>pk. pk\<lparr>nx_packet_length := ulong_add (nx_packet_length pk) data_size\<rparr>) m1;
       pk \<leftarrow> nx_packets m2 packet_ptr;
       m3 \<leftarrow> nx_append_copy packet_ptr (if nx_packet_last pk \<noteq> NX_NULL then nx_packet_last pk else packet_ptr)
              data_start data_size m2;
       Some (NX_SUCCESS, m3)
     }
   }"

section \<open>Reading data\<close>

text \<open>The result is the status, the number of bytes copied and the memory.\<close>

partial_function (option) nx_retrieve_loop :: "nat \<Rightarrow> nat \<Rightarrow> nat \<Rightarrow> nx_mem \<Rightarrow> (nat \<times> nx_mem) option" where
  "nx_retrieve_loop packet_ptr destination_ptr remaining_bytes m =
     (if packet_ptr = NX_NULL then Some (remaining_bytes, m)
      else do {
        pk \<leftarrow> nx_packets m packet_ptr;
        let bytes_to_copy = nx_packet_data_size pk;
        nx_retrieve_loop (nx_packet_next pk) (destination_ptr + bytes_to_copy)
          (ulong_sub remaining_bytes bytes_to_copy)
          (put_bytes destination_ptr (mem_read (nx_memory m) (nx_packet_prepend_ptr pk) bytes_to_copy) m)
      })"

definition nx_packet_data_retrieve :: "nat \<Rightarrow> nat \<Rightarrow> nx_mem \<Rightarrow> (nx_status \<times> nat \<times> nx_mem) option" where
  "nx_packet_data_retrieve packet_ptr buffer_start m = do {
     head \<leftarrow> nx_packets m packet_ptr;
     (remaining_bytes, m') \<leftarrow> nx_retrieve_loop packet_ptr buffer_start (nx_packet_length head) m;
     if remaining_bytes \<noteq> 0
     then Some (NX_INVALID_PACKET, ulong_sub (nx_packet_length head) remaining_bytes, m')
     else Some (NX_SUCCESS, nx_packet_length head, m')
   }"

text \<open>The search for the packet that holds the offset: the packet and the address in it, or NULL
  for both when the chain ends first.\<close>

partial_function (option) nx_extract_seek :: "nat \<Rightarrow> nat \<Rightarrow> nx_mem \<Rightarrow> (nat \<times> nat) option" where
  "nx_extract_seek working_packet_ptr offset_bytes m =
     (if working_packet_ptr = NX_NULL then Some (NX_NULL, NX_NULL)
      else do {
        pk \<leftarrow> nx_packets m working_packet_ptr;
        if offset_bytes < nx_packet_data_size pk
        then Some (working_packet_ptr, nx_packet_prepend_ptr pk + offset_bytes)
        else nx_extract_seek (nx_packet_next pk) (offset_bytes - nx_packet_data_size pk) m
      })"

partial_function (option) nx_extract_loop :: "nat \<Rightarrow> nat \<Rightarrow> nat \<Rightarrow> nat \<Rightarrow> nx_mem \<Rightarrow> nx_mem option" where
  "nx_extract_loop working_packet_ptr source_ptr destination_ptr remaining_bytes m =
     (if working_packet_ptr \<noteq> NX_NULL \<and> remaining_bytes \<noteq> 0 then do {
        pk \<leftarrow> nx_packets m working_packet_ptr;
        let here = ulong_sub (nx_packet_append_ptr pk) source_ptr;
        let bytes_to_copy = (if remaining_bytes < here then remaining_bytes else here);
        let m1 = put_bytes destination_ptr (mem_read (nx_memory m) source_ptr bytes_to_copy) m;
        source_ptr' \<leftarrow> (if nx_packet_next pk \<noteq> NX_NULL
                        then map_option nx_packet_prepend_ptr (nx_packets m1 (nx_packet_next pk))
                        else Some source_ptr);
        nx_extract_loop (nx_packet_next pk) source_ptr' (destination_ptr + bytes_to_copy)
          (remaining_bytes - bytes_to_copy) m1
      }
      else Some m)"

text \<open>The number of bytes copied is \<open>None\<close> on the error, where the C code leaves the caller's
  variable alone.\<close>

definition nx_packet_data_extract_offset ::
    "nat \<Rightarrow> nat \<Rightarrow> nat \<Rightarrow> nat \<Rightarrow> nx_mem \<Rightarrow> (nx_status \<times> nat option \<times> nx_mem) option" where
  "nx_packet_data_extract_offset packet_ptr offset buffer_start buffer_length m = do {
     head \<leftarrow> nx_packets m packet_ptr;
     if nx_packet_length head \<le> offset then
       (if offset = 0 then Some (NX_SUCCESS, Some 0, m) else Some (NX_PACKET_OFFSET_ERROR, None, m))
     else do {
       (working_packet_ptr, source_ptr) \<leftarrow> nx_extract_seek packet_ptr offset m;
       if source_ptr = NX_NULL then Some (NX_PACKET_OFFSET_ERROR, None, m)
       else do {
         let bytes_to_copy = ulong_sub (nx_packet_length head) offset;
         let remaining_bytes = (if bytes_to_copy < buffer_length then bytes_to_copy else buffer_length);
         m' \<leftarrow> nx_extract_loop working_packet_ptr source_ptr buffer_start remaining_bytes m;
         Some (NX_SUCCESS, Some remaining_bytes, m')
       }
     }
   }"

definition nx_packet_length_get :: "nat \<Rightarrow> nx_mem \<Rightarrow> (nx_status \<times> nat) option" where
  "nx_packet_length_get packet_ptr m = do {
     pk \<leftarrow> nx_packets m packet_ptr;
     Some (NX_SUCCESS, nx_packet_length pk)
   }"

section \<open>Copying a packet\<close>

text \<open>The do-while loop over the source chain; the first packet is copied from the start of its
  payload area.\<close>

partial_function (option) nx_copy_loop ::
    "(nat \<Rightarrow> nx_mem \<Rightarrow> nx_mem) \<Rightarrow> nat \<Rightarrow> nat \<Rightarrow> nat \<Rightarrow> bool \<Rightarrow> nat \<Rightarrow> nx_mem \<Rightarrow> (nx_status \<times> nx_mem) option" where
  "nx_copy_loop S pool_ptr wait_option work_ptr first_packet packet_ptr m = do {
     pk \<leftarrow> nx_packets m packet_ptr;
     let from = (if first_packet then nx_packet_data_start pk else nx_packet_prepend_ptr pk);
     (status, m1) \<leftarrow> nx_packet_data_append S work_ptr from (ulong_sub (nx_packet_append_ptr pk) from)
                       pool_ptr wait_option m;
     if status \<noteq> NX_SUCCESS then do {
       (_, m2) \<leftarrow> nx_packet_release work_ptr m1;
       Some (status, m2)
     }
     else do {
       pk1 \<leftarrow> nx_packets m1 packet_ptr;
       if nx_packet_next pk1 = NX_NULL then Some (NX_SUCCESS, m1)
       else nx_copy_loop S pool_ptr wait_option work_ptr False (nx_packet_next pk1) m1
     }
   }"

definition nx_packet_copy ::
    "(nat \<Rightarrow> nx_mem \<Rightarrow> nx_mem) \<Rightarrow> nat \<Rightarrow> nat \<Rightarrow> nat \<Rightarrow> nx_mem \<Rightarrow> (nx_status \<times> nat \<times> nx_mem) option" where
  "nx_packet_copy S packet_ptr pool_ptr wait_option m = do {
     head \<leftarrow> nx_packets m packet_ptr;
     if nx_packet_length head = 0 then Some (NX_INVALID_PACKET, NX_NULL, m)
     else do {
       (status, work_ptr, m1) \<leftarrow> nx_packet_allocate S pool_ptr NX_NULL 0 wait_option m;
       if status \<noteq> NX_SUCCESS then Some (status, NX_NULL, m1)
       else do {
         head1 \<leftarrow> nx_packets m1 packet_ptr;
         m2 \<leftarrow> modify_packet work_ptr (\<lambda>pk. pk\<lparr>nx_packet_interface_ptr := nx_packet_interface_ptr head1,
                                           nx_packet_ip_version := nx_packet_ip_version head1\<rparr>) m1;
         (status, m3) \<leftarrow> nx_copy_loop S pool_ptr wait_option work_ptr True packet_ptr m2;
         if status \<noteq> NX_SUCCESS then Some (status, NX_NULL, m3)
         else do {
           source \<leftarrow> nx_packets m3 packet_ptr;
           let data_prepend_offset = ulong_sub (nx_packet_prepend_ptr source) (nx_packet_data_start source);
           let ip_header_offset = ulong_sub (nx_packet_ip_header source) (nx_packet_data_start source);
           m4 \<leftarrow> modify_packet work_ptr (\<lambda>pk. pk\<lparr>
                  nx_packet_prepend_ptr := nx_packet_data_start pk + data_prepend_offset,
                  nx_packet_length := ulong_sub (nx_packet_length pk) data_prepend_offset,
                  nx_packet_ip_header := nx_packet_data_start pk + ip_header_offset\<rparr>) m3;
           work \<leftarrow> nx_packets m4 work_ptr;
           if nx_packet_length source \<noteq> nx_packet_length work then do {
             (_, m5) \<leftarrow> nx_packet_release work_ptr m4;
             Some (NX_INVALID_PACKET, NX_NULL, m5)
           }
           else Some (NX_SUCCESS, work_ptr, m4)
         }
       }
     }
   }"

section \<open>Making room for a header\<close>

definition nx_packet_data_adjust ::
    "(nat \<Rightarrow> nx_mem \<Rightarrow> nx_mem) \<Rightarrow> nat \<Rightarrow> nat \<Rightarrow> nx_mem \<Rightarrow> (nx_status \<times> nx_mem) option" where
  "nx_packet_data_adjust S packet_ptr header_size m = do {
     pk \<leftarrow> nx_packets m packet_ptr;
     let start = nx_packet_data_start pk;
     let available_size = ulong_add (ulong_sub (nx_packet_prepend_ptr pk) start) (nx_packet_room pk);
     let shift_size = nx_packet_data_size pk;
     if ulong_sub (nx_packet_data_end pk) start < header_size then Some (NX_UNDERFLOW, m)
     else if header_size \<le> ulong_sub (nx_packet_prepend_ptr pk) start then Some (NX_SUCCESS, m)
     else if header_size \<le> available_size then
       Some (NX_SUCCESS,
         put_packet packet_ptr
           (pk\<lparr>nx_packet_prepend_ptr := start + header_size,
               nx_packet_append_ptr := start + header_size + shift_size\<rparr>)
           (put_bytes (start + header_size) (mem_read (nx_memory m) (nx_packet_prepend_ptr pk) shift_size) m))
     else if odd header_size then Some (NX_NOT_SUPPORTED, m)
     else do {
       let append_size = ulong_sub header_size available_size;
       let overflow = nx_packet_append_ptr pk - append_size;
       (status, work_ptr, m1) \<leftarrow> nx_packet_allocate S (nx_packet_pool_owner pk) NX_NULL 0 NX_NO_WAIT m;
       if status \<noteq> NX_SUCCESS then Some (status, m1)
       else do {
         work \<leftarrow> nx_packets m1 work_ptr;
         let m2 = put_packet work_ptr
                    (work\<lparr>nx_packet_append_ptr := nx_packet_prepend_ptr work + append_size,
                          nx_packet_next := nx_packet_next pk\<rparr>)
                    (put_bytes (nx_packet_prepend_ptr work) (mem_read (nx_memory m1) overflow append_size) m1);
         cur \<leftarrow> nx_packets m2 packet_ptr;
         let shift = ulong_sub (nx_packet_data_size cur) append_size;
         Some (NX_SUCCESS,
           put_packet packet_ptr
             (cur\<lparr>nx_packet_prepend_ptr := nx_packet_data_start cur + header_size,
                  nx_packet_append_ptr := nx_packet_data_start cur + header_size + shift,
                  nx_packet_next := work_ptr,
                  nx_packet_last := (if nx_packet_last cur = NX_NULL then work_ptr else nx_packet_last cur)\<rparr>)
             (put_bytes (nx_packet_data_start cur + header_size)
               (mem_read (nx_memory m2) (nx_packet_prepend_ptr cur) shift) m2))
       }
     }
   }"

end
