(* ===== verification/Nx_Packet_Frame.thy ===== *)
theory Nx_Packet_Frame imports Nx_Pool_Inv Nx_Packet_Data begin

text \<open>
  What the packet services leave alone: the frame of a step, well-formed chains, and the
  release of a chain when no thread waits.
\<close>

section \<open>Frames\<close>

definition payload_area :: "nx_packet \<Rightarrow> nat \<times> nat \<times> nat" where
  "payload_area pk = (nx_packet_pool_owner pk, nx_packet_data_start pk, nx_packet_data_end pk)"

definition pool_shape :: "nx_packet_pool \<Rightarrow> nat list \<times> nat" where
  "pool_shape pool = (nx_packet_pool_suspension_list pool, nx_packet_pool_payload_size pool)"

text \<open>Only the headers in \<open>A\<close> change, none changes its owner or payload area, and pools keep
  their waiting threads.\<close>

definition changes_only :: "nat set \<Rightarrow> nx_mem \<Rightarrow> nx_mem \<Rightarrow> bool" where
  "changes_only A m m' \<longleftrightarrow>
     (\<forall>a. a \<notin> A \<longrightarrow> nx_packets m' a = nx_packets m a) \<and>
     (\<forall>a. map_option payload_area (nx_packets m' a) = map_option payload_area (nx_packets m a)) \<and>
     tx_threads m' = tx_threads m \<and>
     (\<forall>P. map_option pool_shape (nx_pools m' P) = map_option pool_shape (nx_pools m P))"

lemma changes_only_refl [simp]: "changes_only A m m"
  by (simp add: changes_only_def)

lemma changes_only_trans:
  "changes_only A m m' \<Longrightarrow> changes_only B m' m'' \<Longrightarrow> A \<union> B \<subseteq> C \<Longrightarrow> changes_only C m m''"
  unfolding changes_only_def by (metis (no_types, lifting) UnCI subsetD)

lemma changes_only_mono: "changes_only A m m' \<Longrightarrow> A \<subseteq> B \<Longrightarrow> changes_only B m m'"
  by (auto simp: changes_only_def)

lemma changes_only_same: "changes_only A m m' \<Longrightarrow> a \<notin> A \<Longrightarrow> nx_packets m' a = nx_packets m a"
  by (simp add: changes_only_def)

lemma changes_only_put_packet:
  "nx_packets m a = Some pk \<Longrightarrow> payload_area pk' = payload_area pk \<Longrightarrow> a \<in> A \<Longrightarrow>
     changes_only A m (put_packet a pk' m)"
  by (auto simp: changes_only_def)

lemma changes_only_put_bytes [simp]:
  "changes_only A m (put_bytes a bs m') \<longleftrightarrow> changes_only A m m'"
  by (simp add: changes_only_def)

lemma changes_only_area:
  assumes "changes_only A m m'" "nx_packets m a = Some pk"
  shows "\<exists>pk'. nx_packets m' a = Some pk' \<and> nx_packet_pool_owner pk' = nx_packet_pool_owner pk \<and>
     nx_packet_data_start pk' = nx_packet_data_start pk \<and> nx_packet_data_end pk' = nx_packet_data_end pk"
proof -
  have "map_option payload_area (nx_packets m' a) = Some (payload_area pk)"
    using assms by (simp add: changes_only_def)
  then show ?thesis by (auto simp: payload_area_def)
qed

lemma changes_only_area_back:
  assumes "changes_only A m m'" "nx_packets m' a = Some pk'"
  shows "\<exists>pk. nx_packets m a = Some pk \<and> nx_packet_pool_owner pk' = nx_packet_pool_owner pk \<and>
     nx_packet_data_start pk' = nx_packet_data_start pk \<and> nx_packet_data_end pk' = nx_packet_data_end pk"
proof -
  have "map_option payload_area (nx_packets m a) = Some (payload_area pk')"
    using assms unfolding changes_only_def by (metis option.map(2))
  then show ?thesis by (auto simp: payload_area_def)
qed

lemma changes_only_separate:
  assumes "changes_only A m m'" "payloads_separate m"
  shows "payloads_separate m'"
  unfolding payloads_separate_def
proof (intro allI impI)
  fix p q pk qk assume pq: "nx_packets m' p = Some pk" "nx_packets m' q = Some qk" "p \<noteq> q"
  obtain pk0 qk0 where "nx_packets m p = Some pk0" "nx_packets m q = Some qk0"
    "nx_packet_data_start pk = nx_packet_data_start pk0" "nx_packet_data_end pk = nx_packet_data_end pk0"
    "nx_packet_data_start qk = nx_packet_data_start qk0" "nx_packet_data_end qk = nx_packet_data_end qk0"
    using changes_only_area_back [OF assms(1) pq(1)] changes_only_area_back [OF assms(1) pq(2)] by auto
  moreover from this have "separate pk0 qk0"
    using assms(2) pq(3) by (auto simp: payloads_separate_def)
  ultimately show "separate pk qk" by (simp add: separate_def)
qed

lemma changes_only_pool:
  assumes "changes_only A m m'" "nx_pools m P = Some pool"
  shows "\<exists>pool'. nx_pools m' P = Some pool' \<and>
     nx_packet_pool_suspension_list pool' = nx_packet_pool_suspension_list pool \<and>
     nx_packet_pool_payload_size pool' = nx_packet_pool_payload_size pool"
proof -
  have "map_option pool_shape (nx_pools m' P) = Some (pool_shape pool)"
    using assms by (simp add: changes_only_def)
  then show ?thesis by (auto simp: pool_shape_def)
qed

lemma changes_only_none: "changes_only A m m' \<Longrightarrow> nx_pools m' P = None \<longleftrightarrow> nx_pools m P = None"
  by (metis changes_only_def option.map_disc_iff)

lemma changes_only_dom: "changes_only A m m' \<Longrightarrow> dom (nx_pools m') = dom (nx_pools m)"
  by (simp add: dom_def changes_only_none)

lemma changes_only_idle:
  assumes "changes_only A m m'" "idle m P"
  shows "idle m' P"
proof (cases "nx_pools m P")
  case None
  then have "nx_pools m' P = None" using changes_only_none [OF assms(1)] by simp
  then show ?thesis by (simp add: idle_def)
next
  case (Some pool)
  then show ?thesis using changes_only_pool [OF assms(1) Some] assms(2) by (auto simp: idle_def)
qed

lemma chain_changes_only:
  assumes "changes_only A m m'" "A \<inter> set ps = {}"
  shows "chain m' p ps \<longleftrightarrow> chain m p ps"
proof (rule linked_cong)
  fix q assume "q \<in> set ps"
  then have "nx_packets m' q = nx_packets m q"
    using assms by (intro changes_only_same [OF assms(1)]) auto
  then show "map_option nx_packet_next (nx_packets m' q) = map_option nx_packet_next (nx_packets m q)"
    by simp
qed

lemma pools_inv_cong:
  "pools_inv m F \<Longrightarrow> nx_packets m' = nx_packets m \<Longrightarrow> nx_pools m' = nx_pools m \<Longrightarrow>
     tx_threads m' = tx_threads m \<Longrightarrow> pools_inv m' F"
  by (simp add: pools_inv_def pool_inv_def free_list_ok_def waiting_ok_def area_ok_def pool_packets_def)

section \<open>Chains\<close>

text \<open>A packet chain as the services keep it: no packet twice, none of them free, the data of
  each inside its payload area, and the last pointer of the head at the end of the chain. A
  single packet may have none.\<close>

definition in_use :: "nx_mem \<Rightarrow> nat \<Rightarrow> bool" where
  "in_use m a \<longleftrightarrow> (\<exists>pk. nx_packets m a = Some pk \<and> packet_ok pk \<and> nx_packet_tcp_queue_next pk \<noteq> NX_PACKET_FREE)"

definition last_ptr_ok :: "nx_mem \<Rightarrow> nat list \<Rightarrow> bool" where
  "last_ptr_ok m ps \<longleftrightarrow> (\<exists>head. nx_packets m (hd ps) = Some head \<and>
     (nx_packet_last head = last ps \<or> nx_packet_last head = NX_NULL \<and> tl ps = []))"

definition chain_wf :: "nx_mem \<Rightarrow> nat \<Rightarrow> nat list \<Rightarrow> bool" where
  "chain_wf m p ps \<longleftrightarrow> ps \<noteq> [] \<and> chain m p ps \<and> distinct ps \<and> (\<forall>a \<in> set ps. in_use m a) \<and> last_ptr_ok m ps"

lemma chain_wf_hd: "chain_wf m p ps \<Longrightarrow> hd ps = p \<and> p \<noteq> NX_NULL \<and> p \<in> set ps"
  by (cases ps) (auto simp: chain_wf_def)

lemma in_useE:
  assumes "in_use m a"
  obtains pk where "nx_packets m a = Some pk" "packet_ok pk" "nx_packet_tcp_queue_next pk \<noteq> NX_PACKET_FREE"
  using assms by (auto simp: in_use_def)

lemma in_use_not_free:
  assumes "pools_inv m F" "nx_pools m P = Some pool" "in_use m a"
  shows "a \<notin> set (F P)"
  using free_listD [OF assms(1,2), of a] assms(3) by (auto simp: in_use_def)

lemma linked_last:
  "linked link h p ps \<Longrightarrow> ps \<noteq> [] \<Longrightarrow> \<exists>pk. h (last ps) = Some pk \<and> link pk = NX_NULL \<and> last ps \<noteq> NX_NULL"
  by (induction ps arbitrary: p) (auto split: if_splits)

text \<open>A packet that has just come from a pool of payload size \<open>n\<close>, for a packet type of 0.\<close>

definition fresh :: "nx_mem \<Rightarrow> nat \<Rightarrow> nat \<Rightarrow> nat \<Rightarrow> bool" where
  "fresh m P n a \<longleftrightarrow> a \<noteq> NX_NULL \<and> (\<exists>pk. nx_packets m a = Some pk \<and> nx_packet_pool_owner pk = P \<and>
     nx_packet_tcp_queue_next pk = NX_PACKET_ALLOCATED \<and> slot_ok n pk \<and>
     nx_packet_prepend_ptr pk = nx_packet_data_start pk \<and> nx_packet_append_ptr pk = nx_packet_data_start pk)"

lemma fresh_in_use: "fresh m P n a \<Longrightarrow> in_use m a"
  by (auto simp: fresh_def in_use_def packet_ok_def slot_ok_def)

lemma fresh_bytes: "fresh m P n a \<Longrightarrow> packet_bytes m a = []"
  by (auto simp: fresh_def packet_bytes_def)

lemma fresh_allocated: "fresh m P n a \<Longrightarrow> nx_pools m P = Some pool \<Longrightarrow> allocated m a"
  by (auto simp: fresh_def allocated_def)

lemma nx_packet_room_eq: "packet_ok pk \<Longrightarrow> nx_packet_room pk = room pk"
  by (simp add: nx_packet_room_def room_def packet_ok_def)

lemma nx_packet_data_size_eq:
  "packet_ok pk \<Longrightarrow> nx_packet_data_size pk = nx_packet_append_ptr pk - nx_packet_prepend_ptr pk"
  by (simp add: nx_packet_data_size_def packet_ok_def)

lemma fresh_room: "fresh m P n a \<Longrightarrow> nx_packets m a = Some pk \<Longrightarrow> nx_packet_room pk = n"
  by (auto simp: fresh_def slot_ok_def nx_packet_room_def)

section \<open>Releasing a chain when no thread waits\<close>

lemma freed_changes_only:
  assumes "nx_packets m a = Some pk" "nx_pools m P = Some pool"
  shows "changes_only {a} m (freed P pool a pk m)" "nx_memory (freed P pool a pk m) = nx_memory m"
  using assms by (auto simp: changes_only_def freed_def payload_area_def pool_shape_def)

lemma nx_packet_release_idle:
  assumes "pools_inv m F" "chain m p ps" "distinct ps" "\<And>a. a \<in> set ps \<Longrightarrow> allocated m a" "\<And>P. idle m P"
  shows "\<exists>m'. nx_packet_release p m = Some (NX_SUCCESS, m') \<and> pools_inv m' (released m F ps) \<and>
     changes_only (set ps) m m' \<and> nx_memory m' = nx_memory m"
  using assms
proof (induction ps arbitrary: p m F)
  case Nil
  then show ?case by (simp add: nx_packet_release.simps)
next
  case (Cons a ps)
  then obtain pk where pk: "nx_packets m a = Some pk" and p: "p = a" "a \<noteq> NX_NULL"
    and tl: "chain m (nx_packet_next pk) ps" and al: "allocated m a"
    by auto
  define P where "P = nx_packet_pool_owner pk"
  obtain pool where P: "nx_pools m P = Some pool" and mark: "nx_packet_tcp_queue_next pk = NX_PACKET_ALLOCATED"
    using al pk by (auto simp: allocated_def P_def)
  have nobody: "nx_packet_pool_suspension_list pool = []" using Cons.prems(5) [of P] P by (simp add: idle_def)
  define m1 where "m1 = freed P pool a pk m"
  have put: "nx_packet_put_back a pk m = Some m1"
    using put_back_cases [OF P, of pk a] nobody by (simp add: m1_def P_def)
  have inv1: "pools_inv m1 (F(P := a # F P))"
    unfolding m1_def by (rule freed_inv [OF Cons.prems(1) P pk]) (use p mark nobody P_def in auto)
  have ch: "changes_only {a} m m1" "nx_memory m1 = nx_memory m"
    unfolding m1_def by (rule freed_changes_only [OF pk P])+
  have out: "{a} \<inter> set ps = {}" using Cons.prems(3) by simp
  have "allocated m1 b" if "b \<in> set ps" for b
  proof -
    have "nx_packets m1 b = nx_packets m b"
      by (rule changes_only_same [OF ch(1)]) (use that out in auto)
    then show ?thesis
      using Cons.prems(4) [of b] that changes_only_dom [OF ch(1)] by (auto simp: allocated_def)
  qed
  moreover have "chain m1 (nx_packet_next pk) ps" using chain_changes_only [OF ch(1) out] tl by simp
  ultimately obtain m' where m': "nx_packet_release (nx_packet_next pk) m1 = Some (NX_SUCCESS, m')"
    "pools_inv m' (released m1 (F(P := a # F P)) ps)" "changes_only (set ps) m1 m'" "nx_memory m' = nx_memory m1"
    using Cons.IH [OF inv1, of "nx_packet_next pk"] Cons.prems(3) changes_only_idle [OF ch(1) Cons.prems(5)]
    by (auto simp del: fun_upd_apply)
  have "nx_packet_release p m = Some (NX_SUCCESS, m')"
    using p pk mark put m'(1) by (subst nx_packet_release.simps) auto
  moreover have "nx_packets m1 b = nx_packets m b" if "b \<in> set ps" for b
    by (rule changes_only_same [OF ch(1)]) (use that out in auto)
  then have "released m1 (F(P := a # F P)) ps = released m (F(P := a # F P)) ps"
    by (rule released_cong)
  then have "released m1 (F(P := a # F P)) ps = released m F (a # ps)" using pk by (simp add: P_def)
  moreover have "changes_only (set (a # ps)) m m'" by (rule changes_only_trans [OF ch(1) m'(3)]) auto
  ultimately show ?case using m'(2,4) ch(2) by auto
qed

end
