(* ===== verification/Nx_Append_Alloc.thy ===== *)
theory Nx_Append_Alloc imports Nx_Packet_Frame begin

text \<open>
  The allocation loop of \<open>nx_packet_data_append\<close>: it builds a temporary chain of fresh packets
  until they hold the data, or gives back all it took.
\<close>

section \<open>The temporary list\<close>

definition newlist :: "nx_mem \<Rightarrow> nat \<Rightarrow> nat \<Rightarrow> nat \<Rightarrow> nat list \<Rightarrow> bool" where
  "newlist m P n nl qs \<longleftrightarrow> chain m nl qs \<and> distinct qs \<and> (\<forall>q \<in> set qs. fresh m P n q) \<and>
     (qs \<noteq> [] \<longrightarrow> (\<exists>head. nx_packets m nl = Some head \<and>
        nx_packet_last head = (if tl qs = [] then NX_NULL else last qs)))"

lemma newlist_Nil [simp]: "newlist m P n nl [] \<longleftrightarrow> nl = NX_NULL"
  by (auto simp: newlist_def)

lemma newlist_nonnull: "newlist m P n nl qs \<Longrightarrow> nl \<noteq> NX_NULL \<longleftrightarrow> qs \<noteq> []"
  by (auto simp: newlist_def linked_nil_iff)

lemma fresh_cong: "nx_packets m' a = nx_packets m a \<Longrightarrow> fresh m' P n a \<longleftrightarrow> fresh m P n a"
  by (simp add: fresh_def)

text \<open>A fresh packet stays fresh when only its links change.\<close>

lemma fresh_relink:
  "fresh m P n a \<Longrightarrow> nx_packets m a = Some pk \<Longrightarrow>
     nx_packets m' a = Some (pk\<lparr>nx_packet_next := x, nx_packet_last := y\<rparr>) \<Longrightarrow> fresh m' P n a"
  by (auto simp: fresh_def slot_ok_def)

lemma newlist_same:
  assumes "newlist m P n nl qs" "\<And>q. q \<in> set qs \<Longrightarrow> nx_packets m' q = nx_packets m q"
  shows "newlist m' P n nl qs"
proof -
  have "chain m' nl qs \<longleftrightarrow> chain m nl qs" by (rule linked_cong) (simp add: assms(2))
  moreover have "nx_packets m' nl = nx_packets m nl" if "qs \<noteq> []"
    using assms that by (cases qs) (auto simp: newlist_def)
  moreover have "fresh m' P n q \<longleftrightarrow> fresh m P n q" if "q \<in> set qs" for q
    using fresh_cong [OF assms(2) [OF that]] .
  ultimately show ?thesis using assms(1) by (simp add: newlist_def)
qed

lemma pools_inv_relink:
  assumes "fresh m P n a" "nx_packets m a = Some pk" "pools_inv m F"
  shows "pools_inv (put_packet a (pk\<lparr>nx_packet_next := x, nx_packet_last := y\<rparr>) m) F"
  by (rule pools_inv_put_live [OF assms(3,2)]) (use assms(1,2) in \<open>auto simp: fresh_def\<close>)

lemma nx_append_link_ok:
  assumes nl: "newlist m P n nl qs" and w: "fresh m P n w" "w \<notin> set qs" "nx_packets m w = Some pkw"
    and alone: "nx_packet_next pkw = NX_NULL" "nx_packet_last pkw = NX_NULL"
  shows "\<exists>m' nl'. nx_append_link nl w m = Some (nl', m') \<and> newlist m' P n nl' (qs @ [w]) \<and>
     changes_only (set qs) m m' \<and> nx_memory m' = nx_memory m \<and> nx_pools m' = nx_pools m \<and>
     (\<forall>F. pools_inv m F \<longrightarrow> pools_inv m' F)"
proof (cases qs)
  case Nil
  then show ?thesis
    using nl w alone by (auto simp: nx_append_link_def newlist_def fresh_def)
next
  case (Cons q us)
  have w0: "w \<noteq> NX_NULL" and wc: "chain m w [w]" using w alone by (auto simp: fresh_def)
  obtain head where head: "nx_packets m nl = Some head" and nlq: "nl = q" "q \<noteq> NX_NULL"
    and tail: "nx_packet_last head = (if us = [] then NX_NULL else last us)" and fq: "fresh m P n q"
    using nl Cons by (auto simp: newlist_def split: if_splits)
  show ?thesis
  proof (cases "us = []")
    case True
    define m' where "m' = put_packet q (head\<lparr>nx_packet_next := w, nx_packet_last := w\<rparr>) m"
    have eq: "head\<lparr>nx_packet_last := w, nx_packet_next := w\<rparr> = head\<lparr>nx_packet_next := w, nx_packet_last := w\<rparr>"
      by simp
    have "nx_append_link nl w m = Some (q, m')"
      using head nlq tail True by (simp add: nx_append_link_def m'_def eq)
    moreover have "newlist m' P n q [q, w]"
      using w w0 nlq head alone Cons True fresh_relink [OF fq, of head m' w w] fresh_cong [of m' w m]
      by (auto simp: newlist_def m'_def)
    moreover have "changes_only (set qs) m m'"
      unfolding m'_def by (rule changes_only_put_packet) (use head nlq Cons in \<open>auto simp: payload_area_def\<close>)
    moreover have "pools_inv m' F" if "pools_inv m F" for F
      unfolding m'_def by (rule pools_inv_relink [OF fq _ that]) (use head nlq in simp)
    ultimately show ?thesis using Cons True by (auto simp: m'_def)
  next
    case False
    define z where "z = last us"
    have zin: "z \<in> set us" and zq: "z \<noteq> q" and fz: "fresh m P n z" and qs: "qs = butlast qs @ [z]"
      using False nl Cons last_in_set [OF False] by (auto simp: z_def newlist_def)
    obtain pkz where pkz: "nx_packets m z = Some pkz" using fz by (auto simp: fresh_def)
    define m1 where "m1 = put_packet z (pkz\<lparr>nx_packet_next := w\<rparr>) m"
    define m' where "m' = put_packet q (head\<lparr>nx_packet_last := w\<rparr>) m1"
    have z0: "z \<noteq> NX_NULL" using fz by (simp add: fresh_def)
    have h1: "nx_packets m1 q = Some head" using head nlq zq by (simp add: m1_def)
    have call: "nx_append_link nl w m = Some (q, m')"
      using head nlq tail False pkz h1 z0 zq
      by (simp add: nx_append_link_def modify_packet_def m'_def z_def [symmetric])
        (use zq in \<open>simp add: m1_def\<close>)
    have "chain m nl (butlast qs @ [z])" "distinct (butlast qs @ [z])"
      using nl qs by (simp_all add: newlist_def)
    moreover have "z \<notin> set [w]" using w(2) zin Cons by auto
    ultimately have "chain m1 nl (butlast qs @ [z, w])"
      unfolding m1_def put_packet_simps
      by (intro linked_append_link [where r = w]) (use wc pkz in auto)
    then have "chain m1 nl (qs @ [w])" using qs by (metis append.assoc append_Cons append_Nil)
    then have "chain m' q (qs @ [w])"
      using linked_upd_same_link [of "nx_packets m1" q head nx_packet_next "head\<lparr>nx_packet_last := w\<rparr>"] h1 nlq
      by (simp add: m'_def)
    moreover have "fresh m' P n x" if x: "x \<in> set (qs @ [w])" for x
    proof -
      consider "x = q" | "x = z" "x \<noteq> q" | "x \<noteq> q" "x \<noteq> z" by blast
      then show ?thesis
      proof cases
        case 1
        then show ?thesis using fresh_relink [OF fq, of head m' w "nx_packet_next head"] head nlq
          by (simp add: m'_def)
      next
        case 2
        then show ?thesis using fresh_relink [OF fz pkz, of m' "nx_packet_last pkz" w]
          by (simp add: m'_def m1_def)
      next
        case 3
        then have "nx_packets m' x = nx_packets m x" by (simp add: m'_def m1_def)
        then show ?thesis using x w nl by (auto simp: newlist_def fresh_cong [of m' x m])
      qed
    qed
    ultimately have "newlist m' P n q (qs @ [w])"
      using nl w Cons by (auto simp: newlist_def m'_def)
    moreover have "changes_only (set qs) m m1"
      unfolding m1_def by (rule changes_only_put_packet [OF pkz]) (use zin Cons in \<open>auto simp: payload_area_def\<close>)
    then have "changes_only (set qs) m m'"
      unfolding m'_def
      by (rule changes_only_trans [OF _ changes_only_put_packet [OF h1, of _ "{q}"]])
        (use Cons in \<open>auto simp: payload_area_def\<close>)
    moreover have "pools_inv m' F" if "pools_inv m F" for F
    proof -
      have "pools_inv m1 F"
        unfolding m1_def by (rule pools_inv_put_live [OF that pkz]) (use fz pkz in \<open>auto simp: fresh_def\<close>)
      then show ?thesis
        unfolding m'_def by (rule pools_inv_put_live [OF _ h1]) (use fq head nlq in \<open>auto simp: fresh_def\<close>)
    qed
    ultimately show ?thesis using call by (auto simp: m'_def m1_def)
  qed
qed

section \<open>The loop\<close>

text \<open>How many packets of payload size \<open>n\<close> are missing.\<close>

definition need :: "nat \<Rightarrow> nat \<Rightarrow> nat \<Rightarrow> nat" where
  "need n available data_size = (data_size - available + n - 1) div n"

lemma need_0 [simp]: "data_size \<le> available \<Longrightarrow> 0 < n \<Longrightarrow> need n available data_size = 0"
  by (simp add: need_def)

lemma need_Suc:
  assumes "available < data_size" "0 < n"
  shows "need n available data_size = Suc (need n (available + n) data_size)"
proof -
  obtain d where d: "data_size = available + Suc d" using assms(1) less_iff_Suc_add by auto
  have "need n available data_size = Suc (d div n)" using assms(2) by (simp add: need_def d div_add_self2)
  moreover have "need n (available + n) data_size = d div n"
  proof (cases "d < n")
    case True
    then show ?thesis using assms(2) by (simp add: need_def d)
  next
    case False
    then have "Suc d - n + n - 1 = d" by simp
    then show ?thesis using d by (simp add: need_def)
  qed
  ultimately show ?thesis by simp
qed

lemma taken_changes_only:
  assumes "nx_packets m a = Some pk" "nx_pools m P = Some pool"
  shows "changes_only {a} m (taken P pool k a pk m)" "nx_memory (taken P pool k a pk m) = nx_memory m"
  using assms by (auto simp: changes_only_def taken_def payload_area_def pool_shape_def alloc_header_def)

lemma taken_fresh:
  assumes "nx_packet_pool_owner pk = P" "slot_ok n pk" "a \<noteq> NX_NULL"
  shows "fresh (taken P pool 0 a pk m) P n a"
  using assms by (simp add: fresh_def taken_def slot_ok_def)

text \<open>One turn of the loop that gets a packet.\<close>

lemma nx_append_allocate_turn:
  assumes inv: "pools_inv m F" and P: "nx_pools m P = Some pool" and n: "nx_packet_pool_payload_size pool = n"
    and nl: "newlist m P n nl qs" and F: "F P = a # fs"
    and less: "available < data_size" "available + n < ULONG_RANGE"
  shows "\<exists>m' nl' pool'. nx_append_allocate S P w data_size wp nl available m =
       nx_append_allocate S P w data_size a nl' (available + n) m' \<and>
     newlist m' P n nl' (qs @ [a]) \<and> pools_inv m' (F(P := fs)) \<and> changes_only (set qs \<union> {a}) m m' \<and>
     nx_memory m' = nx_memory m \<and> nx_pools m' P = Some pool' \<and> nx_packet_pool_payload_size pool' = n"
proof -
  obtain pk where pk: "nx_packets m a = Some pk" "nx_packet_pool_owner pk = P" "a \<noteq> NX_NULL"
    "nx_packet_tcp_queue_next pk = NX_PACKET_FREE" "slot_ok n pk"
    and call: "nx_packet_allocate S P wp 0 w m = Some (NX_SUCCESS, a, taken P pool 0 a pk m)"
    and inv1: "pools_inv (taken P pool 0 a pk m) (F(P := fs))"
    using nx_packet_allocate_success [OF inv P F, of 0 S wp w] n by auto
  define m1 where "m1 = taken P pool 0 a pk m"
  have ch1: "changes_only {a} m m1" "nx_memory m1 = nx_memory m"
    unfolding m1_def by (rule taken_changes_only [OF pk(1) P])+
  have new: "a \<notin> set qs" using nl pk by (auto simp: newlist_def fresh_def)
  have fr: "fresh m1 P n a" unfolding m1_def by (rule taken_fresh [OF pk(2,5,3)])
  have at: "nx_packets m1 a = Some (alloc_header 0 pk)" by (simp add: m1_def taken_def)
  have "newlist m1 P n nl qs"
    using nl by (rule newlist_same) (use ch1 new in \<open>auto simp: changes_only_def\<close>)
  then obtain m' nl' where m': "nx_append_link nl a m1 = Some (nl', m')" "newlist m' P n nl' (qs @ [a])"
    "changes_only (set qs) m1 m'" "nx_memory m' = nx_memory m1" "nx_pools m' = nx_pools m1"
    "\<And>G. pools_inv m1 G \<Longrightarrow> pools_inv m' G"
    using nx_append_link_ok [OF _ fr new at, of nl] by auto
  obtain pk' where pk': "nx_packets m' a = Some pk'" "nx_packet_room pk' = n"
    using m'(2) fresh_room [of m' P n a] by (auto simp: newlist_def fresh_def)
  have "nx_append_allocate S P w data_size wp nl available m =
      nx_append_allocate S P w data_size a nl' (available + n) m'"
    using less call m'(1) pk' by (subst nx_append_allocate.simps) (simp add: m1_def)
  moreover have "changes_only (set qs \<union> {a}) m m'"
    by (rule changes_only_trans [OF ch1(1) m'(3)]) auto
  moreover obtain pool' where "nx_pools m' P = Some pool'" "nx_packet_pool_payload_size pool' = n"
    using m'(5) n by (simp add: m1_def taken_def)
  ultimately show ?thesis using m'(2,4,6) inv1 ch1(2) by (metis m1_def)
qed

lemma nx_append_allocate_ok:
  assumes "pools_inv m F" "nx_pools m P = Some pool" "nx_packet_pool_payload_size pool = n" "0 < n"
    and "newlist m P n nl qs" "data_size \<le> available + n * length (F P)"
    and "data_size + n < ULONG_RANGE"
  shows "\<exists>m' nl'. nx_append_allocate S P w data_size wp nl available m = Some (NX_SUCCESS, nl', m') \<and>
     newlist m' P n nl' (qs @ take (need n available data_size) (F P)) \<and>
     pools_inv m' (F(P := drop (need n available data_size) (F P))) \<and>
     changes_only (set qs \<union> set (F P)) m m' \<and> nx_memory m' = nx_memory m"
  using assms
proof (induction "F P" arbitrary: F m pool nl qs available wp)
  case Nil
  then have "F(P := []) = F" by (metis fun_upd_triv)
  then show ?case
    using Nil by (subst nx_append_allocate.simps) (simp flip: Nil.hyps)
next
  case (Cons a fs)
  show ?case
  proof (cases "available < data_size")
    case False
    have "F(P := F P) = F" by simp
    then show ?thesis
      using False Cons.prems by (subst nx_append_allocate.simps) (simp del: fun_upd_triv)
  next
    case True
    have fit: "available + n < ULONG_RANGE" using True Cons.prems(7) by linarith
    obtain m1 nl1 pool1 where m1: "nx_append_allocate S P w data_size wp nl available m =
         nx_append_allocate S P w data_size a nl1 (available + n) m1"
       "newlist m1 P n nl1 (qs @ [a])" "pools_inv m1 (F(P := fs))" "changes_only (set qs \<union> {a}) m m1"
       "nx_memory m1 = nx_memory m" "nx_pools m1 P = Some pool1" "nx_packet_pool_payload_size pool1 = n"
      using nx_append_allocate_turn [OF Cons.prems(1,2,3,5) Cons.hyps(2)[symmetric] True fit] by blast
    have size: "data_size \<le> available + n + n * length ((F(P := fs)) P)"
      using Cons.prems(6) by (simp flip: Cons.hyps(2))
    obtain m' nl' where m': "nx_append_allocate S P w data_size a nl1 (available + n) m1 = Some (NX_SUCCESS, nl', m')"
      "newlist m' P n nl' ((qs @ [a]) @ take (need n (available + n) data_size) fs)"
      "pools_inv m' ((F(P := fs)) (P := drop (need n (available + n) data_size) fs))"
      "changes_only (set (qs @ [a]) \<union> set fs) m1 m'" "nx_memory m' = nx_memory m1"
      using Cons.hyps(1) [of "F(P := fs)", OF _ m1(3,6,7) Cons.prems(4) m1(2) size Cons.prems(7)] by fastforce
    have "changes_only (set qs \<union> set (F P)) m m'"
      by (rule changes_only_trans [OF m1(4) m'(4)]) (simp flip: Cons.hyps(2))
    then show ?thesis
      using m1(1,5) m'(1,2,3,5) need_Suc [OF True Cons.prems(4)] by (simp flip: Cons.hyps(2))
  qed
qed

text \<open>The loop runs out of packets: everything it took goes back.\<close>

lemma newlist_release:
  assumes nl: "newlist m P n nl qs" and inv: "pools_inv m F" and P: "nx_pools m P = Some pool"
    and idle: "\<And>Q. idle m Q"
  shows "\<exists>m' F'. nx_packet_release nl m = Some (NX_SUCCESS, m') \<and> pools_inv m' F' \<and>
     F' = F(P := rev qs @ F P) \<and> changes_only (set qs) m m' \<and> nx_memory m' = nx_memory m"
proof -
  have q: "fresh m P n a" if "a \<in> set qs" for a using nl that by (simp add: newlist_def)
  have own: "owned_by m Q a \<longleftrightarrow> Q = P" if "a \<in> set qs" for a Q
    using q [OF that] by (auto simp: fresh_def owned_by_def)
  obtain m' where m': "nx_packet_release nl m = Some (NX_SUCCESS, m')" "pools_inv m' (released m F qs)"
    "changes_only (set qs) m m'" "nx_memory m' = nx_memory m"
    using nx_packet_release_idle [OF inv, of nl qs] nl fresh_allocated [OF q P] idle
    by (auto simp: newlist_def)
  have "released m F qs Q = (F(P := rev qs @ F P)) Q" for Q
  proof -
    have "released m F qs Q = rev (filter (owned_by m Q) qs) @ F Q"
      by (rule released_at) (use q in \<open>auto simp: fresh_def\<close>)
    also have "filter (owned_by m Q) qs = (if Q = P then qs else [])"
      using own by (auto simp: filter_empty_conv cong: filter_cong)
    finally show ?thesis by simp
  qed
  then have "released m F qs = F(P := rev qs @ F P)" by blast
  then show ?thesis using m' by auto
qed

lemma nx_append_allocate_fails:
  assumes "pools_inv m F" "nx_pools m P = Some pool" "nx_packet_pool_payload_size pool = n"
    and "newlist m P n nl qs" "available + n * length (F P) < data_size"
    and "data_size + n < ULONG_RANGE" "\<And>Q. idle m Q"
  shows "\<exists>m' nl'. nx_append_allocate S P NX_NO_WAIT data_size wp nl available m = Some (NX_NO_PACKET, nl', m') \<and>
     pools_inv m' (F(P := rev (qs @ F P))) \<and>
     changes_only (set qs \<union> set (F P)) m m' \<and> nx_memory m' = nx_memory m"
  using assms
proof (induction "F P" arbitrary: F m pool nl qs available wp)
  case Nil
  define m1 where "m1 = refused P pool m"
  have call: "nx_packet_allocate S P wp 0 NX_NO_WAIT m = Some (NX_NO_PACKET, NX_NULL, m1)"
    and inv1: "pools_inv m1 F"
    unfolding m1_def
    by (rule nx_packet_allocate_empty(1) [OF Nil.prems(1,2) Nil.hyps [symmetric] le0],
        rule nx_packet_allocate_empty(2) [OF Nil.prems(1,2) Nil.hyps [symmetric] le0])
  have ch: "changes_only {} m m1" "nx_memory m1 = nx_memory m" "nx_packets m1 = nx_packets m"
    using Nil.prems(2) by (auto simp: changes_only_def m1_def refused_def pool_shape_def)
  have less: "available < data_size" using Nil.prems(5) by simp
  show ?case
  proof (cases "qs = []")
    case True
    then have "nl = NX_NULL" using Nil.prems(4) by simp
    moreover have "F(P := rev (qs @ F P)) = F" using True Nil.hyps by (metis append.right_neutral fun_upd_triv rev.simps(1))
    ultimately show ?thesis
      using less call inv1 ch True by (subst nx_append_allocate.simps) (auto simp flip: Nil.hyps)
  next
    case False
    then have nl: "nl \<noteq> NX_NULL" using Nil.prems(4) newlist_nonnull by blast
    have "newlist m1 P n nl qs" using Nil.prems(4) by (rule newlist_same) (simp add: ch(3))
    moreover obtain pool1 where "nx_pools m1 P = Some pool1" using changes_only_pool [OF ch(1) Nil.prems(2)] by auto
    ultimately obtain m' where m': "nx_packet_release nl m1 = Some (NX_SUCCESS, m')"
      "pools_inv m' (F(P := rev qs @ F P))" "changes_only (set qs) m1 m'" "nx_memory m' = nx_memory m1"
      using newlist_release [OF _ inv1 _ changes_only_idle [OF ch(1) Nil.prems(7)]] by blast
    have "nx_append_allocate S P NX_NO_WAIT data_size wp nl available m = Some (NX_NO_PACKET, nl, m')"
      using less call nl m'(1) by (subst nx_append_allocate.simps) simp
    moreover have "changes_only (set qs \<union> set (F P)) m m'" by (rule changes_only_trans [OF ch(1) m'(3)]) auto
    ultimately show ?thesis using m'(2,4) ch(2) by (auto simp flip: Nil.hyps simp del: fun_upd_apply)
  qed
next
  case (Cons a fs)
  have less: "available < data_size" using Cons.prems(5) by simp
  have fit: "available + n < ULONG_RANGE" using less Cons.prems(6) by linarith
  obtain m1 nl1 pool1 where m1: "nx_append_allocate S P NX_NO_WAIT data_size wp nl available m =
       nx_append_allocate S P NX_NO_WAIT data_size a nl1 (available + n) m1"
     "newlist m1 P n nl1 (qs @ [a])" "pools_inv m1 (F(P := fs))" "changes_only (set qs \<union> {a}) m m1"
     "nx_memory m1 = nx_memory m" "nx_pools m1 P = Some pool1" "nx_packet_pool_payload_size pool1 = n"
    using nx_append_allocate_turn [OF Cons.prems(1-4) Cons.hyps(2)[symmetric] less fit] by blast
  have size: "available + n + n * length ((F(P := fs)) P) < data_size"
    using Cons.prems(5) by (simp flip: Cons.hyps(2))
  obtain m' nl' where m': "nx_append_allocate S P NX_NO_WAIT data_size a nl1 (available + n) m1 = Some (NX_NO_PACKET, nl', m')"
    "pools_inv m' ((F(P := fs))(P := rev ((qs @ [a]) @ fs)))"
    "changes_only (set (qs @ [a]) \<union> set fs) m1 m'" "nx_memory m' = nx_memory m1"
    using Cons.hyps(1) [of "F(P := fs)", OF _ m1(3,6,7,2) size Cons.prems(6) changes_only_idle [OF m1(4) Cons.prems(7)]]
    by fastforce
  have "changes_only (set qs \<union> set (F P)) m m'"
    by (rule changes_only_trans [OF m1(4) m'(3)]) (simp flip: Cons.hyps(2))
  then show ?case using m1(1,5) m'(1,2,4) by (simp flip: Cons.hyps(2))
qed

end
