(* ===== verification/Nx_Append_Copy.thy ===== *)
theory Nx_Append_Copy imports Nx_Append_Alloc begin

text \<open>
  The copy loop of \<open>nx_packet_data_append\<close>: it fills the room of one packet after the other
  and keeps the last pointer of the head at the packet it fills.
\<close>

section \<open>One packet\<close>

definition room_at :: "nx_mem \<Rightarrow> nat \<Rightarrow> nat" where
  "room_at m a = (case nx_packets m a of None \<Rightarrow> 0 | Some pk \<Rightarrow> room pk)"

definition rooms :: "nx_mem \<Rightarrow> nat list \<Rightarrow> nat" where
  "rooms m ws = sum_list (map (room_at m) ws)"

lemma rooms_simps [simp]:
  "rooms m [] = 0" "rooms m (w # ws) = room_at m w + rooms m ws" "rooms m (us @ ws) = rooms m us + rooms m ws"
  by (simp_all add: rooms_def)

lemma rooms_cong: "(\<And>a. a \<in> set ws \<Longrightarrow> nx_packets m' a = nx_packets m a) \<Longrightarrow> rooms m' ws = rooms m ws"
  by (simp add: rooms_def room_at_def cong: map_cong)

lemma room_at_Some [simp]: "nx_packets m a = Some pk \<Longrightarrow> room_at m a = room pk"
  by (simp add: room_at_def)

text \<open>A block of memory that meets none of the payload areas of the packets \<open>A\<close>, and a step
  that writes only into them.\<close>

definition apart :: "nx_mem \<Rightarrow> nat set \<Rightarrow> nat \<Rightarrow> nat \<Rightarrow> bool" where
  "apart m A b n \<longleftrightarrow> (\<forall>a \<in> A. \<forall>pk. nx_packets m a = Some pk \<longrightarrow>
     b + n \<le> nx_packet_data_start pk \<or> nx_packet_data_end pk \<le> b)"

definition writes_only :: "nat set \<Rightarrow> nx_mem \<Rightarrow> nx_mem \<Rightarrow> bool" where
  "writes_only A m m' \<longleftrightarrow> (\<forall>x. (\<forall>a \<in> A. \<forall>pk. nx_packets m a = Some pk \<longrightarrow>
     x < nx_packet_data_start pk \<or> nx_packet_data_end pk \<le> x) \<longrightarrow> nx_memory m' x = nx_memory m x)"

lemma writes_only_refl [simp]: "writes_only A m m"
  by (simp add: writes_only_def)

lemma writes_only_memory: "nx_memory m' = nx_memory m \<Longrightarrow> writes_only A m m'"
  by (simp add: writes_only_def)

lemma writes_only_mono: "writes_only A m m' \<Longrightarrow> A \<subseteq> B \<Longrightarrow> writes_only B m m'"
  unfolding writes_only_def by blast

lemma writes_only_trans:
  assumes "writes_only A m m'" "changes_only C m m'" "writes_only B m' m''" "A \<union> B \<subseteq> D"
  shows "writes_only D m m''"
  unfolding writes_only_def
proof (intro allI impI)
  fix x assume x: "\<forall>a \<in> D. \<forall>pk. nx_packets m a = Some pk \<longrightarrow>
     x < nx_packet_data_start pk \<or> nx_packet_data_end pk \<le> x"
  have "x < nx_packet_data_start pk \<or> nx_packet_data_end pk \<le> x" if "a \<in> B" "nx_packets m' a = Some pk" for a pk
  proof -
    have "a \<in> D" using that(1) assms(4) by auto
    then show ?thesis using changes_only_area_back [OF assms(2) that(2)] x by auto
  qed
  then have "nx_memory m'' x = nx_memory m' x" using assms(3) by (auto simp: writes_only_def)
  moreover have "nx_memory m' x = nx_memory m x"
    using assms(1,4) x unfolding writes_only_def by blast
  ultimately show "nx_memory m'' x = nx_memory m x" by simp
qed

lemma apart_mem_read:
  "writes_only A m m' \<Longrightarrow> apart m A b n \<Longrightarrow> mem_read (nx_memory m') b n = mem_read (nx_memory m) b n"
proof (rule mem_read_cong)
  fix x assume "writes_only A m m'" "apart m A b n" and x: "b \<le> x" "x < b + n"
  moreover from this have "\<forall>a \<in> A. \<forall>pk. nx_packets m a = Some pk \<longrightarrow>
      x < nx_packet_data_start pk \<or> nx_packet_data_end pk \<le> x"
    unfolding apart_def by (meson le_trans less_le_trans)
  ultimately show "nx_memory m' x = nx_memory m x" by (simp add: writes_only_def)
qed

lemma apart_changes_only:
  "changes_only C m m' \<Longrightarrow> apart m A b n \<Longrightarrow> apart m' A b n"
  unfolding apart_def by (metis changes_only_area_back)

lemma apart_sub: "apart m A b n \<Longrightarrow> B \<subseteq> A \<Longrightarrow> b \<le> b' \<Longrightarrow> b' + n' \<le> b + n \<Longrightarrow> apart m B b' n'"
  unfolding apart_def by (meson dual_order.trans subsetD)

lemma packet_apart:
  assumes "payloads_separate m" "nx_packets m p = Some pk" "p \<notin> A"
    and "nx_packet_data_start pk \<le> b" "b + n \<le> nx_packet_data_end pk"
  shows "apart m A b n"
  unfolding apart_def
proof (intro ballI allI impI)
  fix a qk assume "a \<in> A" "nx_packets m a = Some qk"
  then have "separate pk qk" using assms(1,2,3) by (auto simp: payloads_separate_def)
  then show "b + n \<le> nx_packet_data_start qk \<or> nx_packet_data_end qk \<le> b"
    using assms(4,5) by (auto simp: separate_def)
qed

lemma packet_bytes_writes_other:
  assumes "writes_only A m m'" "payloads_separate m" "p \<notin> A" "nx_packets m p = Some pk" "packet_ok pk"
    and "nx_packets m' p = Some pk'" "nx_packet_prepend_ptr pk' = nx_packet_prepend_ptr pk"
    and "nx_packet_append_ptr pk' = nx_packet_append_ptr pk"
  shows "packet_bytes m' p = packet_bytes m p"
proof -
  note ok = packet_okD [OF assms(5)]
  have "apart m A (nx_packet_prepend_ptr pk) (nx_packet_append_ptr pk - nx_packet_prepend_ptr pk)"
    by (rule packet_apart [OF assms(2,4,3)]) (use ok in auto)
  then show ?thesis
    using apart_mem_read [OF assms(1)] assms(4,6,7,8) by (simp add: packet_bytes_def)
qed

text \<open>No packet's data starts elsewhere.\<close>

definition same_prepend :: "nx_mem \<Rightarrow> nx_mem \<Rightarrow> bool" where
  "same_prepend m m' \<longleftrightarrow>
     (\<forall>a. map_option nx_packet_prepend_ptr (nx_packets m' a) = map_option nx_packet_prepend_ptr (nx_packets m a))"

lemma same_prepend_refl [simp]: "same_prepend m m"
  by (simp add: same_prepend_def)

lemma same_prepend_trans: "same_prepend m m' \<Longrightarrow> same_prepend m' m'' \<Longrightarrow> same_prepend m m''"
  by (simp add: same_prepend_def)

lemma same_prepend_put_packet:
  "nx_packets m a = Some pk \<Longrightarrow> nx_packet_prepend_ptr pk' = nx_packet_prepend_ptr pk \<Longrightarrow>
     same_prepend m (put_packet a pk' m)"
  by (auto simp: same_prepend_def)

lemma same_prepend_put_bytes [simp]: "same_prepend m (put_bytes a bs m') \<longleftrightarrow> same_prepend m m'"
  by (simp add: same_prepend_def)

text \<open>Copying \<open>c\<close> bytes to the end of a packet.\<close>

definition filled :: "nat \<Rightarrow> nx_packet \<Rightarrow> nat \<Rightarrow> nat \<Rightarrow> nx_mem \<Rightarrow> nx_mem" where
  "filled w pk src c m =
     put_packet w (pk\<lparr>nx_packet_append_ptr := nx_packet_append_ptr pk + c\<rparr>)
       (put_bytes (nx_packet_append_ptr pk) (mem_read (nx_memory m) src c) m)"

lemma filled_simps [simp]:
  "nx_packets (filled w pk src c m) =
     (nx_packets m)(w \<mapsto> pk\<lparr>nx_packet_append_ptr := nx_packet_append_ptr pk + c\<rparr>)"
  "nx_pools (filled w pk src c m) = nx_pools m"
  by (simp_all add: filled_def)

lemma filled_step:
  assumes w: "nx_packets m w = Some pk" "packet_ok pk" "nx_packet_tcp_queue_next pk \<noteq> NX_PACKET_FREE"
    and c: "c \<le> room pk"
  shows "in_use (filled w pk src c m) w"
    and "packet_bytes (filled w pk src c m) w = packet_bytes m w @ mem_read (nx_memory m) src c"
    and "room_at (filled w pk src c m) w = room_at m w - c"
    and "changes_only {w} m (filled w pk src c m)"
    and "writes_only {w} m (filled w pk src c m)"
    and "same_prepend m (filled w pk src c m)"
    and "pools_inv m F \<Longrightarrow> pools_inv (filled w pk src c m) F"
proof -
  note ok = packet_okD [OF w(2)]
  have fit: "nx_packet_append_ptr pk + c \<le> nx_packet_data_end pk" using c ok by (simp add: room_def)
  show "in_use (filled w pk src c m) w" using w ok fit by (auto simp: in_use_def packet_ok_def)
  define d where "d = nx_packet_append_ptr pk - nx_packet_prepend_ptr pk"
  have app: "nx_packet_append_ptr pk = nx_packet_prepend_ptr pk + d" using ok by (simp add: d_def)
  show "packet_bytes (filled w pk src c m) w = packet_bytes m w @ mem_read (nx_memory m) src c"
    using w mem_read_extend [of "nx_memory m" "nx_packet_prepend_ptr pk" d "mem_read (nx_memory m) src c"]
    by (simp add: packet_bytes_def filled_def app)
  show "room_at (filled w pk src c m) w = room_at m w - c"
    using w by (simp add: room_at_def room_def)
  show "changes_only {w} m (filled w pk src c m)"
    unfolding filled_def by (rule changes_only_trans [OF _ changes_only_put_packet [of _ w pk _ "{w}"]])
      (use w in \<open>auto simp: payload_area_def\<close>)
  show "writes_only {w} m (filled w pk src c m)"
    using w fit ok by (auto simp: writes_only_def filled_def intro!: mem_write_other)
  show "same_prepend m (filled w pk src c m)"
    using w by (auto simp: same_prepend_def)
  show "pools_inv (filled w pk src c m) F" if "pools_inv m F"
    unfolding filled_def by (rule pools_inv_put_live [where pk = pk]) (use w that in auto)
qed

section \<open>The loop\<close>

text \<open>What the loop does to the header \<open>h\<close> of the chain.\<close>

lemma nx_append_copy_last:
  assumes w: "nx_packets m w = Some pk" "packet_ok pk" and size: "data_size \<le> room pk"
  shows "nx_append_copy h w src data_size m =
    Some (if data_size = 0 then m else filled w pk src data_size m)"
  using assms nx_packet_room_eq [OF w(2)]
  by (subst nx_append_copy.simps) (auto simp: filled_def Let_def)

lemma nx_append_copy_more:
  assumes w: "nx_packets m w = Some pk" "packet_ok pk" and size: "room pk < data_size"
    and head: "nx_packets (filled w pk src (room pk) m) h = Some hk"
  shows "nx_append_copy h w src data_size m =
    nx_append_copy h (nx_packet_next pk) (src + room pk) (data_size - room pk)
      (put_packet h (hk\<lparr>nx_packet_last := nx_packet_next pk\<rparr>) (filled w pk src (room pk) m))"
  using assms nx_packet_room_eq [OF w(2)]
  by (subst nx_append_copy.simps) (auto simp: filled_def Let_def modify_packet_def)

definition empty_packet :: "nx_mem \<Rightarrow> nat \<Rightarrow> bool" where
  "empty_packet m a \<longleftrightarrow> (\<exists>pk. nx_packets m a = Some pk \<and> nx_packet_append_ptr pk = nx_packet_prepend_ptr pk)"

lemma empty_packet_bytes: "empty_packet m a \<Longrightarrow> packet_bytes m a = []"
  by (auto simp: empty_packet_def packet_bytes_def)

definition copied :: "nat \<Rightarrow> nat list \<Rightarrow> nx_packet \<Rightarrow> byte list \<Rightarrow> nx_mem \<Rightarrow> nx_mem \<Rightarrow> bool" where
  "copied h ws head bs m m' \<longleftrightarrow>
     chain m' (hd ws) ws \<and> (\<forall>a \<in> set ws. in_use m' a) \<and>
     chain_bytes m' ws = packet_bytes m (hd ws) @ bs \<and>
     changes_only (insert h (set ws)) m m' \<and> writes_only (set ws) m m' \<and> same_prepend m m' \<and>
     (\<forall>F. pools_inv m F \<longrightarrow> pools_inv m' F) \<and> nx_pools m' = nx_pools m \<and>
     room_at m' (last ws) = rooms m ws - length bs \<and>
     (\<exists>x. nx_packets m' h = Some (head\<lparr>nx_packet_append_ptr := x,
            nx_packet_last := (if tl ws = [] then nx_packet_last head else last ws)\<rparr>) \<and>
          (h \<notin> set ws \<longrightarrow> x = nx_packet_append_ptr head))"

lemma copied_single:
  assumes w: "in_use m w" "nx_packet_next pk = NX_NULL" "nx_packets m w = Some pk" "w \<noteq> NX_NULL"
    and head: "nx_packets m h = Some head" and size: "data_size \<le> room pk"
  shows "\<exists>m'. nx_append_copy h w src data_size m = Some m' \<and>
     copied h [w] head (mem_read (nx_memory m) src data_size) m m'"
proof (cases "data_size = 0")
  case True
  have "copied h [w] head [] m m"
    using w head by (auto simp: copied_def intro: exI [of _ "nx_packet_append_ptr head"])
  then show ?thesis
    using True by (subst nx_append_copy.simps) simp
next
  case False
  have pk: "packet_ok pk" "nx_packet_tcp_queue_next pk \<noteq> NX_PACKET_FREE" using w by (auto simp: in_use_def)
  define m' where "m' = filled w pk src data_size m"
  note step = filled_step [OF w(3) pk size, where src = src, folded m'_def]
  have "\<exists>x. nx_packets m' h = Some (head\<lparr>nx_packet_append_ptr := x, nx_packet_last := nx_packet_last head\<rparr>) \<and>
      (h \<noteq> w \<longrightarrow> x = nx_packet_append_ptr head)"
  proof (cases "h = w")
    case True
    then show ?thesis using head w(3) by (auto simp: m'_def)
  next
    case False
    then show ?thesis using head by (auto simp: m'_def intro: exI [of _ "nx_packet_append_ptr head"])
  qed
  moreover have "changes_only {h, w} m m'" using step(4) by (rule changes_only_mono) auto
  moreover have "chain m' w [w]" using w by (simp add: m'_def)
  ultimately have "copied h [w] head (mem_read (nx_memory m) src data_size) m m'"
    using step w(3) by (simp add: copied_def m'_def)
  then show ?thesis
    using nx_append_copy_last [OF w(3) pk(1) size, of h src] False by (simp add: m'_def)
qed

lemma in_use_cong: "nx_packets m' a = nx_packets m a \<Longrightarrow> in_use m' a \<longleftrightarrow> in_use m a"
  by (simp add: in_use_def)

text \<open>A full first packet and the copy of the rest make up the whole copy.\<close>

lemma copied_Cons:
  assumes ch: "changes_only {h, w} m m2" and wr: "writes_only {w} m m2" and pre: "same_prepend m m2"
    and inv2: "\<And>F. pools_inv m F \<Longrightarrow> pools_inv m2 F" and pools: "nx_pools m2 = nx_pools m"
    and sep: "payloads_separate m2"
    and w2: "nx_packets m2 w = Some pk2" "packet_ok pk2" "nx_packet_tcp_queue_next pk2 \<noteq> NX_PACKET_FREE"
      "nx_packet_next pk2 = hd ws" "w \<noteq> NX_NULL"
    and bytes: "packet_bytes m2 w = packet_bytes m w @ bs"
    and out: "w \<notin> set ws" "h \<notin> set ws" "ws \<noteq> []"
    and h2: "nx_packets m2 h = Some (head\<lparr>nx_packet_append_ptr := x, nx_packet_last := hd ws\<rparr>)"
      "h \<noteq> w \<Longrightarrow> x = nx_packet_append_ptr head"
    and hd2: "packet_bytes m2 (hd ws) = []" and total: "rooms m (w # ws) = length bs + rooms m2 ws"
    and cp: "copied h ws (head\<lparr>nx_packet_append_ptr := x, nx_packet_last := hd ws\<rparr>) bs' m2 m'"
  shows "copied h (w # ws) head (bs @ bs') m m'"
proof -
  define L where "L = (if tl ws = [] then hd ws else last ws)"
  have L: "L = last ws" using out(3) by (cases ws) (auto simp: L_def)
  have h': "nx_packets m' h = Some (head\<lparr>nx_packet_append_ptr := x, nx_packet_last := last ws\<rparr>)"
    using cp out(2) L by (auto simp: copied_def L_def)
  have ch': "changes_only (insert h (set ws)) m2 m'" and wr': "writes_only (set ws) m2 m'"
    using cp by (simp_all add: copied_def)
  obtain pkw where pkw: "nx_packets m' w = Some pkw" "nx_packet_prepend_ptr pkw = nx_packet_prepend_ptr pk2"
    "nx_packet_append_ptr pkw = nx_packet_append_ptr pk2" "packet_ok pkw" "nx_packet_next pkw = hd ws"
    "nx_packet_tcp_queue_next pkw \<noteq> NX_PACKET_FREE"
  proof (cases "h = w")
    case True
    then have pk2: "pk2 = head\<lparr>nx_packet_append_ptr := x, nx_packet_last := hd ws\<rparr>"
      using h2(1) w2(1) by simp
    show thesis
      by (rule that [OF h'[unfolded True]]) (use w2 in \<open>simp_all add: pk2 packet_ok_def\<close>)
  next
    case False
    then have "nx_packets m' w = nx_packets m2 w" using changes_only_same [OF ch'] out by simp
    then show thesis using that w2 by simp
  qed
  have "packet_bytes m' w = packet_bytes m2 w"
    by (rule packet_bytes_writes_other [OF wr' sep out(1) w2(1,2) pkw(1,2,3)])
  then have "packet_bytes m' w @ chain_bytes m' ws = packet_bytes m w @ bs @ bs'"
    using cp hd2 bytes by (simp add: copied_def)
  moreover have "chain m' (hd (w # ws)) (w # ws)"
    using cp pkw w2(5) by (simp add: copied_def)
  moreover have "changes_only (insert h (set (w # ws))) m m'"
    by (rule changes_only_trans [OF ch ch']) auto
  moreover have "writes_only (set (w # ws)) m m'"
    by (rule writes_only_trans [OF wr ch wr']) auto
  moreover have "\<forall>a \<in> set (w # ws). in_use m' a"
    using cp pkw(1,4,6) by (simp add: copied_def in_use_def)
  moreover have "\<forall>F. pools_inv m F \<longrightarrow> pools_inv m' F" "nx_pools m' = nx_pools m"
    using cp inv2 pools by (simp_all add: copied_def)
  moreover have "room_at m' (last (w # ws)) = rooms m (w # ws) - length (bs @ bs')"
    using cp out(3) total by (simp add: copied_def)
  moreover have "\<exists>z. nx_packets m' h = Some (head\<lparr>nx_packet_append_ptr := z, nx_packet_last :=
        (if tl (w # ws) = [] then nx_packet_last head else last (w # ws))\<rparr>) \<and>
      (h \<notin> set (w # ws) \<longrightarrow> z = nx_packet_append_ptr head)"
    by (rule exI [of _ x]) (use h' h2(2) out(3) in simp)
  moreover have "same_prepend m m'"
    by (rule same_prepend_trans [OF pre]) (use cp in \<open>simp add: copied_def\<close>)
  ultimately show ?thesis unfolding copied_def chain_bytes_simps list.sel by blast
qed

lemma nx_append_copy_ok:
  assumes "chain m w ws" "ws \<noteq> []" "distinct ws" "\<forall>a \<in> set ws. in_use m a" "\<forall>a \<in> set (tl ws). empty_packet m a"
    and "payloads_separate m" "apart m (set ws) src data_size"
    and "nx_packets m h = Some head" "nx_packet_tcp_queue_next head \<noteq> NX_PACKET_FREE" "h \<notin> set (tl ws)"
    and "data_size \<le> rooms m ws" "tl ws = [] \<or> rooms m (butlast ws) < data_size"
  shows "\<exists>m'. nx_append_copy h w src data_size m = Some m' \<and>
     copied h ws head (mem_read (nx_memory m) src data_size) m m'"
  using assms
proof (induction ws arbitrary: w m src data_size head)
  case Nil
  then show ?case by simp
next
  case (Cons x ws)
  have x: "x = w" "w \<noteq> NX_NULL" and "in_use m w" using Cons.prems(1,4) by simp_all
  then obtain pk where pk: "nx_packets m w = Some pk" "packet_ok pk" "nx_packet_tcp_queue_next pk \<noteq> NX_PACKET_FREE"
    by (auto elim: in_useE)
  have tl: "chain m (nx_packet_next pk) ws" using Cons.prems(1) pk(1) x by simp
  show ?case
  proof (cases ws)
    case Nil
    then show ?thesis
      using copied_single [of m w pk h head data_size src] Cons.prems(4,8,11) pk tl x by simp
  next
    case (Cons y vs)
    have more: "room pk < data_size"
      using Cons.prems(12) Cons pk(1) x by (auto split: if_splits)
    define r where "r = room pk"
    define m1 where "m1 = filled w pk src r m"
    define hk where "hk = (if h = w then pk\<lparr>nx_packet_append_ptr := nx_packet_append_ptr pk + r\<rparr> else head)"
    define m2 where "m2 = put_packet h (hk\<lparr>nx_packet_last := nx_packet_next pk\<rparr>) m1"
    have r: "r \<le> room pk" by (simp add: r_def)
    note step = filled_step [OF pk r, where src = src, folded m1_def]
    have h1: "nx_packets m1 h = Some hk" using Cons.prems(8) by (simp add: m1_def hk_def)
    have hw: "h = w \<Longrightarrow> head = pk" using Cons.prems(8) pk(1) by simp
    have hws: "h \<notin> set ws" using Cons.prems(10) by simp
    have wws: "w \<notin> set ws" using Cons.prems(3) x by simp
    have y: "nx_packet_next pk = y" using tl Cons by simp
    have call: "nx_append_copy h w src data_size m =
        nx_append_copy h y (src + r) (data_size - r) m2"
      using nx_append_copy_more [OF pk(1,2) more, of src h hk] h1 y by (simp add: m1_def m2_def r_def)
    have same: "nx_packets m2 a = nx_packets m a" if "a \<in> set ws" for a
      using that hws wws by (auto simp: m2_def m1_def)
    have ch: "changes_only (insert h {w}) m m2"
      unfolding m2_def
      by (rule changes_only_trans [OF step(4) changes_only_put_packet [OF h1, of _ "{h}"]])
        (auto simp: r_def payload_area_def)
    have wr: "writes_only {w} m m2"
      using step(5) by (simp add: writes_only_def m2_def r_def)
    have pre: "same_prepend m m2"
      unfolding m2_def by (rule same_prepend_trans [OF step(6) same_prepend_put_packet [OF h1]]) simp
    have inv2: "pools_inv m2 F" if "pools_inv m F" for F
      unfolding m2_def by (rule pools_inv_put_live [OF step(7) h1])
        (use that Cons.prems(9) pk(3) in \<open>auto simp: r_def hk_def\<close>)
    have apart2: "apart m2 (set ws) (src + r) (data_size - r)"
      using apart_changes_only [OF ch Cons.prems(7)] by (rule apart_sub) (use more in \<open>auto simp: r_def\<close>)
    have "chain m2 y ws \<longleftrightarrow> chain m y ws" by (rule linked_cong) (simp add: same)
    then have c2: "chain m2 y ws" using tl y by simp
    have u2: "\<forall>a \<in> set ws. in_use m2 a" using Cons.prems(4) in_use_cong [OF same] by simp
    have e2: "\<forall>a \<in> set (tl ws). empty_packet m2 a"
      using Cons.prems(5) same Cons by (simp add: empty_packet_def)
    have "rooms m2 ws = rooms m ws" "rooms m2 (butlast ws) = rooms m (butlast ws)"
      by (auto intro!: rooms_cong same dest: in_set_butlastD)
    then have s2: "data_size - r \<le> rooms m2 ws" "tl ws = [] \<or> rooms m2 (butlast ws) < data_size - r"
      and total: "rooms m (x # ws) = r + rooms m2 ws"
      using Cons.prems(11,12) Cons pk(1) x more by (auto simp: r_def split: if_splits)
    have h2: "nx_packets m2 h = Some (hk\<lparr>nx_packet_last := nx_packet_next pk\<rparr>)" by (simp add: m2_def)
    have k2: "nx_packet_tcp_queue_next (hk\<lparr>nx_packet_last := nx_packet_next pk\<rparr>) \<noteq> NX_PACKET_FREE"
      using Cons.prems(9) pk(3) by (simp add: hk_def)
    have ne: "ws \<noteq> []" and d2: "distinct ws" and nh: "h \<notin> set (tl ws)"
      using Cons Cons.prems(3) hws by auto
    obtain m' where m': "nx_append_copy h y (src + r) (data_size - r) m2 = Some m'"
      and cp: "copied h ws (hk\<lparr>nx_packet_last := nx_packet_next pk\<rparr>)
        (mem_read (nx_memory m2) (src + r) (data_size - r)) m2 m'"
      using Cons.IH [OF c2 ne d2 u2 e2 changes_only_separate [OF ch Cons.prems(6)] apart2 h2 k2 nh s2] by blast
    have src2: "mem_read (nx_memory m2) (src + r) (data_size - r) = mem_read (nx_memory m) (src + r) (data_size - r)"
      by (rule apart_mem_read [OF wr]) (rule apart_sub [OF Cons.prems(7)], use x more in \<open>auto simp: r_def\<close>)
    have data: "mem_read (nx_memory m) src data_size =
        mem_read (nx_memory m) src r @ mem_read (nx_memory m) (src + r) (data_size - r)"
      using mem_read_split [of "nx_memory m" src r "data_size - r"] more by (simp add: r_def)
    have hd2: "packet_bytes m2 (hd ws) = []"
      using Cons.prems(5) same Cons by (auto intro!: empty_packet_bytes simp: empty_packet_def)
    have hk: "hk\<lparr>nx_packet_last := nx_packet_next pk\<rparr> =
        head\<lparr>nx_packet_append_ptr := (if h = w then nx_packet_append_ptr pk + r else nx_packet_append_ptr head),
             nx_packet_last := hd ws\<rparr>"
      using hw y Cons by (auto simp: hk_def)
    obtain pk2 where pk2: "nx_packets m2 w = Some pk2" "nx_packet_prepend_ptr pk2 = nx_packet_prepend_ptr pk"
      "nx_packet_append_ptr pk2 = nx_packet_append_ptr pk + r" "packet_ok pk2" "nx_packet_next pk2 = hd ws"
      "nx_packet_tcp_queue_next pk2 \<noteq> NX_PACKET_FREE"
      using pk y Cons by (cases "h = w") (auto simp: m2_def m1_def hk_def r_def packet_ok_def room_def)
    have "nx_packets m1 w = Some (pk\<lparr>nx_packet_append_ptr := nx_packet_append_ptr pk + r\<rparr>)" "nx_memory m2 = nx_memory m1"
      by (simp_all add: m1_def m2_def)
    then have "packet_bytes m2 w = packet_bytes m1 w" using pk2 by (simp add: packet_bytes_def)
    then have bytes: "packet_bytes m2 w = packet_bytes m w @ mem_read (nx_memory m) src r"
      using step(2) by simp
    have pools2: "nx_pools m2 = nx_pools m" by (simp add: m2_def m1_def)
    have "copied h (w # ws) head (mem_read (nx_memory m) src data_size) m m'"
      unfolding data
    proof (rule copied_Cons [OF ch wr pre inv2 pools2 changes_only_separate [OF ch Cons.prems(6)] pk2(1,4,6,5) x(2)
          bytes wws hws ne _ _ hd2])
      show "nx_packets m2 h = Some (head\<lparr>nx_packet_append_ptr :=
          (if h = w then nx_packet_append_ptr pk + r else nx_packet_append_ptr head), nx_packet_last := hd ws\<rparr>)"
        using h2 hk by simp
    qed (use cp hk src2 total x in auto)
    then show ?thesis using call m' x by auto
  qed
qed

end
