(* ===== verification/Nx_Append.thy ===== *)
theory Nx_Append imports Nx_Append_Copy begin

text \<open>
  \<open>nx_packet_data_append\<close> as a whole: on a well-formed chain it puts the bytes of the source
  behind the data of the chain, with as many new packets as are needed, or it changes nothing
  that can be observed.
\<close>

section \<open>Lists of packets\<close>

lemma linked_suffix: "linked link h p (us @ t # ys) \<Longrightarrow> linked link h t (t # ys)"
  by (induction us arbitrary: p) auto

lemma linked_join:
  assumes "linked link h p (us @ [t])" "linked link h' t (t # ys)"
    and "\<And>a. a \<in> set us \<Longrightarrow> map_option link (h' a) = map_option link (h a)"
  shows "linked link h' p (us @ t # ys)"
  using assms(1,3)
proof (induction us arbitrary: p)
  case Nil
  then show ?case using assms(2) by simp
next
  case (Cons u us)
  obtain pk where "h u = Some pk" using Cons.prems(1) by auto
  moreover from this obtain pk' where "h' u = Some pk'" "link pk' = link pk"
    using Cons.prems(2) [of u] by auto
  ultimately show ?case using Cons by auto
qed

lemma linked_prefix:
  "linked link h p (us @ t # ys) \<Longrightarrow> h t = Some pk \<Longrightarrow> link pk' = NX_NULL \<Longrightarrow> t \<notin> set us \<Longrightarrow>
     linked link (h(t \<mapsto> pk')) p (us @ [t])"
  by (induction us arbitrary: p) auto

section \<open>The copy into a prepared chain\<close>

lemma nx_append_finish:
  assumes ch: "chain m p (ps @ qs)" "ps \<noteq> []" "distinct (ps @ qs)" and use_: "\<forall>a \<in> set (ps @ qs). in_use m a"
    and empty: "\<forall>a \<in> set qs. empty_packet m a" and sep: "payloads_separate m"
    and src: "apart m (set (ps @ qs)) src data_size"
    and head: "nx_packets m p = Some hk" "nx_packet_last hk = last ps \<or> nx_packet_last hk = NX_NULL \<and> tl ps = []"
    and size: "data_size \<le> rooms m (last ps # qs)" "qs = [] \<or> rooms m (last ps # butlast qs) < data_size"
  shows "\<exists>m'. nx_append_copy p (if nx_packet_last hk \<noteq> NX_NULL then nx_packet_last hk else p) src data_size m = Some m' \<and>
     chain_wf m' p (ps @ qs) \<and> chain_bytes m' (ps @ qs) = chain_bytes m ps @ mem_read (nx_memory m) src data_size \<and>
     changes_only (set (ps @ qs)) m m' \<and> writes_only (set (ps @ qs)) m m' \<and> same_prepend m m' \<and>
     (\<forall>F. pools_inv m F \<longrightarrow> pools_inv m' F) \<and> nx_pools m' = nx_pools m \<and>
     room_at m' (last (ps @ qs)) = rooms m (last ps # qs) - data_size \<and>
     (\<exists>hk'. nx_packets m' p = Some hk' \<and> nx_packet_length hk' = nx_packet_length hk)"
proof -
  define us where "us = butlast ps"
  define t where "t = last ps"
  have ps: "ps = us @ [t]" using ch(2) by (simp add: us_def t_def)
  have p: "hd ps = p" "p \<in> set ps" using ch(1,2) by (cases ps; simp)+
  have work: "(if nx_packet_last hk \<noteq> NX_NULL then nx_packet_last hk else p) = t"
  proof (cases "nx_packet_last hk = NX_NULL")
    case True
    have "t \<noteq> NX_NULL" using linked_valid [OF ch(1), of t] ps by simp
    then have "tl ps = []" using head(2) True by (auto simp: t_def)
    then show ?thesis using True p ps by (cases us) auto
  next
    case False
    then show ?thesis using head(2) by (auto simp: t_def)
  qed
  have pq: "p \<notin> set qs" using ch(3) p(2) by auto
  have inu: "in_use m p" using use_ p(2) by simp
  then have mark: "nx_packet_tcp_queue_next hk \<noteq> NX_PACKET_FREE" using head(1) by (auto simp: in_use_def)
  have ct: "chain m t (t # qs)"
    by (rule linked_suffix [of _ _ p us]) (use ch(1) ps in simp)
  have srct: "apart m (set (t # qs)) src data_size" using src by (rule apart_sub) (auto simp: ps)
  have part: "tl (t # qs) = [] \<or> rooms m (butlast (t # qs)) < data_size"
    using size(2) by (cases "qs = []") (simp_all add: t_def)
  obtain m' where m': "nx_append_copy p t src data_size m = Some m'"
    and cp: "copied p (t # qs) hk (mem_read (nx_memory m) src data_size) m m'"
    using nx_append_copy_ok [OF ct _ _ _ _ sep srct head(1) mark _ _ part] ch(3) use_ empty pq size(1) ps
    by (auto simp: t_def [symmetric])
  define L where "L = (if tl (t # qs) = [] then nx_packet_last hk else last (t # qs))"
  obtain x where hk': "nx_packets m' p = Some (hk\<lparr>nx_packet_append_ptr := x, nx_packet_last := L\<rparr>)"
    "p \<notin> set (t # qs) \<Longrightarrow> x = nx_packet_append_ptr hk"
    using cp unfolding copied_def L_def by blast
  have chg: "changes_only (insert p (set (t # qs))) m m'" and wr: "writes_only (set (t # qs)) m m'"
    using cp by (simp_all add: copied_def)
  have out: "a \<notin> set (t # qs)" if "a \<in> set us" for a using that ch(3) ps by auto
  have same: "nx_packets m' a = nx_packets m a" if "a \<in> set us" "a \<noteq> p" for a
    using changes_only_same [OF chg, of a] out [OF that(1)] that(2) by simp
  obtain pkt where pkt: "nx_packets m t = Some pkt" using use_ ps by (auto simp: in_use_def)
  have cu: "chain m' p (us @ t # qs)"
  proof (rule linked_join)
    show "linked nx_packet_next ((nx_packets m)(t \<mapsto> (the (nx_packets m t))\<lparr>nx_packet_next := NX_NULL\<rparr>)) p (us @ [t])"
      by (rule linked_prefix [where pk = pkt and ys = qs]) (use ch ps pkt in auto)
    show "chain m' t (t # qs)" using cp by (simp add: copied_def)
    show "map_option nx_packet_next (nx_packets m' a) =
        map_option nx_packet_next (((nx_packets m)(t \<mapsto> (the (nx_packets m t))\<lparr>nx_packet_next := NX_NULL\<rparr>)) a)"
      if "a \<in> set us" for a
      using same [OF that] out [OF that] hk'(1) head(1) by (cases "a = p") auto
  qed
  have usu: "in_use m' a \<and> packet_bytes m' a = packet_bytes m a" if a: "a \<in> set us" for a
  proof -
    obtain pk where pk: "nx_packets m a = Some pk" "packet_ok pk" "nx_packet_tcp_queue_next pk \<noteq> NX_PACKET_FREE"
      using use_ a ps by (auto simp: in_use_def)
    obtain pk' where pk': "nx_packets m' a = Some pk'" "nx_packet_prepend_ptr pk' = nx_packet_prepend_ptr pk"
      "nx_packet_append_ptr pk' = nx_packet_append_ptr pk" "packet_ok pk'"
      "nx_packet_tcp_queue_next pk' \<noteq> NX_PACKET_FREE"
      using same [OF a] pk hk' head(1) out [OF a] by (cases "a = p") (auto simp: packet_ok_def)
    show ?thesis
      using packet_bytes_writes_other [OF wr sep out [OF a] pk(1,2) pk'(1,2,3)] pk' by (auto simp: in_use_def)
  qed
  have "chain_bytes m' us = chain_bytes m us" by (rule chain_bytes_cong) (simp add: usu)
  then have bytes: "chain_bytes m' (ps @ qs) = chain_bytes m ps @ mem_read (nx_memory m) src data_size"
    using cp ps by (simp add: copied_def)
  have "last_ptr_ok m' (ps @ qs)"
    using hk'(1) head(2) p ch(2) by (auto simp: last_ptr_ok_def L_def)
  moreover have "\<forall>a \<in> set (ps @ qs). in_use m' a" using usu cp ps by (auto simp: copied_def)
  ultimately have wf: "chain_wf m' p (ps @ qs)" using cu ch(2,3) ps by (simp add: chain_wf_def)
  have "changes_only (set (ps @ qs)) m m'" by (rule changes_only_mono [OF chg]) (use p ps in auto)
  moreover have "writes_only (set (ps @ qs)) m m'" by (rule writes_only_mono [OF wr]) (use ps in auto)
  ultimately show ?thesis
    unfolding work using m' wf bytes cp hk'(1) ps by (auto simp: copied_def t_def [symmetric])
qed

section \<open>Headers that change in their links only\<close>

definition data_view :: "nx_packet \<Rightarrow> nat \<times> nat \<times> nat \<times> nat \<times> nat \<times> nat" where
  "data_view pk = (nx_packet_pool_owner pk, nx_packet_prepend_ptr pk, nx_packet_append_ptr pk,
     nx_packet_data_start pk, nx_packet_data_end pk, nx_packet_tcp_queue_next pk)"

definition same_data :: "nx_mem \<Rightarrow> nx_mem \<Rightarrow> bool" where
  "same_data m m' \<longleftrightarrow> nx_memory m' = nx_memory m \<and>
     (\<forall>a. map_option data_view (nx_packets m' a) = map_option data_view (nx_packets m a))"

lemma same_data_refl [simp]: "same_data m m"
  by (simp add: same_data_def)

lemma same_data_trans: "same_data m m' \<Longrightarrow> same_data m' m'' \<Longrightarrow> same_data m m''"
  by (simp add: same_data_def)

lemma same_data_put:
  "nx_packets m a = Some pk \<Longrightarrow> data_view pk' = data_view pk \<Longrightarrow> same_data m (put_packet a pk' m)"
  by (auto simp: same_data_def)

lemma same_dataD:
  assumes "same_data m m'" "nx_packets m a = Some pk"
  shows "\<exists>pk'. nx_packets m' a = Some pk' \<and> data_view pk' = data_view pk"
proof -
  have "map_option data_view (nx_packets m' a) = Some (data_view pk)"
    using assms by (simp add: same_data_def)
  then show ?thesis by auto
qed

lemma same_data_in_use: "same_data m m' \<Longrightarrow> in_use m a \<Longrightarrow> in_use m' a"
  by (auto elim!: in_useE dest!: same_dataD simp: in_use_def data_view_def packet_ok_def)

lemma same_data_packet_bytes: "same_data m m' \<Longrightarrow> in_use m a \<Longrightarrow> packet_bytes m' a = packet_bytes m a"
proof -
  assume sd: "same_data m m'" and "in_use m a"
  then obtain pk where "nx_packets m a = Some pk" by (auto elim: in_useE)
  then show ?thesis
    using same_dataD [OF sd] sd by (fastforce simp: packet_bytes_def data_view_def same_data_def)
qed

lemma same_data_room: "same_data m m' \<Longrightarrow> in_use m a \<Longrightarrow> room_at m' a = room_at m a"
  by (auto elim!: in_useE dest!: same_dataD simp: data_view_def room_def)

lemma same_data_rooms: "same_data m m' \<Longrightarrow> (\<And>a. a \<in> set ws \<Longrightarrow> in_use m a) \<Longrightarrow> rooms m' ws = rooms m ws"
  by (simp add: rooms_def same_data_room cong: map_cong)

lemma same_data_empty: "same_data m m' \<Longrightarrow> empty_packet m a \<Longrightarrow> empty_packet m' a"
  by (auto simp: empty_packet_def data_view_def dest!: same_dataD)

lemma same_data_prepend:
  assumes "same_data m m'"
  shows "map_option nx_packet_prepend_ptr (nx_packets m' a) = map_option nx_packet_prepend_ptr (nx_packets m a)"
proof (cases "nx_packets m a")
  case None
  have "map_option data_view (nx_packets m' a) = map_option data_view (nx_packets m a)"
    using assms by (simp add: same_data_def)
  then show ?thesis using None by simp
next
  case (Some pk)
  then show ?thesis using same_dataD [OF assms Some] by (auto simp: data_view_def)
qed

lemma same_data_area:
  "same_data m m' \<Longrightarrow> map_option payload_area (nx_packets m' a) = map_option payload_area (nx_packets m a)"
proof -
  assume sd: "same_data m m'"
  have eq: "map_option data_view (nx_packets m' a) = map_option data_view (nx_packets m a)"
    using sd by (simp add: same_data_def)
  show ?thesis
  proof (cases "nx_packets m a")
    case None
    then show ?thesis using eq by simp
  next
    case (Some pk)
    then show ?thesis using same_dataD [OF sd Some] by (auto simp: data_view_def payload_area_def)
  qed
qed

lemma fresh_empty: "fresh m P n a \<Longrightarrow> empty_packet m a"
  by (auto simp: fresh_def empty_packet_def)

lemma fresh_room_at: "fresh m P n a \<Longrightarrow> room_at m a = n"
  by (auto simp: fresh_def slot_ok_def room_def)

lemma newlist_rooms: "newlist m P n nl qs \<Longrightarrow> rooms m qs = n * length qs"
proof -
  assume nl: "newlist m P n nl qs"
  have "map (room_at m) qs = map (\<lambda>a. n) qs"
    using nl fresh_room_at by (auto simp: newlist_def)
  then show ?thesis unfolding rooms_def by (simp only: sum_list_triv) (simp add: sum_list_triv)
qed

text \<open>Hooking the new list onto the chain and setting the length.\<close>

definition hooked :: "nat \<Rightarrow> nat \<Rightarrow> nx_packet \<Rightarrow> nx_packet \<Rightarrow> nx_mem \<Rightarrow> nx_mem" where
  "hooked t nl pkt pkn m = put_packet nl (pkn\<lparr>nx_packet_last := NX_NULL\<rparr>)
     (put_packet t (pkt\<lparr>nx_packet_next := nl\<rparr>) m)"

lemma hooked_chain:
  assumes ch: "chain m p (us @ [t])" "distinct (us @ [t])" "nx_packets m t = Some pkt"
    and nl: "newlist m P n nl qs" "qs \<noteq> []" "nx_packets m nl = Some pkn"
    and disj: "set (us @ [t]) \<inter> set qs = {}"
  shows "chain (hooked t nl pkt pkn m) p ((us @ [t]) @ qs)" "same_data m (hooked t nl pkt pkn m)"
    "changes_only ({t} \<union> set qs) m (hooked t nl pkt pkn m)"
    "in_use m t \<Longrightarrow> pools_inv m F \<Longrightarrow> pools_inv (hooked t nl pkt pkn m) F"
proof -
  define m2 where "m2 = put_packet t (pkt\<lparr>nx_packet_next := nl\<rparr>) m"
  have nlq: "nl \<in> set qs" using nl(1,2) by (cases qs) (auto simp: newlist_def)
  then have ne: "nl \<noteq> t" using disj by auto
  have fr: "fresh m P n nl" using nl(1) nlq by (simp add: newlist_def)
  have at: "nx_packets m2 nl = Some pkn" using nl(3) ne by (simp add: m2_def)
  have h: "hooked t nl pkt pkn m = put_packet nl (pkn\<lparr>nx_packet_last := NX_NULL\<rparr>) m2"
    by (simp add: hooked_def m2_def)
  have "chain m2 p (us @ t # qs)"
    unfolding m2_def put_packet_simps
    by (rule linked_append_link [where r = nl]) (use ch nl disj in \<open>auto simp: newlist_def\<close>)
  then show "chain (hooked t nl pkt pkn m) p ((us @ [t]) @ qs)"
    unfolding h
    using linked_upd_same_link [of "nx_packets m2" nl pkn nx_packet_next "pkn\<lparr>nx_packet_last := NX_NULL\<rparr>"] at
    by simp
  show "same_data m (hooked t nl pkt pkn m)"
    unfolding h
  proof (rule same_data_trans)
    show "same_data m m2" unfolding m2_def by (rule same_data_put [OF ch(3)]) (simp add: data_view_def)
  qed (rule same_data_put [OF at], simp add: data_view_def)
  show "changes_only ({t} \<union> set qs) m (hooked t nl pkt pkn m)"
    unfolding h m2_def
    by (rule changes_only_trans [OF changes_only_put_packet [OF ch(3), of _ "{t}"]
          changes_only_put_packet [OF at [unfolded m2_def], of _ "{nl}"]])
      (use nlq in \<open>auto simp: payload_area_def\<close>)
  show "pools_inv (hooked t nl pkt pkn m) F" if "in_use m t" "pools_inv m F"
  proof -
    have "pools_inv m2 F"
      unfolding m2_def by (rule pools_inv_put_live [OF that(2) ch(3)]) (use that(1) ch(3) in \<open>auto simp: in_use_def\<close>)
    then show ?thesis
      unfolding h by (rule pools_inv_put_live [OF _ at]) (use fr nl(3) in \<open>auto simp: fresh_def\<close>)
  qed
qed

section \<open>The whole operation\<close>

lemma nx_append_available:
  assumes wf: "chain_wf m p ps" and head: "nx_packets m p = Some head"
  shows "\<exists>lp. (if nx_packet_last head \<noteq> NX_NULL then nx_append_walk (nx_packet_last head) 0 m
       else Some (nx_packet_room head, NX_NULL)) = Some (room_at m (last ps), lp) \<and>
     (if lp \<noteq> NX_NULL then lp else p) = last ps"
proof -
  have ne: "ps \<noteq> []" and hd: "hd ps = p" "p \<noteq> NX_NULL" and ch: "chain m p ps"
    using wf chain_wf_hd [OF wf] by (simp_all add: chain_wf_def)
  have last: "nx_packet_last head = last ps \<or> nx_packet_last head = NX_NULL \<and> tl ps = []"
    using wf hd head by (auto simp: chain_wf_def last_ptr_ok_def)
  obtain pkt where pkt: "nx_packets m (last ps) = Some pkt" "nx_packet_next pkt = NX_NULL" "last ps \<noteq> NX_NULL"
    using linked_last [OF ch ne] by auto
  have "in_use m (last ps)" using wf ne by (simp add: chain_wf_def)
  then have ok: "packet_ok pkt" using pkt by (auto simp: in_use_def)
  have small: "room pkt < ULONG_RANGE" using packet_okD [OF ok] by (simp add: room_def)
  show ?thesis
  proof (cases "nx_packet_last head = NX_NULL")
    case True
    then have "last ps = p" using last hd ne pkt(3) by (cases ps) auto
    then show ?thesis using True pkt head nx_packet_room_eq [OF ok] by auto
  next
    case False
    then have "nx_packet_last head = last ps" using last by simp
    then show ?thesis
      using False pkt nx_packet_room_eq [OF ok] small by (subst nx_append_walk.simps) simp
  qed
qed

lemma need_bounds:
  assumes "0 < n" "available < data_size"
  shows "0 < need n available data_size" "data_size \<le> available + n * need n available data_size"
    "available + n * (need n available data_size - 1) < data_size"
proof -
  define k where "k = need n available data_size"
  have eq: "k = (data_size - available + n - 1) div n" by (simp add: k_def need_def)
  have lo: "n * k \<le> data_size - available + n - 1" unfolding eq by simp
  have hi: "data_size - available + n - 1 < n * Suc k"
    unfolding eq using dividend_less_times_div [OF assms(1)] by (simp add: algebra_simps)
  show "0 < need n available data_size" using need_Suc [OF assms(2,1)] by simp
  then have k: "0 < k" by (simp add: k_def)
  show "data_size \<le> available + n * need n available data_size" using hi k_def by simp
  have "n * k = n + n * (k - 1)" using k by (cases k) auto
  then show "available + n * (need n available data_size - 1) < data_size"
    using lo assms by (simp flip: k_def)
qed

text \<open>What an append leaves: the chain with its new packets, the data, the pools.\<close>

definition appended :: "nat \<Rightarrow> nat list \<Rightarrow> nat list \<Rightarrow> byte list \<Rightarrow> nx_mem \<Rightarrow> nx_mem \<Rightarrow> bool" where
  "appended p ps qs bs m m' \<longleftrightarrow> chain_wf m' p (ps @ qs) \<and>
     chain_bytes m' (ps @ qs) = chain_bytes m ps @ bs \<and> writes_only (set (ps @ qs)) m m' \<and>
     (\<forall>a \<in> set ps. map_option nx_packet_prepend_ptr (nx_packets m' a) =
        map_option nx_packet_prepend_ptr (nx_packets m a)) \<and>
     (\<forall>a \<in> set qs. \<exists>pk. nx_packets m' a = Some pk \<and> nx_packet_prepend_ptr pk = nx_packet_data_start pk) \<and>
     map_option nx_packet_length (nx_packets m' p) =
       map_option (\<lambda>h. ulong_add (nx_packet_length h) (length bs)) (nx_packets m p)"

lemma nx_packet_data_append_here:
  assumes inv: "pools_inv m F" and sep: "payloads_separate m" and wf: "chain_wf m p ps"
    and src: "apart m (set ps) src data_size" and size: "data_size \<le> room_at m (last ps)"
  shows "\<exists>m'. nx_packet_data_append S p src data_size P w m = Some (NX_SUCCESS, m') \<and>
     appended p ps [] (mem_read (nx_memory m) src data_size) m m' \<and> pools_inv m' F \<and>
     changes_only (set ps) m m' \<and> room_at m' (last ps) = room_at m (last ps) - data_size"
proof -
  have ne: "ps \<noteq> []" and hd: "hd ps = p" "p \<in> set ps" using wf chain_wf_hd [OF wf] by (simp_all add: chain_wf_def)
  obtain head where head: "nx_packets m p = Some head" "nx_packet_tcp_queue_next head \<noteq> NX_PACKET_FREE"
    using wf hd by (auto simp: chain_wf_def in_use_def)
  obtain lp where av: "(if nx_packet_last head \<noteq> NX_NULL then nx_append_walk (nx_packet_last head) 0 m
       else Some (nx_packet_room head, NX_NULL)) = Some (room_at m (last ps), lp)"
    using nx_append_available [OF wf head(1)] by blast
  define hk where "hk = head\<lparr>nx_packet_length := ulong_add (nx_packet_length head) data_size\<rparr>"
  define m1 where "m1 = put_packet p hk m"
  have sd: "same_data m m1" unfolding m1_def by (rule same_data_put [OF head(1)]) (simp add: hk_def data_view_def)
  have ch1: "changes_only {p} m m1"
    unfolding m1_def by (rule changes_only_put_packet [OF head(1)]) (simp_all add: hk_def payload_area_def)
  have inv1: "pools_inv m1 F"
    unfolding m1_def by (rule pools_inv_put_live [OF inv head(1)]) (use head(2) in \<open>simp_all add: hk_def\<close>)
  have c1: "chain m1 p (ps @ [])"
    using wf linked_upd_same_link [of "nx_packets m" p head nx_packet_next hk] head(1)
    by (simp add: m1_def chain_wf_def hk_def)
  have use1: "\<forall>a \<in> set (ps @ []). in_use m1 a" using wf same_data_in_use [OF sd] by (simp add: chain_wf_def)
  have room1: "room_at m1 (last ps) = room_at m (last ps)"
    by (rule same_data_room [OF sd]) (use wf ne in \<open>simp add: chain_wf_def\<close>)
  have last1: "nx_packet_last hk = last ps \<or> nx_packet_last hk = NX_NULL \<and> tl ps = []"
    using wf hd head by (auto simp: chain_wf_def last_ptr_ok_def hk_def)
  have bytes1: "chain_bytes m1 ps = chain_bytes m ps" "nx_memory m1 = nx_memory m"
    using wf same_data_packet_bytes [OF sd] sd by (auto intro!: chain_bytes_cong simp: chain_wf_def same_data_def)
  have d: "distinct (ps @ [])" and e: "\<forall>a \<in> set []. empty_packet m1 a" and at: "nx_packets m1 p = Some hk"
    and s: "data_size \<le> rooms m1 [last ps]" and s': "[] = [] \<or> rooms m1 (last ps # butlast []) < data_size"
    and src1: "apart m1 (set (ps @ [])) src data_size"
    using wf size room1 apart_changes_only [OF ch1 src] by (simp_all add: chain_wf_def m1_def)
  obtain m' where m': "nx_append_copy p (if nx_packet_last hk \<noteq> NX_NULL then nx_packet_last hk else p) src data_size m1 = Some m'"
    "chain_wf m' p (ps @ [])" "chain_bytes m' (ps @ []) = chain_bytes m1 ps @ mem_read (nx_memory m1) src data_size"
    "changes_only (set (ps @ [])) m1 m'" "writes_only (set (ps @ [])) m1 m'" "same_prepend m1 m'" "pools_inv m' F"
    "room_at m' (last (ps @ [])) = rooms m1 [last ps] - data_size"
    "\<exists>hk'. nx_packets m' p = Some hk' \<and> nx_packet_length hk' = nx_packet_length hk"
    using nx_append_finish [OF c1 ne d use1 e changes_only_separate [OF ch1 sep] src1 at last1 s s'] inv1 by blast
  have "nx_packet_data_append S p src data_size P w m = Some (NX_SUCCESS, m')"
    using head(1) av size m'(1)
    by (cases "nx_packet_last head = NX_NULL")
      (simp_all add: nx_packet_data_append_def modify_packet_def m1_def hk_def)
  moreover have "writes_only (set (ps @ [])) m m'"
    by (rule writes_only_trans [OF writes_only_memory [OF bytes1(2), of "{}"] ch1 m'(5)]) simp
  moreover have "changes_only (set ps) m m'" by (rule changes_only_trans [OF ch1 m'(4)]) (use hd in auto)
  moreover have "same_prepend m m'"
    by (rule same_prepend_trans [OF _ m'(6)], unfold m1_def, rule same_prepend_put_packet [OF head(1)])
      (simp add: hk_def)
  ultimately show ?thesis
    using m' bytes1 room1 head(1) by (auto simp: appended_def hk_def same_prepend_def)
qed

text \<open>The state after the new list has been hooked on and the length set.\<close>

lemma nx_append_prepared:
  assumes wf: "chain_wf m p ps" and head: "nx_packets m p = Some head" and sep: "payloads_separate m"
    and m1: "changes_only A m m1" "A \<inter> set ps = {}" "nx_memory m1 = nx_memory m" "pools_inv m1 F"
    and nl: "newlist m1 P n nl qs" "qs \<noteq> []" and disj: "set ps \<inter> set qs = {}"
  obtains m4 hk where
    "do { m2 \<leftarrow> modify_packet (last ps) (\<lambda>pk. pk\<lparr>nx_packet_next := nl\<rparr>) m1;
          m3 \<leftarrow> modify_packet nl (\<lambda>pk. pk\<lparr>nx_packet_last := NX_NULL\<rparr>) m2;
          modify_packet p (\<lambda>pk. pk\<lparr>nx_packet_length := ulong_add (nx_packet_length pk) k\<rparr>) m3 } = Some m4"
    "chain m4 p (ps @ qs)" "same_data m1 m4" "changes_only (set ps \<union> set qs) m1 m4" "pools_inv m4 F"
    "nx_packets m4 p = Some hk" "nx_packet_last hk = nx_packet_last head"
    "nx_packet_length hk = ulong_add (nx_packet_length head) k"
proof -
  define t where "t = last ps"
  define us where "us = butlast ps"
  have ne: "ps \<noteq> []" and hd: "hd ps = p" "p \<in> set ps" and ch: "chain m p ps" and d: "distinct ps"
    using wf chain_wf_hd [OF wf] by (simp_all add: chain_wf_def)
  have ps: "ps = us @ [t]" using ne by (simp add: us_def t_def)
  have same: "nx_packets m1 a = nx_packets m a" if "a \<in> set ps" for a
    using changes_only_same [OF m1(1), of a] m1(2) that by auto
  have ch1: "chain m1 p ps" using chain_changes_only [OF m1(1,2)] ch by simp
  have inu: "in_use m1 a" if "a \<in> set ps" for a
    using wf same [OF that] that by (simp add: chain_wf_def in_use_def)
  obtain pkt where pkt: "nx_packets m1 t = Some pkt" using inu [of t] ps by (auto simp: in_use_def)
  have nlq: "nl \<in> set qs" using nl by (cases qs) (auto simp: newlist_def)
  obtain pkn where pkn: "nx_packets m1 nl = Some pkn" using nl(1,2) by (auto simp: newlist_def)
  define m3 where "m3 = hooked t nl pkt pkn m1"
  note hook = hooked_chain [OF _ _ pkt nl(1,2) pkn, where us = us and p = p, folded m3_def]
  have nt: "nl \<noteq> t" using nlq disj ps by auto
  have np: "nl \<noteq> p" using nlq disj hd by auto
  define h3 where "h3 = (if p = t then head\<lparr>nx_packet_next := nl\<rparr> else head)"
  have h3: "nx_packets m3 p = Some h3"
    using same [OF hd(2)] head pkt np by (auto simp: m3_def hooked_def h3_def)
  define hk where "hk = h3\<lparr>nx_packet_length := ulong_add (nx_packet_length h3) k\<rparr>"
  define m4 where "m4 = put_packet p hk m3"
  show thesis
  proof (rule that [of m4 hk])
    show "do { m2 \<leftarrow> modify_packet (last ps) (\<lambda>pk. pk\<lparr>nx_packet_next := nl\<rparr>) m1;
          m3 \<leftarrow> modify_packet nl (\<lambda>pk. pk\<lparr>nx_packet_last := NX_NULL\<rparr>) m2;
          modify_packet p (\<lambda>pk. pk\<lparr>nx_packet_length := ulong_add (nx_packet_length pk) k\<rparr>) m3 } = Some m4"
    proof -
      have "modify_packet t (\<lambda>pk. pk\<lparr>nx_packet_next := nl\<rparr>) m1 = Some (put_packet t (pkt\<lparr>nx_packet_next := nl\<rparr>) m1)"
        using pkt by (simp add: modify_packet_def)
      moreover have "modify_packet nl (\<lambda>pk. pk\<lparr>nx_packet_last := NX_NULL\<rparr>) (put_packet t (pkt\<lparr>nx_packet_next := nl\<rparr>) m1) = Some m3"
        using pkn nt by (simp add: modify_packet_def m3_def hooked_def)
      moreover have "modify_packet p (\<lambda>pk. pk\<lparr>nx_packet_length := ulong_add (nx_packet_length pk) k\<rparr>) m3 = Some m4"
        using h3 by (simp add: modify_packet_def m4_def hk_def)
      ultimately show ?thesis by (simp add: t_def)
    qed
    have "chain m3 p (ps @ qs)" using hook(1) ch1 d disj ps by simp
    then show "chain m4 p (ps @ qs)"
      using linked_upd_same_link [of "nx_packets m3" p h3 nx_packet_next hk] h3
      by (simp add: m4_def hk_def)
    have "same_data m1 m3" using hook(2) ch1 d disj ps by simp
    then show "same_data m1 m4"
      unfolding m4_def by (rule same_data_trans) (rule same_data_put [OF h3], simp add: hk_def data_view_def)
    have "changes_only ({t} \<union> set qs) m1 m3" using hook(3) ch1 d disj ps by simp
    then show "changes_only (set ps \<union> set qs) m1 m4"
      unfolding m4_def
      by (rule changes_only_trans [OF _ changes_only_put_packet [OF h3, of _ "{p}"]])
        (use hd ps in \<open>auto simp: hk_def payload_area_def\<close>)
    have "pools_inv m3 F" using hook(4) ch1 d disj ps inu [of t] m1(4) by simp
    then show "pools_inv m4 F"
      unfolding m4_def
      by (rule pools_inv_put_live [OF _ h3])
        (use inu [OF hd(2)] same [OF hd(2)] head in \<open>auto simp: hk_def h3_def in_use_def\<close>)
    show "nx_packets m4 p = Some hk" by (simp add: m4_def)
    show "nx_packet_last hk = nx_packet_last head"
      "nx_packet_length hk = ulong_add (nx_packet_length head) k"
      by (simp_all add: hk_def h3_def)
  qed
qed

lemma nx_packet_data_append_grows:
  assumes inv: "pools_inv m F" and sep: "payloads_separate m" and wf: "chain_wf m p ps"
    and P: "nx_pools m P = Some pool" "nx_packet_pool_payload_size pool = n" "0 < n"
    and src: "apart m (set ps \<union> set (F P)) src data_size"
    and less: "room_at m (last ps) < data_size"
    and enough: "data_size \<le> room_at m (last ps) + n * length (F P)" and fits: "data_size + n < ULONG_RANGE"
    and k: "k = need n (room_at m (last ps)) data_size" and qs: "qs = take k (F P)"
  shows "\<exists>m'. nx_packet_data_append S p src data_size P w m = Some (NX_SUCCESS, m') \<and>
     appended p ps qs (mem_read (nx_memory m) src data_size) m m' \<and> pools_inv m' (F(P := drop k (F P))) \<and>
     changes_only (set ps \<union> set (F P)) m m' \<and>
     room_at m' (last (ps @ qs)) = room_at m (last ps) + n * length qs - data_size"
proof -
  have ne: "ps \<noteq> []" and hd: "hd ps = p" "p \<in> set ps" "p \<noteq> NX_NULL" and inu: "\<And>a. a \<in> set ps \<Longrightarrow> in_use m a"
    using wf chain_wf_hd [OF wf] by (simp_all add: chain_wf_def)
  obtain head where head: "nx_packets m p = Some head" using inu hd by (auto simp: in_use_def)
  obtain lp where av: "(if nx_packet_last head \<noteq> NX_NULL then nx_append_walk (nx_packet_last head) 0 m
       else Some (nx_packet_room head, NX_NULL)) = Some (room_at m (last ps), lp)"
    and lp: "(if lp \<noteq> NX_NULL then lp else p) = last ps"
    using nx_append_available [OF wf head] by blast
  have free: "set (F P) \<inter> set ps = {}" using in_use_not_free [OF inv P(1)] inu by blast
  obtain m1 nl where alloc: "nx_append_allocate S P w data_size NX_NULL NX_NULL (room_at m (last ps)) m = Some (NX_SUCCESS, nl, m1)"
    and nl: "newlist m1 P n nl qs" and inv1: "pools_inv m1 (F(P := drop k (F P)))"
    and ch1: "changes_only (set (F P)) m m1" and mem1: "nx_memory m1 = nx_memory m"
    using nx_append_allocate_ok [OF inv P, of NX_NULL "[]" data_size "room_at m (last ps)" S w NX_NULL] enough fits k qs
    by auto
  note nb = need_bounds [OF P(3) less, folded k]
  have lenq: "length qs = k"
  proof -
    have "n * (k - 1) < n * length (F P)" using nb(3) enough by linarith
    then have "k - 1 < length (F P)" by simp
    then show ?thesis using qs nb(1) by simp
  qed
  then have qne: "qs \<noteq> []" using nb(1) by auto
  have qF: "set qs \<subseteq> set (F P)" using qs by (simp add: set_take_subset)
  then have disj: "set ps \<inter> set qs = {}" using free by auto
  obtain m4 hk where m4: "do { m2 \<leftarrow> modify_packet (last ps) (\<lambda>pk. pk\<lparr>nx_packet_next := nl\<rparr>) m1;
          m3 \<leftarrow> modify_packet nl (\<lambda>pk. pk\<lparr>nx_packet_last := NX_NULL\<rparr>) m2;
          modify_packet p (\<lambda>pk. pk\<lparr>nx_packet_length := ulong_add (nx_packet_length pk) data_size\<rparr>) m3 } = Some m4"
    "chain m4 p (ps @ qs)" "same_data m1 m4" "changes_only (set ps \<union> set qs) m1 m4" "pools_inv m4 (F(P := drop k (F P)))"
    "nx_packets m4 p = Some hk" "nx_packet_last hk = nx_packet_last head"
    "nx_packet_length hk = ulong_add (nx_packet_length head) data_size"
    using nx_append_prepared [OF wf head sep ch1 free mem1 inv1 nl qne disj, of data_size] by blast
  have same: "nx_packets m1 a = nx_packets m a" if "a \<in> set ps" for a
    using changes_only_same [OF ch1, of a] free that by auto
  have ch4: "changes_only (set ps \<union> set (F P)) m m4"
    by (rule changes_only_trans [OF ch1 m4(4)]) (use qF in auto)
  have inu1: "in_use m1 a" if "a \<in> set ps" for a using inu [OF that] same [OF that] by (simp add: in_use_def)
  have inuq: "in_use m1 a" if "a \<in> set qs" for a using nl that by (auto simp: newlist_def intro: fresh_in_use)
  have use4: "\<forall>a \<in> set (ps @ qs). in_use m4 a" using same_data_in_use [OF m4(3)] inu1 inuq by auto
  have empty4: "\<forall>a \<in> set qs. empty_packet m4 a"
    using nl same_data_empty [OF m4(3) fresh_empty] by (auto simp: newlist_def)
  have room4: "room_at m4 (last ps) = room_at m (last ps)"
    using same_data_room [OF m4(3) inu1 [of "last ps"]] same [of "last ps"] ne by (simp add: room_at_def)
  have rooms4: "rooms m4 qs = n * k"
    using same_data_rooms [OF m4(3), of qs] inuq newlist_rooms [OF nl] lenq by simp
  have "rooms m4 qs = rooms m4 (butlast qs) + room_at m4 (last qs)"
    by (metis add.right_neutral append_butlast_last_id qne rooms_simps)
  moreover have "room_at m4 (last qs) = n"
    using same_data_room [OF m4(3) inuq [of "last qs"]] fresh_room_at [of m1 P n "last qs"] nl qne
    by (simp add: newlist_def)
  ultimately have but4: "rooms m4 (butlast qs) = n * (k - 1)" using rooms4 by (simp add: diff_mult_distrib2)
  have src4: "apart m4 (set (ps @ qs)) src data_size"
    by (rule apart_sub [OF apart_changes_only [OF ch4 src]]) (use qF in auto)
  have last4: "nx_packet_last hk = last ps \<or> nx_packet_last hk = NX_NULL \<and> tl ps = []"
    using wf hd head m4(7) by (auto simp: chain_wf_def last_ptr_ok_def)
  have d4: "distinct (ps @ qs)"
    using wf disj nl by (auto simp: chain_wf_def newlist_def)
  have s4: "data_size \<le> rooms m4 (last ps # qs)" "qs = [] \<or> rooms m4 (last ps # butlast qs) < data_size"
    using nb room4 rooms4 but4 by simp_all
  obtain m' where m': "nx_append_copy p (if nx_packet_last hk \<noteq> NX_NULL then nx_packet_last hk else p) src data_size m4 = Some m'"
    "chain_wf m' p (ps @ qs)" "chain_bytes m' (ps @ qs) = chain_bytes m4 ps @ mem_read (nx_memory m4) src data_size"
    "changes_only (set (ps @ qs)) m4 m'" "writes_only (set (ps @ qs)) m4 m'" "same_prepend m4 m'" "pools_inv m' (F(P := drop k (F P)))"
    "room_at m' (last (ps @ qs)) = rooms m4 (last ps # qs) - data_size"
    "\<exists>hk'. nx_packets m' p = Some hk' \<and> nx_packet_length hk' = nx_packet_length hk"
    using nx_append_finish [OF m4(2) ne d4 use4 empty4 changes_only_separate [OF ch4 sep] src4 m4(6) last4 s4] m4(5)
    by blast
  have mem4: "nx_memory m4 = nx_memory m" using m4(3) mem1 by (simp add: same_data_def)
  have bytes4: "chain_bytes m4 ps = chain_bytes m ps"
  proof (rule chain_bytes_cong)
    fix a assume a: "a \<in> set ps"
    show "packet_bytes m4 a = packet_bytes m a"
      using same_data_packet_bytes [OF m4(3) inu1 [OF a]] same [OF a] mem1
      by (cases "nx_packets m a") (simp_all add: packet_bytes_def)
  qed
  have call: "nx_packet_data_append S p src data_size P w m = Some (NX_SUCCESS, m')"
    using head av less alloc lp m4(1,6) m'(1)
    by (auto simp: nx_packet_data_append_def split: bind_splits)
  have "writes_only (set (ps @ qs)) m m'"
    by (rule writes_only_trans [OF writes_only_memory [OF mem4, of "{}"] ch4 m'(5)]) simp
  moreover have "changes_only (set ps \<union> set (F P)) m m'"
    by (rule changes_only_trans [OF ch4 m'(4)]) (use qF in auto)
  moreover have "\<forall>a \<in> set ps. map_option nx_packet_prepend_ptr (nx_packets m' a) =
      map_option nx_packet_prepend_ptr (nx_packets m a)"
    using m'(6) same_data_prepend [OF m4(3)] same by (simp add: same_prepend_def)
  moreover have "\<exists>pk. nx_packets m' a = Some pk \<and> nx_packet_prepend_ptr pk = nx_packet_data_start pk"
    if a: "a \<in> set qs" for a
  proof -
    have "fresh m1 P n a" using nl a by (simp add: newlist_def)
    then obtain pk1 where pk1: "nx_packets m1 a = Some pk1" "nx_packet_prepend_ptr pk1 = nx_packet_data_start pk1"
      by (auto simp: fresh_def)
    obtain pk' where pk': "nx_packets m' a = Some pk'" "nx_packet_data_start pk' = nx_packet_data_start pk1"
      using changes_only_area [OF changes_only_trans [OF m4(4) m'(4) subset_refl] pk1(1)] by auto
    have "map_option nx_packet_prepend_ptr (nx_packets m' a) = map_option nx_packet_prepend_ptr (nx_packets m1 a)"
      using m'(6) same_data_prepend [OF m4(3)] by (simp add: same_prepend_def)
    then show ?thesis using pk1 pk' by simp
  qed
  ultimately show ?thesis
    using call m' bytes4 mem4 room4 rooms4 head m4(8) lenq by (auto simp: appended_def)
qed

text \<open>Not enough free packets: the caller is told, and the pool has its packets back.\<close>

lemma nx_packet_data_append_fails:
  assumes inv: "pools_inv m F" and wf: "chain_wf m p ps"
    and P: "nx_pools m P = Some pool" "nx_packet_pool_payload_size pool = n"
    and short: "room_at m (last ps) + n * length (F P) < data_size" and fits: "data_size + n < ULONG_RANGE"
    and idle: "\<And>Q. idle m Q"
  shows "\<exists>m'. nx_packet_data_append S p src data_size P NX_NO_WAIT m = Some (NX_NO_PACKET, m') \<and>
     pools_inv m' (F(P := rev (F P))) \<and> changes_only (set (F P)) m m' \<and> nx_memory m' = nx_memory m"
proof -
  obtain head where head: "nx_packets m p = Some head"
    using wf chain_wf_hd [OF wf] by (auto simp: chain_wf_def in_use_def)
  obtain lp where av: "(if nx_packet_last head \<noteq> NX_NULL then nx_append_walk (nx_packet_last head) 0 m
       else Some (nx_packet_room head, NX_NULL)) = Some (room_at m (last ps), lp)"
    using nx_append_available [OF wf head] by blast
  obtain m' nl where "nx_append_allocate S P NX_NO_WAIT data_size NX_NULL NX_NULL (room_at m (last ps)) m =
      Some (NX_NO_PACKET, nl, m')" "pools_inv m' (F(P := rev (F P)))" "changes_only (set (F P)) m m'"
      "nx_memory m' = nx_memory m"
    using nx_append_allocate_fails [OF inv P, of NX_NULL "[]" "room_at m (last ps)" data_size S NX_NULL] short fits idle
    by auto
  then show ?thesis
    using head av short by (auto simp: nx_packet_data_append_def)
qed

end
