(* ===== verification/Nx_Read.thy ===== *)
theory Nx_Read imports Nx_Append begin

text \<open>
  The services that read a chain into a buffer of the caller: both write exactly the bytes
  asked for and nothing else.
\<close>

section \<open>Retrieving everything\<close>

lemma put_bytes_append:
  "put_bytes (a + length bs) cs (put_bytes a bs m) = put_bytes a (bs @ cs) m"
  by (simp add: put_bytes_def mem_write_append)

lemma put_bytes_Nil [simp]: "put_bytes a [] m = m"
  by (simp add: put_bytes_def)

lemma length_packet_bytes_in_use:
  "nx_packets m a = Some pk \<Longrightarrow> packet_ok pk \<Longrightarrow> length (packet_bytes m a) = nx_packet_data_size pk"
  by (simp add: length_packet_bytes nx_packet_data_size_eq)

lemma packet_bytes_read:
  "nx_packets m a = Some pk \<Longrightarrow> packet_ok pk \<Longrightarrow>
     mem_read (nx_memory m) (nx_packet_prepend_ptr pk) (nx_packet_data_size pk) = packet_bytes m a"
  by (simp add: packet_bytes_def nx_packet_data_size_eq)

text \<open>A buffer apart from the payload areas of a chain can be written without changing the
  chain's data.\<close>

lemma apart_put_bytes:
  assumes "apart m A d n" "length bs \<le> n" "a \<in> A" "in_use m a"
  shows "packet_bytes (put_bytes d bs m) a = packet_bytes m a"
proof -
  obtain pk where pk: "nx_packets m a = Some pk" "packet_ok pk" using assms(4) by (auto elim: in_useE)
  have "d + n \<le> nx_packet_data_start pk \<or> nx_packet_data_end pk \<le> d"
    using assms(1,3) pk by (auto simp: apart_def)
  then show ?thesis
    using pk packet_okD [OF pk(2)] assms(2)
    by (auto simp: packet_bytes_def intro!: mem_read_write_disjoint)
qed

lemma apart_put_bytes_iff [simp]: "apart (put_bytes d bs m) A b n \<longleftrightarrow> apart m A b n"
  by (simp add: apart_def)

lemma in_use_put_bytes [simp]: "in_use (put_bytes d bs m) a \<longleftrightarrow> in_use m a"
  by (simp add: in_use_def)

lemma chain_bytes_put_bytes:
  assumes "apart m A d n" "length bs \<le> n" "set ps \<subseteq> A" "\<forall>a \<in> set ps. in_use m a"
  shows "chain_bytes (put_bytes d bs m) ps = chain_bytes m ps"
  by (rule chain_bytes_cong) (use assms apart_put_bytes in blast)

lemma nx_retrieve_loop_eq:
  assumes "chain m p ps" "\<forall>a \<in> set ps. in_use m a" "apart m (set ps) d (length (chain_bytes m ps))"
    and "remaining < ULONG_RANGE"
  shows "nx_retrieve_loop p d remaining m =
    Some (ulong_sub remaining (length (chain_bytes m ps)), put_bytes d (chain_bytes m ps) m)"
  using assms
proof (induction ps arbitrary: p d remaining m)
  case Nil
  then show ?case by (simp add: nx_retrieve_loop.simps)
next
  case (Cons a ps)
  have p: "p = a" "p \<noteq> NX_NULL" and "in_use m p" using Cons.prems(1,2) by simp_all
  then obtain pk where pk: "nx_packets m p = Some pk" "packet_ok pk" by (auto elim: in_useE)
  define m1 where "m1 = put_bytes d (packet_bytes m p) m"
  have inu: "\<forall>b \<in> set ps. in_use m b" using Cons.prems(2) by simp
  have tl: "chain m1 (nx_packet_next pk) ps" using Cons.prems(1) pk p by (simp add: m1_def)
  have bytes: "chain_bytes m1 ps = chain_bytes m ps"
    unfolding m1_def by (rule chain_bytes_put_bytes [OF Cons.prems(3) _ _ inu]) (use p in auto)
  have ap: "apart m1 (set ps) (d + length (packet_bytes m p)) (length (chain_bytes m1 ps))"
    unfolding bytes using Cons.prems(3) p by (auto simp: m1_def elim!: apart_sub)
  have "nx_retrieve_loop p d remaining m =
      nx_retrieve_loop (nx_packet_next pk) (d + length (packet_bytes m p))
        (ulong_sub remaining (length (packet_bytes m p))) m1"
    using p(2) pk packet_bytes_read [OF pk] length_packet_bytes_in_use [OF pk]
    by (subst nx_retrieve_loop.simps) (simp add: m1_def Let_def)
  also have "\<dots> = Some (ulong_sub (ulong_sub remaining (length (packet_bytes m p))) (length (chain_bytes m ps)),
      put_bytes (d + length (packet_bytes m p)) (chain_bytes m ps) m1)"
    using Cons.IH [OF tl _ ap] inu bytes by (simp add: m1_def)
  finally show ?case using p by (simp add: ulong_sub_sub m1_def put_bytes_append)
qed

section \<open>Extracting from an offset\<close>

lemma nx_extract_seek_eq:
  assumes "chain m p ps" "\<forall>a \<in> set ps. in_use m a" "offset < length (chain_bytes m ps)"
  shows "\<exists>us w ws pk. ps = us @ w # ws \<and> nx_packets m w = Some pk \<and> packet_ok pk \<and>
     length (chain_bytes m us) \<le> offset \<and> offset < length (chain_bytes m us) + nx_packet_data_size pk \<and>
     nx_extract_seek p offset m = Some (w, nx_packet_prepend_ptr pk + (offset - length (chain_bytes m us)))"
  using assms
proof (induction ps arbitrary: p offset)
  case Nil
  then show ?case by simp
next
  case (Cons a ps)
  have p: "p = a" "p \<noteq> NX_NULL" and "in_use m p" using Cons.prems(1,2) by simp_all
  then obtain pk where pk: "nx_packets m p = Some pk" "packet_ok pk" by (auto elim: in_useE)
  note len = length_packet_bytes_in_use [OF pk]
  show ?case
  proof (cases "offset < nx_packet_data_size pk")
    case True
    then have "nx_extract_seek p offset m = Some (p, nx_packet_prepend_ptr pk + offset)"
      using p pk by (subst nx_extract_seek.simps) simp
    then show ?thesis using True p pk by (intro exI [of _ "[]"] exI [of _ p] exI [of _ ps] exI [of _ pk]) simp
  next
    case False
    define off where "off = offset - nx_packet_data_size pk"
    have "chain m (nx_packet_next pk) ps" using Cons.prems(1) pk p by simp
    moreover have "off < length (chain_bytes m ps)" using Cons.prems(3) False len p by (simp add: off_def)
    ultimately obtain us w ws qk where w: "ps = us @ w # ws" "nx_packets m w = Some qk" "packet_ok qk"
      "length (chain_bytes m us) \<le> off" "off < length (chain_bytes m us) + nx_packet_data_size qk"
      "nx_extract_seek (nx_packet_next pk) off m =
         Some (w, nx_packet_prepend_ptr qk + (off - length (chain_bytes m us)))"
      using Cons.IH [of "nx_packet_next pk" off] Cons.prems(2) by auto
    have "nx_extract_seek p offset m = nx_extract_seek (nx_packet_next pk) off m"
      using p pk False by (subst nx_extract_seek.simps) (simp add: off_def)
    then show ?thesis
      using w False len p off_def
      by (intro exI [of _ "p # us"] exI [of _ w] exI [of _ ws] exI [of _ qk]) auto
  qed
qed

lemma nx_extract_loop_eq:
  assumes "chain m w (w # ws)" "\<forall>a \<in> set (w # ws). in_use m a" "nx_packets m w = Some pk"
    and "nx_packet_prepend_ptr pk \<le> src" "src \<le> nx_packet_append_ptr pk"
    and "B = mem_read (nx_memory m) src (nx_packet_append_ptr pk - src) @ chain_bytes m ws"
    and "remaining \<le> length B" "apart m (set (w # ws)) d remaining"
  shows "nx_extract_loop w src d remaining m = Some (put_bytes d (take remaining B) m)"
  using assms
proof (induction ws arbitrary: w m pk src d remaining B)
  case Nil
  have ok: "packet_ok pk" using Nil.prems(2,3) by (auto simp: in_use_def)
  have sub: "ulong_sub (nx_packet_append_ptr pk) src = nx_packet_append_ptr pk - src"
    using packet_okD [OF ok] Nil.prems(5) by simp
  show ?case
  proof (cases "remaining = 0")
    case True
    then show ?thesis by (subst nx_extract_loop.simps) simp
  next
    case False
    have "take remaining B = mem_read (nx_memory m) src remaining"
      using Nil.prems(6,7) by (simp add: take_mem_read)
    moreover have "\<not> remaining < nx_packet_append_ptr pk - src \<Longrightarrow> nx_packet_append_ptr pk - src = remaining"
      using Nil.prems(6,7) by simp
    moreover have "nx_packet_next pk = NX_NULL" "w \<noteq> NX_NULL" using Nil.prems(1,3) by auto
    ultimately show ?thesis
      using Nil.prems(3) False sub
      by (subst nx_extract_loop.simps) (auto simp: Let_def nx_extract_loop.simps [of NX_NULL])
  qed
next
  case (Cons v ws)
  have ok: "packet_ok pk" using Cons.prems(2,3) by (auto simp: in_use_def)
  define here where "here = nx_packet_append_ptr pk - src"
  have sub: "ulong_sub (nx_packet_append_ptr pk) src = here"
    using packet_okD [OF ok] Cons.prems(5) by (simp add: here_def)
  have w: "w \<noteq> NX_NULL" "nx_packet_next pk = v" "chain m v (v # ws)" using Cons.prems(1,3) by auto
  have inv: "in_use m v" using Cons.prems(2) by simp
  then obtain vk where vk: "nx_packets m v = Some vk" "packet_ok vk" by (auto elim: in_useE)
  show ?case
  proof (cases "remaining = 0")
    case True
    then show ?thesis by (subst nx_extract_loop.simps) simp
  next
    case False
    define c where "c = (if remaining < here then remaining else here)"
    define m1 where "m1 = put_bytes d (mem_read (nx_memory m) src c) m"
    have cr: "c \<le> remaining" by (simp add: c_def)
    have step: "nx_extract_loop w src d remaining m =
        nx_extract_loop v (nx_packet_prepend_ptr vk) (d + c) (remaining - c) m1"
      using False w(1,2) Cons.prems(3) vk(1) sub linked_valid [OF w(3), of v]
      by (subst nx_extract_loop.simps) (auto simp: Let_def m1_def c_def)
    have inu: "\<forall>a \<in> set (v # ws). in_use m a" using Cons.prems(2) by simp
    have bytes1: "chain_bytes m1 (v # ws) = chain_bytes m (v # ws)"
      unfolding m1_def by (rule chain_bytes_put_bytes [OF Cons.prems(8) _ _ inu]) (use cr in auto)
    have ch1: "chain m1 v (v # ws)" using w(3) by (simp add: m1_def)
    have vk1: "nx_packets m1 v = Some vk" using vk(1) by (simp add: m1_def)
    have inu1: "\<forall>a \<in> set (v # ws). in_use m1 a" using inu by (simp add: m1_def)
    have B1: "chain_bytes m (v # ws) = mem_read (nx_memory m1) (nx_packet_prepend_ptr vk)
        (nx_packet_append_ptr vk - nx_packet_prepend_ptr vk) @ chain_bytes m1 ws"
      using bytes1 vk1 by (simp add: packet_bytes_def)
    have fit: "remaining - c \<le> length (chain_bytes m (v # ws))"
      using Cons.prems(6,7) by (auto simp: c_def here_def)
    have ap1: "apart m1 (set (v # ws)) (d + c) (remaining - c)"
      using Cons.prems(8) cr by (auto simp: m1_def elim!: apart_sub)
    have "nx_extract_loop v (nx_packet_prepend_ptr vk) (d + c) (remaining - c) m1 =
        Some (put_bytes (d + c) (take (remaining - c) (chain_bytes m (v # ws))) m1)"
      by (rule Cons.IH [OF ch1 inu1 vk1 _ _ B1 fit ap1]) (use packet_okD [OF vk(2)] in auto)
    moreover have "take remaining B = mem_read (nx_memory m) src c @ take (remaining - c) (chain_bytes m (v # ws))"
      using Cons.prems(6) by (auto simp: c_def here_def take_mem_read)
    ultimately show ?thesis
      using step put_bytes_append [of d "mem_read (nx_memory m) src c"] by (simp add: m1_def)
  qed
qed

lemma nx_packet_data_extract_ok:
  assumes wf: "chain_wf m p ps" and head: "nx_packets m p = Some head"
    and len: "nx_packet_length head = length (chain_bytes m ps)" "nx_packet_length head < ULONG_RANGE"
    and addr: "\<And>a pk. a \<in> set ps \<Longrightarrow> nx_packets m a = Some pk \<Longrightarrow> nx_packet_data_start pk \<noteq> NX_NULL"
    and buf: "apart m (set ps) d buffer_length" and off: "offset < length (chain_bytes m ps)"
  shows "nx_packet_data_extract_offset p offset d buffer_length m =
     Some (NX_SUCCESS, Some (min buffer_length (length (chain_bytes m ps) - offset)),
       put_bytes d (take buffer_length (drop offset (chain_bytes m ps))) m)"
proof -
  have ch: "chain m p ps" and inu: "\<forall>a \<in> set ps. in_use m a" using wf by (simp_all add: chain_wf_def)
  obtain us w ws pk where w: "ps = us @ w # ws" "nx_packets m w = Some pk" "packet_ok pk"
    "length (chain_bytes m us) \<le> offset" "offset < length (chain_bytes m us) + nx_packet_data_size pk"
    and seek: "nx_extract_seek p offset m = Some (w, nx_packet_prepend_ptr pk + (offset - length (chain_bytes m us)))"
    using nx_extract_seek_eq [OF ch inu off] by blast
  define o' where "o' = offset - length (chain_bytes m us)"
  define src where "src = nx_packet_prepend_ptr pk + o'"
  define r where "r = min buffer_length (length (chain_bytes m ps) - offset)"
  note ok = packet_okD [OF w(3)]
  have o': "o' < nx_packet_append_ptr pk - nx_packet_prepend_ptr pk"
    using w(4,5) nx_packet_data_size_eq [OF w(3)] by (simp add: o'_def)
  have src0: "src \<noteq> NX_NULL" using addr [of w pk] w(1,2) ok by (auto simp: src_def)
  have B: "drop offset (chain_bytes m ps) =
      mem_read (nx_memory m) src (nx_packet_append_ptr pk - src) @ chain_bytes m ws"
    using w(1,2,4) o' by (simp add: src_def o'_def packet_bytes_def drop_mem_read)
  have rB: "r \<le> length (drop offset (chain_bytes m ps))" by (simp add: r_def)
  have cw: "chain m w (w # ws)" by (rule linked_suffix [of _ _ p us]) (use ch w(1) in simp)
  have loop: "nx_extract_loop w src d r m = Some (put_bytes d (take r (drop offset (chain_bytes m ps))) m)"
  proof (rule nx_extract_loop_eq [OF cw _ w(2) _ _ B rB])
    show "apart m (set (w # ws)) d r" using buf by (rule apart_sub) (auto simp: w(1) r_def)
  qed (use inu w(1) o' in \<open>auto simp: src_def\<close>)
  have "take r (drop offset (chain_bytes m ps)) = take buffer_length (drop offset (chain_bytes m ps))"
    by (simp add: r_def min_def)
  moreover have "(if length (chain_bytes m ps) - offset < buffer_length
      then length (chain_bytes m ps) - offset else buffer_length) = r"
    by (simp add: r_def)
  ultimately show ?thesis
    using head len off seek loop src0
    by (simp add: nx_packet_data_extract_offset_def src_def [symmetric] o'_def [symmetric] r_def [symmetric] Let_def)
qed

end
