(* ===== verification/Nx_Copy.thy ===== *)
theory Nx_Copy imports Nx_Append begin

text \<open>
  \<open>nx_packet_copy\<close>: the copy is a chain of its own with the bytes of the source, the room
  in front of them included, and the source is as it was.
\<close>

section \<open>Append, with or without new packets\<close>

lemma nx_packet_data_append_ok:
  assumes inv: "pools_inv m F" and sep: "payloads_separate m" and wf: "chain_wf m p ps"
    and P: "nx_pools m P = Some pool" "nx_packet_pool_payload_size pool = n" "0 < n"
    and src: "apart m (set ps \<union> set (F P)) src data_size"
    and enough: "data_size \<le> room_at m (last ps) + n * length (F P)" and fits: "data_size + n < ULONG_RANGE"
    and k: "k = need n (room_at m (last ps)) data_size"
  shows "\<exists>m'. nx_packet_data_append S p src data_size P w m = Some (NX_SUCCESS, m') \<and>
     appended p ps (take k (F P)) (mem_read (nx_memory m) src data_size) m m' \<and>
     pools_inv m' (F(P := drop k (F P))) \<and> changes_only (set ps \<union> set (F P)) m m' \<and>
     room_at m' (last (ps @ take k (F P))) = room_at m (last ps) + n * length (take k (F P)) - data_size"
proof (cases "room_at m (last ps) < data_size")
  case True
  then show ?thesis using nx_packet_data_append_grows [OF inv sep wf P src True enough fits k refl] by blast
next
  case False
  then have k0: "k = 0" using k P(3) by simp
  have srcp: "apart m (set ps) src data_size" using src by (rule apart_sub) auto
  obtain m' where m': "nx_packet_data_append S p src data_size P w m = Some (NX_SUCCESS, m')"
    "appended p ps [] (mem_read (nx_memory m) src data_size) m m'" "pools_inv m' F"
    "changes_only (set ps) m m'" "room_at m' (last ps) = room_at m (last ps) - data_size"
    using nx_packet_data_append_here [OF inv sep wf srcp, of S P w] False by auto
  then show ?thesis using k0 changes_only_mono [OF m'(4), of "set ps \<union> set (F P)"] by auto
qed

lemma need_le:
  assumes "0 < n" "data_size \<le> available + n * l"
  shows "need n available data_size \<le> l"
proof (cases "available < data_size")
  case True
  have "n * (need n available data_size - 1) < n * l"
    using need_bounds(3) [OF assms(1) True] assms(2) by linarith
  then have "need n available data_size - 1 < l" by simp
  then show ?thesis by arith
qed (use assms in simp)

lemma need_covers: "0 < n \<Longrightarrow> data_size \<le> available + n * need n available data_size"
  by (cases "available < data_size") (simp_all add: need_bounds(2))

section \<open>The loop over the source\<close>

text \<open>A work chain: its packets come from one pool and their data starts at the start of their
  payload areas.\<close>

definition work_ok :: "nx_mem \<Rightarrow> nat \<Rightarrow> nat \<Rightarrow> nat \<Rightarrow> nat list \<Rightarrow> (nat \<Rightarrow> nat list) \<Rightarrow> bool" where
  "work_ok m P n w ws F \<longleftrightarrow> pools_inv m F \<and> payloads_separate m \<and> chain_wf m w ws \<and>
     (\<exists>pool. nx_pools m P = Some pool \<and> nx_packet_pool_payload_size pool = n) \<and>
     (\<forall>a \<in> set ws. \<exists>pk. nx_packets m a = Some pk \<and> nx_packet_prepend_ptr pk = nx_packet_data_start pk \<and>
        nx_packet_data_end pk = nx_packet_data_start pk + n)"

text \<open>What has been copied into it: the bytes, the room left, and the frame.\<close>

definition copied_to :: "nat \<Rightarrow> nat \<Rightarrow> nat \<Rightarrow> nat list \<Rightarrow> nat list \<Rightarrow> byte list \<Rightarrow> (nat \<Rightarrow> nat list) \<Rightarrow>
    (nat \<Rightarrow> nat list) \<Rightarrow> nx_mem \<Rightarrow> nx_mem \<Rightarrow> bool" where
  "copied_to P n w ws ws' bs F F' m m' \<longleftrightarrow> work_ok m' P n w (ws @ ws') F' \<and>
     chain_bytes m' (ws @ ws') = chain_bytes m ws @ bs \<and>
     changes_only (set ws \<union> set (F P)) m m' \<and> writes_only (set ws \<union> set (F P)) m m' \<and>
     set ws' \<subseteq> set (F P) \<and> F' = F(P := drop (length ws') (F P)) \<and> length ws' \<le> length (F P) \<and>
     room_at m' (last (ws @ ws')) = room_at m (last ws) + n * length ws' - length bs \<and>
     length bs \<le> room_at m (last ws) + n * length ws' \<and>
     map_option nx_packet_length (nx_packets m' w) =
       map_option (\<lambda>h. ulong_add (nx_packet_length h) (length bs)) (nx_packets m w)"

lemma copied_to_step:
  assumes work: "work_ok m P n w ws F" and n: "0 < n"
    and src: "apart m (set ws \<union> set (F P)) src data_size"
    and enough: "data_size \<le> room_at m (last ws) + n * length (F P)" and fits: "data_size + n < ULONG_RANGE"
  shows "\<exists>m' ws' F'. nx_packet_data_append S w src data_size P wopt m = Some (NX_SUCCESS, m') \<and>
     copied_to P n w ws ws' (mem_read (nx_memory m) src data_size) F F' m m'"
proof -
  obtain pool where P: "nx_pools m P = Some pool" "nx_packet_pool_payload_size pool = n"
    and inv: "pools_inv m F" and sep: "payloads_separate m" and wf: "chain_wf m w ws"
    and area: "\<forall>a \<in> set ws. \<exists>pk. nx_packets m a = Some pk \<and> nx_packet_prepend_ptr pk = nx_packet_data_start pk \<and>
        nx_packet_data_end pk = nx_packet_data_start pk + n"
    using work by (auto simp: work_ok_def)
  define k where "k = need n (room_at m (last ws)) data_size"
  define qs where "qs = take k (F P)"
  have kl: "k \<le> length (F P)" unfolding k_def by (rule need_le [OF n enough])
  then have lenq: "length qs = k" by (simp add: qs_def)
  obtain m' where m': "nx_packet_data_append S w src data_size P wopt m = Some (NX_SUCCESS, m')"
    and app: "appended w ws qs (mem_read (nx_memory m) src data_size) m m'"
    and inv': "pools_inv m' (F(P := drop k (F P)))" and ch: "changes_only (set ws \<union> set (F P)) m m'"
    and room: "room_at m' (last (ws @ qs)) = room_at m (last ws) + n * length qs - data_size"
    using nx_packet_data_append_ok [OF inv sep wf P n src enough fits k_def] by (auto simp: qs_def)
  have qF: "set qs \<subseteq> set (F P)" by (simp add: qs_def set_take_subset)
  have "\<exists>pk. nx_packets m' a = Some pk \<and> nx_packet_prepend_ptr pk = nx_packet_data_start pk \<and>
      nx_packet_data_end pk = nx_packet_data_start pk + n" if a: "a \<in> set (ws @ qs)" for a
  proof (cases "a \<in> set ws")
    case True
    then obtain pk where pk: "nx_packets m a = Some pk" "nx_packet_prepend_ptr pk = nx_packet_data_start pk"
      "nx_packet_data_end pk = nx_packet_data_start pk + n" using area by blast
    then show ?thesis
      using app True changes_only_area [OF ch pk(1)] by (fastforce simp: appended_def)
  next
    case False
    then have q: "a \<in> set qs" using a by simp
    obtain pk where pk: "nx_packets m a = Some pk" "nx_packet_data_end pk = nx_packet_data_start pk + n"
      using free_listD [OF inv P(1), of a] q qF P(2) by (auto simp: slot_ok_def)
    then show ?thesis
      using app q changes_only_area [OF ch pk(1)] by (fastforce simp: appended_def)
  qed
  moreover have "\<exists>pool. nx_pools m' P = Some pool \<and> nx_packet_pool_payload_size pool = n"
    using changes_only_pool [OF ch P(1)] P(2) by auto
  ultimately have "work_ok m' P n w (ws @ qs) (F(P := drop k (F P)))"
    using inv' app changes_only_separate [OF ch sep] by (simp add: work_ok_def appended_def)
  moreover have "writes_only (set ws \<union> set (F P)) m m'"
    by (rule writes_only_mono [where A = "set (ws @ qs)"]) (use app qF in \<open>auto simp: appended_def\<close>)
  moreover have "data_size \<le> room_at m (last ws) + n * k" unfolding k_def by (rule need_covers [OF n])
  ultimately have "copied_to P n w ws qs (mem_read (nx_memory m) src data_size) F (F(P := drop k (F P))) m m'"
    using app ch qF room lenq kl by (simp add: copied_to_def appended_def)
  then show ?thesis using m' by blast
qed

lemma copied_to_trans:
  assumes "copied_to P n w ws ws1 bs1 F F1 m m1" "copied_to P n w (ws @ ws1) ws2 bs2 F1 F2 m1 m2"
  shows "copied_to P n w ws (ws1 @ ws2) (bs1 @ bs2) F F2 m m2"
proof -
  have a1: "changes_only (set ws \<union> set (F P)) m m1" "writes_only (set ws \<union> set (F P)) m m1"
    "F1 = F(P := drop (length ws1) (F P))" "set ws1 \<subseteq> set (F P)"
    and a2: "changes_only (set (ws @ ws1) \<union> set (F1 P)) m1 m2" "writes_only (set (ws @ ws1) \<union> set (F1 P)) m1 m2"
    using assms by (simp_all add: copied_to_def)
  have sub: "set (F1 P) \<subseteq> set (F P)" using a1(3) by (simp add: set_drop_subset)
  have "changes_only (set ws \<union> set (F P)) m m2"
    by (rule changes_only_trans [OF a1(1) a2(1)]) (use sub a1(4) in auto)
  moreover have "writes_only (set ws \<union> set (F P)) m m2"
    by (rule writes_only_trans [OF a1(2,1) a2(2)]) (use sub a1(4) in auto)
  moreover have "set (ws1 @ ws2) \<subseteq> set (F P)" using assms sub by (auto simp: copied_to_def)
  moreover have "map_option nx_packet_length (nx_packets m2 w) =
      map_option (\<lambda>h. ulong_add (nx_packet_length h) (length (bs1 @ bs2))) (nx_packets m w)"
  proof (cases "nx_packets m w")
    case None
    then show ?thesis using assms by (auto simp: copied_to_def)
  next
    case (Some h)
    then obtain h1 h2 where "nx_packets m1 w = Some h1" "nx_packets m2 w = Some h2"
      "nx_packet_length h1 = ulong_add (nx_packet_length h) (length bs1)"
      "nx_packet_length h2 = ulong_add (nx_packet_length h1) (length bs2)"
      using assms by (auto simp: copied_to_def)
    then show ?thesis using Some by (simp add: ulong_add_def mod_add_left_eq add.assoc)
  qed
  ultimately show ?thesis
    using assms by (auto simp: copied_to_def algebra_simps fun_eq_iff)
qed

text \<open>The bytes of a packet from the start of its payload area.\<close>

definition area_bytes :: "nx_mem \<Rightarrow> nat \<Rightarrow> byte list" where
  "area_bytes m a = (case nx_packets m a of None \<Rightarrow> []
     | Some pk \<Rightarrow> mem_read (nx_memory m) (nx_packet_data_start pk)
                    (nx_packet_append_ptr pk - nx_packet_data_start pk))"

definition copy_bytes :: "nx_mem \<Rightarrow> bool \<Rightarrow> nat list \<Rightarrow> byte list" where
  "copy_bytes m first qs =
     (if first then area_bytes m (hd qs) else packet_bytes m (hd qs)) @ chain_bytes m (tl qs)"

lemma source_read:
  assumes "in_use m q"
  shows "\<exists>pk from. nx_packets m q = Some pk \<and> from = (if first then nx_packet_data_start pk else nx_packet_prepend_ptr pk) \<and>
     mem_read (nx_memory m) from (ulong_sub (nx_packet_append_ptr pk) from) =
       (if first then area_bytes m q else packet_bytes m q) \<and>
     nx_packet_data_start pk \<le> from \<and> from + ulong_sub (nx_packet_append_ptr pk) from \<le> nx_packet_data_end pk"
proof -
  obtain pk where pk: "nx_packets m q = Some pk" "packet_ok pk" using assms by (auto elim: in_useE)
  then show ?thesis
    using packet_okD [OF pk(2)] by (auto simp: area_bytes_def packet_bytes_def)
qed

text \<open>A packet outside the work chain and the free list is not touched by the copying.\<close>

lemma copied_to_source:
  assumes cp: "copied_to P n w ws ws' bs F F' m m'" and sep: "payloads_separate m"
    and q: "in_use m q" "q \<notin> set ws \<union> set (F P)"
  shows "nx_packets m' q = nx_packets m q" "packet_bytes m' q = packet_bytes m q" "in_use m' q"
proof -
  have ch: "changes_only (set ws \<union> set (F P)) m m'" and wr: "writes_only (set ws \<union> set (F P)) m m'"
    using cp by (simp_all add: copied_to_def)
  obtain pk where pk: "nx_packets m q = Some pk" "packet_ok pk" using q(1) by (auto elim: in_useE)
  show same: "nx_packets m' q = nx_packets m q" by (rule changes_only_same [OF ch q(2)])
  show "packet_bytes m' q = packet_bytes m q"
    by (rule packet_bytes_writes_other [OF wr sep q(2) pk]) (use same pk in auto)
  show "in_use m' q" using q(1) same by (simp add: in_use_def)
qed

lemma nx_copy_loop_ok:
  assumes "work_ok m P n w ws F" "0 < n" "chain m q qs" "qs \<noteq> []" "distinct qs" "\<forall>a \<in> set qs. in_use m a"
    and "set qs \<inter> set ws = {}" "bs = copy_bytes m first qs"
    and "length bs \<le> room_at m (last ws) + n * length (F P)" "length bs + n < ULONG_RANGE"
  shows "\<exists>m' ws' F'. nx_copy_loop S P wopt w first q m = Some (NX_SUCCESS, m') \<and>
     copied_to P n w ws ws' bs F F' m m'"
  using assms
proof (induction qs arbitrary: q m ws F first bs)
  case Nil
  then show ?case by simp
next
  case (Cons q0 qs)
  have q: "q0 = q" and qn: "in_use m q" using Cons.prems(3,6) by auto
  obtain pool where P: "nx_pools m P = Some pool" and inv: "pools_inv m F" and sep: "payloads_separate m"
    using Cons.prems(1) by (auto simp: work_ok_def)
  have free: "a \<notin> set ws \<union> set (F P)" if "a \<in> set (q0 # qs)" for a
    using in_use_not_free [OF inv P] Cons.prems(6,7) that by auto
  obtain pk st where pk: "nx_packets m q = Some pk"
    "st = (if first then nx_packet_data_start pk else nx_packet_prepend_ptr pk)"
    "mem_read (nx_memory m) st (ulong_sub (nx_packet_append_ptr pk) st) =
       (if first then area_bytes m q else packet_bytes m q)"
    "nx_packet_data_start pk \<le> st" "st + ulong_sub (nx_packet_append_ptr pk) st \<le> nx_packet_data_end pk"
    using source_read [OF qn, of first] by blast
  define sz where "sz = ulong_sub (nx_packet_append_ptr pk) st"
  define b1 where "b1 = mem_read (nx_memory m) st sz"
  have bs: "bs = b1 @ chain_bytes m qs" using Cons.prems(8) pk(3) q by (simp add: copy_bytes_def b1_def sz_def)
  have sz: "length b1 = sz" by (simp add: b1_def)
  have src: "apart m (set ws \<union> set (F P)) st sz"
    by (rule packet_apart [OF sep pk(1) free]) (use pk(4,5) q in \<open>simp_all add: sz_def\<close>)
  obtain m1 ws1 F1 where m1: "nx_packet_data_append S w st sz P wopt m = Some (NX_SUCCESS, m1)"
    and c1: "copied_to P n w ws ws1 b1 F F1 m m1"
    using copied_to_step [OF Cons.prems(1,2) src, of S wopt] Cons.prems(9,10) bs sz unfolding b1_def by auto
  note source = copied_to_source [OF c1 sep]
  have q1: "nx_packets m1 q = Some pk" using source(1) [OF qn] free [of q] q pk(1) by simp
  have tl: "chain m (nx_packet_next pk) qs" using Cons.prems(3) q pk(1) by simp
  show ?case
  proof (cases "qs = []")
    case True
    then have "nx_packet_next pk = NX_NULL" using tl by simp
    then have "nx_copy_loop S P wopt w first q m = Some (NX_SUCCESS, m1)"
      using pk(1,2) m1 q1 by (subst nx_copy_loop.simps) (simp add: sz_def Let_def)
    then show ?thesis using c1 bs True by auto
  next
    case False
    then have nn: "nx_packet_next pk \<noteq> NX_NULL" using tl by (cases qs) auto
    have inu: "in_use m a" if "a \<in> set qs" for a using Cons.prems(6) that by simp
    have same: "nx_packets m1 a = nx_packets m a \<and> packet_bytes m1 a = packet_bytes m a \<and> in_use m1 a"
      if "a \<in> set qs" for a
      using source [OF inu [OF that] free] that by auto
    have "chain m1 (nx_packet_next pk) qs \<longleftrightarrow> chain m (nx_packet_next pk) qs"
      by (rule linked_cong) (simp add: same)
    then have ch1: "chain m1 (nx_packet_next pk) qs" using tl by simp
    have inu1: "\<forall>a \<in> set qs. in_use m1 a" using same by simp
    have "packet_bytes m1 (hd qs) = packet_bytes m (hd qs)" "chain_bytes m1 (tl qs) = chain_bytes m (tl qs)"
      using same False by (auto intro!: chain_bytes_cong dest: list.set_sel(2) [OF False])
    then have cb: "copy_bytes m1 False qs = chain_bytes m qs"
      using False by (cases qs) (simp_all add: copy_bytes_def)
    have w1: "work_ok m1 P n w (ws @ ws1) F1" using c1 unfolding copied_to_def by blast
    have disj: "set qs \<inter> set (ws @ ws1) = {}" using c1 free by (fastforce simp: copied_to_def)
    have F1: "length (F1 P) = length (F P) - length ws1" "length ws1 \<le> length (F P)"
      using c1 by (auto simp: copied_to_def)
    have "room_at m (last ws) + n * length ws1 - sz + n * length (F1 P) = room_at m (last ws) + n * length (F P) - sz"
      using F1 c1 sz by (auto simp: copied_to_def diff_mult_distrib2)
    then have enough: "length (copy_bytes m1 False qs) \<le> room_at m1 (last (ws @ ws1)) + n * length (F1 P)"
      using Cons.prems(9) bs sz c1 cb by (simp add: copied_to_def)
    obtain m2 ws2 F2 where m2: "nx_copy_loop S P wopt w False (nx_packet_next pk) m1 = Some (NX_SUCCESS, m2)"
      "copied_to P n w (ws @ ws1) ws2 (copy_bytes m1 False qs) F1 F2 m1 m2"
      using Cons.IH [OF w1 Cons.prems(2) ch1 False _ inu1 disj refl enough] Cons.prems(5,10) bs cb by auto
    have "nx_copy_loop S P wopt w first q m = Some (NX_SUCCESS, m2)"
      using pk(1,2) m1 q1 nn m2(1) by (subst nx_copy_loop.simps) (simp add: sz_def Let_def)
    then show ?thesis using copied_to_trans [OF c1 m2(2)] bs cb by auto
  qed
qed

section \<open>The copy\<close>

text \<open>Every byte of room of a work chain is either used or left.\<close>

lemma work_full:
  assumes "work_ok m P n w ws F"
  shows "length (chain_bytes m ws) + rooms m ws = n * length ws"
proof -
  have each: "length (packet_bytes m a) + room_at m a = n" if a: "a \<in> set ws" for a
  proof -
    obtain pk where pk: "nx_packets m a = Some pk" "nx_packet_prepend_ptr pk = nx_packet_data_start pk"
        "nx_packet_data_end pk = nx_packet_data_start pk + n"
      using assms a unfolding work_ok_def by blast
    have "in_use m a" using assms a by (simp add: work_ok_def chain_wf_def)
    then have "packet_ok pk" using pk(1) by (auto simp: in_use_def)
    from packet_okD [OF this] show ?thesis using pk by (simp add: length_packet_bytes room_def)
  qed
  have "length (chain_bytes m vs) + rooms m vs = n * length vs" if "set vs \<subseteq> set ws" for vs
    using that
  proof (induction vs)
    case (Cons a vs)
    then show ?case using each [of a] by simp
  qed simp
  then show ?thesis by blast
qed

lemma work_first:
  assumes "work_ok m P n w (w # ws) F" "off \<le> n" "off \<le> length (chain_bytes m (w # ws))"
    and "room_at m (last (w # ws)) = n * length (w # ws) - length (chain_bytes m (w # ws))"
  shows "off \<le> length (packet_bytes m w)"
proof (cases "ws = []")
  case False
  then obtain us l where ws: "ws = us @ [l]" by (cases ws rule: rev_cases) auto
  have "length (packet_bytes m w) + room_at m w = n"
  proof -
    have "work_ok m P n w (w # ws) F" by (rule assms(1))
    then obtain pk where pk: "nx_packets m w = Some pk" "nx_packet_prepend_ptr pk = nx_packet_data_start pk"
        "nx_packet_data_end pk = nx_packet_data_start pk + n" "packet_ok pk"
      by (auto simp: work_ok_def chain_wf_def in_use_def)
    from packet_okD [OF pk(4)] show ?thesis using pk by (simp add: length_packet_bytes room_def)
  qed
  moreover have "room_at m w = 0"
    using work_full [OF assms(1)] assms(4) by (simp add: ws)
  ultimately show ?thesis using assms(2) by simp
qed (use assms(3) in simp)

lemma copy_bytes_source:
  assumes "nx_packets m p = Some head" "packet_ok head"
  shows "length (copy_bytes m True (p # ps)) =
      nx_packet_prepend_ptr head - nx_packet_data_start head + length (chain_bytes m (p # ps))"
    and "drop (nx_packet_prepend_ptr head - nx_packet_data_start head) (copy_bytes m True (p # ps)) =
      chain_bytes m (p # ps)"
  using assms(1) packet_okD [OF assms(2)]
  by (simp_all add: copy_bytes_def area_bytes_def packet_bytes_def drop_mem_read)

text \<open>The last step: the room in front of the data is cut off again.\<close>

lemma nx_copy_trim:
  assumes work: "work_ok m P n w (w # ws) F" and wk: "nx_packets m w = Some wk"
    and off: "off \<le> length (packet_bytes m w)"
    and m': "m' = put_packet w (wk\<lparr>nx_packet_prepend_ptr := nx_packet_data_start wk + off,
       nx_packet_length := l, nx_packet_ip_header := h\<rparr>) m"
  shows "chain_wf m' w (w # ws)" "chain_bytes m' (w # ws) = drop off (chain_bytes m (w # ws))"
    "pools_inv m' F" "changes_only {w} m m'"
proof -
  have wf: "chain_wf m w (w # ws)" and pre: "nx_packet_prepend_ptr wk = nx_packet_data_start wk"
    using work wk by (auto simp: work_ok_def)
  have ok: "packet_ok wk" "nx_packet_tcp_queue_next wk \<noteq> NX_PACKET_FREE" and out: "w \<notin> set ws"
    using wf wk by (auto simp: chain_wf_def in_use_def)
  note okD = packet_okD [OF ok(1)]
  have fit: "nx_packet_data_start wk + off \<le> nx_packet_append_ptr wk"
    using off wk pre okD by (simp add: length_packet_bytes)
  have others: "nx_packets m' a = nx_packets m a" if "a \<noteq> w" for a using that m' by simp
  have "chain m' w (w # ws)" using wf wk out m' by (simp add: chain_wf_def)
  moreover have "in_use m' a" if "a \<in> set (w # ws)" for a
    using wf that others [of a] fit ok okD m' by (cases "a = w") (auto simp: chain_wf_def in_use_def packet_ok_def)
  moreover have "last_ptr_ok m' (w # ws)" using wf wk m' by (auto simp: chain_wf_def last_ptr_ok_def)
  ultimately show "chain_wf m' w (w # ws)" using wf by (simp add: chain_wf_def)
  have "packet_bytes m' w = drop off (packet_bytes m w)"
    using wk pre fit okD m' by (simp add: packet_bytes_def drop_mem_read)
  moreover have "chain_bytes m' ws = chain_bytes m ws"
  proof (rule chain_bytes_cong)
    fix a assume "a \<in> set ws"
    then have "a \<noteq> w" using out by auto
    then show "packet_bytes m' a = packet_bytes m a"
      using m' by (simp add: packet_bytes_def split: option.splits)
  qed
  ultimately show "chain_bytes m' (w # ws) = drop off (chain_bytes m (w # ws))" using off by simp
  show "pools_inv m' F"
    unfolding m' by (rule pools_inv_put_live [OF _ wk]) (use work ok in \<open>auto simp: work_ok_def\<close>)
  show "changes_only {w} m m'"
    unfolding m' by (rule changes_only_put_packet [OF wk]) (simp_all add: payload_area_def)
qed

lemma nx_packet_copy_ok:
  assumes inv: "pools_inv m F" and sep: "payloads_separate m" and wf: "chain_wf m p ps"
    and head: "nx_packets m p = Some head" "nx_packet_length head = length (chain_bytes m ps)" "0 < nx_packet_length head"
    and P: "nx_pools m P = Some pool" "nx_packet_pool_payload_size pool = n" "0 < n" and F: "F P = w # fs"
    and off: "nx_packet_prepend_ptr head - nx_packet_data_start head \<le> n"
    and enough: "nx_packet_prepend_ptr head - nx_packet_data_start head + length (chain_bytes m ps) \<le> n * length (F P)"
    and fits: "nx_packet_prepend_ptr head - nx_packet_data_start head + length (chain_bytes m ps) + n < ULONG_RANGE"
  shows "\<exists>m' ws F' wk. nx_packet_copy S p P wopt m = Some (NX_SUCCESS, w, m') \<and> chain_wf m' w ws \<and>
     chain_bytes m' ws = chain_bytes m ps \<and> pools_inv m' F' \<and> set ws \<subseteq> set (F P) \<and>
     nx_packets m' w = Some wk \<and> nx_packet_length wk = nx_packet_length head \<and>
     (\<forall>a \<in> set ps. nx_packets m' a = nx_packets m a \<and> packet_bytes m' a = packet_bytes m a)"
proof -
  define k where "k = nx_packet_prepend_ptr head - nx_packet_data_start head"
  have ne: "ps \<noteq> []" and hd: "hd ps = p" and ch: "chain m p ps" and d: "distinct ps"
    and inu: "\<And>a. a \<in> set ps \<Longrightarrow> in_use m a"
    using wf chain_wf_hd [OF wf] by (simp_all add: chain_wf_def)
  have psp: "ps = p # tl ps" using ne hd by (cases ps) auto
  then have ok: "packet_ok head" using inu [of p] head(1) by (metis in_use_def list.set_intros(1) option.inject)
  note okD = packet_okD [OF ok]
  have free: "a \<notin> set (F P)" if "a \<in> set ps" for a using in_use_not_free [OF inv P(1) inu [OF that]] .
  obtain pk where pk: "nx_packets m w = Some pk" "nx_packet_pool_owner pk = P" "w \<noteq> NX_NULL" "slot_ok n pk"
    and alloc: "nx_packet_allocate S P NX_NULL 0 wopt m = Some (NX_SUCCESS, w, taken P pool 0 w pk m)"
    and inv1: "pools_inv (taken P pool 0 w pk m) (F(P := fs))"
    using nx_packet_allocate_success [OF inv P(1) F, of 0 S NX_NULL wopt] P(2) by auto
  define m1 where "m1 = taken P pool 0 w pk m"
  define wk where "wk = (alloc_header 0 pk)\<lparr>nx_packet_interface_ptr := nx_packet_interface_ptr head,
      nx_packet_ip_version := nx_packet_ip_version head\<rparr>"
  define m2 where "m2 = put_packet w wk m1"
  have w1: "nx_packets m1 w = Some (alloc_header 0 pk)" by (simp add: m1_def taken_def)
  have wp: "w \<notin> set ps" using free F by auto
  then have pw: "p \<noteq> w" using psp by (metis list.set_intros(1))
  have ch1: "changes_only {w} m m1" "nx_memory m1 = nx_memory m"
    unfolding m1_def by (rule taken_changes_only [OF pk(1) P(1)])+
  have ch2: "changes_only {w} m m2"
    unfolding m2_def
    by (rule changes_only_trans [OF ch1(1) changes_only_put_packet [OF w1, of _ "{w}"]])
      (simp_all add: wk_def payload_area_def)
  have mem2: "nx_memory m2 = nx_memory m" using ch1(2) by (simp add: m2_def)
  have same2: "nx_packets m2 a = nx_packets m a" if "a \<in> set ps" for a
    using changes_only_same [OF ch2, of a] wp that by auto
  have inv2: "pools_inv m2 (F(P := fs))"
    unfolding m2_def by (rule pools_inv_put_live [OF inv1 [folded m1_def] w1]) (simp_all add: wk_def)
  obtain pool2 where pool2: "nx_pools m2 P = Some pool2" "nx_packet_pool_payload_size pool2 = n"
    using changes_only_pool [OF ch2 P(1)] P(2) by auto
  have wk2: "nx_packets m2 w = Some wk" by (simp add: m2_def)
  have work2: "work_ok m2 P n w [w] (F(P := fs))"
    using inv2 changes_only_separate [OF ch2 sep] pool2 wk2 pk
    by (auto simp: work_ok_def chain_wf_def in_use_def last_ptr_ok_def wk_def packet_ok_def slot_ok_def)
  have room2: "room_at m2 w = n" using wk2 pk(4) by (simp add: wk_def room_def slot_ok_def)
  have "chain m2 p ps \<longleftrightarrow> chain m p ps" by (rule linked_cong) (simp add: same2)
  then have c2: "chain m2 p ps" using ch by simp
  have i2: "\<forall>a \<in> set ps. in_use m2 a" using inu same2 by (simp add: in_use_def)
  have pb2: "packet_bytes m2 a = packet_bytes m a" if "a \<in> set ps" for a
    using same2 [OF that] mem2 by (simp add: packet_bytes_def split: option.splits)
  have cb2: "chain_bytes m2 ps = chain_bytes m ps" by (rule chain_bytes_cong) (rule pb2)
  have hd2: "nx_packets m2 p = Some head" using same2 [of p] psp head(1) by (metis list.set_intros(1))
  define D where "D = copy_bytes m2 True ps"
  have D: "length D = k + length (chain_bytes m ps)" "drop k D = chain_bytes m ps"
    using copy_bytes_source [OF hd2 ok, of "tl ps"] cb2 unfolding psp [symmetric] D_def k_def by simp_all
  have enough2: "length D \<le> room_at m2 (last [w]) + n * length ((F(P := fs)) P)"
    using enough D(1) F room2 by (simp add: k_def)
  have fits2: "length D + n < ULONG_RANGE" using fits D(1) by (simp add: k_def)
  obtain m3 ws F3 where loop: "nx_copy_loop S P wopt w True p m2 = Some (NX_SUCCESS, m3)"
    and cp: "copied_to P n w [w] ws D (F(P := fs)) F3 m2 m3"
    using nx_copy_loop_ok [OF work2 P(3) c2 ne d i2 _ D_def enough2 fits2, of S wopt] wp
    by (auto simp del: fun_upd_apply)
  have "packet_bytes m2 w = []" using wk2 by (simp add: packet_bytes_def wk_def)
  then have work3: "work_ok m3 P n w (w # ws) F3" and bytes3: "chain_bytes m3 (w # ws) = D"
    and room3: "room_at m3 (last (w # ws)) = n * length (w # ws) - length D"
    using cp room2 unfolding copied_to_def by auto
  obtain wk3 where wk3: "nx_packets m3 w = Some wk3" "nx_packet_length wk3 = length D"
    using cp wk2 fits2 by (auto simp: copied_to_def wk_def)
  have source3: "nx_packets m3 a = nx_packets m a \<and> packet_bytes m3 a = packet_bytes m a" if "a \<in> set ps" for a
    using copied_to_source [OF cp changes_only_separate [OF ch2 sep], of a] i2 that wp free [OF that] F same2 pb2
    by auto
  have kw: "k \<le> length (packet_bytes m3 w)"
    by (rule work_first [OF work3]) (use off D(1) bytes3 room3 in \<open>simp_all add: k_def\<close>)
  define h where "h = nx_packet_data_start wk3 + ulong_sub (nx_packet_ip_header head) (nx_packet_data_start head)"
  define m4 where "m4 = put_packet w (wk3\<lparr>nx_packet_prepend_ptr := nx_packet_data_start wk3 + k,
     nx_packet_length := nx_packet_length head, nx_packet_ip_header := h\<rparr>) m3"
  note trim = nx_copy_trim [OF work3 wk3(1) kw m4_def]
  have "nx_packet_copy S p P wopt m = Some (NX_SUCCESS, w, m4)"
  proof -
    have l: "ulong_sub (nx_packet_length wk3) k = nx_packet_length head"
      using wk3(2) D(1) head(2) fits2 by simp
    have u: "ulong_sub (nx_packet_prepend_ptr head) (nx_packet_data_start head) = k"
      using okD by (simp add: k_def)
    have "nx_packets m1 p = Some head" using changes_only_same [OF ch1(1), of p] pw head(1) by simp
    moreover have "nx_packets m3 p = Some head" using source3 [of p] psp head(1) by (metis list.set_intros(1))
    ultimately show ?thesis
      using head(1,3) alloc w1 loop wk3(1) l u pw
      by (simp add: nx_packet_copy_def modify_packet_def m1_def [symmetric] m2_def [symmetric] wk_def [symmetric]
          Let_def m4_def h_def)
  qed
  moreover have "chain_bytes m4 (w # ws) = chain_bytes m ps" using trim(2) D(2) unfolding bytes3 by simp
  moreover have "set (w # ws) \<subseteq> set (F P)" using cp F by (auto simp: copied_to_def)
  moreover have "nx_packets m4 a = nx_packets m a \<and> packet_bytes m4 a = packet_bytes m a" if a: "a \<in> set ps" for a
  proof -
    have "a \<noteq> w" using wp a by auto
    then show ?thesis using source3 [OF a] by (simp add: m4_def packet_bytes_def split: option.splits)
  qed
  moreover have "nx_packets m4 w = Some (wk3\<lparr>nx_packet_prepend_ptr := nx_packet_data_start wk3 + k,
     nx_packet_length := nx_packet_length head, nx_packet_ip_header := h\<rparr>)" (is "_ = Some ?wk")
    by (simp add: m4_def)
  ultimately show ?thesis
    using trim(1,3)
    by (intro exI [of _ m4] exI [of _ "w # ws"] exI [of _ F3] exI [of _ ?wk]) simp
qed

end
