(* ===== verification/Nx_Adjust.thy ===== *)
theory Nx_Adjust imports Nx_Append begin

text \<open>
  \<open>nx_packet_data_adjust\<close> makes room for a header in front of the data of a packet: by moving
  the data inside the payload area, or, when the area is too small for both, by moving the end
  of the data into a new packet.
\<close>

section \<open>Replacing the first packet of a chain\<close>

lemma chain_wf_replace_head:
  assumes wf: "chain_wf m p (p # ps)" and hk: "nx_packets m' p = Some hk"
    and hk': "packet_ok hk" "nx_packet_tcp_queue_next hk \<noteq> NX_PACKET_FREE"
    and news: "chain m' (nx_packet_next hk) (qs @ ps)" "distinct qs" "p \<notin> set qs" "set qs \<inter> set ps = {}"
      "\<forall>a \<in> set qs. in_use m' a"
    and last: "nx_packet_last hk = last (p # qs @ ps) \<or> nx_packet_last hk = NX_NULL \<and> qs @ ps = []"
    and same: "\<And>a. a \<in> set ps \<Longrightarrow> nx_packets m' a = nx_packets m a"
  shows "chain_wf m' p (p # qs @ ps)"
proof -
  have "p \<noteq> NX_NULL" using wf chain_wf_hd by blast
  moreover have "in_use m' a" if "a \<in> set ps" for a
    using wf same [OF that] that by (simp add: chain_wf_def in_use_def)
  ultimately show ?thesis
    using wf hk hk' news last by (auto simp: chain_wf_def in_use_def last_ptr_ok_def)
qed

text \<open>Moving data inside the payload area of its packet.\<close>

definition moved :: "nat \<Rightarrow> nx_packet \<Rightarrow> nat \<Rightarrow> nat \<Rightarrow> nx_mem \<Rightarrow> nx_mem" where
  "moved p hk src k m = put_packet p hk (put_bytes (nx_packet_prepend_ptr hk) (mem_read (nx_memory m) src k) m)"

lemma moved_bytes:
  "nx_packet_append_ptr hk = nx_packet_prepend_ptr hk + k \<Longrightarrow>
     packet_bytes (moved p hk src k m) p = mem_read (nx_memory m) src k"
  using mem_read_write_same [of "nx_memory m" "nx_packet_prepend_ptr hk" "mem_read (nx_memory m) src k"]
  by (simp add: packet_bytes_def moved_def)

lemma moved_step:
  assumes pk: "nx_packets m p = Some pk" "nx_packet_tcp_queue_next pk \<noteq> NX_PACKET_FREE"
    and hk: "payload_area hk = payload_area pk" "nx_packet_tcp_queue_next hk \<noteq> NX_PACKET_FREE"
      "packet_ok hk" "nx_packet_append_ptr hk = nx_packet_prepend_ptr hk + k"
  shows "changes_only {p} m (moved p hk src k m)" "writes_only {p} m (moved p hk src k m)"
    "pools_inv m F \<Longrightarrow> pools_inv (moved p hk src k m) F"
    "nx_packets (moved p hk src k m) = (nx_packets m)(p \<mapsto> hk)"
proof -
  show "changes_only {p} m (moved p hk src k m)"
    unfolding moved_def
    by (rule changes_only_trans [OF _ changes_only_put_packet [of _ p pk hk "{p}"]]) (use pk hk in auto)
  show "writes_only {p} m (moved p hk src k m)"
    using pk(1) packet_okD [OF hk(3)] hk(1,4)
    by (auto simp: writes_only_def moved_def payload_area_def intro!: mem_write_other)
  show "pools_inv (moved p hk src k m) F" if "pools_inv m F"
    unfolding moved_def
    by (rule pools_inv_put_live [where pk = pk]) (use pk hk that in \<open>auto simp: payload_area_def\<close>)
qed (simp add: moved_def)

section \<open>The branches\<close>

lemma nx_packet_data_adjust_move:
  assumes inv: "pools_inv m F" and sep: "payloads_separate m" and wf: "chain_wf m p ps"
    and head: "nx_packets m p = Some pk"
    and more: "nx_packet_prepend_ptr pk - nx_packet_data_start pk < header_size"
    and fits: "header_size \<le> (nx_packet_prepend_ptr pk - nx_packet_data_start pk) + room pk"
  shows "\<exists>m' hk. nx_packet_data_adjust S p header_size m = Some (NX_SUCCESS, m') \<and> chain_wf m' p ps \<and>
     chain_bytes m' ps = chain_bytes m ps \<and> pools_inv m' F \<and>
     nx_packets m' p = Some hk \<and> nx_packet_prepend_ptr hk = nx_packet_data_start hk + header_size \<and>
     nx_packet_length hk = nx_packet_length pk"
proof -
  obtain us where ps: "ps = p # us" using wf by (cases ps) (auto simp: chain_wf_def)
  have ok: "packet_ok pk" "nx_packet_tcp_queue_next pk \<noteq> NX_PACKET_FREE" "p \<notin> set us"
    using wf head ps by (auto simp: chain_wf_def in_use_def)
  note okD = packet_okD [OF ok(1)]
  define k where "k = nx_packet_append_ptr pk - nx_packet_prepend_ptr pk"
  define hk where "hk = pk\<lparr>nx_packet_prepend_ptr := nx_packet_data_start pk + header_size,
     nx_packet_append_ptr := nx_packet_data_start pk + header_size + k\<rparr>"
  define m' where "m' = moved p hk (nx_packet_prepend_ptr pk) k m"
  have fit: "nx_packet_data_start pk + header_size + k \<le> nx_packet_data_end pk"
    using fits okD by (simp add: room_def k_def)
  have hk: "payload_area hk = payload_area pk" "nx_packet_tcp_queue_next hk \<noteq> NX_PACKET_FREE" "packet_ok hk"
    "nx_packet_append_ptr hk = nx_packet_prepend_ptr hk + k"
    using ok fit okD by (simp_all add: hk_def payload_area_def packet_ok_def)
  note step = moved_step [OF head ok(2) hk, where src = "nx_packet_prepend_ptr pk", folded m'_def]
  have same: "nx_packets m' a = nx_packets m a" if "a \<in> set us" for a using step(4) that ok(3) by auto
  have "ulong_sub (nx_packet_data_end pk) (nx_packet_data_start pk) = nx_packet_data_end pk - nx_packet_data_start pk"
    "ulong_sub (nx_packet_prepend_ptr pk) (nx_packet_data_start pk) = nx_packet_prepend_ptr pk - nx_packet_data_start pk"
    "ulong_add (nx_packet_prepend_ptr pk - nx_packet_data_start pk) (room pk) =
       nx_packet_prepend_ptr pk - nx_packet_data_start pk + room pk"
    using okD by (simp_all add: room_def)
  moreover have "header_size \<le> nx_packet_data_end pk - nx_packet_data_start pk" using fit by simp
  ultimately have "nx_packet_data_adjust S p header_size m = Some (NX_SUCCESS, m')"
    using head more fits nx_packet_room_eq [OF ok(1)] nx_packet_data_size_eq [OF ok(1)]
    by (simp add: nx_packet_data_adjust_def Let_def m'_def moved_def hk_def k_def)
  moreover have cw: "chain m' (nx_packet_next hk) ([] @ us)" and pb: "nx_packets m' p = Some hk"
    using wf head ps ok(3) by (simp_all add: chain_wf_def step(4) hk_def)
  have "chain_wf m' p (p # [] @ us)"
    by (rule chain_wf_replace_head [OF wf [unfolded ps] pb hk(3,2) cw])
      (use wf head ps same in \<open>auto simp: chain_wf_def last_ptr_ok_def hk_def\<close>)
  moreover have "packet_bytes m' p = packet_bytes m p"
    unfolding m'_def using moved_bytes [OF hk(4)] head by (simp add: packet_bytes_def k_def)
  moreover have "chain_bytes m' us = chain_bytes m us"
  proof (rule chain_bytes_cong)
    fix a assume a: "a \<in> set us"
    then have "in_use m a" using wf ps by (simp add: chain_wf_def)
    then obtain qk where qk: "nx_packets m a = Some qk" "packet_ok qk" by (auto elim: in_useE)
    have "a \<notin> {p}" using a ok(3) by auto
    then show "packet_bytes m' a = packet_bytes m a"
      using packet_bytes_writes_other [OF step(2) sep _ qk] same [OF a] qk by auto
  qed
  moreover have "pools_inv m' F" by (rule step(3) [OF inv])
  moreover have "nx_packets m' p = Some hk" by (simp add: step(4))
  ultimately show ?thesis using ps by (auto simp: hk_def)
qed

lemma nx_packet_data_adjust_split:
  assumes inv: "pools_inv m F" and sep: "payloads_separate m" and wf: "chain_wf m p ps"
    and head: "nx_packets m p = Some pk" "nx_packet_last pk \<noteq> p"
    and P: "nx_packet_pool_owner pk = P" "nx_pools m P = Some pool" and F: "F P = w # fs"
    and more: "(nx_packet_prepend_ptr pk - nx_packet_data_start pk) + room pk < header_size"
    and fits: "header_size \<le> nx_packet_data_end pk - nx_packet_data_start pk" and even_: "even header_size"
  shows "\<exists>m' hk. nx_packet_data_adjust S p header_size m = Some (NX_SUCCESS, m') \<and> chain_wf m' p (p # w # tl ps) \<and>
     chain_bytes m' (p # w # tl ps) = chain_bytes m ps \<and> pools_inv m' (F(P := fs)) \<and>
     nx_packets m' p = Some hk \<and> nx_packet_prepend_ptr hk = nx_packet_data_start hk + header_size \<and>
     nx_packet_length hk = nx_packet_length pk"
proof -
  obtain us where ps: "ps = p # us" using wf by (cases ps) (auto simp: chain_wf_def)
  have ok: "packet_ok pk" "nx_packet_tcp_queue_next pk \<noteq> NX_PACKET_FREE" "p \<notin> set us"
    using wf head ps by (auto simp: chain_wf_def in_use_def)
  have inu: "in_use m a" if "a \<in> set ps" for a using wf that by (simp add: chain_wf_def)
  note okD = packet_okD [OF ok(1)]
  define n where "n = nx_packet_pool_payload_size pool"
  obtain wk where wk: "nx_packets m w = Some wk" "nx_packet_pool_owner wk = P" "w \<noteq> NX_NULL" "slot_ok n wk"
    and alloc: "nx_packet_allocate S P NX_NULL 0 NX_NO_WAIT m = Some (NX_SUCCESS, w, taken P pool 0 w wk m)"
    and inv1: "pools_inv (taken P pool 0 w wk m) (F(P := fs))"
    using nx_packet_allocate_success [OF inv P(2) F, of 0 S NX_NULL NX_NO_WAIT] by (auto simp: n_def)
  have "area_ok m P pool" using pools_invD [OF inv P(2)] P(2) by (auto elim: pool_invE)
  then have size: "nx_packet_data_end pk - nx_packet_data_start pk = n"
    using head(1) P(1) by (auto simp: area_ok_def slot_ok_def n_def)
  define a where "a = header_size - ((nx_packet_prepend_ptr pk - nx_packet_data_start pk) + room pk)"
  define k where "k = nx_packet_append_ptr pk - nx_packet_prepend_ptr pk - a"
  have a: "a \<le> n" "a \<le> nx_packet_append_ptr pk - nx_packet_prepend_ptr pk"
    using fits size okD by (simp_all add: a_def room_def)
  have wout: "w \<notin> set ps" using in_use_not_free [OF inv P(2) inu] F by fastforce
  then have wp: "p \<noteq> w" using ps by auto
  define m1 where "m1 = taken P pool 0 w wk m"
  define nw where "nw = (alloc_header 0 wk)\<lparr>nx_packet_append_ptr := nx_packet_data_start wk + a,
     nx_packet_next := nx_packet_next pk\<rparr>"
  define m2 where "m2 = moved w nw (nx_packet_append_ptr pk - a) a m1"
  define hk where "hk = pk\<lparr>nx_packet_prepend_ptr := nx_packet_data_start pk + header_size,
     nx_packet_append_ptr := nx_packet_data_start pk + header_size + k, nx_packet_next := w,
     nx_packet_last := (if nx_packet_last pk = NX_NULL then w else nx_packet_last pk)\<rparr>"
  define m' where "m' = moved p hk (nx_packet_prepend_ptr pk) k m2"
  have ch1: "changes_only {w} m m1" "nx_memory m1 = nx_memory m"
    unfolding m1_def by (rule taken_changes_only [OF wk(1) P(2)])+
  have w1: "nx_packets m1 w = Some (alloc_header 0 wk)" "nx_packets m1 p = Some pk"
    using wp head(1) by (simp_all add: m1_def taken_def)
  have nw: "payload_area nw = payload_area (alloc_header 0 wk)" "nx_packet_tcp_queue_next nw \<noteq> NX_PACKET_FREE"
    "packet_ok nw" "nx_packet_append_ptr nw = nx_packet_prepend_ptr nw + a"
    using wk(4) a(1) by (simp_all add: nw_def payload_area_def packet_ok_def slot_ok_def)
  have live1: "nx_packet_tcp_queue_next (alloc_header 0 wk) \<noteq> NX_PACKET_FREE" by simp
  note step2 = moved_step [OF w1(1) live1 nw, where src = "nx_packet_append_ptr pk - a", folded m2_def]
  have p2: "nx_packets m2 p = Some pk" using w1(2) wp step2(4) by simp
  have end_: "nx_packet_data_start pk + header_size + k = nx_packet_data_end pk"
    using okD a(2) more fits by (simp add: k_def a_def room_def)
  have hk: "payload_area hk = payload_area pk" "nx_packet_tcp_queue_next hk \<noteq> NX_PACKET_FREE" "packet_ok hk"
    "nx_packet_append_ptr hk = nx_packet_prepend_ptr hk + k"
    using ok end_ okD by (simp_all add: hk_def payload_area_def packet_ok_def)
  note step3 = moved_step [OF p2 ok(2) hk, where src = "nx_packet_prepend_ptr pk", folded m'_def]
  have call: "nx_packet_data_adjust S p header_size m = Some (NX_SUCCESS, m')"
  proof -
    have "ulong_sub (nx_packet_data_end pk) (nx_packet_data_start pk) = nx_packet_data_end pk - nx_packet_data_start pk"
      "ulong_sub (nx_packet_prepend_ptr pk) (nx_packet_data_start pk) = nx_packet_prepend_ptr pk - nx_packet_data_start pk"
      "ulong_add (nx_packet_prepend_ptr pk - nx_packet_data_start pk) (room pk) =
         nx_packet_prepend_ptr pk - nx_packet_data_start pk + room pk"
      "ulong_sub header_size (nx_packet_prepend_ptr pk - nx_packet_data_start pk + room pk) = a"
      "ulong_sub (nx_packet_append_ptr pk - nx_packet_prepend_ptr pk) a = k"
      using okD more fits a(2) by (simp_all add: room_def a_def k_def)
    then show ?thesis
      using head(1) P(1) more fits even_ alloc w1 p2 wp nx_packet_room_eq [OF ok(1)] nx_packet_data_size_eq [OF ok(1)]
      by (simp add: nx_packet_data_adjust_def Let_def m1_def [symmetric] m2_def moved_def nw_def m'_def hk_def)
  qed
  have same: "nx_packets m' b = nx_packets m b" if "b \<noteq> p" "b \<noteq> w" for b
    using that step3(4) step2(4) changes_only_same [OF ch1(1), of b] by simp
  have w': "nx_packets m' w = Some nw" using step3(4) step2(4) wp by simp
  have pb: "nx_packets m' p = Some hk" using step3(4) by simp
  have sep2: "payloads_separate m2" by (rule changes_only_separate [OF step2(1) changes_only_separate [OF ch1(1) sep]])
  have sameu: "nx_packets m' b = nx_packets m b" if "b \<in> set us" for b
    by (rule same) (use that ok(3) wout ps in auto)
  have cus: "chain m' (nx_packet_next pk) us \<longleftrightarrow> chain m (nx_packet_next pk) us"
    by (rule linked_cong) (simp add: sameu)
  have cw: "chain m' (nx_packet_next hk) ([w] @ us)"
    using cus wf head(1) ps w' wk(3) by (simp add: chain_wf_def hk_def nw_def)
  have last_: "nx_packet_last pk = last ps \<or> nx_packet_last pk = NX_NULL \<and> us = []"
    using wf head(1) ps by (auto simp: chain_wf_def last_ptr_ok_def)
  have "chain_wf m' p (p # [w] @ us)"
  proof (rule chain_wf_replace_head [OF wf [unfolded ps] pb hk(3,2) cw])
    show "nx_packet_last hk = last (p # [w] @ us) \<or> nx_packet_last hk = NX_NULL \<and> [w] @ us = []"
    proof (cases "us = []")
      case True
      then show ?thesis using last_ head(2) ps by (auto simp: hk_def)
    next
      case False
      then have "nx_packet_last pk = last us" using last_ ps by simp
      moreover have "last us \<noteq> NX_NULL"
        using wf ps False linked_valid [of nx_packet_next "nx_packets m" p ps "last us"] by (auto simp: chain_wf_def)
      ultimately show ?thesis using False by (simp add: hk_def)
    qed
  qed (use wp wout ps w' nw sameu ok(3) in \<open>auto simp: in_use_def\<close>)
  moreover have "chain_bytes m' (p # w # us) = chain_bytes m (p # us)"
  proof -
    have bw: "packet_bytes m2 w = mem_read (nx_memory m) (nx_packet_append_ptr pk - a) a"
      unfolding m2_def using moved_bytes [OF nw(4)] ch1(2) by simp
    have "packet_bytes m' w = packet_bytes m2 w"
      by (rule packet_bytes_writes_other [OF step3(2) sep2 _ _ nw(3) w']) (use wp step2(4) in auto)
    moreover have "packet_bytes m' p = mem_read (nx_memory m2) (nx_packet_prepend_ptr pk) k"
      unfolding m'_def by (rule moved_bytes [OF hk(4)])
    moreover have "mem_read (nx_memory m2) (nx_packet_prepend_ptr pk) k = mem_read (nx_memory m1) (nx_packet_prepend_ptr pk) k"
      by (rule apart_mem_read [OF step2(2)], rule packet_apart [OF changes_only_separate [OF ch1(1) sep] w1(2)])
        (use wp okD in \<open>auto simp: k_def\<close>)
    moreover have "packet_bytes m p = mem_read (nx_memory m) (nx_packet_prepend_ptr pk) k @
        mem_read (nx_memory m) (nx_packet_append_ptr pk - a) a"
      using head(1) mem_read_split [of "nx_memory m" "nx_packet_prepend_ptr pk" k a] a(2) okD
      by (simp add: packet_bytes_def k_def)
    moreover have "chain_bytes m' us = chain_bytes m us"
    proof (rule chain_bytes_cong)
      fix b assume b: "b \<in> set us"
      obtain qk where qk: "nx_packets m b = Some qk" "packet_ok qk" using inu [of b] b ps by (auto elim: in_useE)
      have out: "b \<notin> {w}" "b \<notin> {p}" using b ok(3) wout ps by auto
      have q1: "nx_packets m1 b = Some qk" using changes_only_same [OF ch1(1) out(1)] qk by simp
      have q2: "nx_packets m2 b = Some qk" using step2(4) q1 out by simp
      have "packet_bytes m2 b = packet_bytes m1 b"
        by (rule packet_bytes_writes_other [OF step2(2) changes_only_separate [OF ch1(1) sep] out(1) q1 qk(2) q2]) simp_all
      moreover have "packet_bytes m' b = packet_bytes m2 b"
        by (rule packet_bytes_writes_other [OF step3(2) sep2 out(2) q2 qk(2)]) (use same [of b] out qk in auto)
      moreover have "packet_bytes m1 b = packet_bytes m b" using q1 qk ch1(2) by (simp add: packet_bytes_def)
      ultimately show "packet_bytes m' b = packet_bytes m b" by simp
    qed
    ultimately show ?thesis using bw ch1(2) by simp
  qed
  moreover have "pools_inv m' (F(P := fs))"
    using step3(3) step2(3) inv1 by (simp add: m1_def)
  ultimately show ?thesis using call pb ps by (auto simp: hk_def)
qed

end
