(* ===== verification/Nx_Data_Props.thy ===== *)
theory Nx_Data_Props imports Nx_Pool_Demo Nx_Read Nx_Copy Nx_Adjust begin

text \<open>
  The properties of the data services of packets. They are applied to the demo pool: packet
  1000 allocated with 28 bytes of room, packet 1092 free, the caller's buffers at 5000.
\<close>

section \<open>The demo memory\<close>

lemma demo_chain1: "chain_wf demo_mem1 1000 [1000]"
  using demo_packet1
  by (auto simp: chain_wf_def in_use_def last_ptr_ok_def packet_ok_def alloc_header_def demo_header_def)

lemma demo_room1: "room_at demo_mem1 1000 = 28"
  using demo_packet1 by (simp add: room_def alloc_header_def nx_packet_init_def demo_header_def)

lemma demo_separate1: "payloads_separate demo_mem1"
proof (rule changes_only_separate [OF _ demo_separate])
  show "changes_only {1000} demo_mem demo_mem1"
    unfolding demo_mem1_def by (rule taken_changes_only(1)) (simp_all add: demo_mem_def)
qed

lemma demo_pool1: "\<exists>pool. nx_pools demo_mem1 16 = Some pool \<and> nx_packet_pool_payload_size pool = 32"
  by (simp add: demo_mem1_def taken_def created_pool_def)

lemma demo_apart1: "1200 \<le> b \<Longrightarrow> apart demo_mem1 (set [1000] \<union> set (demo_free1 16)) b n"
  using demo_packet1
  by (auto simp: apart_def demo_free1_def demo_mem1_def taken_def demo_mem_def demo_header_def alloc_header_def)

lemma demo_bytes1: "chain_bytes demo_mem1 [1000] = []"
  using demo_packet1 by (simp add: packet_bytes_def)

text \<open>The packet with four bytes of data.\<close>

definition demo_header4 :: nx_packet where
  "demo_header4 = (alloc_header 4 (demo_header 1000 1092))\<lparr>nx_packet_append_ptr := 1068, nx_packet_length := 4\<rparr>"

definition demo_mem4 :: nx_mem where
  "demo_mem4 = put_bytes 1064 [40, 41, 42, 43] (put_packet 1000 demo_header4 demo_mem1)"

lemma demo_packet4_simps:
  "nx_packet_data_start demo_header4 = 1060" "nx_packet_data_end demo_header4 = 1092"
  "nx_packet_prepend_ptr demo_header4 = 1064" "nx_packet_append_ptr demo_header4 = 1068"
  "nx_packet_length demo_header4 = 4" "nx_packet_next demo_header4 = 0" "nx_packet_last demo_header4 = 0"
  "nx_packet_tcp_queue_next demo_header4 = NX_PACKET_ALLOCATED" "nx_packet_pool_owner demo_header4 = 16"
  by (simp_all add: demo_header4_def alloc_header_def demo_header_def nx_packet_init_def)

lemma demo_packet4: "nx_packets demo_mem4 1000 = Some demo_header4"
  by (simp add: demo_mem4_def)

lemma demo_chain4: "chain_wf demo_mem4 1000 [1000]"
  using demo_packet4
  by (simp add: chain_wf_def in_use_def last_ptr_ok_def packet_ok_def demo_packet4_simps)

lemma demo_bytes4: "chain_bytes demo_mem4 [1000] = [40, 41, 42, 43]"
  using demo_packet4
  by (simp add: packet_bytes_def demo_packet4_simps demo_mem4_def mem_read_def mem_write_def upt_rec)

lemma demo_length4: "nx_packet_length demo_header4 = length (chain_bytes demo_mem4 [1000])"
  unfolding demo_bytes4 by (simp add: demo_packet4_simps)

lemma demo_apart4: "apart demo_mem4 (set [1000]) 5000 n"
  using demo_packet4 by (simp add: apart_def demo_packet4_simps)

lemma demo_inv4: "pools_inv demo_mem4 demo_free1"
  unfolding demo_mem4_def pools_inv_put_bytes
  by (rule pools_inv_put_live [OF demo_inv1 demo_packet1]) (simp_all add: demo_packet4_simps demo_header_def)

lemma demo_separate4: "payloads_separate demo_mem4"
proof (rule changes_only_separate [OF _ demo_separate1])
  show "changes_only {1000} demo_mem1 demo_mem4"
    unfolding demo_mem4_def changes_only_put_bytes
    by (rule changes_only_put_packet [OF demo_packet1])
      (simp_all add: payload_area_def demo_packet4_simps demo_header_def)
qed

section \<open>Properties\<close>

text \<open>C11: \<open>nx_packet_data_append\<close> puts the bytes of the caller's buffer behind the data of the
  chain. It takes exactly the packets it needs from the head of the pool's free list, adds the
  size to the length of the head packet, keeps the chain well-formed with its last pointer at
  the end, changes no other packet and writes only into the payload areas of the chain.\<close>

theorem nx_packet_data_append_appends:
  assumes "pools_inv m F" "payloads_separate m" "chain_wf m p ps"
    and "nx_pools m P = Some pool" "nx_packet_pool_payload_size pool = n" "0 < n"
    and "apart m (set ps \<union> set (F P)) data_start data_size"
    and "data_size \<le> room_at m (last ps) + n * length (F P)" "data_size + n < ULONG_RANGE"
    and "qs = take ((data_size - room_at m (last ps) + n - 1) div n) (F P)"
  shows "\<exists>m'. nx_packet_data_append S p data_start data_size P w m = Some (NX_SUCCESS, m') \<and>
     chain_wf m' p (ps @ qs) \<and>
     chain_bytes m' (ps @ qs) = chain_bytes m ps @ mem_read (nx_memory m) data_start data_size \<and>
     map_option nx_packet_length (nx_packets m' p) =
       map_option (\<lambda>h. ulong_add (nx_packet_length h) data_size) (nx_packets m p) \<and>
     pools_inv m' (F(P := drop (length qs) (F P))) \<and>
     changes_only (set ps \<union> set (F P)) m m' \<and> writes_only (set (ps @ qs)) m m'"
proof -
  define k where "k = need n (room_at m (last ps)) data_size"
  have qs: "qs = take k (F P)" using assms(10) by (simp add: k_def need_def)
  have "k \<le> length (F P)" unfolding k_def by (rule need_le [OF assms(6,8)])
  then have "length qs = k" by (simp add: qs)
  then show ?thesis
    using nx_packet_data_append_ok [OF assms(1-9) k_def, of S w] qs by (auto simp: appended_def)
qed

lemma nx_packet_data_append_appends_witness:
  "\<exists>m'. nx_packet_data_append (\<lambda>_. id) 1000 5000 40 16 0 demo_mem1 = Some (NX_SUCCESS, m') \<and>
     chain_wf m' 1000 [1000, 1092] \<and> chain_bytes m' [1000, 1092] = mem_read (nx_memory demo_mem1) 5000 40"
proof -
  obtain pool where pool: "nx_pools demo_mem1 16 = Some pool" "nx_packet_pool_payload_size pool = 32"
    using demo_pool1 by blast
  have qs: "[1092] = take ((40 - room_at demo_mem1 (last [1000]) + 32 - 1) div 32) (demo_free1 16)"
    by (simp add: demo_room1 demo_free1_def)
  have "40 \<le> room_at demo_mem1 (last [1000]) + 32 * length (demo_free1 16)"
    by (simp add: demo_room1 demo_free1_def)
  then show ?thesis
    using nx_packet_data_append_appends [OF demo_inv1 demo_separate1 demo_chain1 pool _ demo_apart1 _ _ qs,
        of 5000 "\<lambda>_. id" 0] demo_bytes1
    by fastforce
qed

text \<open>C12: an append that would need more packets than the pool has, by a caller that does not
  wait, returns the no-packet status and undoes everything: every packet it took is back on
  the free list, the chain has the headers and the data it had, and no byte of memory changed.\<close>

theorem nx_packet_data_append_rolls_back:
  assumes "pools_inv m F" "chain_wf m p ps"
    and "nx_pools m P = Some pool" "nx_packet_pool_payload_size pool = n"
    and "room_at m (last ps) + n * length (F P) < data_size" "data_size + n < ULONG_RANGE" "\<And>Q. idle m Q"
  shows "\<exists>m'. nx_packet_data_append S p data_start data_size P NX_NO_WAIT m = Some (NX_NO_PACKET, m') \<and>
     pools_inv m' (F(P := rev (F P))) \<and> nx_memory m' = nx_memory m \<and> chain_bytes m' ps = chain_bytes m ps \<and>
     (\<forall>a. a \<notin> set (F P) \<longrightarrow> nx_packets m' a = nx_packets m a) \<and> set ps \<inter> set (F P) = {}"
proof -
  obtain m' where m': "nx_packet_data_append S p data_start data_size P NX_NO_WAIT m = Some (NX_NO_PACKET, m')"
    "pools_inv m' (F(P := rev (F P)))" "changes_only (set (F P)) m m'" "nx_memory m' = nx_memory m"
    using nx_packet_data_append_fails [OF assms] by blast
  have disj: "set ps \<inter> set (F P) = {}"
    using in_use_not_free [OF assms(1,3)] assms(2) by (auto simp: chain_wf_def)
  have same: "nx_packets m' a = nx_packets m a" if "a \<notin> set (F P)" for a
    by (rule changes_only_same [OF m'(3) that])
  have "chain_bytes m' ps = chain_bytes m ps"
  proof (rule chain_bytes_cong)
    fix a assume "a \<in> set ps"
    then have "a \<notin> set (F P)" using disj by auto
    then show "packet_bytes m' a = packet_bytes m a"
      using same [of a] m'(4) by (simp add: packet_bytes_def split: option.splits)
  qed
  then show ?thesis using m' same disj by auto
qed

lemma nx_packet_data_append_rolls_back_witness:
  "\<exists>m'. nx_packet_data_append (\<lambda>_. id) 1000 5000 61 16 0 demo_mem1 = Some (NX_NO_PACKET, m') \<and>
     nx_memory m' = nx_memory demo_mem1"
proof -
  obtain pool where pool: "nx_pools demo_mem1 16 = Some pool" "nx_packet_pool_payload_size pool = 32"
    using demo_pool1 by blast
  have "room_at demo_mem1 (last [1000]) + 32 * length (demo_free1 16) < 61"
    by (simp add: demo_room1 demo_free1_def)
  then show ?thesis
    using nx_packet_data_append_rolls_back [OF demo_inv1 demo_chain1 pool, of 61 "\<lambda>_. id" 5000] demo_idle1
    by auto
qed

text \<open>C13: \<open>nx_packet_data_retrieve\<close> copies the data of the whole chain into the buffer, in order,
  and changes nothing else. The status tells whether the length of the head packet is the
  number of bytes in the chain, and the number of bytes copied is the true one either way.\<close>

theorem nx_packet_data_retrieve_reads_chain:
  assumes "chain_wf m p ps" "nx_packets m p = Some head" "nx_packet_length head < ULONG_RANGE"
    and "length (chain_bytes m ps) < ULONG_RANGE" "apart m (set ps) buffer_start (length (chain_bytes m ps))"
  shows "nx_packet_data_retrieve p buffer_start m =
     Some (if nx_packet_length head = length (chain_bytes m ps) then NX_SUCCESS else NX_INVALID_PACKET,
           length (chain_bytes m ps), put_bytes buffer_start (chain_bytes m ps) m)"
proof -
  have "nx_retrieve_loop p buffer_start (nx_packet_length head) m =
      Some (ulong_sub (nx_packet_length head) (length (chain_bytes m ps)), put_bytes buffer_start (chain_bytes m ps) m)"
    by (rule nx_retrieve_loop_eq) (use assms in \<open>auto simp: chain_wf_def\<close>)
  then show ?thesis
    using assms(2-4) ulong_sub_eq_0 ulong_sub_complement
    by (simp add: nx_packet_data_retrieve_def)
qed

lemma nx_packet_data_retrieve_reads_chain_witness:
  "nx_packet_data_retrieve 1000 5000 demo_mem4 =
     Some (NX_SUCCESS, 4, put_bytes 5000 [40, 41, 42, 43] demo_mem4)"
proof -
  have "nx_packet_length demo_header4 < ULONG_RANGE" "length (chain_bytes demo_mem4 [1000]) < ULONG_RANGE"
    unfolding demo_bytes4 by (simp_all add: demo_packet4_simps)
  from nx_packet_data_retrieve_reads_chain [OF demo_chain4 demo_packet4 this demo_apart4]
  show ?thesis unfolding demo_length4 unfolding demo_bytes4 by simp
qed

text \<open>C14: what has been appended to an empty packet is retrieved again, byte for byte, however
  many packets the data takes.\<close>

theorem nx_packet_append_retrieve_roundtrip:
  assumes "pools_inv m F" "payloads_separate m" "chain_wf m p ps" "chain_bytes m ps = []"
    and "nx_packets m p = Some head" "nx_packet_length head = 0"
    and "nx_pools m P = Some pool" "nx_packet_pool_payload_size pool = n" "0 < n"
    and "apart m (set ps \<union> set (F P)) data_start data_size" "apart m (set ps \<union> set (F P)) buffer_start data_size"
    and "data_size \<le> room_at m (last ps) + n * length (F P)" "data_size + n < ULONG_RANGE"
  shows "\<exists>m1 m2. nx_packet_data_append S p data_start data_size P w m = Some (NX_SUCCESS, m1) \<and>
     nx_packet_data_retrieve p buffer_start m1 = Some (NX_SUCCESS, data_size, m2) \<and>
     mem_read (nx_memory m2) buffer_start data_size = mem_read (nx_memory m) data_start data_size"
proof -
  define qs where "qs = take (need n (room_at m (last ps)) data_size) (F P)"
  define bs where "bs = mem_read (nx_memory m) data_start data_size"
  obtain m1 where call: "nx_packet_data_append S p data_start data_size P w m = Some (NX_SUCCESS, m1)"
    and app: "appended p ps qs bs m m1" and ch: "changes_only (set ps \<union> set (F P)) m m1"
    using nx_packet_data_append_ok [OF assms(1-3,7-10,12,13) refl] by (auto simp: qs_def bs_def)
  have wf: "chain_wf m1 p (ps @ qs)" and bytes: "chain_bytes m1 (ps @ qs) = bs"
    using app assms(4) by (simp_all add: appended_def)
  have len: "length bs = data_size" by (simp add: bs_def)
  obtain head1 where head1: "nx_packets m1 p = Some head1" "nx_packet_length head1 = data_size"
    using app assms(5,6,13) len by (auto simp: appended_def)
  have ap: "apart m1 (set (ps @ qs)) buffer_start data_size"
    by (rule apart_sub [OF apart_changes_only [OF ch assms(11)]]) (auto simp: qs_def dest: in_set_takeD)
  have "nx_retrieve_loop p buffer_start data_size m1 =
      Some (ulong_sub data_size (length (chain_bytes m1 (ps @ qs))), put_bytes buffer_start (chain_bytes m1 (ps @ qs)) m1)"
    by (rule nx_retrieve_loop_eq) (use wf ap bytes len assms(13) in \<open>auto simp: chain_wf_def simp del: chain_bytes_simps\<close>)
  then have "nx_packet_data_retrieve p buffer_start m1 = Some (NX_SUCCESS, data_size, put_bytes buffer_start bs m1)"
    using head1 bytes len by (simp add: nx_packet_data_retrieve_def del: chain_bytes_simps)
  moreover have "mem_read (nx_memory (put_bytes buffer_start bs m1)) buffer_start data_size = bs"
    using mem_read_write_same [of "nx_memory m1" buffer_start bs] len by simp
  ultimately show ?thesis using call bs_def by blast
qed

lemma nx_packet_append_retrieve_roundtrip_witness:
  "\<exists>m1 m2. nx_packet_data_append (\<lambda>_. id) 1000 5000 40 16 0 demo_mem1 = Some (NX_SUCCESS, m1) \<and>
     nx_packet_data_retrieve 1000 6000 m1 = Some (NX_SUCCESS, 40, m2)"
proof -
  obtain pool where pool: "nx_pools demo_mem1 16 = Some pool" "nx_packet_pool_payload_size pool = 32"
    using demo_pool1 by blast
  have "40 \<le> room_at demo_mem1 (last [1000]) + 32 * length (demo_free1 16)"
    by (simp add: demo_room1 demo_free1_def)
  then show ?thesis
    using nx_packet_append_retrieve_roundtrip [OF demo_inv1 demo_separate1 demo_chain1 demo_bytes1 demo_packet1 _ pool
        _ demo_apart1 demo_apart1, of 5000 6000 40 "\<lambda>_. id" 0]
    by fastforce
qed



text \<open>C16: \<open>nx_packet_copy\<close> makes a chain of packets from the given pool with exactly the bytes
  of the source chain, whatever the payload sizes of the two are, and leaves the source as it
  was. The pool needs room for the bytes and for the room in front of them, which must fit
  into one packet.\<close>

theorem nx_packet_copy_copies:
  assumes "pools_inv m F" "payloads_separate m" "chain_wf m p ps" "nx_packets m p = Some head"
    and "nx_packet_length head = length (chain_bytes m ps)" "0 < nx_packet_length head"
    and "nx_pools m P = Some pool" "nx_packet_pool_payload_size pool = n" "0 < n" "F P = w # fs"
    and "nx_packet_prepend_ptr head - nx_packet_data_start head \<le> n"
    and "nx_packet_prepend_ptr head - nx_packet_data_start head + length (chain_bytes m ps) \<le> n * length (F P)"
    and "nx_packet_prepend_ptr head - nx_packet_data_start head + length (chain_bytes m ps) + n < ULONG_RANGE"
  shows "\<exists>m' ws F' wk. nx_packet_copy S p P wopt m = Some (NX_SUCCESS, w, m') \<and> chain_wf m' w ws \<and>
     chain_bytes m' ws = chain_bytes m ps \<and> pools_inv m' F' \<and> set ws \<subseteq> set (F P) \<and>
     nx_packets m' w = Some wk \<and> nx_packet_length wk = nx_packet_length head \<and>
     (\<forall>a \<in> set ps. nx_packets m' a = nx_packets m a \<and> packet_bytes m' a = packet_bytes m a)"
  by (rule nx_packet_copy_ok [OF assms])

lemma demo_pool4: "\<exists>pool. nx_pools demo_mem4 16 = Some pool \<and> nx_packet_pool_payload_size pool = 32"
  using demo_pool1 by (simp add: demo_mem4_def)

lemma nx_packet_copy_copies_witness:
  "\<exists>m' ws. nx_packet_copy (\<lambda>_. id) 1000 16 0 demo_mem4 = Some (NX_SUCCESS, 1092, m') \<and>
     chain_bytes m' ws = [40, 41, 42, 43]"
proof -
  obtain pool where pool: "nx_pools demo_mem4 16 = Some pool" "nx_packet_pool_payload_size pool = 32"
    using demo_pool4 by blast
  have F: "demo_free1 16 = 1092 # []" by (simp add: demo_free1_def)
  have l: "length (chain_bytes demo_mem4 [1000]) = 4" unfolding demo_bytes4 by simp
  show ?thesis
    using nx_packet_copy_copies [OF demo_inv4 demo_separate4 demo_chain4 demo_packet4 demo_length4 _ pool _ F,
        of "\<lambda>_. id" 0] l F unfolding demo_bytes4
    by (auto simp: demo_packet4_simps)
qed



end
