(* ===== verification/Nx_Checksum.thy ===== *)
theory Nx_Checksum imports Nx_Packet_Frame begin

text \<open>
  The Internet checksum of a packet chain (common/src/nx_ip_checksum_compute.c) and its
  specification, the ones' complement sum of RFC 1071. The C function reads the data as
  little endian ULONGs, adds their halves into a ULONG and swaps the bytes of the folded sum at the
  end. It clears the byte behind data of odd length, so it returns a memory as well.
\<close>

section \<open>The function\<close>

text \<open>Reads through a USHORT and a ULONG pointer on a little endian machine.\<close>

definition read_ushort :: "byte_mem \<Rightarrow> nat \<Rightarrow> nat" where
  "read_ushort b a = unat (b a) + 256 * unat (b (a + 1))"

definition read_ulong :: "byte_mem \<Rightarrow> nat \<Rightarrow> nat" where
  "read_ulong b a = read_ushort b a + 65536 * read_ushort b (a + 2)"

text \<open>One fold of the sum into 16 bits, and NX_CHANGE_USHORT_ENDIAN.\<close>

definition ulong_fold :: "nat \<Rightarrow> nat" where
  "ulong_fold checksum = ulong_add (checksum div 65536) (checksum mod 65536)"

definition ushort_swap :: "nat \<Rightarrow> nat" where
  "ushort_swap t = 256 * (t mod 256) + t div 256 mod 256"

definition ulong_fold_swap :: "nat \<Rightarrow> nat" where
  "ulong_fold_swap checksum = ushort_swap (ulong_fold (ulong_fold checksum) mod 65536)"

text \<open>An address is the list of its ULONGs. \<open>((USHORT *) a)[i]\<close> is the low half of a ULONG at
  an even index and the high half at an odd one.\<close>

definition ushort_of :: "nat list \<Rightarrow> nat \<Rightarrow> nat" where
  "ushort_of a i = (a ! (i div 2)) div 65536 ^ (i mod 2) mod 65536"

abbreviation (input) NX_PROTOCOL_ICMP :: nat where "NX_PROTOCOL_ICMP \<equiv> 1"
abbreviation (input) NX_PROTOCOL_TCP :: nat where "NX_PROTOCOL_TCP \<equiv> 6"
abbreviation (input) NX_PROTOCOL_UDP :: nat where "NX_PROTOCOL_UDP \<equiv> 17"
abbreviation (input) NX_PROTOCOL_ICMPV6 :: nat where "NX_PROTOCOL_ICMPV6 \<equiv> 58"

definition nx_checksum_addresses :: "bool \<Rightarrow> nat list \<Rightarrow> nat list \<Rightarrow> nat \<Rightarrow> nat" where
  "nx_checksum_addresses v6 src dest checksum =
     (let checksum = foldl ulong_add checksum
            [ushort_of src 0, ushort_of src 1, ushort_of dest 0, ushort_of dest 1]
      in if v6 then foldl (\<lambda>c i. ulong_add (ulong_add c (ushort_of dest i)) (ushort_of src i)) checksum [2 ..< 8]
         else checksum)"

definition nx_checksum_pseudo :: "nx_packet \<Rightarrow> nat \<Rightarrow> nat \<Rightarrow> nat list \<Rightarrow> nat list \<Rightarrow> nat" where
  "nx_checksum_pseudo pk protocol data_length src dest =
     (if protocol = NX_PROTOCOL_UDP \<or> protocol = NX_PROTOCOL_ICMPV6 \<or> protocol = NX_PROTOCOL_TCP
      then ulong_fold_swap (ulong_add
             (nx_checksum_addresses (nx_packet_ip_version pk = NX_IP_VERSION_V6) src dest protocol) data_length)
      else 0)"

text \<open>The loop over the ULONGs below \<open>end_ptr\<close>.\<close>

function nx_checksum_words :: "byte_mem \<Rightarrow> nat \<Rightarrow> nat \<Rightarrow> nat \<Rightarrow> nat \<times> nat" where
  "nx_checksum_words b long_ptr end_ptr checksum =
     (if long_ptr < end_ptr
      then nx_checksum_words b (long_ptr + 4) end_ptr
             (ulong_add (ulong_add checksum (read_ulong b long_ptr mod 65536)) (read_ulong b long_ptr div 65536))
      else (long_ptr, checksum))"
  by auto

termination
  by (relation "measure (\<lambda>(b, long_ptr, end_ptr, checksum). end_ptr - long_ptr)") auto

declare nx_checksum_words.simps [simp del]

text \<open>The loop over the packets. It returns the position it got to, the bytes that are left
  there (fewer than four) and the sum so far.\<close>

definition nx_checksum_end_ptr :: "nx_packet \<Rightarrow> nat \<Rightarrow> nat" where
  "nx_checksum_end_ptr pk data_length =
     (if data_length > ulong_sub (nx_packet_append_ptr pk) (nx_packet_prepend_ptr pk)
      then nx_packet_append_ptr pk - nx_packet_append_ptr pk mod 4
      else ulong_sub (ulong_add (nx_packet_prepend_ptr pk) data_length) 3)"

definition nx_checksum_packet :: "byte_mem \<Rightarrow> nx_packet \<Rightarrow> nat \<Rightarrow> nat \<Rightarrow> nat \<times> nat \<times> nat" where
  "nx_checksum_packet b pk data_length checksum =
     (let end_ptr = nx_checksum_end_ptr pk data_length;
          long_ptr = nx_packet_prepend_ptr pk
      in if long_ptr < end_ptr
         then (let up = ulong_add end_ptr 3;
                   data_length = ulong_sub data_length (ulong_sub (up - up mod 4) long_ptr);
                   (long_ptr, checksum) = nx_checksum_words b long_ptr end_ptr checksum
               in (long_ptr, data_length, checksum))
         else (long_ptr, data_length, checksum))"

partial_function (option) nx_checksum_chain ::
  "nat \<Rightarrow> nat \<Rightarrow> nat \<Rightarrow> nat \<Rightarrow> nx_mem \<Rightarrow> (nat \<times> nat \<times> nat) option" where
  "nx_checksum_chain current long_ptr data_length checksum m =
     (if current = NX_NULL then Some (long_ptr, data_length, checksum)
      else do {
        pk \<leftarrow> nx_packets m current;
        (case nx_checksum_packet (nx_memory m) pk data_length checksum of (long_ptr, data_length, checksum) \<Rightarrow>
          if data_length > 0 \<and> nx_packet_next pk \<noteq> NX_NULL
          then if nx_packet_append_ptr pk mod 4 = 2
               then nx_checksum_chain (nx_packet_next pk) long_ptr (ulong_sub data_length 2)
                      (ulong_add checksum (read_ushort (nx_memory m) long_ptr)) m
               else nx_checksum_chain (nx_packet_next pk) long_ptr data_length checksum m
          else Some (long_ptr, data_length, checksum))
      })"

text \<open>The bytes that are left over: an odd one is padded in place with a zero byte.\<close>

definition nx_checksum_tail :: "nat \<Rightarrow> nat \<Rightarrow> nat \<Rightarrow> nx_mem \<Rightarrow> nat \<times> nx_mem" where
  "nx_checksum_tail long_ptr data_length checksum m =
     (if data_length = 0 then (checksum, m)
      else if data_length = 1
      then (let m = put_bytes (long_ptr + 1) [0] m
            in (ulong_add checksum (read_ushort (nx_memory m) long_ptr), m))
      else if data_length = 3
      then (let checksum = ulong_add checksum (read_ushort (nx_memory m) long_ptr);
                m = put_bytes (long_ptr + 3) [0] m
            in (ulong_add checksum (read_ushort (nx_memory m) (long_ptr + 2)), m))
      else (ulong_add checksum (read_ushort (nx_memory m) long_ptr), m))"

definition nx_ip_checksum_compute ::
  "nat \<Rightarrow> nat \<Rightarrow> nat \<Rightarrow> nat list \<Rightarrow> nat list \<Rightarrow> nx_mem \<Rightarrow> (nat \<times> nx_mem) option" where
  "nx_ip_checksum_compute p protocol data_length src dest m = do {
     pk \<leftarrow> nx_packets m p;
     (long_ptr, data_length', checksum) \<leftarrow>
       nx_checksum_chain p (nx_packet_prepend_ptr pk) data_length
         (nx_checksum_pseudo pk protocol data_length src dest) m;
     (case nx_checksum_tail long_ptr data_length' checksum m of (checksum, m) \<Rightarrow>
        Some (ulong_fold_swap checksum, m))
   }"

section \<open>The specification\<close>

text \<open>RFC 1071: the 16-bit words of the data in network byte order, an odd byte at the end
  padded with zero, added with an end-around carry.\<close>

fun be_words :: "byte list \<Rightarrow> nat list" where
  "be_words [] = []"
| "be_words [x] = [256 * unat x]"
| "be_words (x # y # r) = (256 * unat x + unat y) # be_words r"

definition ones_add :: "nat \<Rightarrow> nat \<Rightarrow> nat" where
  "ones_add a b = (if a + b < 65536 then a + b else a + b - 65535)"

definition rfc1071_sum :: "nat list \<Rightarrow> nat" where
  "rfc1071_sum ws = foldl ones_add 0 ws"

text \<open>The words of the pseudo header (RFC 793, RFC 768, RFC 8200): both addresses, the
  protocol and the length.\<close>

definition address_words :: "nat list \<Rightarrow> nat list" where
  "address_words a = concat (map (\<lambda>u. [u div 65536, u mod 65536]) a)"

definition pseudo_words :: "nat \<Rightarrow> nat \<Rightarrow> nat list \<Rightarrow> nat list \<Rightarrow> nat list" where
  "pseudo_words protocol data_length src dest =
     (if protocol \<in> {NX_PROTOCOL_UDP, NX_PROTOCOL_TCP, NX_PROTOCOL_ICMPV6}
      then address_words src @ address_words dest @ [protocol, data_length] else [])"

end
