(* ===== verification/Nx_Checksum_Sum.thy ===== *)
theory Nx_Checksum_Sum imports Nx_Checksum begin

text \<open>
  The arithmetic of the ones' complement sum: it is the sum modulo 65535 with the two zeros
  kept apart, the two folds of the C code compute it, and swapping the bytes of every word
  swaps the bytes of the sum.
\<close>

section \<open>Sums modulo 65535\<close>

definition ones_sum :: "nat \<Rightarrow> nat" where
  "ones_sum s = (if s = 0 then 0 else (s - 1) mod 65535 + 1)"

lemma ones_sum_le [simp]: "ones_sum s \<le> 65535"
  using mod_less_divisor [of 65535 "s - 1"] by (auto simp: ones_sum_def simp del: mod_less_divisor)

lemma ones_sum_0 [simp]: "ones_sum s = 0 \<longleftrightarrow> s = 0"
  by (simp add: ones_sum_def)

lemma ones_sum_mod [simp]: "ones_sum s mod 65535 = s mod 65535"
  by (cases s) (simp_all add: ones_sum_def mod_Suc)

lemma ones_sum_unique:
  assumes "v \<le> 65535" "v mod 65535 = s mod 65535" "v = 0 \<longleftrightarrow> s = 0"
  shows "v = ones_sum s"
proof (cases "v = 65535 \<or> v = 0")
  case True
  then show ?thesis
  proof
    assume "v = 65535"
    then have "ones_sum s mod 65535 = 0" "ones_sum s \<noteq> 0" using assms by simp_all
    then show ?thesis using ones_sum_le [of s] \<open>v = 65535\<close> by (metis dvd_imp_le mod_0_imp_dvd le_antisym neq0_conv)
  qed (use assms in simp)
next
  case False
  then have v: "v < 65535" "v \<noteq> 0" using assms(1) by auto
  then have "ones_sum s mod 65535 = v" using assms(2) by simp
  moreover have "ones_sum s \<noteq> 65535"
  proof
    assume "ones_sum s = 65535"
    then show False using \<open>ones_sum s mod 65535 = v\<close> v(2) by simp
  qed
  then have "ones_sum s < 65535" using ones_sum_le [of s] by linarith
  then have "ones_sum s mod 65535 = ones_sum s" by (rule mod_less)
  ultimately show ?thesis by simp
qed

lemma ones_sum_cong: "s mod 65535 = t mod 65535 \<Longrightarrow> (s = 0 \<longleftrightarrow> t = 0) \<Longrightarrow> ones_sum s = ones_sum t"
  by (rule ones_sum_unique) simp_all

lemma ones_sum_id: "v \<le> 65535 \<Longrightarrow> ones_sum v = v"
  by (rule ones_sum_unique [symmetric]) simp_all

lemma ones_add_ones_sum: "b \<le> 65535 \<Longrightarrow> ones_add (ones_sum s) b = ones_sum (s + b)"
proof -
  assume b: "b \<le> 65535"
  have le: "ones_sum s \<le> 65535" by simp
  show ?thesis
  proof (rule ones_sum_unique)
    show "ones_add (ones_sum s) b \<le> 65535" unfolding ones_add_def using b le by presburger
    have "(ones_sum s + b) mod 65535 = (s + b) mod 65535"
      by (rule mod_add_cong) simp_all
    moreover have "(ones_sum s + b - 65535) mod 65535 = (ones_sum s + b) mod 65535" if "65536 \<le> ones_sum s + b"
      using that by (simp add: le_mod_geq)
    ultimately show "ones_add (ones_sum s) b mod 65535 = (s + b) mod 65535" by (auto simp: ones_add_def)
    have "ones_add (ones_sum s) b = 0 \<longleftrightarrow> ones_sum s + b = 0" unfolding ones_add_def by presburger
    then show "ones_add (ones_sum s) b = 0 \<longleftrightarrow> s + b = 0" by simp
  qed
qed

theorem rfc1071_sum_eq: "\<forall>w \<in> set ws. w \<le> 65535 \<Longrightarrow> rfc1071_sum ws = ones_sum (sum_list ws)"
proof -
  have "foldl ones_add (ones_sum s) ws = ones_sum (s + sum_list ws)" if "\<forall>w \<in> set ws. w \<le> 65535" for s
    using that by (induction ws arbitrary: s) (simp_all add: ones_add_ones_sum add.assoc)
  from this [of 0] show "\<forall>w \<in> set ws. w \<le> 65535 \<Longrightarrow> rfc1071_sum ws = ones_sum (sum_list ws)"
    by (simp add: rfc1071_sum_def ones_sum_def)
qed

section \<open>Folding and swapping\<close>

lemma mod_65536_65535: "(65536 * a + b) mod 65535 = (a + b) mod (65535 :: nat)"
proof -
  have "65536 * a + b = (a + b) + 65535 * a" by simp
  then show ?thesis by (simp only: mod_mult_self2)
qed

lemma div_add_mod_eq_0: "a div n + a mod n = 0 \<longleftrightarrow> a = (0 :: nat)"
proof
  assume "a div n + a mod n = 0"
  then show "a = 0" using mult_div_mod_eq [of n a] by simp
qed simp

lemma ulong_fold_eq: "s < ULONG_RANGE \<Longrightarrow> ulong_fold s = s div 65536 + s mod 65536"
  unfolding ulong_fold_def by (rule ulong_add_exact) (simp add: less_mult_imp_div_less add_less_mono [of _ 65536 _ 65536, THEN less_trans])

lemma ulong_fold_fold: "s < ULONG_RANGE \<Longrightarrow> ulong_fold (ulong_fold s) = ones_sum s"
proof (rule ones_sum_unique)
  assume s: "s < ULONG_RANGE"
  define f where "f = s div 65536 + s mod 65536"
  have f: "f \<le> 131070"
    using s less_mult_imp_div_less [of s 65536 65536] mod_less_divisor [of 65536 s] by (simp add: f_def)
  have eq: "ulong_fold (ulong_fold s) = f div 65536 + f mod 65536"
    using s f by (simp add: ulong_fold_eq f_def [symmetric])
  have "f div 65536 = 0 \<or> f div 65536 = 1 \<and> f mod 65536 \<le> 65534"
    using f by (cases "f < 65536") (auto simp: div_nat_eqI le_mod_geq)
  then show "ulong_fold (ulong_fold s) \<le> 65535"
    unfolding eq using mod_less_divisor [of 65536 f] by auto
  have "f mod 65535 = s mod 65535"
    using mod_65536_65535 [of "s div 65536" "s mod 65536"] by (simp add: f_def)
  moreover have "(f div 65536 + f mod 65536) mod 65535 = f mod 65535"
    using mod_65536_65535 [of "f div 65536" "f mod 65536"] by simp
  ultimately show "ulong_fold (ulong_fold s) mod 65535 = s mod 65535" unfolding eq by simp
  have "f = 0 \<longleftrightarrow> s = 0" unfolding f_def by (rule div_add_mod_eq_0)
  moreover have "f div 65536 + f mod 65536 = 0 \<longleftrightarrow> f = 0" by (rule div_add_mod_eq_0)
  ultimately show "ulong_fold (ulong_fold s) = 0 \<longleftrightarrow> s = 0" unfolding eq by simp
qed

lemma ushort_swap_ones_sum:
  assumes "v \<le> 65535"
  shows "ushort_swap v = ones_sum (256 * v)"
proof (rule ones_sum_unique)
  have v: "v div 256 < 256" using assms by (simp add: less_mult_imp_div_less)
  then have eq: "ushort_swap v = 256 * (v mod 256) + v div 256" by (simp add: ushort_swap_def)
  show "ushort_swap v \<le> 65535" unfolding eq using v mod_less_divisor [of 256 v] by linarith
  have "256 * v = 256 * (256 * (v div 256) + v mod 256)" by simp
  then have "256 * v = 65536 * (v div 256) + 256 * (v mod 256)" unfolding distrib_left by simp
  then show "ushort_swap v mod 65535 = 256 * v mod 65535"
    using mod_65536_65535 [of "v div 256" "256 * (v mod 256)"] unfolding eq by (simp add: add.commute)
  show "ushort_swap v = 0 \<longleftrightarrow> 256 * v = 0" unfolding eq using div_add_mod_eq_0 [of v 256] by auto
qed

lemma ulong_fold_swap_eq: "s < ULONG_RANGE \<Longrightarrow> ulong_fold_swap s = ones_sum (256 * s)"
proof -
  assume s: "s < ULONG_RANGE"
  have "ones_sum s < 65536" using ones_sum_le [of s] by linarith
  then have "ulong_fold_swap s = ones_sum (256 * ones_sum s)"
    using s by (simp add: ulong_fold_swap_def ulong_fold_fold ushort_swap_ones_sum)
  also have "\<dots> = ones_sum (256 * s)"
    by (rule ones_sum_cong) (simp_all add: mod_mult_cong)
  finally show ?thesis .
qed

section \<open>The words of the data\<close>

text \<open>The little endian words that the C code adds, with the same padding.\<close>

fun le_words :: "byte list \<Rightarrow> nat list" where
  "le_words [] = []"
| "le_words [x] = [unat x]"
| "le_words (x # y # r) = (unat x + 256 * unat y) # le_words r"

lemma unat_byte_le: "unat (x :: byte) \<le> 255"
  using unsigned_less [of x, where ?'a = nat] by simp

lemma le_words_le: "sum_list (le_words bs) \<le> 65535 * ((length bs + 1) div 2)"
proof (induction bs rule: le_words.induct)
  case (3 x y r)
  then show ?case using unat_byte_le [of x] unat_byte_le [of y] by simp
qed (simp_all add: unat_byte_le [THEN order_trans])

lemma be_words_le: "w \<in> set (be_words bs) \<Longrightarrow> w \<le> 65535"
proof (induction bs rule: be_words.induct)
  case (3 x y r)
  then show ?case using unat_byte_le [of x] unat_byte_le [of y] by auto
qed (auto simp: unat_byte_le intro: order_trans [OF mult_le_mono2 [OF unat_byte_le]])

lemma be_words_append: "even (length xs) \<Longrightarrow> be_words (xs @ ys) = be_words xs @ be_words ys"
  by (induction xs rule: be_words.induct) auto

lemma le_words_append: "even (length xs) \<Longrightarrow> le_words (xs @ ys) = le_words xs @ le_words ys"
  by (induction xs rule: le_words.induct) auto

lemma be_le_words:
  "sum_list (be_words bs) mod 65535 = 256 * sum_list (le_words bs) mod 65535 \<and>
     (sum_list (be_words bs) = 0 \<longleftrightarrow> sum_list (le_words bs) = 0)"
proof (induction bs rule: be_words.induct)
  case (3 x y r)
  have "(256 * unat x + unat y + sum_list (be_words r)) mod 65535
      = (256 * unat x + unat y + 256 * sum_list (le_words r)) mod 65535"
    using 3 by (intro mod_add_cong) simp_all
  also have "\<dots> = (65536 * unat y + (256 * unat x + 256 * sum_list (le_words r))) mod 65535"
    unfolding mod_65536_65535 by (simp only: ac_simps)
  also have "\<dots> = 256 * (unat x + 256 * unat y + sum_list (le_words r)) mod 65535"
    by (rule arg_cong [of _ _ "\<lambda>t. t mod 65535"]) simp
  finally have "sum_list (be_words (x # y # r)) mod 65535 = 256 * sum_list (le_words (x # y # r)) mod 65535"
    by (simp only: be_words.simps le_words.simps sum_list.Cons)
  moreover have "sum_list (be_words (x # y # r)) = 0 \<longleftrightarrow> sum_list (le_words (x # y # r)) = 0"
    using conjunct2 [OF 3] by (simp only: be_words.simps le_words.simps sum_list.Cons) simp
  ultimately show ?case by simp
qed simp_all

end
