(* ===== verification/Nx_Checksum_Chain.thy ===== *)
theory Nx_Checksum_Chain imports Nx_Checksum_Sum begin

text \<open>
  The loops of the checksum: what the loop over the ULONGs of a packet, the loop over the
  packets and the handling of the last bytes add to the sum, as long as it stays below
  \<open>2 ^ 32\<close>.
\<close>

section \<open>One packet\<close>

lemma mem_read_Suc: "mem_read b a (Suc n) = b a # mem_read b (Suc a) n"
  by (simp add: mem_read_def upt_conv_Cons del: upt_Suc)

lemma le_words_mem_read_4:
  "le_words (mem_read b a (4 + n)) = read_ushort b a # read_ushort b (a + 2) # le_words (mem_read b (a + 4) n)"
  by (simp add: numeral_eq_Suc mem_read_Suc read_ushort_def)

lemma read_ushort_less: "read_ushort b a < 65536"
  using unat_byte_le [of "b a"] unat_byte_le [of "b (a + 1)"] by (simp add: read_ushort_def)

lemma read_ulong_halves:
  "read_ulong b a mod 65536 = read_ushort b a" "read_ulong b a div 65536 = read_ushort b (a + 2)"
  using read_ushort_less by (simp_all add: read_ulong_def)

lemma nx_checksum_words_eq:
  assumes "end_ptr \<le> lp + 4 * q" "0 < q \<longrightarrow> lp + 4 * q < end_ptr + 4"
    and "c + sum_list (le_words (mem_read b lp (4 * q))) < ULONG_RANGE"
  shows "nx_checksum_words b lp end_ptr c = (lp + 4 * q, c + sum_list (le_words (mem_read b lp (4 * q))))"
  using assms
proof (induction q arbitrary: lp c)
  case 0
  then show ?case by (subst nx_checksum_words.simps) simp
next
  case (Suc q)
  define c' where "c' = c + read_ushort b lp + read_ushort b (lp + 2)"
  have w: "c + sum_list (le_words (mem_read b lp (4 * Suc q))) = c' + sum_list (le_words (mem_read b (lp + 4) (4 * q)))"
    using le_words_mem_read_4 [of b lp "4 * q"] by (simp add: c'_def)
  have c': "c' + sum_list (le_words (mem_read b (lp + 4) (4 * q))) < ULONG_RANGE" using Suc.prems(3) w by simp
  have "nx_checksum_words b lp end_ptr c = nx_checksum_words b (lp + 4) end_ptr c'"
    using Suc.prems(2) c' by (subst nx_checksum_words.simps) (simp add: read_ulong_halves c'_def)
  also have "\<dots> = (lp + 4 + 4 * q, c' + sum_list (le_words (mem_read b (lp + 4) (4 * q))))"
    by (rule Suc.IH) (use Suc.prems c' in auto)
  finally show ?case using w by simp
qed

text \<open>A packet whose data begins at a multiple of four.\<close>

definition aligned_packet :: "nx_packet \<Rightarrow> bool" where
  "aligned_packet pk \<longleftrightarrow> packet_ok pk \<and> 0 < nx_packet_prepend_ptr pk \<and> nx_packet_prepend_ptr pk mod 4 = 0"

lemma aligned_packet_size:
  assumes "aligned_packet pk" "n = nx_packet_append_ptr pk - nx_packet_prepend_ptr pk"
  shows "nx_packet_append_ptr pk = nx_packet_prepend_ptr pk + n" "nx_packet_append_ptr pk mod 4 = n mod 4"
    "nx_packet_append_ptr pk < ULONG_RANGE" "4 \<le> nx_packet_prepend_ptr pk"
    "ulong_sub (nx_packet_append_ptr pk) (nx_packet_prepend_ptr pk) = n"
proof -
  have ok: "packet_ok pk" and al: "nx_packet_prepend_ptr pk mod 4 = 0" "0 < nx_packet_prepend_ptr pk"
    using assms(1) by (simp_all add: aligned_packet_def)
  note okD = packet_okD [OF ok]
  show "nx_packet_append_ptr pk < ULONG_RANGE" using okD by simp
  show app: "nx_packet_append_ptr pk = nx_packet_prepend_ptr pk + n" using okD(2) assms(2) by simp
  show "4 \<le> nx_packet_prepend_ptr pk" using al by (cases "nx_packet_prepend_ptr pk < 4") auto
  show "nx_packet_append_ptr pk mod 4 = n mod 4" using app al(1) by (metis mod_add_left_eq add_0)
  show "ulong_sub (nx_packet_append_ptr pk) (nx_packet_prepend_ptr pk) = n" using okD assms(2) by simp
qed

lemma nx_checksum_packet_eq:
  assumes "aligned_packet pk" "n = nx_packet_append_ptr pk - nx_packet_prepend_ptr pk" "k < ULONG_RANGE"
    and "q = min k n div 4"
    and "c + sum_list (le_words (mem_read b (nx_packet_prepend_ptr pk) (4 * q))) < ULONG_RANGE"
  shows "nx_checksum_packet b pk k c =
     (nx_packet_prepend_ptr pk + 4 * q, k - 4 * q,
      c + sum_list (le_words (mem_read b (nx_packet_prepend_ptr pk) (4 * q))))"
proof -
  define lp where "lp = nx_packet_prepend_ptr pk"
  note sz = aligned_packet_size [OF assms(1,2), folded lp_def]
  have lp4: "lp mod 4 = 0" using assms(1) by (simp add: aligned_packet_def lp_def)
  define e where "e = nx_checksum_end_ptr pk k"
  have end_large: "e = lp + 4 * (n div 4)" if "n < k"
  proof -
    have "e = lp + n - n mod 4" using that sz by (simp add: e_def nx_checksum_end_ptr_def lp_def)
    then show ?thesis using mult_div_mod_eq [of 4 n] by linarith
  qed
  have end_small: "e = lp + k - 3" if "k \<le> n"
    using that sz by (simp add: e_def nx_checksum_end_ptr_def lp_def [symmetric])
  have up: "lp < e \<longrightarrow> e + 3 < ULONG_RANGE + 3 \<and> (e + 3) - (e + 3) mod 4 = lp + 4 * q \<and> ulong_add e 3 = e + 3 \<and> 0 < q"
  proof (cases "k \<le> n")
    case True
    then have q: "q = k div 4" using assms(4) by simp
    have "lp < e \<Longrightarrow> e + 3 = lp + k" using end_small [OF True] by simp
    moreover have "(lp + k) mod 4 = k mod 4" using lp4 by (metis mod_add_left_eq add_0)
    then have "lp + k - (lp + k) mod 4 = lp + 4 * q" using q mult_div_mod_eq [of 4 k] by linarith
    moreover have "lp < e \<Longrightarrow> 0 < q" using end_small [OF True] q by (simp add: div_greater_zero_iff)
    ultimately show ?thesis using sz(1,3) True by simp
  next
    case False
    then have q: "q = n div 4" "e = lp + 4 * q" using assms(4) end_large by simp_all
    have "4 * q \<le> n" using q(1) by simp
    moreover have "e + 3 - (e + 3) mod 4 = e" using q(2) lp4 by presburger
    moreover have "e + 3 < ULONG_RANGE"
    proof -
      have "e mod 4 = 0" using q(2) lp4 by presburger
      moreover have "e < ULONG_RANGE" using q(2) \<open>4 * q \<le> n\<close> sz by simp
      ultimately show ?thesis by presburger
    qed
    ultimately show ?thesis using q(2) by simp
  qed
  have range: "e \<le> lp + 4 * q \<and> (0 < q \<longrightarrow> lp + 4 * q < e + 4)" if "lp < e \<or> q = 0"
  proof (cases "k \<le> n")
    case True
    then have q: "q = k div 4" using assms(4) by simp
    have "k - 3 \<le> 4 * q" "4 * q \<le> k" using q by presburger+
    then show ?thesis using end_small [OF True] sz(4) that by auto
  next
    case False
    then have "q = n div 4" "e = lp + 4 * q" using assms(4) end_large by simp_all
    then show ?thesis by simp
  qed
  have q0: "q = 0" if "\<not> lp < e"
  proof (cases "k \<le> n")
    case True
    then show ?thesis using that end_small [OF True] assms(4) sz(4) by simp
  next
    case False
    then show ?thesis using that end_large assms(4) by simp
  qed
  have qk: "4 * q \<le> k" using assms(4) by simp
  show ?thesis
  proof (cases "lp < e")
    case True
    have "nx_checksum_words b lp e c = (lp + 4 * q, c + sum_list (le_words (mem_read b lp (4 * q))))"
      using range True assms(5) by (intro nx_checksum_words_eq) (simp_all add: lp_def)
    moreover have "ulong_sub (lp + 4 * q) lp = 4 * q"
    proof -
      have "4 * q \<le> n" using assms(4) by simp
      then show ?thesis using sz(1,3) by simp
    qed
    ultimately show ?thesis
      using True up qk assms(3)
      by (simp add: nx_checksum_packet_def e_def [symmetric] lp_def [symmetric] Let_def)
  next
    case False
    then show ?thesis
      using q0 by (simp add: nx_checksum_packet_def e_def [symmetric] lp_def [symmetric] Let_def)
  qed
qed

section \<open>The last bytes\<close>

lemma mem_read_small:
  "mem_read b a (Suc 0) = [b a]" "mem_read b a 2 = [b a, b (a + 1)]" "mem_read b a 3 = [b a, b (a + 1), b (a + 2)]"
  by (simp_all add: numeral_2_eq_2 numeral_3_eq_3 mem_read_Suc)

lemma nx_checksum_tail_eq:
  assumes "r < 4" "c + sum_list (le_words (mem_read (nx_memory m) lp r)) < ULONG_RANGE"
  shows "nx_checksum_tail lp r c m =
     (c + sum_list (le_words (mem_read (nx_memory m) lp r)), if odd r then put_bytes (lp + r) [0] m else m)"
proof -
  consider "r = 0" | "r = 1" | "r = 2" | "r = 3" using assms(1) by linarith
  then show ?thesis
    by cases
      (use assms(2) in \<open>simp_all add: nx_checksum_tail_def mem_read_small read_ushort_def mem_write_def Let_def
         add.assoc\<close>)
qed

section \<open>The chain\<close>

text \<open>A chain the function can sum: every packet's data begins at a multiple of four and every
  packet but the last one holds an even number of bytes.\<close>

definition summable_chain :: "nx_mem \<Rightarrow> nat \<Rightarrow> nat list \<Rightarrow> bool" where
  "summable_chain m p ps \<longleftrightarrow> ps \<noteq> [] \<and> chain m p ps \<and>
     (\<forall>a \<in> set ps. \<exists>pk. nx_packets m a = Some pk \<and> aligned_packet pk) \<and>
     (\<forall>a \<in> set (butlast ps). even (length (packet_bytes m a)))"

lemma summable_chainE:
  assumes "summable_chain m p (a # ps)"
  obtains pk where "p = a" "a \<noteq> NX_NULL" "nx_packets m a = Some pk" "aligned_packet pk"
    "chain m (nx_packet_next pk) ps" "ps = [] \<longleftrightarrow> nx_packet_next pk = NX_NULL"
    "ps \<noteq> [] \<longrightarrow> summable_chain m (nx_packet_next pk) ps \<and> even (length (packet_bytes m a))"
proof -
  obtain pk where pk: "p = a" "a \<noteq> NX_NULL" "nx_packets m a = Some pk" "chain m (nx_packet_next pk) ps"
    using assms by (auto simp: summable_chain_def)
  have "aligned_packet pk" using assms pk by (auto simp: summable_chain_def)
  moreover have "ps = [] \<longleftrightarrow> nx_packet_next pk = NX_NULL" using pk(4) by (cases ps) auto
  moreover have "ps \<noteq> [] \<longrightarrow> summable_chain m (nx_packet_next pk) ps \<and> even (length (packet_bytes m a))"
  proof
    assume "ps \<noteq> []"
    then show "summable_chain m (nx_packet_next pk) ps \<and> even (length (packet_bytes m a))"
      using assms pk(4) unfolding summable_chain_def by simp
  qed
  ultimately show ?thesis by (intro that [OF pk(1-3) _ pk(4)])
qed

lemma le_words_split:
  "even n \<Longrightarrow> sum_list (le_words (mem_read b a (n + k))) =
     sum_list (le_words (mem_read b a n)) + sum_list (le_words (mem_read b (a + n) k))"
  by (simp add: mem_read_split le_words_append)

text \<open>The length to sum is all of the data, or a multiple of four inside the first packet (an
  IPv4 header).\<close>

lemma nx_checksum_chain_eq:
  assumes "summable_chain m p ps" "k < ULONG_RANGE"
    and "k = length (chain_bytes m ps) \<or> k mod 4 = 0 \<and> k \<le> length (packet_bytes m p)"
    and "c + sum_list (le_words (take k (chain_bytes m ps))) < ULONG_RANGE"
  shows "\<exists>lp r c'. nx_checksum_chain p lp0 k c m = Some (lp, r, c') \<and> r < 4 \<and>
     c' + sum_list (le_words (mem_read (nx_memory m) lp r)) = c + sum_list (le_words (take k (chain_bytes m ps))) \<and>
     (odd r \<longleftrightarrow> odd k) \<and> (odd k \<longrightarrow> map_option nx_packet_append_ptr (nx_packets m (last ps)) = Some (lp + r))"
  using assms
proof (induction ps arbitrary: p lp0 k c)
  case Nil
  then show ?case by (simp add: summable_chain_def)
next
  case (Cons a ps)
  obtain pk where pk: "p = a" "a \<noteq> NX_NULL" "nx_packets m a = Some pk" "aligned_packet pk"
    "chain m (nx_packet_next pk) ps" "ps = [] \<longleftrightarrow> nx_packet_next pk = NX_NULL"
    "ps \<noteq> [] \<longrightarrow> summable_chain m (nx_packet_next pk) ps \<and> even (length (packet_bytes m a))"
    using summable_chainE [OF Cons.prems(1)] by metis
  define n where "n = nx_packet_append_ptr pk - nx_packet_prepend_ptr pk"
  define start where "start = nx_packet_prepend_ptr pk"
  define b where "b = nx_memory m"
  define q where "q = min k n div 4"
  define c1 where "c1 = c + sum_list (le_words (mem_read b start (4 * q)))"
  note sz = aligned_packet_size [OF pk(4) n_def]
  have bytes: "packet_bytes m a = mem_read b start n" using pk(3) by (simp add: packet_bytes_def n_def start_def b_def)
  have len: "length (packet_bytes m a) = n" using bytes by simp
  have q4: "4 * q \<le> min k n" "min k n - 4 * q < 4" by (auto simp: q_def)
  define t where "t = min k n - 4 * q"
  have head: "c + sum_list (le_words (take (min k n) (packet_bytes m a))) = c1 + sum_list (le_words (mem_read b (start + 4 * q) t))"
  proof -
    have "min k n = 4 * q + t" using q4(1) by (simp add: t_def)
    then have "take (min k n) (packet_bytes m a) = mem_read b start (4 * q + t)"
      unfolding bytes by (metis take_mem_read min.cobounded2)
    then show ?thesis using le_words_split [of "4 * q" b start t] by (simp add: c1_def)
  qed
  have total: "c + sum_list (le_words (take k (chain_bytes m (a # ps)))) =
      c1 + sum_list (le_words (mem_read b (start + 4 * q) t)) + sum_list (le_words (take (k - n) (chain_bytes m ps)))"
  proof (cases "k \<le> n")
    case True
    then show ?thesis using head len by simp
  next
    case False
    then have "ps \<noteq> []" using Cons.prems(3) pk(1) len by auto
    then have "even n" using pk(7) len by simp
    then show ?thesis using head len False by (simp add: le_words_append)
  qed
  have packet: "nx_checksum_packet b pk k c = (start + 4 * q, k - 4 * q, c1)"
    unfolding c1_def start_def
    by (rule nx_checksum_packet_eq [OF pk(4) n_def Cons.prems(2) q_def]) (use total Cons.prems(4) in \<open>simp add: c1_def start_def\<close>)
  show ?case
  proof (cases "k - 4 * q > 0 \<and> nx_packet_next pk \<noteq> NX_NULL")
    case False
    have "nx_checksum_chain p lp0 k c m = Some (start + 4 * q, k - 4 * q, c1)"
      using False pk(1-3) packet by (subst nx_checksum_chain.simps) (auto simp: b_def)
    moreover have kn: "k \<le> n"
    proof (rule ccontr)
      assume "\<not> k \<le> n"
      then have "0 < k - 4 * q" using q4 by linarith
      moreover have "ps \<noteq> []" using \<open>\<not> k \<le> n\<close> Cons.prems(3) pk(1) len by auto
      ultimately show False using False pk(6) by simp
    qed
    moreover have "map_option nx_packet_append_ptr (nx_packets m (last (a # ps))) = Some (start + 4 * q + (k - 4 * q))" if "odd k"
    proof -
      have "0 < k - 4 * q" using that q4 by (cases "k = 4 * q") auto
      then have "ps = []" using False pk(6) by simp
      moreover have "k = n" using Cons.prems(3) that len calculation pk(1) by auto
      ultimately show ?thesis using pk(3) sz(1) q4(1) by (simp add: start_def)
    qed
    ultimately show ?thesis
      using total q4 by (auto simp: t_def b_def)
  next
    case True
    then have ne: "ps \<noteq> []" and ev: "even n" using pk(6,7) len by auto
    have k: "k = n + length (chain_bytes m ps)" "n \<le> k"
    proof -
      have "k = length (chain_bytes m (a # ps))"
        using Cons.prems(3) True q4 pk(1) len by (auto simp: q_def)
      then show "k = n + length (chain_bytes m ps)" "n \<le> k" using len by simp_all
    qed
    define c2 where "c2 = c1 + sum_list (le_words (mem_read b (start + 4 * q) t))"
    have t: "t = n mod 4" "t = 0 \<or> t = 2" "4 * q + t = n"
      using k(2) ev q4 by (auto simp: t_def q_def minus_mult_div_eq_mod) presburger+
    have c2: "c2 < ULONG_RANGE" using total Cons.prems(4) by (simp add: c2_def)
    have step: "nx_checksum_chain p lp0 k c m = nx_checksum_chain (nx_packet_next pk) (start + 4 * q) (k - n) c2 m"
    proof (cases "t = 2")
      case True
      then have "nx_packet_append_ptr pk mod 4 = 2" "ulong_sub (k - 4 * q) 2 = k - n" "2 \<le> k - 4 * q"
        using sz(2) t k(2) Cons.prems(2) by simp_all
      moreover have "ulong_add c1 (read_ushort b (start + 4 * q)) = c2"
        using True c2 by (simp add: c2_def mem_read_small read_ushort_def)
      ultimately show ?thesis
        using pk(1-3) packet \<open>k - 4 * q > 0 \<and> nx_packet_next pk \<noteq> NX_NULL\<close>
        by (subst nx_checksum_chain.simps) (simp add: b_def)
    next
      case False
      then have "t = 0" using t(2) by simp
      then have "nx_packet_append_ptr pk mod 4 = 0" "k - 4 * q = k - n" "c1 = c2"
        using sz(2) t by (simp_all add: c2_def)
      then show ?thesis
        using pk(1-3) packet \<open>k - 4 * q > 0 \<and> nx_packet_next pk \<noteq> NX_NULL\<close>
        by (subst nx_checksum_chain.simps) (simp add: b_def)
    qed
    obtain lp r c' where "nx_checksum_chain (nx_packet_next pk) (start + 4 * q) (k - n) c2 m = Some (lp, r, c')"
      "r < 4" "c' + sum_list (le_words (mem_read (nx_memory m) lp r)) = c2 + sum_list (le_words (take (k - n) (chain_bytes m ps)))"
      "odd r \<longleftrightarrow> odd (k - n)" "odd (k - n) \<longrightarrow> map_option nx_packet_append_ptr (nx_packets m (last ps)) = Some (lp + r)"
      using Cons.IH [of "nx_packet_next pk" "k - n" c2 "start + 4 * q"] pk(7) ne k total Cons.prems(2,4)
      by (auto simp: c2_def)
    then show ?thesis using step total ne ev k(2) by (intro exI [of _ lp] exI [of _ r] exI [of _ c']) (auto simp: c2_def)
  qed
qed

end
