(* ===== verification/Nx_Checksum_Pseudo.thy ===== *)
theory Nx_Checksum_Pseudo imports Nx_Checksum_Chain begin

text \<open>
  The pseudo header of TCP, UDP and ICMPv6 in the checksum, and the value of the whole
  function: the ones' complement sum of the pseudo header and the data.
\<close>

section \<open>The pseudo header\<close>

text \<open>An IPv4 address is one ULONG, an IPv6 address four; ICMP and the IPv4 header have no pseudo
  header and no addresses.\<close>

definition addresses_ok :: "nx_packet \<Rightarrow> nat \<Rightarrow> nat list \<Rightarrow> nat list \<Rightarrow> bool" where
  "addresses_ok pk protocol src dest \<longleftrightarrow>
     protocol \<notin> {NX_PROTOCOL_UDP, NX_PROTOCOL_TCP, NX_PROTOCOL_ICMPV6} \<or>
     (\<forall>a \<in> {src, dest}. length a = (if nx_packet_ip_version pk = NX_IP_VERSION_V6 then 4 else 1) \<and>
        (\<forall>u \<in> set a. u < ULONG_RANGE))"

lemma foldl_ulong_add: "c + sum_list xs < ULONG_RANGE \<Longrightarrow> foldl ulong_add c xs = c + sum_list xs"
  by (induction xs arbitrary: c) (simp_all add: add.assoc)

lemma foldl_ulong_add_two:
  "c + sum_list (map f xs) + sum_list (map g xs) < ULONG_RANGE \<Longrightarrow>
     foldl (\<lambda>c i. ulong_add (ulong_add c (f i)) (g i)) c xs = c + sum_list (map f xs) + sum_list (map g xs)"
  by (induction xs arbitrary: c) (simp_all add: ac_simps)

lemma address_words_le: "\<forall>u \<in> set a. u < ULONG_RANGE \<Longrightarrow> w \<in> set (address_words a) \<Longrightarrow> w \<le> 65535"
  by (auto simp: address_words_def less_mult_imp_div_less less_Suc_eq_le [symmetric])

lemma sum_list_le: "\<forall>w \<in> set ws. w \<le> (n :: nat) \<Longrightarrow> sum_list ws \<le> length ws * n"
  by (induction ws) auto

lemma length_address_words [simp]: "length (address_words a) = 2 * length a"
  by (induction a) (simp_all add: address_words_def)

lemma address_words_sum_1:
  "length a = 1 \<Longrightarrow> \<forall>u \<in> set a. u < ULONG_RANGE \<Longrightarrow> sum_list (address_words a) = ushort_of a 0 + ushort_of a 1"
  by (cases a) (auto simp: address_words_def ushort_of_def less_mult_imp_div_less)

lemma address_words_sum_4:
  assumes "length a = 4" "\<forall>u \<in> set a. u < ULONG_RANGE"
  shows "sum_list (address_words a) = ushort_of a 0 + ushort_of a 1 + sum_list (map (ushort_of a) [2 ..< 8])"
proof -
  obtain w x y z where "a = [w, x, y, z]"
    using assms(1) by (auto simp: numeral_eq_Suc length_Suc_conv)
  then show ?thesis
    using assms(2) by (simp add: address_words_def ushort_of_def less_mult_imp_div_less upt_rec)
qed

lemma nx_checksum_addresses_eq:
  assumes "\<forall>a \<in> {src, dest}. length a = (if v6 then 4 else 1) \<and> (\<forall>u \<in> set a. u < ULONG_RANGE)" "c \<le> 65535"
  shows "nx_checksum_addresses v6 src dest c = c + sum_list (address_words src) + sum_list (address_words dest) \<and>
     c + sum_list (address_words src) + sum_list (address_words dest) \<le> 1114095"
proof -
  have "sum_list (address_words a) \<le> 524280" if "a = src \<or> a = dest" for a
  proof -
    have a: "\<forall>u \<in> set a. u < ULONG_RANGE" "length a \<le> 4" using assms(1) that by (auto split: if_splits)
    then have "sum_list (address_words a) \<le> length (address_words a) * 65535"
      by (intro sum_list_le) (use address_words_le in blast)
    then show ?thesis using a(2) by simp
  qed
  from this [of src] this [of dest]
  have small: "c + sum_list (address_words src) + sum_list (address_words dest) \<le> 1114095" using assms(2) by simp
  show ?thesis
  proof (cases v6)
    case True
    have "sum_list (address_words a) = ushort_of a 0 + ushort_of a 1 + sum_list (map (ushort_of a) [2 ..< 8])"
      if "a = src \<or> a = dest" for a
      by (rule address_words_sum_4) (use assms(1) that True in auto)
    note s = this [of src, simplified] this [of dest, simplified]
    show ?thesis
      using True small unfolding s nx_checksum_addresses_def Let_def
      by (subst foldl_ulong_add, simp, subst if_P [OF True], subst foldl_ulong_add_two) (simp_all del: upt_Suc)
  next
    case False
    have "sum_list (address_words a) = ushort_of a 0 + ushort_of a 1" if "a = src \<or> a = dest" for a
      by (rule address_words_sum_1) (use assms(1) that False in auto)
    note s = this [of src, simplified] this [of dest, simplified]
    show ?thesis using False small s by (simp add: nx_checksum_addresses_def foldl_ulong_add)
  qed
qed

lemma nx_checksum_pseudo_eq:
  assumes "addresses_ok pk protocol src dest" "protocol \<le> 255" "data_length \<le> 65535"
  shows "nx_checksum_pseudo pk protocol data_length src dest =
     ones_sum (256 * sum_list (pseudo_words protocol data_length src dest))"
proof (cases "protocol \<in> {NX_PROTOCOL_UDP, NX_PROTOCOL_TCP, NX_PROTOCOL_ICMPV6}")
  case True
  have eq: "nx_checksum_addresses (nx_packet_ip_version pk = NX_IP_VERSION_V6) src dest protocol =
      protocol + sum_list (address_words src) + sum_list (address_words dest) \<and>
      protocol + sum_list (address_words src) + sum_list (address_words dest) \<le> 1114095"
    by (rule nx_checksum_addresses_eq) (use assms True in \<open>auto simp: addresses_ok_def\<close>)
  then have "ulong_add (nx_checksum_addresses (nx_packet_ip_version pk = NX_IP_VERSION_V6) src dest protocol) data_length
      = sum_list (pseudo_words protocol data_length src dest)"
    using assms(3) True by (simp add: pseudo_words_def)
  moreover have "sum_list (pseudo_words protocol data_length src dest) < ULONG_RANGE"
    using eq assms(3) True by (simp add: pseudo_words_def)
  ultimately show ?thesis
    using True by (auto simp: nx_checksum_pseudo_def ulong_fold_swap_eq)
next
  case False
  then show ?thesis by (simp add: nx_checksum_pseudo_def pseudo_words_def ones_sum_def)
qed

lemma pseudo_words_le:
  "addresses_ok pk protocol src dest \<Longrightarrow> protocol \<le> 255 \<Longrightarrow> data_length \<le> 65535 \<Longrightarrow>
     w \<in> set (pseudo_words protocol data_length src dest) \<Longrightarrow> w \<le> 65535"
  by (auto simp: pseudo_words_def addresses_ok_def address_words_le split: if_splits)

section \<open>The function\<close>

text \<open>The memory after the call: data of odd length is padded in place.\<close>

definition padded :: "nat list \<Rightarrow> nat \<Rightarrow> nx_mem \<Rightarrow> nx_mem" where
  "padded ps data_length m = (case nx_packets m (last ps) of
     Some pk \<Rightarrow> if odd data_length then put_bytes (nx_packet_append_ptr pk) [0] m else m
   | None \<Rightarrow> m)"

lemma padded_even [simp]: "even data_length \<Longrightarrow> padded ps data_length m = m"
  by (auto simp: padded_def split: option.splits)

lemma nx_ip_checksum_compute_eq:
  assumes "summable_chain m p ps" "nx_packets m p = Some pk" "data_length \<le> 65535"
    and "data_length = length (chain_bytes m ps) \<or> data_length mod 4 = 0 \<and> data_length \<le> length (packet_bytes m p)"
    and "protocol \<le> 255" "addresses_ok pk protocol src dest"
  shows "nx_ip_checksum_compute p protocol data_length src dest m =
     Some (ones_sum (sum_list (pseudo_words protocol data_length src dest) +
             sum_list (be_words (take data_length (chain_bytes m ps)))), padded ps data_length m)"
proof -
  define bs where "bs = take data_length (chain_bytes m ps)"
  define S where "S = sum_list (pseudo_words protocol data_length src dest)"
  define c where "c = ones_sum (256 * S)"
  have pseudo: "nx_checksum_pseudo pk protocol data_length src dest = c"
    unfolding c_def S_def by (rule nx_checksum_pseudo_eq [OF assms(6,5,3)])
  have "(length bs + 1) div 2 \<le> 32768" using assms(3) by (simp add: bs_def)
  then have "sum_list (le_words bs) \<le> 65535 * 32768" using le_words_le [of bs] by (meson le_trans mult_le_mono2)
  moreover have "c \<le> 65535" by (simp add: c_def)
  ultimately have small: "c + sum_list (le_words bs) < ULONG_RANGE" by simp
  have range: "data_length < ULONG_RANGE" using assms(3) by simp
  obtain lp r c' where loop: "nx_checksum_chain p (nx_packet_prepend_ptr pk) data_length c m = Some (lp, r, c')" "r < 4"
    "c' + sum_list (le_words (mem_read (nx_memory m) lp r)) = c + sum_list (le_words bs)" "odd r \<longleftrightarrow> odd data_length"
    "odd data_length \<longrightarrow> map_option nx_packet_append_ptr (nx_packets m (last ps)) = Some (lp + r)"
    using nx_checksum_chain_eq [OF assms(1) range assms(4), of c "nx_packet_prepend_ptr pk"] small
    unfolding bs_def by blast
  obtain wk where wk: "nx_packets m (last ps) = Some wk" using assms(1) unfolding summable_chain_def by (metis last_in_set)
  have "nx_checksum_tail lp r c' m = (c + sum_list (le_words bs), if odd r then put_bytes (lp + r) [0] m else m)"
    using nx_checksum_tail_eq [OF loop(2), of c' m lp] loop(3) small by simp
  moreover have "(if odd r then put_bytes (lp + r) [0] m else m) = padded ps data_length m"
    using loop(4,5) wk by (auto simp: padded_def)
  ultimately have "nx_checksum_tail lp r c' m = (c + sum_list (le_words bs), padded ps data_length m)" by simp
  moreover have "ulong_fold_swap (c + sum_list (le_words bs)) = ones_sum (S + sum_list (be_words bs))"
  proof -
    have "256 * (c + sum_list (le_words bs)) mod 65535 = (256 * c + 256 * sum_list (le_words bs)) mod 65535"
      by (simp add: distrib_left)
    also have "\<dots> = (65536 * S + sum_list (be_words bs)) mod 65535"
    proof (rule mod_add_cong)
      have "256 * c mod 65535 = 256 * (256 * S) mod 65535" unfolding c_def by (rule mod_mult_cong) simp_all
      then show "256 * c mod 65535 = 65536 * S mod 65535" by simp
      show "256 * sum_list (le_words bs) mod 65535 = sum_list (be_words bs) mod 65535" using be_le_words [of bs] by simp
    qed
    also have "\<dots> = (S + sum_list (be_words bs)) mod 65535" by (rule mod_65536_65535)
    finally have "256 * (c + sum_list (le_words bs)) mod 65535 = (S + sum_list (be_words bs)) mod 65535" .
    moreover have "256 * (c + sum_list (le_words bs)) = 0 \<longleftrightarrow> S + sum_list (be_words bs) = 0"
      using be_le_words [of bs] unfolding c_def add_is_0 mult_is_0 ones_sum_0 by simp
    ultimately have "ones_sum (256 * (c + sum_list (le_words bs))) = ones_sum (S + sum_list (be_words bs))"
      by (rule ones_sum_cong)
    then show ?thesis using small by (simp only: ulong_fold_swap_eq)
  qed
  ultimately show ?thesis
    using assms(2) pseudo loop(1) by (simp add: nx_ip_checksum_compute_def S_def bs_def)
qed

end
