(* ===== verification/Nx_Checksum_Props.thy ===== *)
theory Nx_Checksum_Props imports Nx_Data_Props Nx_Checksum_Pseudo begin

text \<open>
  The properties of the checksum: it is the ones' complement sum of RFC 1071 over the pseudo
  header and the data, the receiver's check of a packet that carries its checksum succeeds,
  and a change of one word of the data is noticed. They are applied to the demo packet with
  four bytes of data.
\<close>

section \<open>Words in the middle\<close>

lemma be_words_middle:
  "even (length xs) \<Longrightarrow> sum_list (be_words (xs @ a # b # ys)) =
     sum_list (be_words xs) + (256 * unat a + unat b) + sum_list (be_words ys)"
  by (simp add: be_words_append)

text \<open>The two bytes of a 16-bit field in network byte order.\<close>

definition be_field :: "nat \<Rightarrow> byte list" where
  "be_field f = [word_of_nat (f div 256), word_of_nat (f mod 256)]"

lemma be_words_field:
  assumes "even (length xs)" "f \<le> 65535"
  shows "sum_list (be_words (xs @ be_field f @ ys)) = sum_list (be_words xs) + f + sum_list (be_words ys)"
proof -
  have "f div 256 < 256" using assms(2) by (simp add: less_mult_imp_div_less)
  then have "256 * unat (word_of_nat (f div 256) :: byte) + unat (word_of_nat (f mod 256) :: byte) = f"
    by (simp add: unat_of_nat)
  then show ?thesis using assms(1) by (simp add: be_field_def be_words_middle)
qed

section \<open>The demo packet\<close>

definition demo_data :: "byte list \<Rightarrow> nx_mem" where
  "demo_data bs = put_bytes 1064 bs (put_packet 1000 demo_header4 demo_mem1)"

lemma demo_data_packet: "nx_packets (demo_data bs) 1000 = Some demo_header4"
  by (simp add: demo_data_def)

lemma demo_data_bytes: "length bs = 4 \<Longrightarrow> chain_bytes (demo_data bs) [1000] = bs"
  using demo_data_packet [of bs] mem_read_write_same [of "nx_memory (put_packet 1000 demo_header4 demo_mem1)" 1064 bs]
  by (simp add: packet_bytes_def demo_packet4_simps demo_data_def)

lemma demo_data_summable: "summable_chain (demo_data bs) 1000 [1000]"
  using demo_data_packet [of bs]
  by (simp add: summable_chain_def aligned_packet_def packet_ok_def demo_packet4_simps)

section \<open>Properties\<close>

text \<open>C18: \<open>nx_ip_checksum_compute\<close> returns the ones' complement sum of RFC 1071, in host byte
  order, over the pseudo header (for TCP, UDP and ICMPv6, with IPv4 or IPv6 addresses) and the
  data in network byte order, across all packets of the chain. It changes nothing but the byte
  behind data of odd length. The data of every packet must begin at a multiple of four, only
  the last packet may hold an odd number of bytes, and the length must be that of the whole
  data or a multiple of four inside the first packet.\<close>

theorem nx_ip_checksum_compute_rfc1071:
  assumes "summable_chain m p ps" "nx_packets m p = Some pk" "data_length \<le> 65535"
    and "data_length = length (chain_bytes m ps) \<or> data_length mod 4 = 0 \<and> data_length \<le> length (packet_bytes m p)"
    and "protocol \<le> 255" "addresses_ok pk protocol src dest"
  shows "nx_ip_checksum_compute p protocol data_length src dest m =
     Some (rfc1071_sum (pseudo_words protocol data_length src dest @ be_words (take data_length (chain_bytes m ps))),
           padded ps data_length m)"
proof -
  have "\<forall>w \<in> set (pseudo_words protocol data_length src dest @ be_words (take data_length (chain_bytes m ps))). w \<le> 65535"
    using pseudo_words_le [OF assms(6,5,3)] be_words_le by auto
  then show ?thesis
    using nx_ip_checksum_compute_eq [OF assms] by (simp add: rfc1071_sum_eq)
qed

lemma nx_ip_checksum_compute_rfc1071_witness:
  "nx_ip_checksum_compute 1000 NX_PROTOCOL_UDP 4 [0x0A000001] [0x0A000002] (demo_data [40, 41, 42, 43]) =
     Some (26220, demo_data [40, 41, 42, 43])"
proof -
  define m where "m = demo_data [40, 41, 42, 43]"
  have bytes: "chain_bytes m [1000] = [40, 41, 42, 43]" unfolding m_def by (rule demo_data_bytes) simp
  have "nx_ip_checksum_compute 1000 NX_PROTOCOL_UDP 4 [0x0A000001] [0x0A000002] m =
      Some (rfc1071_sum (pseudo_words NX_PROTOCOL_UDP 4 [0x0A000001] [0x0A000002] @ be_words (take 4 (chain_bytes m [1000]))),
            padded [1000] 4 m)"
    by (rule nx_ip_checksum_compute_rfc1071 [OF demo_data_summable [of "[40, 41, 42, 43]", folded m_def] demo_data_packet [of "[40, 41, 42, 43]", folded m_def]])
      (simp_all only: bytes m_def [symmetric], simp_all add: addresses_ok_def demo_packet4_simps demo_header4_def
        alloc_header_def nx_packet_init_def m_def)
  then show ?thesis
    unfolding bytes by (simp add: m_def pseudo_words_def address_words_def rfc1071_sum_def ones_add_def)
qed

text \<open>C19: the receiver's check. When a packet is summed with a zero in its checksum field, and
  the complement of that sum is then stored in the field, summing the packet again gives
  0xFFFF, wherever the field lies at an even offset. Sender and receiver may hold the data in
  different chains.\<close>

theorem nx_ip_checksum_verifies:
  assumes "summable_chain m p ps" "nx_packets m p = Some pk" "summable_chain m' p' ps'" "nx_packets m' p' = Some pk'"
    and "addresses_ok pk protocol src dest" "addresses_ok pk' protocol src dest" "protocol \<le> 255"
    and "chain_bytes m ps = xs @ be_field 0 @ ys" "even (length xs)" "data_length = length (chain_bytes m ps)"
    and "data_length \<le> 65535" "nx_ip_checksum_compute p protocol data_length src dest m = Some (c, m1)"
    and "chain_bytes m' ps' = xs @ be_field (65535 - c) @ ys"
  shows "nx_ip_checksum_compute p' protocol data_length src dest m' = Some (65535, padded ps' data_length m')"
proof -
  define S where "S = sum_list (pseudo_words protocol data_length src dest) + sum_list (be_words xs) + sum_list (be_words ys)"
  have "c = ones_sum (sum_list (pseudo_words protocol data_length src dest) + sum_list (be_words (xs @ be_field 0 @ ys)))"
    using nx_ip_checksum_compute_eq [OF assms(1,2,11) _ assms(7,5)] assms(8,10,12) by simp
  then have c: "c = ones_sum S" using assms(9) by (simp add: be_words_field S_def add.assoc)
  have len: "data_length = length (chain_bytes m' ps')" using assms(8,10,13) by (simp add: be_field_def)
  have "sum_list (pseudo_words protocol data_length src dest) + sum_list (be_words (take data_length (chain_bytes m' ps'))) =
      S + (65535 - c)"
    using assms(9,13) len by (simp add: be_words_field S_def)
  then have "nx_ip_checksum_compute p' protocol data_length src dest m' =
      Some (ones_sum (S + (65535 - c)), padded ps' data_length m')"
    using nx_ip_checksum_compute_eq [OF assms(3,4,11) _ assms(7,6)] len by simp
  moreover have "65535 = ones_sum (S + (65535 - c))"
  proof (rule ones_sum_unique)
    have "c \<le> 65535" by (simp add: c)
    moreover have "(S + (65535 - c)) mod 65535 = (ones_sum S + (65535 - c)) mod 65535" by (rule mod_add_cong) simp_all
    ultimately show "65535 mod 65535 = (S + (65535 - c)) mod 65535" by (simp add: c)
    have "S = 0 \<Longrightarrow> c = 0" by (simp add: c)
    then have "S + (65535 - c) \<noteq> 0" by linarith
    then show "65535 = (0 :: nat) \<longleftrightarrow> S + (65535 - c) = 0" by simp
  qed simp
  ultimately show ?thesis by simp
qed

lemma nx_ip_checksum_verifies_witness:
  "nx_ip_checksum_compute 1000 NX_PROTOCOL_ICMP 4 [] [] (demo_data [40, 41, 215, 214]) =
     Some (65535, demo_data [40, 41, 215, 214])"
proof -
  define m where "m = demo_data [40, 41, 0, 0]"
  define m' where "m' = demo_data [40, 41, 215, 214]"
  have bytes: "chain_bytes m [1000] = [40, 41] @ be_field 0 @ []" "chain_bytes m' [1000] = [40, 41] @ be_field (65535 - 10281) @ []"
    unfolding m_def m'_def by (subst demo_data_bytes; simp add: be_field_def)+
  have ok: "addresses_ok demo_header4 NX_PROTOCOL_ICMP [] []" by (simp add: addresses_ok_def)
  have "nx_ip_checksum_compute 1000 NX_PROTOCOL_ICMP 4 [] [] m = Some (10281, m)"
    using nx_ip_checksum_compute_eq [OF demo_data_summable [of "[40, 41, 0, 0]"] demo_data_packet, of 4 NX_PROTOCOL_ICMP "[]" "[]", folded m_def]
      ok unfolding bytes by (simp add: pseudo_words_def be_field_def ones_sum_def)
  from nx_ip_checksum_verifies [OF demo_data_summable [of "[40, 41, 0, 0]", folded m_def] demo_data_packet [of "[40, 41, 0, 0]", folded m_def] demo_data_summable [of "[40, 41, 215, 214]", folded m'_def]
      demo_data_packet [of "[40, 41, 215, 214]", folded m'_def] ok ok _ bytes(1) _ _ _ this bytes(2)]
  show ?thesis unfolding bytes by (simp add: be_field_def m'_def)
qed

text \<open>C20: error detection. Two packets whose data differs in one aligned 16-bit word have
  different checksums, unless one of the two words is 0x0000 and the other 0xFFFF.\<close>

theorem nx_ip_checksum_detects_word:
  assumes "summable_chain m p ps" "nx_packets m p = Some pk" "summable_chain m' p' ps'" "nx_packets m' p' = Some pk'"
    and "addresses_ok pk protocol src dest" "addresses_ok pk' protocol src dest" "protocol \<le> 255"
    and "chain_bytes m ps = xs @ be_field v @ ys" "chain_bytes m' ps' = xs @ be_field w @ ys" "even (length xs)"
    and "data_length = length (chain_bytes m ps)" "data_length \<le> 65535"
    and "v \<le> 65535" "w \<le> 65535" "v \<noteq> w" "{v, w} \<noteq> {0, 65535}"
  shows "map_option fst (nx_ip_checksum_compute p protocol data_length src dest m) \<noteq>
     map_option fst (nx_ip_checksum_compute p' protocol data_length src dest m')"
proof -
  define S where "S = sum_list (pseudo_words protocol data_length src dest) + sum_list (be_words xs) + sum_list (be_words ys)"
  have len: "data_length = length (chain_bytes m' ps')" using assms(8,9,11) by (simp add: be_field_def)
  have "map_option fst (nx_ip_checksum_compute p protocol data_length src dest m) = Some (ones_sum (S + v))"
    using nx_ip_checksum_compute_eq [OF assms(1,2,12) _ assms(7,5)] assms(8,10,11,13)
    by (simp add: be_words_field S_def ac_simps)
  moreover have "map_option fst (nx_ip_checksum_compute p' protocol data_length src dest m') = Some (ones_sum (S + w))"
    using nx_ip_checksum_compute_eq [OF assms(3,4,12) _ assms(7,6)] assms(9,10,14) len
    by (simp add: be_words_field S_def ac_simps)
  moreover have "ones_sum (S + v) \<noteq> ones_sum (S + w)"
  proof
    assume "ones_sum (S + v) = ones_sum (S + w)"
    then have "(S + v) mod 65535 = (S + w) mod 65535" by (metis ones_sum_mod)
    then have eq: "v mod 65535 = w mod 65535" by (simp add: mod_add_left_eq nat_mod_eq_iff)
    show False
      using assms(13-16) eq by (cases "v = 65535"; cases "w = 65535") (auto simp: insert_commute)
  qed
  ultimately show ?thesis by (simp only: option.inject) simp
qed

lemma nx_ip_checksum_detects_word_witness:
  "map_option fst (nx_ip_checksum_compute 1000 NX_PROTOCOL_ICMP 4 [] [] (demo_data [40, 41, 42, 43])) \<noteq>
     map_option fst (nx_ip_checksum_compute 1000 NX_PROTOCOL_ICMP 4 [] [] (demo_data [40, 41, 43, 43]))"
proof -
  define m where "m = demo_data [40, 41, 42, 43]"
  define m' where "m' = demo_data [40, 41, 43, 43]"
  have bytes: "chain_bytes m [1000] = [40, 41] @ be_field 10795 @ []" "chain_bytes m' [1000] = [40, 41] @ be_field 11051 @ []"
    unfolding m_def m'_def by (subst demo_data_bytes; simp add: be_field_def)+
  have ok: "addresses_ok demo_header4 NX_PROTOCOL_ICMP [] []" by (simp add: addresses_ok_def)
  have len: "4 = length (chain_bytes m [1000])" unfolding bytes by (simp add: be_field_def)
  have ne: "{10795, 11051} \<noteq> {0, 65535 :: nat}" by auto
  show ?thesis
    unfolding m_def [symmetric] m'_def [symmetric]
    by (rule nx_ip_checksum_detects_word [OF demo_data_summable [of "[40, 41, 42, 43]", folded m_def] demo_data_packet [of "[40, 41, 42, 43]", folded m_def]
          demo_data_summable [of "[40, 41, 43, 43]", folded m'_def] demo_data_packet [of "[40, 41, 43, 43]", folded m'_def] ok ok _ bytes _ len _ _ _ _ ne]) simp_all
qed

end
