(* ===== verification/Nx_Ip_Route.thy ===== *)
theory Nx_Ip_Route imports Nx_Prelude begin

text \<open>
  IPv4 routing: the interfaces, the static routing table and the gateway of an IP instance,
  the search for the interface and the next hop of a destination
  (common/src/nx_ip_route_find.c), and the services that change the table and the gateway
  (nx_ip_static_route_add.c, nx_ip_static_route_delete.c, nx_ip_gateway_address_set.c,
  nx_ip_gateway_address_clear.c). An interface pointer is \<open>None\<close> for NULL or the index of an
  interface of the instance. The protection mutex makes every service one step.
\<close>

section \<open>Records\<close>

type_synonym ip_address = "32 word"

record nx_interface =
  nx_interface_valid :: bool
  nx_interface_link_up :: bool
  nx_interface_ip_address :: ip_address
  nx_interface_ip_network_mask :: ip_address
  nx_interface_ip_network :: ip_address
  nx_interface_priority :: int

record nx_ip_routing_entry =
  nx_ip_routing_dest_ip :: ip_address
  nx_ip_routing_net_mask :: ip_address
  nx_ip_routing_next_hop_address :: ip_address
  nx_ip_routing_entry_ip_interface :: "nat option"

text \<open>The interface array has NX_MAX_IP_INTERFACES elements, the last one is the loopback
  interface. The routing table is an array of NX_IP_ROUTING_TABLE_SIZE entries of which the
  first \<open>nx_ip_routing_table_entry_count\<close> are in use.\<close>

record nx_ip =
  nx_ip_interface :: "nx_interface list"
  nx_ip_routing_table :: "nx_ip_routing_entry list"
  nx_ip_routing_table_entry_count :: nat
  nx_ip_gateway_address :: ip_address
  nx_ip_gateway_interface :: "nat option"

abbreviation (input) NX_IP_ROUTING_TABLE_SIZE :: nat where "NX_IP_ROUTING_TABLE_SIZE \<equiv> 8"
abbreviation (input) NX_IP_LIMITED_BROADCAST :: ip_address where "NX_IP_LIMITED_BROADCAST \<equiv> 0xFFFFFFFF"

definition NX_MAX_IP_INTERFACES :: "nx_ip \<Rightarrow> nat" where
  "NX_MAX_IP_INTERFACES ip = length (nx_ip_interface ip)"

definition NX_MAX_PHYSICAL_INTERFACES :: "nx_ip \<Rightarrow> nat" where
  "NX_MAX_PHYSICAL_INTERFACES ip = NX_MAX_IP_INTERFACES ip - 1"

definition nx_interface_at :: "nx_ip \<Rightarrow> nat \<Rightarrow> nx_interface option" where
  "nx_interface_at ip p = (if p < NX_MAX_IP_INTERFACES ip then Some (nx_ip_interface ip ! p) else None)"

definition nx_is_multicast :: "ip_address \<Rightarrow> bool" where
  "nx_is_multicast a \<longleftrightarrow> a AND 0xF0000000 = 0xE0000000"

definition nx_is_link_local :: "ip_address \<Rightarrow> bool" where
  "nx_is_link_local a \<longleftrightarrow> a AND 0xFFFF0000 = 0xA9FE0000"

section \<open>Searches over the interfaces\<close>

text \<open>The interface of the highest priority among those that satisfy a condition, the first
  among equals. \<open>best\<close> is the \<open>best_ptr\<close> of the loops.\<close>

primrec nx_best_interface :: "nx_ip \<Rightarrow> (nx_interface \<Rightarrow> bool) \<Rightarrow> nat option \<Rightarrow> nat list \<Rightarrow> nat option" where
  "nx_best_interface ip ok best [] = best"
| "nx_best_interface ip ok best (i # rest) =
     (if ok (nx_ip_interface ip ! i) \<and>
         (case best of None \<Rightarrow> True
          | Some b \<Rightarrow> nx_interface_priority (nx_ip_interface ip ! i) > nx_interface_priority (nx_ip_interface ip ! b))
      then nx_best_interface ip ok (Some i) rest
      else nx_best_interface ip ok best rest)"

definition nx_interface_usable :: "nx_interface \<Rightarrow> bool" where
  "nx_interface_usable intf \<longleftrightarrow> nx_interface_valid intf \<and> nx_interface_link_up intf"

definition nx_interface_contains :: "nx_interface \<Rightarrow> ip_address \<Rightarrow> bool" where
  "nx_interface_contains intf a \<longleftrightarrow> a AND nx_interface_ip_network_mask intf = nx_interface_ip_network intf"

section \<open>Finding a route\<close>

text \<open>The result: status, the caller's interface pointer and the next hop.\<close>

type_synonym nx_route = "nx_status \<times> nat option \<times> ip_address"

definition nx_route_multicast :: "nx_ip \<Rightarrow> ip_address \<Rightarrow> nat option \<Rightarrow> nx_route option" where
  "nx_route_multicast ip dest ifc = (case ifc of
     None \<Rightarrow>
       (case nx_best_interface ip nx_interface_link_up None [0 ..< NX_MAX_PHYSICAL_INTERFACES ip] of
          Some i \<Rightarrow> Some (NX_SUCCESS, Some i, dest)
        | None \<Rightarrow> Some (NX_IP_ADDRESS_ERROR, None, dest))
   | Some p \<Rightarrow> do {
       intf \<leftarrow> nx_interface_at ip p;
       Some (if nx_interface_link_up intf then NX_SUCCESS else NX_IP_ADDRESS_ERROR, Some p, dest)
     })"

text \<open>The physical interface that owns the destination address.\<close>

definition nx_route_local :: "nx_ip \<Rightarrow> ip_address \<Rightarrow> nat option \<Rightarrow> nat option" where
  "nx_route_local ip dest ifc =
     find (\<lambda>i. nx_interface_usable (nx_ip_interface ip ! i) \<and>
               nx_interface_ip_address (nx_ip_interface ip ! i) = dest \<and> (ifc = None \<or> ifc = Some i))
       [0 ..< NX_MAX_PHYSICAL_INTERFACES ip]"

text \<open>The search of the static routing table, over the list of the indices.\<close>

primrec nx_route_static ::
    "nx_ip \<Rightarrow> ip_address \<Rightarrow> nat option \<Rightarrow> nat list \<Rightarrow> (nat \<times> ip_address) option option" where
  "nx_route_static ip dest ifc [] = Some None"
| "nx_route_static ip dest ifc (i # rest) = do {
     e \<leftarrow> (if i < length (nx_ip_routing_table ip) then Some (nx_ip_routing_table ip ! i) else None);
     p \<leftarrow> nx_ip_routing_entry_ip_interface e;
     intf \<leftarrow> nx_interface_at ip p;
     if \<not> nx_interface_link_up intf then nx_route_static ip dest ifc rest
     else if nx_ip_routing_dest_ip e = dest AND nx_ip_routing_net_mask e
     then if nx_interface_ip_network intf \<noteq> nx_ip_routing_next_hop_address e AND nx_interface_ip_network_mask intf
          then nx_route_static ip dest ifc rest
          else if ifc = None \<or> ifc = Some p then Some (Some (p, nx_ip_routing_next_hop_address e))
          else nx_route_static ip dest ifc rest
     else nx_route_static ip dest ifc rest
   }"

text \<open>The interfaces whose network holds the destination. The loopback interface comes last and
  takes it regardless.\<close>

primrec nx_route_onlink :: "nx_ip \<Rightarrow> ip_address \<Rightarrow> nat option \<Rightarrow> nat option \<Rightarrow> nat list \<Rightarrow> nat option" where
  "nx_route_onlink ip dest ifc best [] = best"
| "nx_route_onlink ip dest ifc best (i # rest) =
     (let intf = nx_ip_interface ip ! i in
      if nx_interface_usable intf \<and> nx_interface_contains intf dest
      then if i = NX_MAX_PHYSICAL_INTERFACES ip then Some i
           else (case ifc of
               Some p \<Rightarrow> if p \<noteq> i then nx_route_onlink ip dest ifc best rest else Some i
             | None \<Rightarrow>
                 if (case best of None \<Rightarrow> True
                     | Some b \<Rightarrow> nx_interface_priority intf > nx_interface_priority (nx_ip_interface ip ! b))
                 then nx_route_onlink ip dest ifc (Some i) rest
                 else nx_route_onlink ip dest ifc best rest)
      else nx_route_onlink ip dest ifc best rest)"

text \<open>A link-local destination, and a link-local source address.\<close>

definition nx_route_if_local :: "nx_ip \<Rightarrow> (nx_interface \<Rightarrow> bool) \<Rightarrow> nat option \<Rightarrow> nat option option" where
  "nx_route_if_local ip ok ifc = (case ifc of
     Some p \<Rightarrow> do {
       intf \<leftarrow> nx_interface_at ip p;
       Some (if nx_interface_usable intf \<and> ok intf then Some p else None)
     }
   | None \<Rightarrow> Some (find (\<lambda>i. nx_interface_usable (nx_ip_interface ip ! i) \<and> ok (nx_ip_interface ip ! i))
                      [0 ..< NX_MAX_IP_INTERFACES ip]))"

definition nx_route_link_local :: "nx_ip \<Rightarrow> ip_address \<Rightarrow> nat option \<Rightarrow> nat option option" where
  "nx_route_link_local ip dest ifc =
     (if nx_is_link_local dest then nx_route_if_local ip (\<lambda>_. True) ifc else Some None)"

definition nx_route_source :: "nx_ip \<Rightarrow> ip_address \<Rightarrow> nat option \<Rightarrow> nx_route option" where
  "nx_route_source ip dest ifc = do {
     r \<leftarrow> nx_route_if_local ip (\<lambda>intf. nx_is_link_local (nx_interface_ip_address intf)) ifc;
     Some (case r of Some i \<Rightarrow> (NX_SUCCESS, Some i, dest) | None \<Rightarrow> (NX_IP_ADDRESS_ERROR, ifc, 0))
   }"

definition nx_route_gateway :: "nx_ip \<Rightarrow> ip_address \<Rightarrow> nat option \<Rightarrow> nx_route option" where
  "nx_route_gateway ip dest ifc =
     (if nx_ip_gateway_address ip = 0 then nx_route_source ip dest ifc
      else case nx_ip_gateway_interface ip of
        None \<Rightarrow> nx_route_source ip dest ifc
      | Some g \<Rightarrow> do {
          intf \<leftarrow> nx_interface_at ip g;
          if \<not> nx_interface_link_up intf then nx_route_source ip dest ifc
          else if \<not> nx_interface_contains intf (nx_ip_gateway_address ip) then Some (NX_IP_ADDRESS_ERROR, ifc, 0)
          else if ifc = None \<or> ifc = Some g then Some (NX_SUCCESS, Some g, nx_ip_gateway_address ip)
          else Some (NX_IP_ADDRESS_ERROR, ifc, 0)
        })"

definition nx_ip_route_find :: "nx_ip \<Rightarrow> ip_address \<Rightarrow> nat option \<Rightarrow> nx_route option" where
  "nx_ip_route_find ip dest ifc =
     (if nx_is_multicast dest \<or> dest = NX_IP_LIMITED_BROADCAST then nx_route_multicast ip dest ifc
      else case nx_route_local ip dest ifc of
        Some i \<Rightarrow> Some (NX_SUCCESS, Some i, dest)
      | None \<Rightarrow> do {
          s \<leftarrow> nx_route_static ip dest ifc [0 ..< nx_ip_routing_table_entry_count ip];
          case s of
            Some (i, hop) \<Rightarrow> Some (NX_SUCCESS, Some i, hop)
          | None \<Rightarrow>
              (case nx_route_onlink ip dest ifc None [0 ..< NX_MAX_IP_INTERFACES ip] of
                 Some i \<Rightarrow> Some (NX_SUCCESS, Some i, dest)
               | None \<Rightarrow> do {
                   l \<leftarrow> nx_route_link_local ip dest ifc;
                   case l of
                     Some i \<Rightarrow> Some (NX_SUCCESS, Some i, dest)
                   | None \<Rightarrow> nx_route_gateway ip dest ifc
                 })
        })"

section \<open>Changing the routing table\<close>

text \<open>The search of \<open>nx_ip_static_route_add\<close>: the same entry, an entry of a mask that is not
  larger, or the end of the table.\<close>

datatype nx_route_slot = Route_same nat | Route_before nat | Route_end nat

fun nx_route_scan :: "nx_ip_routing_entry list \<Rightarrow> ip_address \<Rightarrow> ip_address \<Rightarrow> nat \<Rightarrow> nx_route_slot" where
  "nx_route_scan [] network_address net_mask i = Route_end i"
| "nx_route_scan (e # es) network_address net_mask i =
     (if nx_ip_routing_dest_ip e = network_address \<and> nx_ip_routing_net_mask e = net_mask then Route_same i
      else if nx_ip_routing_net_mask e \<le> net_mask then Route_before i
      else nx_route_scan es network_address net_mask (i + 1))"

text \<open>The two loops that shift entries by one slot, from the end and from the front.\<close>

definition nx_route_shift_up :: "nat \<Rightarrow> nat \<Rightarrow> nx_ip_routing_entry list \<Rightarrow> nx_ip_routing_entry list" where
  "nx_route_shift_up i count table = foldl (\<lambda>t j. t[j + 1 := t ! j]) table (rev [i ..< count])"

definition nx_route_shift_down :: "nat \<Rightarrow> nat \<Rightarrow> nx_ip_routing_entry list \<Rightarrow> nx_ip_routing_entry list" where
  "nx_route_shift_down i count table = foldl (\<lambda>t j. t[j := t ! (j + 1)]) table [i ..< count]"

definition nx_route_store :: "nat \<Rightarrow> nx_ip_routing_entry \<Rightarrow> nx_ip \<Rightarrow> nx_ip" where
  "nx_route_store i e ip =
     ip\<lparr>nx_ip_routing_table := (nx_ip_routing_table ip)[i := e],
        nx_ip_routing_table_entry_count := ulong_add (nx_ip_routing_table_entry_count ip) 1\<rparr>"

definition nx_ip_static_route_add ::
    "nx_ip \<Rightarrow> ip_address \<Rightarrow> ip_address \<Rightarrow> ip_address \<Rightarrow> (nx_status \<times> nx_ip) option" where
  "nx_ip_static_route_add ip network_address net_mask next_hop =
     (case find (\<lambda>i. nx_interface_valid (nx_ip_interface ip ! i) \<and>
                     nx_interface_contains (nx_ip_interface ip ! i) next_hop)
             [0 ..< NX_MAX_IP_INTERFACES ip] of
        None \<Rightarrow> Some (NX_IP_ADDRESS_ERROR, ip)
      | Some ifc \<Rightarrow>
          (let network_address = network_address AND net_mask;
               count = nx_ip_routing_table_entry_count ip;
               table = nx_ip_routing_table ip;
               entry = \<lparr>nx_ip_routing_dest_ip = network_address, nx_ip_routing_net_mask = net_mask,
                        nx_ip_routing_next_hop_address = next_hop,
                        nx_ip_routing_entry_ip_interface = Some ifc\<rparr>
           in if count > length table then None
              else case nx_route_scan (take count table) network_address net_mask 0 of
                Route_same i \<Rightarrow>
                  Some (NX_SUCCESS, ip\<lparr>nx_ip_routing_table :=
                    table[i := (table ! i)\<lparr>nx_ip_routing_next_hop_address := next_hop\<rparr>]\<rparr>)
              | Route_before i \<Rightarrow>
                  if count = NX_IP_ROUTING_TABLE_SIZE then Some (NX_OVERFLOW, ip)
                  else Some (NX_SUCCESS, nx_route_store i entry
                         (ip\<lparr>nx_ip_routing_table := nx_route_shift_up i count table\<rparr>))
              | Route_end i \<Rightarrow>
                  if i = NX_IP_ROUTING_TABLE_SIZE then Some (NX_OVERFLOW, ip)
                  else Some (NX_SUCCESS, nx_route_store i entry ip)))"

definition nx_route_cleared :: nx_ip_routing_entry where
  "nx_route_cleared = \<lparr>nx_ip_routing_dest_ip = 0, nx_ip_routing_net_mask = 0,
     nx_ip_routing_next_hop_address = 0, nx_ip_routing_entry_ip_interface = None\<rparr>"

text \<open>The shift reads the entry at index \<open>count\<close>, which does not exist when the table is full.\<close>

definition nx_ip_static_route_delete ::
    "nx_ip \<Rightarrow> ip_address \<Rightarrow> ip_address \<Rightarrow> (nx_status \<times> nx_ip) option" where
  "nx_ip_static_route_delete ip network_address net_mask =
     (let network_address = network_address AND net_mask;
          count = nx_ip_routing_table_entry_count ip;
          table = nx_ip_routing_table ip
      in if count = 0 then Some (NX_SUCCESS, ip)
         else if count > length table then None
         else case find (\<lambda>i. nx_ip_routing_dest_ip (table ! i) = network_address \<and>
                             nx_ip_routing_net_mask (table ! i) = net_mask) [0 ..< count] of
           None \<Rightarrow> Some (NX_NOT_SUCCESSFUL, ip)
         | Some i \<Rightarrow>
             if count \<ge> length table then None
             else Some (NX_SUCCESS, ip\<lparr>
               nx_ip_routing_table := (nx_route_shift_down i count table)[count - 1 := nx_route_cleared],
               nx_ip_routing_table_entry_count := ulong_sub count 1\<rparr>))"

section \<open>The gateway\<close>

definition nx_ip_gateway_address_set :: "nx_ip \<Rightarrow> ip_address \<Rightarrow> nx_status \<times> nx_ip" where
  "nx_ip_gateway_address_set ip ip_address =
     (case nx_best_interface ip (\<lambda>intf. nx_interface_valid intf \<and> nx_interface_contains intf ip_address) None
             [0 ..< NX_MAX_PHYSICAL_INTERFACES ip] of
        None \<Rightarrow> (NX_IP_ADDRESS_ERROR, ip)
      | Some i \<Rightarrow> (NX_SUCCESS, ip\<lparr>nx_ip_gateway_address := ip_address, nx_ip_gateway_interface := Some i\<rparr>))"

definition nx_ip_gateway_address_clear :: "nx_ip \<Rightarrow> nx_status \<times> nx_ip" where
  "nx_ip_gateway_address_clear ip =
     (NX_SUCCESS, ip\<lparr>nx_ip_gateway_address := 0, nx_ip_gateway_interface := None\<rparr>)"

end
