(* ===== verification/Nx_Ip_Route_Table.thy ===== *)
theory Nx_Ip_Route_Table imports Nx_Ip_Route begin

text \<open>
  The static routing table as a list of entries: the shifting loops insert and delete one
  entry, the table stays sorted by descending mask, and the search returns the first usable
  entry. The step relation of the services and of the changes the link drivers make to the
  interfaces gives the invariant of every reachable instance.
\<close>

section \<open>The entries in use\<close>

definition routes :: "nx_ip \<Rightarrow> nx_ip_routing_entry list" where
  "routes ip = take (nx_ip_routing_table_entry_count ip) (nx_ip_routing_table ip)"

definition route_entry_ok :: "nx_ip \<Rightarrow> nx_ip_routing_entry \<Rightarrow> bool" where
  "route_entry_ok ip e \<longleftrightarrow>
     nx_ip_routing_dest_ip e AND nx_ip_routing_net_mask e = nx_ip_routing_dest_ip e \<and>
     (\<exists>p < NX_MAX_IP_INTERFACES ip. nx_ip_routing_entry_ip_interface e = Some p)"

definition masks_descend :: "nx_ip_routing_entry list \<Rightarrow> bool" where
  "masks_descend = sorted_wrt (\<lambda>e f. nx_ip_routing_net_mask f \<le> nx_ip_routing_net_mask e)"

definition route_table_ok :: "nx_ip \<Rightarrow> bool" where
  "route_table_ok ip \<longleftrightarrow>
     length (nx_ip_routing_table ip) = NX_IP_ROUTING_TABLE_SIZE \<and>
     nx_ip_routing_table_entry_count ip \<le> NX_IP_ROUTING_TABLE_SIZE \<and>
     masks_descend (routes ip) \<and> (\<forall>e \<in> set (routes ip). route_entry_ok ip e)"

lemma length_routes [simp]:
  "route_table_ok ip \<Longrightarrow> length (routes ip) = nx_ip_routing_table_entry_count ip"
  by (simp add: routes_def route_table_ok_def)

lemma map_nth_upt: "n \<le> length xs \<Longrightarrow> map ((!) xs) [0 ..< n] = take n xs"
  by (rule nth_equalityI) simp_all

section \<open>The shifting loops\<close>

lemma shift_up_Suc: "i \<le> c \<Longrightarrow> nx_route_shift_up i (Suc c) t = nx_route_shift_up i c (t[Suc c := t ! c])"
  by (simp add: nx_route_shift_up_def)

lemma length_shift_up [simp]: "length (nx_route_shift_up i c t) = length t"
proof -
  have "length (foldl (\<lambda>t j. t[j + 1 := t ! j]) t js) = length t" for js
    by (induction js arbitrary: t) simp_all
  then show ?thesis by (simp add: nx_route_shift_up_def)
qed

lemma nth_shift_up:
  "c < length t \<Longrightarrow> k < length t \<Longrightarrow>
     nx_route_shift_up i c t ! k = (if i < k \<and> k \<le> c then t ! (k - 1) else t ! k)"
proof (induction c arbitrary: t)
  case 0
  then show ?case by (simp add: nx_route_shift_up_def)
next
  case (Suc c)
  show ?case
  proof (cases "i \<le> c")
    case True
    then show ?thesis using Suc by (auto simp: shift_up_Suc nth_list_update)
  next
    case False
    then show ?thesis using Suc.prems by (auto simp: nx_route_shift_up_def)
  qed
qed

lemma shift_down_Suc:
  "i \<le> c \<Longrightarrow> nx_route_shift_down i (Suc c) t =
     (nx_route_shift_down i c t)[c := nx_route_shift_down i c t ! Suc c]"
  by (simp add: nx_route_shift_down_def)

lemma length_shift_down [simp]: "length (nx_route_shift_down i c t) = length t"
proof -
  have "length (foldl (\<lambda>t j. t[j := t ! (j + 1)]) t js) = length t" for js
    by (induction js arbitrary: t) simp_all
  then show ?thesis by (simp add: nx_route_shift_down_def)
qed

lemma nth_shift_down:
  "c < length t \<Longrightarrow> k < length t \<Longrightarrow>
     nx_route_shift_down i c t ! k = (if i \<le> k \<and> k < c then t ! (k + 1) else t ! k)"
proof (induction c arbitrary: k)
  case 0
  then show ?case by (simp add: nx_route_shift_down_def)
next
  case (Suc c)
  show ?case
  proof (cases "i \<le> c")
    case True
    then show ?thesis using Suc by (auto simp: shift_down_Suc nth_list_update less_Suc_eq)
  next
    case False
    then show ?thesis using Suc.prems by (auto simp: nx_route_shift_down_def)
  qed
qed

text \<open>What the services make of the entries in use.\<close>

lemma take_shift_up:
  assumes "i \<le> c" "c < length t"
  shows "take (Suc c) ((nx_route_shift_up i c t)[i := e]) = take i (take c t) @ e # drop i (take c t)"
  using assms
  by (intro nth_equalityI) (auto simp: nth_append nth_list_update nth_shift_up nth_Cons')

lemma take_shift_down:
  assumes "i < c" "c < length t"
  shows "take (c - 1) ((nx_route_shift_down i c t)[c - 1 := e]) = take i (take c t) @ drop (Suc i) (take c t)"
  using assms
  by (intro nth_equalityI) (auto simp: nth_append nth_list_update nth_shift_down)

section \<open>Searching the entries\<close>

lemma scan_same:
  "nx_route_scan es a n k = Route_same i \<Longrightarrow>
     \<exists>j < length es. i = k + j \<and> nx_ip_routing_dest_ip (es ! j) = a \<and> nx_ip_routing_net_mask (es ! j) = n \<and>
       (\<forall>e \<in> set (take j es). n < nx_ip_routing_net_mask e)"
proof (induction es a n k rule: nx_route_scan.induct)
  case (2 e es a n k)
  show ?case
  proof (cases "nx_ip_routing_dest_ip e = a \<and> nx_ip_routing_net_mask e = n")
    case True
    then show ?thesis using 2(2) by auto
  next
    case False
    then have e: "n < nx_ip_routing_net_mask e" "nx_route_scan es a n (k + 1) = Route_same i"
      using 2(2) by (auto simp: not_le split: if_splits)
    then obtain j where "j < length es" "i = k + 1 + j" "nx_ip_routing_dest_ip (es ! j) = a" "nx_ip_routing_net_mask (es ! j) = n"
      "\<forall>f \<in> set (take j es). n < nx_ip_routing_net_mask f"
      using 2(1) [OF False] by (auto simp: not_le)
    then show ?thesis using e(1) by (intro exI [of _ "Suc j"]) auto
  qed
qed simp

lemma scan_before:
  "nx_route_scan es a n k = Route_before i \<Longrightarrow>
     \<exists>j < length es. i = k + j \<and> nx_ip_routing_net_mask (es ! j) \<le> n \<and>
       (\<forall>e \<in> set (take j es). n < nx_ip_routing_net_mask e)"
proof (induction es a n k rule: nx_route_scan.induct)
  case (2 e es a n k)
  show ?case
  proof (cases "nx_ip_routing_net_mask e \<le> n")
    case True
    then show ?thesis using 2(2) by (auto split: if_splits)
  next
    case False
    then have "nx_route_scan es a n (k + 1) = Route_before i" using 2(2) by (auto split: if_splits)
    then obtain j where "j < length es" "i = k + 1 + j" "nx_ip_routing_net_mask (es ! j) \<le> n"
      "\<forall>f \<in> set (take j es). n < nx_ip_routing_net_mask f"
      using 2(1) False by (auto simp: not_le)
    then show ?thesis using False by (intro exI [of _ "Suc j"]) auto
  qed
qed simp

lemma scan_end:
  "nx_route_scan es a n k = Route_end i \<Longrightarrow>
     i = k + length es \<and> (\<forall>e \<in> set es. n < nx_ip_routing_net_mask e)"
  by (induction es a n k rule: nx_route_scan.induct) (auto split: if_splits)

lemma masks_descend_insert:
  assumes "masks_descend es" "\<forall>e \<in> set (take j es). n < nx_ip_routing_net_mask e"
    and "j < length es \<longrightarrow> nx_ip_routing_net_mask (es ! j) \<le> n" "nx_ip_routing_net_mask x = n"
  shows "masks_descend (take j es @ x # drop j es)"
proof -
  have "sorted_wrt (\<lambda>e f. nx_ip_routing_net_mask f \<le> nx_ip_routing_net_mask e) (take j es @ drop j es)"
    using assms(1) by (simp add: masks_descend_def)
  moreover have "\<forall>e \<in> set (drop j es). nx_ip_routing_net_mask e \<le> n"
  proof (cases "j < length es")
    case True
    then have drop: "drop j es = es ! j # drop (Suc j) es" by (simp add: Cons_nth_drop_Suc)
    then have "\<forall>e \<in> set (drop (Suc j) es). nx_ip_routing_net_mask e \<le> nx_ip_routing_net_mask (es ! j)"
      using calculation by (simp add: sorted_wrt_append)
    then show ?thesis using drop assms(3) True by (auto intro: order_trans)
  qed simp
  ultimately show ?thesis
    using assms(2,4) by (fastforce simp: masks_descend_def sorted_wrt_append intro: order_trans [OF _ less_imp_le])
qed

section \<open>The services\<close>

lemma route_table_okD:
  assumes "route_table_ok ip"
  shows "length (nx_ip_routing_table ip) = 8" "nx_ip_routing_table_entry_count ip \<le> 8"
    "masks_descend (routes ip)" "e \<in> set (routes ip) \<Longrightarrow> route_entry_ok ip e"
  using assms by (auto simp: route_table_ok_def)

text \<open>The interface a new route goes through: the first valid one whose network holds the next
  hop.\<close>

definition route_interface :: "nx_ip \<Rightarrow> ip_address \<Rightarrow> nat option" where
  "route_interface ip next_hop =
     find (\<lambda>i. nx_interface_valid (nx_ip_interface ip ! i) \<and> nx_interface_contains (nx_ip_interface ip ! i) next_hop)
       [0 ..< NX_MAX_IP_INTERFACES ip]"

definition route_entry :: "ip_address \<Rightarrow> ip_address \<Rightarrow> ip_address \<Rightarrow> nat \<Rightarrow> nx_ip_routing_entry" where
  "route_entry a n hop p = \<lparr>nx_ip_routing_dest_ip = a AND n, nx_ip_routing_net_mask = n,
     nx_ip_routing_next_hop_address = hop, nx_ip_routing_entry_ip_interface = Some p\<rparr>"

lemma route_interface_less: "route_interface ip hop = Some p \<Longrightarrow> p < NX_MAX_IP_INTERFACES ip"
  by (auto simp: route_interface_def find_Some_iff)

text \<open>Adding a route: refused for an unreachable next hop, refused for a full table, an update of
  the next hop of the entry that is there, or an insertion.\<close>

lemma nx_ip_static_route_add_cases:
  assumes "route_table_ok ip"
  obtains (unreachable) "route_interface ip hop = None" "nx_ip_static_route_add ip a n hop = Some (NX_IP_ADDRESS_ERROR, ip)"
  | (full) p where "route_interface ip hop = Some p" "nx_ip_routing_table_entry_count ip = 8"
      "nx_ip_static_route_add ip a n hop = Some (NX_OVERFLOW, ip)"
  | (same) p i ip' where "route_interface ip hop = Some p" "i < length (routes ip)"
      "nx_ip_routing_dest_ip (routes ip ! i) = a AND n" "nx_ip_routing_net_mask (routes ip ! i) = n"
      "\<forall>e \<in> set (take i (routes ip)). n < nx_ip_routing_net_mask e"
      "nx_ip_static_route_add ip a n hop = Some (NX_SUCCESS, ip')" "route_table_ok ip'"
      "routes ip' = (routes ip)[i := (routes ip ! i)\<lparr>nx_ip_routing_next_hop_address := hop\<rparr>]"
      "nx_ip_interface ip' = nx_ip_interface ip"
  | (new) p i ip' where "route_interface ip hop = Some p" "i \<le> length (routes ip)" "nx_ip_routing_table_entry_count ip < 8"
      "\<forall>e \<in> set (take i (routes ip)). n < nx_ip_routing_net_mask e"
      "i < length (routes ip) \<longrightarrow> nx_ip_routing_net_mask (routes ip ! i) \<le> n"
      "nx_ip_static_route_add ip a n hop = Some (NX_SUCCESS, ip')" "route_table_ok ip'"
      "routes ip' = take i (routes ip) @ route_entry a n hop p # drop i (routes ip)"
      "nx_ip_interface ip' = nx_ip_interface ip"
proof (cases "route_interface ip hop")
  case None
  then show ?thesis using unreachable by (simp add: nx_ip_static_route_add_def route_interface_def)
next
  case (Some p)
  define c where "c = nx_ip_routing_table_entry_count ip"
  define t where "t = nx_ip_routing_table ip"
  define ent where "ent = route_entry a n hop p"
  note ok = route_table_okD [OF assms, folded c_def t_def]
  have es: "routes ip = take c t" by (simp add: routes_def c_def t_def)
  have p: "p < NX_MAX_IP_INTERFACES ip" by (rule route_interface_less [OF Some])
  have add: "nx_ip_static_route_add ip a n hop =
      (case nx_route_scan (routes ip) (a AND n) n 0 of
         Route_same i \<Rightarrow> Some (NX_SUCCESS, ip\<lparr>nx_ip_routing_table := t[i := (t ! i)\<lparr>nx_ip_routing_next_hop_address := hop\<rparr>]\<rparr>)
       | Route_before i \<Rightarrow> if c = 8 then Some (NX_OVERFLOW, ip)
           else Some (NX_SUCCESS, nx_route_store i ent (ip\<lparr>nx_ip_routing_table := nx_route_shift_up i c t\<rparr>))
       | Route_end i \<Rightarrow> if i = 8 then Some (NX_OVERFLOW, ip) else Some (NX_SUCCESS, nx_route_store i ent ip))"
    using Some ok(1,2) unfolding c_def t_def ent_def route_entry_def
    by (simp add: nx_ip_static_route_add_def route_interface_def Let_def routes_def)
  have inserted: ?thesis
    if add': "nx_ip_static_route_add ip a n hop = Some (NX_SUCCESS, ip')" and i: "i \<le> length (routes ip)" and c8: "c < 8"
      and r': "routes ip' = take i (routes ip) @ ent # drop i (routes ip)" and len: "length (nx_ip_routing_table ip') = 8"
      and cnt: "nx_ip_routing_table_entry_count ip' = c + 1" and ifs: "nx_ip_interface ip' = nx_ip_interface ip"
      and before: "\<forall>e \<in> set (take i (routes ip)). n < nx_ip_routing_net_mask e"
      and after: "i < length (routes ip) \<longrightarrow> nx_ip_routing_net_mask (routes ip ! i) \<le> n" for i ip'
  proof -
    have desc: "masks_descend (routes ip')"
      unfolding r' by (rule masks_descend_insert [OF ok(3) before after]) (simp add: ent_def route_entry_def)
    have "route_entry_ok ip ent" using p by (simp add: route_entry_ok_def ent_def route_entry_def)
    then have "\<forall>e \<in> set (routes ip'). route_entry_ok ip' e"
      using r' ok(4) ifs by (auto simp: route_entry_ok_def NX_MAX_IP_INTERFACES_def dest: in_set_takeD in_set_dropD)
    then have "route_table_ok ip'" using desc len cnt c8 by (simp add: route_table_ok_def)
    then show ?thesis using new [OF Some i _ before after add'] c8 r' ifs by (simp add: c_def ent_def)
  qed
  show ?thesis
  proof (cases "nx_route_scan (routes ip) (a AND n) n 0")
    case (Route_same i)
    from scan_same [OF this] have i: "i < length (routes ip)" "nx_ip_routing_dest_ip (routes ip ! i) = a AND n"
      "nx_ip_routing_net_mask (routes ip ! i) = n" "\<forall>e \<in> set (take i (routes ip)). n < nx_ip_routing_net_mask e" by auto
    define ip' where "ip' = ip\<lparr>nx_ip_routing_table := t[i := (t ! i)\<lparr>nx_ip_routing_next_hop_address := hop\<rparr>]\<rparr>"
    have r': "routes ip' = (routes ip)[i := (routes ip ! i)\<lparr>nx_ip_routing_next_hop_address := hop\<rparr>]"
      using i(1) by (simp add: ip'_def routes_def c_def t_def take_update_swap)
    have "masks_descend (routes ip')"
      using ok(3) i(1) unfolding r' masks_descend_def sorted_wrt_iff_nth_less by (auto simp: nth_list_update)
    moreover have "\<forall>e \<in> set (routes ip'). route_entry_ok ip' e"
      using r' ok(4) i(1) by (auto simp: route_entry_ok_def NX_MAX_IP_INTERFACES_def ip'_def dest!: set_update_subset_insert [THEN subsetD] nth_mem)
    ultimately have "route_table_ok ip'" using ok by (simp add: route_table_ok_def ip'_def c_def)
    then show ?thesis using same [OF Some i] add Route_same r' by (simp add: ip'_def)
  next
    case (Route_before i)
    from scan_before [OF this] have i: "i < length (routes ip)" "nx_ip_routing_net_mask (routes ip ! i) \<le> n"
      "\<forall>e \<in> set (take i (routes ip)). n < nx_ip_routing_net_mask e" by auto
    show ?thesis
    proof (cases "c = 8")
      case True
      then show ?thesis using full [OF Some] add Route_before by (simp add: c_def)
    next
      case False
      then have c8: "c < 8" using ok(2) by simp
      define ip' where "ip' = nx_route_store i ent (ip\<lparr>nx_ip_routing_table := nx_route_shift_up i c t\<rparr>)"
      have "routes ip' = take i (routes ip) @ ent # drop i (routes ip)"
        using take_shift_up [of i c t ent] i(1) c8 ok(1) by (simp add: ip'_def nx_route_store_def routes_def c_def [symmetric] t_def [symmetric])
      then show ?thesis
        using inserted [of ip' i] add Route_before False i c8 ok(1)
        by (simp add: ip'_def nx_route_store_def c_def [symmetric])
    qed
  next
    case (Route_end i)
    from scan_end [OF this] have i: "i = c" "\<forall>e \<in> set (routes ip). n < nx_ip_routing_net_mask e"
      using assms by (simp_all add: c_def)
    show ?thesis
    proof (cases "c = 8")
      case True
      then show ?thesis using full [OF Some] add Route_end i by (simp add: c_def)
    next
      case False
      then have c8: "c < 8" using ok(2) by simp
      define ip' where "ip' = nx_route_store i ent ip"
      have "routes ip' = take i (routes ip) @ ent # drop i (routes ip)"
        using c8 ok(1) i(1) by (simp add: ip'_def nx_route_store_def routes_def c_def [symmetric] t_def [symmetric] take_Suc_conv_app_nth)
      then show ?thesis
        using inserted [of ip' i] add Route_end False i c8 ok(1) assms
        by (simp add: ip'_def nx_route_store_def c_def [symmetric] t_def [symmetric])
    qed
  qed
qed


text \<open>Deleting a route: a table with nothing in it succeeds, an entry that is not there is an
  error, and otherwise the first entry for the network goes, unless the table is full, where
  the shift reads behind the array.\<close>

lemma nx_ip_static_route_delete_cases:
  assumes "route_table_ok ip"
  obtains (empty) "routes ip = []" "nx_ip_static_route_delete ip a n = Some (NX_SUCCESS, ip)"
  | (absent) "routes ip \<noteq> []" "nx_ip_static_route_delete ip a n = Some (NX_NOT_SUCCESSFUL, ip)"
      "\<forall>e \<in> set (routes ip). \<not> (nx_ip_routing_dest_ip e = a AND n \<and> nx_ip_routing_net_mask e = n)"
  | (full) "length (routes ip) = 8" "nx_ip_static_route_delete ip a n = None"
  | (deleted) i ip' where "i < length (routes ip)" "length (routes ip) < 8"
      "nx_ip_routing_dest_ip (routes ip ! i) = a AND n" "nx_ip_routing_net_mask (routes ip ! i) = n"
      "\<forall>e \<in> set (take i (routes ip)). \<not> (nx_ip_routing_dest_ip e = a AND n \<and> nx_ip_routing_net_mask e = n)"
      "nx_ip_static_route_delete ip a n = Some (NX_SUCCESS, ip')" "route_table_ok ip'"
      "routes ip' = take i (routes ip) @ drop (Suc i) (routes ip)" "nx_ip_interface ip' = nx_ip_interface ip"
proof -
  define c where "c = nx_ip_routing_table_entry_count ip"
  define t where "t = nx_ip_routing_table ip"
  define hit where "hit = (\<lambda>e :: nx_ip_routing_entry. nx_ip_routing_dest_ip e = a AND n \<and> nx_ip_routing_net_mask e = n)"
  note ok = route_table_okD [OF assms, folded c_def t_def]
  have es: "routes ip = take c t" by (simp add: routes_def c_def t_def)
  have nth: "t ! i = routes ip ! i" if "i < c" for i using that by (simp add: es)
  have len: "length (routes ip) = c" using assms by (simp add: c_def)
  have def': "nx_ip_static_route_delete ip a n =
     (if c = 0 then Some (NX_SUCCESS, ip)
      else case find (\<lambda>i. hit (t ! i)) [0 ..< c] of
        None \<Rightarrow> Some (NX_NOT_SUCCESSFUL, ip)
      | Some i \<Rightarrow> if c \<ge> 8 then None
          else Some (NX_SUCCESS, ip\<lparr>nx_ip_routing_table := (nx_route_shift_down i c t)[c - 1 := nx_route_cleared],
                                 nx_ip_routing_table_entry_count := c - 1\<rparr>))"
    using ok(1,2) unfolding nx_ip_static_route_delete_def Let_def hit_def c_def [symmetric] t_def [symmetric]
    by (simp split: option.splits)
  show ?thesis
  proof (cases "find (\<lambda>i. hit (t ! i)) [0 ..< c]")
    case None
    then have "\<forall>i < c. \<not> hit (routes ip ! i)" using nth by (simp add: find_None_iff)
    then have "\<forall>e \<in> set (routes ip). \<not> hit e" using len by (metis in_set_conv_nth)
    then show ?thesis
      using empty absent def' None len by (cases "c = 0") (auto simp: hit_def)
  next
    case (Some i)
    then have i: "i < c" "hit (routes ip ! i)" "\<forall>j < i. \<not> hit (routes ip ! j)"
      using nth by (auto simp: find_Some_iff)
    have before: "\<forall>e \<in> set (take i (routes ip)). \<not> hit e" using i(3) len i(1) by (auto simp: in_set_conv_nth)
    show ?thesis
    proof (cases "c = 8")
      case True
      then show ?thesis using full def' Some len by simp
    next
      case False
      then have c8: "c < 8" using ok(2) by simp
      define ip' where "ip' = ip\<lparr>nx_ip_routing_table := (nx_route_shift_down i c t)[c - 1 := nx_route_cleared],
                                 nx_ip_routing_table_entry_count := c - 1\<rparr>"
      have r': "routes ip' = take i (routes ip) @ drop (Suc i) (routes ip)"
        using take_shift_down [OF i(1), of t] c8 ok(1) by (simp add: ip'_def routes_def c_def [symmetric] t_def [symmetric])
      have "masks_descend (take i (routes ip) @ routes ip ! i # drop (Suc i) (routes ip))"
        using ok(3) i(1) len by (simp add: id_take_nth_drop [symmetric])
      then have "masks_descend (routes ip')" unfolding r' by (simp add: masks_descend_def sorted_wrt_append)
      moreover have "\<forall>e \<in> set (routes ip'). route_entry_ok ip' e"
        using ok(4) unfolding r' by (auto simp: route_entry_ok_def NX_MAX_IP_INTERFACES_def ip'_def dest: in_set_takeD in_set_dropD)
      ultimately have "route_table_ok ip'" using ok(1,2) by (simp add: route_table_ok_def ip'_def)
      moreover have "nx_ip_static_route_delete ip a n = Some (NX_SUCCESS, ip')"
        using def' Some c8 i(1) by (simp add: ip'_def)
      ultimately show ?thesis
        using deleted [of i ip'] i before c8 r' len by (simp add: hit_def ip'_def)
    qed
  qed
qed

section \<open>Lookup in a table sorted by rank\<close>

text \<open>A table whose entries are kept in descending order of a rank: the first entry that
  satisfies a condition has the highest rank among all that do.\<close>

locale ranked_table =
  fixes entries :: "'s \<Rightarrow> 'e list" and rank :: "'e \<Rightarrow> 'r :: linorder" and inv :: "'s \<Rightarrow> bool"
  assumes descend: "inv s \<Longrightarrow> sorted_wrt (\<lambda>e f. rank f \<le> rank e) (entries s)"
begin

lemma first_is_best:
  assumes "inv s" "find P (entries s) = Some e"
  shows "e \<in> set (entries s) \<and> P e \<and> (\<forall>f \<in> set (entries s). P f \<longrightarrow> rank f \<le> rank e)"
proof -
  obtain i where i: "i < length (entries s)" "P (entries s ! i)" "e = entries s ! i" "\<forall>j < i. \<not> P (entries s ! j)"
    using assms(2) by (auto simp: find_Some_iff)
  have "rank f \<le> rank e" if f: "f \<in> set (entries s)" "P f" for f
  proof -
    obtain j where j: "j < length (entries s)" "f = entries s ! j" using f(1) by (auto simp: in_set_conv_nth)
    then have "i \<le> j" using i(4) f(2) by (meson not_le)
    then show ?thesis
      using sorted_wrt_nth_less [OF descend [OF assms(1)], of i j] j i(3) by (cases "i = j") simp_all
  qed
  then show ?thesis using i by auto
qed

lemma none_satisfies: "find P (entries s) = None \<longleftrightarrow> (\<forall>e \<in> set (entries s). \<not> P e)"
  by (auto simp: find_None_iff)

end

interpretation static_routes: ranked_table routes nx_ip_routing_net_mask route_table_ok
  by unfold_locales (simp add: route_table_ok_def masks_descend_def)

text \<open>An entry the search may use: its interface is up and the caller's, the network matches,
  and the next hop is still in the network of the interface.\<close>

definition route_usable :: "nx_ip \<Rightarrow> ip_address \<Rightarrow> nat option \<Rightarrow> nx_ip_routing_entry \<Rightarrow> bool" where
  "route_usable ip dest ifc e \<longleftrightarrow> (case nx_ip_routing_entry_ip_interface e of
     None \<Rightarrow> False
   | Some p \<Rightarrow> nx_interface_link_up (nx_ip_interface ip ! p) \<and>
       nx_ip_routing_dest_ip e = dest AND nx_ip_routing_net_mask e \<and>
       nx_interface_contains (nx_ip_interface ip ! p) (nx_ip_routing_next_hop_address e) \<and>
       (ifc = None \<or> ifc = Some p))"

definition route_target :: "nx_ip_routing_entry \<Rightarrow> nat \<times> ip_address" where
  "route_target e = (the (nx_ip_routing_entry_ip_interface e), nx_ip_routing_next_hop_address e)"

lemma nx_route_static_eq:
  assumes "route_table_ok ip"
  shows "nx_route_static ip dest ifc [0 ..< nx_ip_routing_table_entry_count ip] =
     Some (map_option route_target (find (route_usable ip dest ifc) (routes ip)))"
proof -
  define t where "t = nx_ip_routing_table ip"
  note ok = route_table_okD [OF assms]
  have "nx_route_static ip dest ifc js = Some (map_option route_target (find (route_usable ip dest ifc) (map ((!) t) js)))"
    if "\<forall>j \<in> set js. j < nx_ip_routing_table_entry_count ip" for js
    using that
  proof (induction js)
    case (Cons j js)
    then have j: "j < nx_ip_routing_table_entry_count ip" by simp
    then have "t ! j \<in> set (routes ip)" using ok(1,2) by (auto simp: routes_def t_def in_set_conv_nth)
    then obtain p where p: "nx_ip_routing_entry_ip_interface (t ! j) = Some p" "p < NX_MAX_IP_INTERFACES ip"
      using ok(4) by (auto simp: route_entry_ok_def)
    then show ?case
      using Cons j ok(1,2)
      by (auto simp: nx_interface_at_def route_usable_def route_target_def t_def nx_interface_contains_def)
  qed simp
  from this [of "[0 ..< nx_ip_routing_table_entry_count ip]"] show ?thesis
    using ok(1,2) by (simp add: map_nth_upt routes_def t_def)
qed

section \<open>Reachable instances\<close>

text \<open>One step: a service of this model, or a change of the interfaces by the link layer and the
  address services, which keep the array. A new instance has an empty table.\<close>

inductive route_step :: "nx_ip \<Rightarrow> nx_ip \<Rightarrow> bool" where
  add: "nx_ip_static_route_add ip a n hop = Some (st, ip') \<Longrightarrow> route_step ip ip'"
| delete: "nx_ip_static_route_delete ip a n = Some (st, ip') \<Longrightarrow> route_step ip ip'"
| gateway_set: "nx_ip_gateway_address_set ip a = (st, ip') \<Longrightarrow> route_step ip ip'"
| gateway_clear: "nx_ip_gateway_address_clear ip = (st, ip') \<Longrightarrow> route_step ip ip'"
| interfaces: "length ifs = length (nx_ip_interface ip) \<Longrightarrow> route_step ip (ip\<lparr>nx_ip_interface := ifs\<rparr>)"

definition route_start :: "nx_ip \<Rightarrow> bool" where
  "route_start ip \<longleftrightarrow> length (nx_ip_routing_table ip) = NX_IP_ROUTING_TABLE_SIZE \<and>
     nx_ip_routing_table_entry_count ip = 0 \<and> nx_ip_gateway_interface ip = None"

text \<open>The table is in order and the gateway's interface is an interface of the instance.\<close>

definition route_inv :: "nx_ip \<Rightarrow> bool" where
  "route_inv ip \<longleftrightarrow> route_table_ok ip \<and>
     (\<forall>g. nx_ip_gateway_interface ip = Some g \<longrightarrow> g < NX_MAX_IP_INTERFACES ip)"

lemma route_start_inv: "route_start ip \<Longrightarrow> route_inv ip"
  by (simp add: route_start_def route_inv_def route_table_ok_def routes_def masks_descend_def)

lemma nx_best_interface_from:
  "nx_best_interface ip ok best js = Some i \<Longrightarrow> best = Some i \<or> i \<in> set js \<and> ok (nx_ip_interface ip ! i)"
  by (induction js arbitrary: best) (auto split: if_splits)

lemma nx_best_interface_top:
  "nx_best_interface ip ok best js = Some i \<Longrightarrow> \<forall>j \<in> set js \<union> set_option best. j \<in> set_option best \<or> ok (nx_ip_interface ip ! j) \<longrightarrow>
     nx_interface_priority (nx_ip_interface ip ! j) \<le> nx_interface_priority (nx_ip_interface ip ! i)"
proof (induction js arbitrary: best)
  case (Cons j js)
  show ?case
  proof (cases "ok (nx_ip_interface ip ! j) \<and> (case best of None \<Rightarrow> True
      | Some b \<Rightarrow> nx_interface_priority (nx_ip_interface ip ! j) > nx_interface_priority (nx_ip_interface ip ! b))")
    case True
    then have "nx_best_interface ip ok (Some j) js = Some i" using Cons.prems by auto
    from Cons.IH [OF this] show ?thesis using True by (auto split: option.splits)
  next
    case False
    then have "nx_best_interface ip ok best js = Some i" using Cons.prems by auto
    from Cons.IH [OF this] show ?thesis using False by (auto split: option.splits intro: order_trans)
  qed
qed simp

lemma nx_best_interface_none:
  "nx_best_interface ip ok None js = None \<longleftrightarrow> (\<forall>j \<in> set js. \<not> ok (nx_ip_interface ip ! j))"
proof -
  have some: "nx_best_interface ip ok (Some b) js \<noteq> None" for b js
    by (induction js arbitrary: b) auto
  show ?thesis using some by (induction js) simp_all
qed

lemma route_interfaces_inv:
  assumes "route_inv ip" "length ifs = length (nx_ip_interface ip)"
  shows "route_inv (ip\<lparr>nx_ip_interface := ifs\<rparr>)"
proof -
  have "routes (ip\<lparr>nx_ip_interface := ifs\<rparr>) = routes ip" by (simp add: routes_def)
  then show ?thesis
    using assms by (simp add: route_inv_def route_table_ok_def route_entry_ok_def NX_MAX_IP_INTERFACES_def)
qed

lemma route_table_ok_gateway [simp]:
  "route_table_ok (ip\<lparr>nx_ip_gateway_address := a, nx_ip_gateway_interface := g\<rparr>) \<longleftrightarrow> route_table_ok ip"
  by (simp add: route_table_ok_def route_entry_ok_def NX_MAX_IP_INTERFACES_def routes_def)

lemma gateway_kept:
  assumes "nx_ip_static_route_add ip a n hop = Some (st, ip') \<or> nx_ip_static_route_delete ip a n = Some (st, ip')"
  shows "nx_ip_gateway_interface ip' = nx_ip_gateway_interface ip"
  using assms
  by (auto simp: nx_ip_static_route_add_def nx_ip_static_route_delete_def Let_def nx_route_store_def
      split: option.splits nx_route_slot.splits if_splits)

lemma route_step_inv:
  assumes "route_step ip ip'" "route_inv ip"
  shows "route_inv ip'"
  using assms
proof cases
  case (add a n hop st)
  have "route_table_ok ip" using assms(2) by (simp add: route_inv_def)
  then have "route_table_ok ip' \<and> nx_ip_interface ip' = nx_ip_interface ip"
    by (rule nx_ip_static_route_add_cases [of ip hop a n]) (use add assms(2) in \<open>auto simp: route_inv_def\<close>)
  then show ?thesis using assms(2) gateway_kept add by (fastforce simp: route_inv_def NX_MAX_IP_INTERFACES_def)
next
  case (delete a n st)
  have "route_table_ok ip" using assms(2) by (simp add: route_inv_def)
  then have "route_table_ok ip' \<and> nx_ip_interface ip' = nx_ip_interface ip"
    by (rule nx_ip_static_route_delete_cases [of ip a n]) (use delete assms(2) in \<open>auto simp: route_inv_def\<close>)
  then show ?thesis using assms(2) gateway_kept delete by (fastforce simp: route_inv_def NX_MAX_IP_INTERFACES_def)
next
  case (gateway_set a st)
  show ?thesis
  proof (cases "nx_best_interface ip (\<lambda>intf. nx_interface_valid intf \<and> nx_interface_contains intf a) None
             [0 ..< NX_MAX_PHYSICAL_INTERFACES ip]")
    case None
    then show ?thesis using gateway_set assms(2) by (simp add: nx_ip_gateway_address_set_def)
  next
    case (Some i)
    then have "i < NX_MAX_IP_INTERFACES ip"
      using nx_best_interface_from [OF Some] by (auto simp: NX_MAX_PHYSICAL_INTERFACES_def)
    then show ?thesis using gateway_set assms(2) Some
      by (auto simp: nx_ip_gateway_address_set_def route_inv_def NX_MAX_IP_INTERFACES_def)
  qed
next
  case (gateway_clear st)
  then show ?thesis using assms(2) by (auto simp: nx_ip_gateway_address_clear_def route_inv_def)
next
  case (interfaces ifs)
  then show ?thesis using route_interfaces_inv assms(2) by simp
qed

lemma route_reachable_inv: "route_step\<^sup>*\<^sup>* ip ip' \<Longrightarrow> route_inv ip \<Longrightarrow> route_inv ip'"
  by (induction rule: rtranclp_induct) (auto intro: route_step_inv)


section \<open>The searches over the interfaces\<close>

lemma nx_route_onlink_some:
  "nx_route_onlink ip dest ifc best js = Some i \<Longrightarrow>
     best = Some i \<or> i \<in> set js \<and> nx_interface_usable (nx_ip_interface ip ! i) \<and>
       nx_interface_contains (nx_ip_interface ip ! i) dest \<and>
       (ifc = None \<or> ifc = Some i \<or> i = NX_MAX_PHYSICAL_INTERFACES ip)"
proof (induction js arbitrary: best)
  case (Cons j js)
  show ?case
    using Cons.prems Cons.IH [of best] Cons.IH [of "Some j"]
    by (auto simp: Let_def split: if_splits option.splits)
qed simp

lemma nx_route_onlink_none:
  "nx_route_onlink ip dest ifc best js = None \<Longrightarrow>
     best = None \<and> (\<forall>j \<in> set js. nx_interface_usable (nx_ip_interface ip ! j) \<and>
       nx_interface_contains (nx_ip_interface ip ! j) dest \<longrightarrow> ifc \<noteq> None \<and> ifc \<noteq> Some j)"
proof (induction js arbitrary: best)
  case (Cons j js)
  show ?case
    using Cons.prems Cons.IH [of best] Cons.IH [of "Some j"]
    by (auto simp: Let_def split: if_splits option.splits)
qed simp

text \<open>Without a caller's interface and with the loopback interface out of the way, the search on
  the network of the destination is the search for the highest priority.\<close>

lemma nx_route_onlink_best:
  "NX_MAX_PHYSICAL_INTERFACES ip \<notin> set js \<Longrightarrow>
     nx_route_onlink ip dest None best js =
       nx_best_interface ip (\<lambda>intf. nx_interface_usable intf \<and> nx_interface_contains intf dest) best js"
  by (induction js arbitrary: best) (auto simp: Let_def split: option.splits)

lemma nx_route_if_local_cases:
  assumes "\<And>p. ifc = Some p \<Longrightarrow> p < NX_MAX_IP_INTERFACES ip"
  shows "nx_route_if_local ip ok ifc = Some None \<or>
     (\<exists>i < NX_MAX_IP_INTERFACES ip. nx_route_if_local ip ok ifc = Some (Some i) \<and>
        nx_interface_usable (nx_ip_interface ip ! i) \<and> ok (nx_ip_interface ip ! i) \<and> (ifc = None \<or> ifc = Some i))"
proof (cases ifc)
  case None
  show ?thesis
  proof (cases "find (\<lambda>i. nx_interface_usable (nx_ip_interface ip ! i) \<and> ok (nx_ip_interface ip ! i)) [0 ..< NX_MAX_IP_INTERFACES ip]")
    case (Some i)
    then have "i < NX_MAX_IP_INTERFACES ip" "nx_interface_usable (nx_ip_interface ip ! i)" "ok (nx_ip_interface ip ! i)"
      by (auto simp: find_Some_iff)
    then show ?thesis using None Some by (simp add: nx_route_if_local_def)
  qed (simp add: nx_route_if_local_def None)
next
  case (Some p)
  then show ?thesis using assms by (auto simp: nx_route_if_local_def nx_interface_at_def)
qed

lemma nx_route_local_some:
  "nx_route_local ip dest ifc = Some i \<Longrightarrow> i < NX_MAX_PHYSICAL_INTERFACES ip \<and>
     nx_interface_usable (nx_ip_interface ip ! i) \<and> nx_interface_ip_address (nx_ip_interface ip ! i) = dest \<and>
     (ifc = None \<or> ifc = Some i)"
  by (auto simp: nx_route_local_def find_Some_iff)

lemma route_usable_target:
  assumes "route_table_ok ip" "e \<in> set (routes ip)" "route_usable ip dest ifc e"
  shows "fst (route_target e) < NX_MAX_IP_INTERFACES ip \<and>
     nx_interface_link_up (nx_ip_interface ip ! fst (route_target e)) \<and>
     nx_interface_contains (nx_ip_interface ip ! fst (route_target e)) (snd (route_target e)) \<and>
     (ifc = None \<or> ifc = Some (fst (route_target e)))"
  using assms route_table_okD(4) [OF assms(1,2)]
  by (auto simp: route_usable_def route_target_def route_entry_ok_def split: option.splits)

lemma nx_route_source_cases:
  assumes "\<And>p. ifc = Some p \<Longrightarrow> p < NX_MAX_IP_INTERFACES ip"
  shows "nx_route_source ip dest ifc = Some (NX_IP_ADDRESS_ERROR, ifc, 0) \<or>
     (\<exists>i < NX_MAX_IP_INTERFACES ip. nx_route_source ip dest ifc = Some (NX_SUCCESS, Some i, dest) \<and>
        nx_interface_link_up (nx_ip_interface ip ! i) \<and> (ifc = None \<or> ifc = Some i))"
  using nx_route_if_local_cases [OF assms, of ifc "\<lambda>intf. nx_is_link_local (nx_interface_ip_address intf)"]
  by (auto simp: nx_route_source_def nx_interface_usable_def)

lemma nx_route_gateway_cases:
  assumes "\<And>p. ifc = Some p \<Longrightarrow> p < NX_MAX_IP_INTERFACES ip"
    and "\<And>g. nx_ip_gateway_interface ip = Some g \<Longrightarrow> g < NX_MAX_IP_INTERFACES ip"
  shows "nx_route_gateway ip dest ifc = Some (NX_IP_ADDRESS_ERROR, ifc, 0) \<or>
     (\<exists>i < NX_MAX_IP_INTERFACES ip. \<exists>hop. nx_route_gateway ip dest ifc = Some (NX_SUCCESS, Some i, hop) \<and>
        nx_interface_link_up (nx_ip_interface ip ! i) \<and> (ifc = None \<or> ifc = Some i) \<and>
        (hop = dest \<or> hop = nx_ip_gateway_address ip \<and> nx_interface_contains (nx_ip_interface ip ! i) hop))"
proof -
  have src: "nx_route_source ip dest ifc = Some (NX_IP_ADDRESS_ERROR, ifc, 0) \<or>
     (\<exists>i < NX_MAX_IP_INTERFACES ip. nx_route_source ip dest ifc = Some (NX_SUCCESS, Some i, dest) \<and>
        nx_interface_link_up (nx_ip_interface ip ! i) \<and> (ifc = None \<or> ifc = Some i))"
    by (rule nx_route_source_cases [OF assms(1)])
  show ?thesis
  proof (cases "nx_ip_gateway_address ip = 0 \<or> nx_ip_gateway_interface ip = None \<or>
      \<not> nx_interface_link_up (nx_ip_interface ip ! the (nx_ip_gateway_interface ip))")
    case True
    then have "nx_route_gateway ip dest ifc = nx_route_source ip dest ifc"
      using assms(2) by (auto simp: nx_route_gateway_def nx_interface_at_def split: option.splits)
    then show ?thesis using src by auto
  next
    case False
    then show ?thesis using assms(2) by (auto simp: nx_route_gateway_def nx_interface_at_def)
  qed
qed

end
