(* ===== verification/Nx_Ip_Route_Props.thy ===== *)
theory Nx_Ip_Route_Props imports Nx_Ip_Route_Table begin

text \<open>
  The properties of IPv4 routing: the invariant of the table, longest-prefix lookup, soundness
  of every answer of the route search, the preference among interfaces on the network of the
  destination, and what adding and deleting a route do, with the two cases in which they do
  not do what they mean to. They are applied to an instance with one Ethernet interface
  192.168.1.10/24 and the loopback interface.
\<close>

section \<open>Prefix masks\<close>



section \<open>The demo instance\<close>

definition demo_ethernet :: nx_interface where
  "demo_ethernet = \<lparr>nx_interface_valid = True, nx_interface_link_up = True,
     nx_interface_ip_address = 0xC0A8010A, nx_interface_ip_network_mask = 0xFFFFFF00,
     nx_interface_ip_network = 0xC0A80100, nx_interface_priority = 0\<rparr>"

definition demo_loopback :: nx_interface where
  "demo_loopback = \<lparr>nx_interface_valid = True, nx_interface_link_up = True,
     nx_interface_ip_address = 0x7F000001, nx_interface_ip_network_mask = 0xFF000000,
     nx_interface_ip_network = 0x7F000000, nx_interface_priority = 0\<rparr>"

definition demo_ip :: nx_ip where
  "demo_ip = \<lparr>nx_ip_interface = [demo_ethernet, demo_loopback],
     nx_ip_routing_table = replicate 8 nx_route_cleared, nx_ip_routing_table_entry_count = 0,
     nx_ip_gateway_address = 0xC0A80101, nx_ip_gateway_interface = Some 0\<rparr>"

text \<open>With a route to 10.0.0.0/8 and one to 10.1.0.0/16.\<close>

definition demo_route :: "ip_address \<Rightarrow> ip_address \<Rightarrow> ip_address \<Rightarrow> nx_ip_routing_entry" where
  "demo_route a n hop = route_entry a n hop 0"

definition demo_ip2 :: nx_ip where
  "demo_ip2 = demo_ip\<lparr>nx_ip_routing_table := demo_route 0x0A010000 0xFFFF0000 0xC0A80102 #
       demo_route 0x0A000000 0xFF000000 0xC0A80103 # replicate 6 nx_route_cleared,
     nx_ip_routing_table_entry_count := 2\<rparr>"

lemmas demo_ip_simps = demo_ip2_def demo_ip_def demo_ethernet_def demo_loopback_def demo_route_def
  route_entry_def nx_route_cleared_def

lemma demo_ip_inv: "route_inv demo_ip"
  by (simp add: route_inv_def route_table_ok_def routes_def masks_descend_def demo_ip_simps NX_MAX_IP_INTERFACES_def)



section \<open>Properties\<close>







text \<open>The choice among interfaces. When no route of the table is usable and the caller names
  no interface, a destination on the network of some physical interface that is up, and not on
  that of the loopback interface, goes out directly through an interface of the highest
  priority among those on its network.\<close>

theorem nx_ip_route_find_highest_priority:
  assumes "route_inv ip" "\<not> nx_is_multicast dest" "dest \<noteq> NX_IP_LIMITED_BROADCAST"
    and "nx_route_local ip dest None = None" "\<forall>e \<in> set (routes ip). \<not> route_usable ip dest None e"
    and "\<not> nx_interface_contains (nx_ip_interface ip ! NX_MAX_PHYSICAL_INTERFACES ip) dest"
    and "j < NX_MAX_PHYSICAL_INTERFACES ip" "nx_interface_usable (nx_ip_interface ip ! j)"
      "nx_interface_contains (nx_ip_interface ip ! j) dest"
  shows "\<exists>i < NX_MAX_PHYSICAL_INTERFACES ip. nx_ip_route_find ip dest None = Some (NX_SUCCESS, Some i, dest) \<and>
     nx_interface_usable (nx_ip_interface ip ! i) \<and> nx_interface_contains (nx_ip_interface ip ! i) dest \<and>
     (\<forall>k < NX_MAX_PHYSICAL_INTERFACES ip.
        nx_interface_usable (nx_ip_interface ip ! k) \<and> nx_interface_contains (nx_ip_interface ip ! k) dest \<longrightarrow>
        nx_interface_priority (nx_ip_interface ip ! k) \<le> nx_interface_priority (nx_ip_interface ip ! i))"
proof -
  define n where "n = NX_MAX_PHYSICAL_INTERFACES ip"
  define ok where "ok = (\<lambda>intf. nx_interface_usable intf \<and> nx_interface_contains intf dest)"
  have table: "route_table_ok ip" using assms(1) by (simp add: route_inv_def)
  have N: "NX_MAX_IP_INTERFACES ip = Suc n" using assms(7) by (simp add: n_def NX_MAX_PHYSICAL_INTERFACES_def)
  have skip: "nx_route_onlink ip dest None best (js @ [n]) = nx_route_onlink ip dest None best js"
    if "n \<notin> set js" for best js
    using that assms(6) by (induction js arbitrary: best) (auto simp: n_def Let_def split: option.splits)
  have "find (route_usable ip dest None) (routes ip) = None"
    using assms(5) static_routes.none_satisfies by blast
  then have find: "nx_ip_route_find ip dest None = do {
      case nx_best_interface ip ok None [0 ..< n] of
        Some i \<Rightarrow> Some (NX_SUCCESS, Some i, dest)
      | None \<Rightarrow> do { l \<leftarrow> nx_route_link_local ip dest None;
          case l of Some i \<Rightarrow> Some (NX_SUCCESS, Some i, dest) | None \<Rightarrow> nx_route_gateway ip dest None } }"
    using assms(2-4) skip [of "[0 ..< n]" None] nx_route_onlink_best [of ip "[0 ..< n]" dest None]
    by (simp add: nx_ip_route_find_def nx_route_static_eq [OF table] N ok_def n_def [symmetric])
  have "nx_best_interface ip ok None [0 ..< n] \<noteq> None"
    using assms(7-9) by (auto simp: nx_best_interface_none ok_def n_def)
  then obtain i where i: "nx_best_interface ip ok None [0 ..< n] = Some i" by auto
  have "i < n \<and> ok (nx_ip_interface ip ! i)" using nx_best_interface_from [OF i] by auto
  moreover have "\<forall>k < n. ok (nx_ip_interface ip ! k) \<longrightarrow>
      nx_interface_priority (nx_ip_interface ip ! k) \<le> nx_interface_priority (nx_ip_interface ip ! i)"
    using nx_best_interface_top [OF i] by auto
  ultimately show ?thesis using find i by (auto simp: ok_def n_def)
qed

lemma nx_ip_route_find_highest_priority_witness:
  "nx_ip_route_find demo_ip 0xC0A80107 None = Some (NX_SUCCESS, Some 0, 0xC0A80107)"
proof -
  have n: "NX_MAX_PHYSICAL_INTERFACES demo_ip = 1"
    by (simp add: NX_MAX_PHYSICAL_INTERFACES_def NX_MAX_IP_INTERFACES_def demo_ip_simps)
  have "nx_route_local demo_ip 0xC0A80107 None = None" unfolding nx_route_local_def n by (simp add: demo_ip_simps)
  moreover have "routes demo_ip = []" by (simp add: routes_def demo_ip_simps)
  moreover have "\<not> nx_interface_contains (nx_ip_interface demo_ip ! 1) 0xC0A80107"
    "nx_interface_contains (nx_ip_interface demo_ip ! 0) 0xC0A80107" "nx_interface_usable (nx_ip_interface demo_ip ! 0)"
    by (simp_all add: nx_interface_contains_def nx_interface_usable_def demo_ip_simps)
  ultimately have "\<exists>i < NX_MAX_PHYSICAL_INTERFACES demo_ip.
      nx_ip_route_find demo_ip 0xC0A80107 None = Some (NX_SUCCESS, Some i, 0xC0A80107)"
    using nx_ip_route_find_highest_priority [OF demo_ip_inv, of "0xC0A80107" 0]
    by (fastforce simp: n nx_is_multicast_def)
  then show ?thesis by (simp add: n)
qed



text \<open>C25: a route to a network that had none is gone again after it has been added and deleted,
  and the table is what it was, as long as the table did not become full.\<close>

theorem nx_ip_static_route_add_delete_roundtrip:
  assumes "route_inv ip" "nx_ip_static_route_add ip a n hop = Some (NX_SUCCESS, ip')"
    and "\<forall>e \<in> set (routes ip). \<not> (nx_ip_routing_dest_ip e = a AND n \<and> nx_ip_routing_net_mask e = n)"
    and "nx_ip_routing_table_entry_count ip' < NX_IP_ROUTING_TABLE_SIZE"
  shows "\<exists>ip''. nx_ip_static_route_delete ip' a n = Some (NX_SUCCESS, ip'') \<and> routes ip'' = routes ip"
proof -
  have ok: "route_table_ok ip" using assms(1) by (simp add: route_inv_def)
  from ok obtain p i where r': "route_table_ok ip'" "i \<le> length (routes ip)"
    "routes ip' = take i (routes ip) @ route_entry a n hop p # drop i (routes ip)"
    by (rule nx_ip_static_route_add_cases [of ip hop a n]) (use assms(2,3) in auto)
  define hit where "hit = (\<lambda>e :: nx_ip_routing_entry. nx_ip_routing_dest_ip e = a AND n \<and> nx_ip_routing_net_mask e = n)"
  have none: "\<not> hit e" if "e \<in> set (take i (routes ip)) \<or> e \<in> set (drop i (routes ip))" for e
    using that assms(3) by (auto simp: hit_def dest: in_set_takeD in_set_dropD)
  have ent: "hit (route_entry a n hop p)" by (simp add: hit_def route_entry_def)
  have at: "j = i" if "j < length (routes ip')" "hit (routes ip' ! j)" for j
  proof (rule ccontr)
    assume "j \<noteq> i"
    then have "routes ip' ! j \<in> set (take i (routes ip)) \<or> routes ip' ! j \<in> set (drop i (routes ip))"
    proof (cases "j < i")
      case True
      then have "routes ip' ! j = take i (routes ip) ! j" "j < length (take i (routes ip))"
        using r'(2) by (simp_all add: r'(3) nth_append)
      then show ?thesis by (metis nth_mem)
    next
      case False
      then have "routes ip' ! j = drop i (routes ip) ! (j - Suc i)" "j - Suc i < length (drop i (routes ip))"
        using \<open>j \<noteq> i\<close> that(1) r'(2) by (simp_all add: r'(3) nth_append nth_Cons')
      then show ?thesis by (metis nth_mem)
    qed
    then show False using none that(2) by blast
  qed
  have len: "length (routes ip') < 8" using assms(4) r'(1) by simp
  from r'(1) show ?thesis
  proof (rule nx_ip_static_route_delete_cases [of ip' a n])
    assume "routes ip' = []"
    then show ?thesis by (simp add: r'(3))
  next
    assume "\<forall>e \<in> set (routes ip'). \<not> (nx_ip_routing_dest_ip e = a AND n \<and> nx_ip_routing_net_mask e = n)"
    then show ?thesis using ent by (simp add: r'(3) hit_def)
  next
    assume "length (routes ip') = 8"
    then show ?thesis using len by simp
  next
    fix j ip''
    assume d: "j < length (routes ip')" "nx_ip_routing_dest_ip (routes ip' ! j) = a AND n"
      "nx_ip_routing_net_mask (routes ip' ! j) = n" "nx_ip_static_route_delete ip' a n = Some (NX_SUCCESS, ip'')"
      "routes ip'' = take j (routes ip') @ drop (Suc j) (routes ip')"
    then have "j = i" using at by (simp add: hit_def)
    then show ?thesis using d(4,5) r'(2) by (simp add: r'(3))
  qed
qed

lemma nx_ip_static_route_add_delete_roundtrip_witness:
  "\<exists>ip' ip''. nx_ip_static_route_add demo_ip 0x0A000000 0xFF000000 0xC0A80103 = Some (NX_SUCCESS, ip') \<and>
     nx_ip_static_route_delete ip' 0x0A000000 0xFF000000 = Some (NX_SUCCESS, ip'') \<and> routes ip'' = []"
proof -
  have r: "routes demo_ip = []" by (simp add: routes_def demo_ip_simps)
  obtain ip' where ip': "nx_ip_static_route_add demo_ip 0x0A000000 0xFF000000 0xC0A80103 = Some (NX_SUCCESS, ip')"
    "nx_ip_routing_table_entry_count ip' = 1"
    by (simp add: nx_ip_static_route_add_def demo_ip_simps NX_MAX_IP_INTERFACES_def nx_interface_contains_def
        nx_route_store_def Let_def upt_rec)
  show ?thesis using nx_ip_static_route_add_delete_roundtrip [OF demo_ip_inv ip'(1)] ip' r by auto
qed

text \<open>Deleting an entry of a full table reads the element behind the array. The loop that
  closes the gap copies from index \<open>count\<close>, which is the size of the array here.\<close>

theorem nx_ip_static_route_delete_full_reads_behind:
  assumes "route_inv ip" "nx_ip_routing_table_entry_count ip = NX_IP_ROUTING_TABLE_SIZE"
    and "e \<in> set (routes ip)" "nx_ip_routing_dest_ip e = a AND n" "nx_ip_routing_net_mask e = n"
  shows "nx_ip_static_route_delete ip a n = None"
proof -
  have ok: "route_table_ok ip" using assms(1) by (simp add: route_inv_def)
  then have len: "length (routes ip) = 8" using assms(2) by simp
  from ok show ?thesis
    by (rule nx_ip_static_route_delete_cases [of ip a n]) (use assms(3-5) len in auto)
qed

lemma nx_ip_static_route_delete_full_reads_behind_witness:
  "nx_ip_static_route_delete (demo_ip\<lparr>nx_ip_routing_table := replicate 8 (demo_route 0x0A000000 0xFF000000 0xC0A80103),
     nx_ip_routing_table_entry_count := 8\<rparr>) 0x0A000000 0xFF000000 = None"
proof -
  define e where "e = demo_route 0x0A000000 0xFF000000 0xC0A80103"
  define ip where "ip = demo_ip\<lparr>nx_ip_routing_table := replicate 8 e, nx_ip_routing_table_entry_count := 8\<rparr>"
  have r: "routes ip = replicate 8 e" by (simp add: routes_def ip_def)
  have "route_inv ip"
    unfolding route_inv_def route_table_ok_def r masks_descend_def
    by (simp add: sorted_wrt_iff_nth_less route_entry_ok_def ip_def e_def NX_MAX_IP_INTERFACES_def demo_ip_simps)
  then have "nx_ip_static_route_delete ip 0x0A000000 0xFF000000 = None"
    by (rule nx_ip_static_route_delete_full_reads_behind [where e = e])
      (simp_all add: r, simp_all add: ip_def e_def demo_ip_simps)
  then show ?thesis by (simp add: ip_def e_def)
qed

text \<open>Adding a route twice can leave two entries for it. The search for the same entry stops
  at the first entry of an equal mask, so with a route to another /8 network in front, the
  second one for 10.0.0.0/8 is inserted beside the first. Deleting it afterwards succeeds, and
  packets for 10.0.0.0/8 still go to the next hop of the first one.\<close>

theorem nx_ip_static_route_add_duplicates:
  "\<exists>ip1 ip2 ip3 ip4.
     nx_ip_static_route_add demo_ip 0x0A000000 0xFF000000 0xC0A80102 = Some (NX_SUCCESS, ip1) \<and>
     nx_ip_static_route_add ip1 0x14000000 0xFF000000 0xC0A80103 = Some (NX_SUCCESS, ip2) \<and>
     nx_ip_static_route_add ip2 0x0A000000 0xFF000000 0xC0A80104 = Some (NX_SUCCESS, ip3) \<and>
     nx_ip_static_route_delete ip3 0x0A000000 0xFF000000 = Some (NX_SUCCESS, ip4) \<and>
     nx_ip_routing_table_entry_count ip4 = 2 \<and>
     nx_ip_route_find ip4 0x0A010101 None = Some (NX_SUCCESS, Some 0, 0xC0A80102)"
proof -
  define r10 where "r10 = demo_route 0x0A000000 0xFF000000 0xC0A80102"
  define r20 where "r20 = demo_route 0x14000000 0xFF000000 0xC0A80103"
  define r10' where "r10' = demo_route 0x0A000000 0xFF000000 0xC0A80104"
  have masks: "nx_ip_routing_net_mask r10 = 0xFF000000" "nx_ip_routing_net_mask r20 = 0xFF000000"
    "nx_ip_routing_dest_ip r20 = 0x14000000"
    by (simp_all add: r10_def r20_def demo_route_def route_entry_def)
  have ifc: "route_interface ip hop = Some 0" if "nx_ip_interface ip = nx_ip_interface demo_ip" "hop AND 0xFFFFFF00 = 0xC0A80100" for ip hop
    using that by (simp add: route_interface_def NX_MAX_IP_INTERFACES_def demo_ip_simps upt_rec nx_interface_contains_def)
  have add: "\<exists>ip'. nx_ip_static_route_add ip a 0xFF000000 hop = Some (NX_SUCCESS, ip') \<and> route_table_ok ip' \<and>
      routes ip' = route_entry a 0xFF000000 hop 0 # routes ip \<and> nx_ip_interface ip' = nx_ip_interface demo_ip"
    if h: "route_table_ok ip" "nx_ip_interface ip = nx_ip_interface demo_ip" "hop AND 0xFFFFFF00 = 0xC0A80100"
      "length (routes ip) < 8" "\<forall>e \<in> set (routes ip). nx_ip_routing_net_mask e = 0xFF000000"
      "routes ip = [] \<or> nx_ip_routing_dest_ip (routes ip ! 0) \<noteq> a AND 0xFF000000" for ip a hop
  proof -
    have first: "i = 0" if "\<forall>e \<in> set (take i (routes ip)). 0xFF000000 < nx_ip_routing_net_mask e" "i \<le> length (routes ip)" for i
      using that h(5) by (cases i; cases "routes ip") auto
    from h(1) show ?thesis
    proof (cases rule: nx_ip_static_route_add_cases [where hop = hop and a = a and n = "0xFF000000"])
      case unreachable
      then show ?thesis using ifc [OF h(2,3)] by simp
    next
      case full
      then show ?thesis using h(1,4) by simp
    next
      case (same p i ip')
      then have "i = 0" using first [of i] by simp
      then show ?thesis using same(2,3) h(6) by auto
    next
      case (new p i ip')
      then have "i = 0" using first [of i] by simp
      moreover have "p = 0" using new(1) ifc [OF h(2,3)] by simp
      ultimately show ?thesis using new(6-9) h(2) by auto
    qed
  qed
  have "route_table_ok demo_ip" "routes demo_ip = []"
    using demo_ip_inv by (simp_all add: route_inv_def routes_def demo_ip_simps)
  then obtain ip1 where ip1: "nx_ip_static_route_add demo_ip 0x0A000000 0xFF000000 0xC0A80102 = Some (NX_SUCCESS, ip1)"
    "route_table_ok ip1" "routes ip1 = [r10]" "nx_ip_interface ip1 = nx_ip_interface demo_ip"
    using add [of demo_ip "0xC0A80102" "0x0A000000"] by (auto simp: r10_def demo_route_def)
  then obtain ip2 where ip2: "nx_ip_static_route_add ip1 0x14000000 0xFF000000 0xC0A80103 = Some (NX_SUCCESS, ip2)"
    "route_table_ok ip2" "routes ip2 = [r20, r10]" "nx_ip_interface ip2 = nx_ip_interface demo_ip"
    using add [of ip1 "0xC0A80103" "0x14000000"] by (auto simp: r10_def r20_def demo_route_def route_entry_def)
  then obtain ip3 where ip3: "nx_ip_static_route_add ip2 0x0A000000 0xFF000000 0xC0A80104 = Some (NX_SUCCESS, ip3)"
    "route_table_ok ip3" "routes ip3 = [r10', r20, r10]" "nx_ip_interface ip3 = nx_ip_interface demo_ip"
    using add [of ip2 "0xC0A80104" "0x0A000000"] masks by (auto simp: r10'_def demo_route_def)
  from ip3(2) obtain j ip4 where ip4: "nx_ip_static_route_delete ip3 0x0A000000 0xFF000000 = Some (NX_SUCCESS, ip4)"
    "route_table_ok ip4" "routes ip4 = take j (routes ip3) @ drop (Suc j) (routes ip3)" "j < 3"
    "\<forall>e \<in> set (take j (routes ip3)). \<not> (nx_ip_routing_dest_ip e = 0x0A000000 \<and> nx_ip_routing_net_mask e = 0xFF000000)"
    "nx_ip_interface ip4 = nx_ip_interface demo_ip"
    by (rule nx_ip_static_route_delete_cases [of ip3 "0x0A000000" "0xFF000000"])
      (use ip3(3,4) in \<open>auto simp: r10'_def demo_route_def route_entry_def\<close>)
  have "j = 0" using ip4(5) by (cases j) (auto simp: ip3(3) r10'_def demo_route_def route_entry_def)
  then have r4: "routes ip4 = [r20, r10]" using ip4(3) ip3(3) by simp
  have n: "NX_MAX_PHYSICAL_INTERFACES ip4 = 1" using ip4(6) by (simp add: NX_MAX_PHYSICAL_INTERFACES_def NX_MAX_IP_INTERFACES_def demo_ip_simps)
  have "nx_route_local ip4 0x0A010101 None = None" unfolding nx_route_local_def n using ip4(6) by (simp add: demo_ip_simps)
  moreover have "\<not> route_usable ip4 0x0A010101 None r20" "route_usable ip4 0x0A010101 None r10"
    using ip4(6) by (simp_all add: route_usable_def r20_def r10_def demo_ip_simps nx_interface_contains_def)
  ultimately have "nx_ip_route_find ip4 0x0A010101 None = Some (NX_SUCCESS, Some 0, 0xC0A80102)"
    by (simp add: nx_ip_route_find_def nx_is_multicast_def nx_route_static_eq [OF ip4(2)] r4 route_target_def,
        simp add: r10_def demo_route_def route_entry_def)
  moreover have "nx_ip_routing_table_entry_count ip4 = 2" using length_routes [OF ip4(2)] r4 by simp
  ultimately show ?thesis using ip1(1) ip2(1) ip3(1) ip4(1) by blast
qed

end
