(* ===== verification/Nx_Port_Search.thy ===== *)
theory Nx_Port_Search imports Nx_Prelude begin

text \<open>
  The search for a free port, which UDP and TCP share word for word
  (common/src/nx_udp_free_port_find.c, nx_tcp_free_port_find.c): from a starting port up to the
  last port, and from there again from the first dynamic port up to the starting port. The
  check of one port is a parameter, and its contract is a locale that each of the two
  protocols interprets on its own table of bound sockets.
\<close>

abbreviation (input) NX_SEARCH_PORT_START :: nat where "NX_SEARCH_PORT_START \<equiv> 0xC000"
abbreviation (input) NX_MAX_PORT :: nat where "NX_MAX_PORT \<equiv> 0xFFFF"
abbreviation (input) NX_ANY_PORT :: nat where "NX_ANY_PORT \<equiv> 0"

partial_function (option) nx_port_search ::
    "(nat \<Rightarrow> bool option) \<Rightarrow> nat \<Rightarrow> nat \<Rightarrow> (nx_status \<times> nat option) option" where
  "nx_port_search bound starting_port port = do {
     b \<leftarrow> bound port;
     if \<not> b then Some (NX_SUCCESS, Some port)
     else if port + 1 > NX_MAX_PORT
     then if starting_port \<le> NX_SEARCH_PORT_START then Some (NX_NO_FREE_PORTS, None)
          else if starting_port = NX_SEARCH_PORT_START then Some (NX_NO_FREE_PORTS, None)
          else nx_port_search bound starting_port NX_SEARCH_PORT_START
     else if starting_port = port + 1 then Some (NX_NO_FREE_PORTS, None)
     else nx_port_search bound starting_port (port + 1)
   }"

text \<open>The port that a bind to any port starts at, for a random number.\<close>

definition nx_any_port_start :: "nat \<Rightarrow> nat" where
  "nx_any_port_start rand = NX_SEARCH_PORT_START + rand mod (NX_MAX_PORT + 1 - NX_SEARCH_PORT_START)"

lemma nx_any_port_start_range: "NX_SEARCH_PORT_START \<le> nx_any_port_start rand \<and> nx_any_port_start rand \<le> NX_MAX_PORT"
proof -
  have "rand mod 16384 < 16384" by simp
  then show ?thesis by (simp add: nx_any_port_start_def)
qed

text \<open>The ports in the order they are tried.\<close>

definition port_candidates :: "nat \<Rightarrow> nat list" where
  "port_candidates start = [start ..< NX_MAX_PORT + 1] @ [NX_SEARCH_PORT_START ..< start]"

definition search_result :: "nat option \<Rightarrow> (nx_status \<times> nat option) option" where
  "search_result r = Some (case r of Some p \<Rightarrow> (NX_SUCCESS, Some p) | None \<Rightarrow> (NX_NO_FREE_PORTS, None))"

locale port_space =
  fixes bound :: "'s \<Rightarrow> nat \<Rightarrow> bool option" and taken :: "'s \<Rightarrow> nat set" and inv :: "'s \<Rightarrow> bool"
  assumes bound_iff: "inv s \<Longrightarrow> bound s p = Some (p \<in> taken s)"
begin

lemma search_wrapped:
  assumes "inv s" "p < start" "start \<le> NX_MAX_PORT"
  shows "nx_port_search (bound s) start p = search_result (find (\<lambda>q. q \<notin> taken s) [p ..< start])"
  using assms(2)
proof (induction "start - p" arbitrary: p)
  case (Suc n)
  then have split: "[p ..< start] = p # [p + 1 ..< start]" by (simp add: upt_conv_Cons)
  show ?case
  proof (cases "p \<notin> taken s")
    case True
    then show ?thesis using bound_iff [OF assms(1), of p] split
      by (subst nx_port_search.simps) (simp add: search_result_def)
  next
    case False
    have "nx_port_search (bound s) start p =
        (if start = p + 1 then Some (NX_NO_FREE_PORTS, None) else nx_port_search (bound s) start (p + 1))"
      using False bound_iff [OF assms(1), of p] Suc.prems assms(3) by (subst nx_port_search.simps) simp
    then show ?thesis using Suc.hyps(1) [of "p + 1"] Suc.hyps(2) Suc.prems False split
      by (cases "start = p + 1") (simp_all add: search_result_def)
  qed
qed simp

lemma search_from:
  assumes "inv s" "start \<le> p" "p \<le> NX_MAX_PORT"
  shows "nx_port_search (bound s) start p =
     search_result (find (\<lambda>q. q \<notin> taken s) ([p ..< NX_MAX_PORT + 1] @ [NX_SEARCH_PORT_START ..< start]))"
  using assms(2,3)
proof (induction "NX_MAX_PORT - p" arbitrary: p)
  case 0
  then have p: "p = NX_MAX_PORT" by simp
  have split: "[p ..< NX_MAX_PORT + 1] = [p]" unfolding p by (simp add: upt_rec)
  show ?case
  proof (cases "p \<notin> taken s \<or> start \<le> NX_SEARCH_PORT_START")
    case True
    then show ?thesis using bound_iff [OF assms(1), of p] split p
      by (subst nx_port_search.simps) (auto simp: search_result_def)
  next
    case False
    have "nx_port_search (bound s) start p = nx_port_search (bound s) start NX_SEARCH_PORT_START"
      using False bound_iff [OF assms(1), of p] p by (subst nx_port_search.simps) simp
    then show ?thesis
      using search_wrapped [OF assms(1), of NX_SEARCH_PORT_START start] False split 0 by simp
  qed
next
  case (Suc n)
  then have p: "p < NX_MAX_PORT" by simp
  have split: "[p ..< NX_MAX_PORT + 1] = p # [p + 1 ..< NX_MAX_PORT + 1]" using p by (subst upt_conv_Cons) simp_all
  show ?case
  proof (cases "p \<notin> taken s")
    case True
    then show ?thesis using bound_iff [OF assms(1), of p] split
      by (subst nx_port_search.simps) (simp add: search_result_def)
  next
    case False
    have "nx_port_search (bound s) start p = nx_port_search (bound s) start (p + 1)"
      using False bound_iff [OF assms(1), of p] Suc.prems(1) p by (subst nx_port_search.simps) simp
    then show ?thesis using Suc.hyps(1) [of "p + 1"] Suc.hyps(2) Suc.prems(1) p False split by simp
  qed
qed

lemma search_eq:
  "inv s \<Longrightarrow> start \<le> NX_MAX_PORT \<Longrightarrow>
     nx_port_search (bound s) start start = search_result (find (\<lambda>q. q \<notin> taken s) (port_candidates start))"
  unfolding port_candidates_def by (rule search_from) simp_all

text \<open>What the caller relies on: the search ends, a port it returns is free and in range, and it
  fails only if every port it tries is taken.\<close>

lemma search_outcome:
  assumes "inv s" "start \<le> NX_MAX_PORT"
  shows "(\<exists>p. nx_port_search (bound s) start start = Some (NX_SUCCESS, Some p) \<and> p \<notin> taken s \<and> p \<le> NX_MAX_PORT \<and>
       (start \<le> p \<or> NX_SEARCH_PORT_START \<le> p)) \<or>
     nx_port_search (bound s) start start = Some (NX_NO_FREE_PORTS, None) \<and>
       (\<forall>p. start \<le> p \<and> p \<le> NX_MAX_PORT \<or> NX_SEARCH_PORT_START \<le> p \<and> p < start \<longrightarrow> p \<in> taken s)"
proof (cases "find (\<lambda>q. q \<notin> taken s) (port_candidates start)")
  case None
  then have "\<forall>p \<in> set (port_candidates start). p \<in> taken s" by (auto simp: find_None_iff)
  then show ?thesis using search_eq [OF assms] None by (auto simp: search_result_def port_candidates_def)
next
  case (Some p)
  then have "p \<notin> taken s" "p \<in> set (port_candidates start)" by (auto simp: find_Some_iff)
  then show ?thesis using search_eq [OF assms] Some assms(2) by (auto simp: search_result_def port_candidates_def)
qed

end

end
