(* ===== verification/Nx_Ring.thy ===== *)
theory Nx_Ring imports Nx_Prelude begin

text \<open>
  Circular doubly linked lists in memory. The sockets of a port and the threads that wait for
  a socket are linked through a next and a previous pointer in their control blocks. The link
  fields of one kind of object are a map from addresses to pairs of pointers. The C code
  repeats three pointer sequences wherever it uses such a list: making an object its only
  element, linking it in front of the head (at the end), and taking it out by joining its
  neighbours; the do-while loop that walks once around is the fourth.
\<close>

section \<open>The pointer sequences\<close>

record nx_link =
  link_next :: nat
  link_previous :: nat

type_synonym nx_links = "nat \<rightharpoonup> nx_link"

definition set_next :: "nat \<Rightarrow> nat \<Rightarrow> nx_links \<Rightarrow> nx_links option" where
  "set_next a v L = do { l \<leftarrow> L a; Some (L(a \<mapsto> l\<lparr>link_next := v\<rparr>)) }"

definition set_previous :: "nat \<Rightarrow> nat \<Rightarrow> nx_links \<Rightarrow> nx_links option" where
  "set_previous a v L = do { l \<leftarrow> L a; Some (L(a \<mapsto> l\<lparr>link_previous := v\<rparr>)) }"

definition ring_single :: "nat \<Rightarrow> nx_links \<Rightarrow> nx_links option" where
  "ring_single x L = do { L1 \<leftarrow> set_next x x L; set_previous x x L1 }"

text \<open>\<open>x -> next = head; x -> previous = head -> previous; head -> previous -> next = x;
  head -> previous = x\<close>.\<close>

definition ring_link_last :: "nat \<Rightarrow> nat \<Rightarrow> nx_links \<Rightarrow> nx_links option" where
  "ring_link_last x head L = do {
     L1 \<leftarrow> set_next x head L;
     h \<leftarrow> L1 head;
     L2 \<leftarrow> set_previous x (link_previous h) L1;
     h2 \<leftarrow> L2 head;
     L3 \<leftarrow> set_next (link_previous h2) x L2;
     set_previous head x L3
   }"

text \<open>\<open>x -> next -> previous = x -> previous; x -> previous -> next = x -> next\<close>.\<close>

definition ring_unlink :: "nat \<Rightarrow> nx_links \<Rightarrow> nx_links option" where
  "ring_unlink x L = do {
     l \<leftarrow> L x;
     L1 \<leftarrow> set_previous (link_next l) (link_previous l) L;
     l1 \<leftarrow> L1 x;
     set_next (link_previous l1) (link_next l1) L1
   }"

text \<open>Walking from \<open>search\<close> until an element is a hit or the walk is back at \<open>end\<close>.\<close>

partial_function (option) ring_search ::
    "(nat \<Rightarrow> bool option) \<Rightarrow> nx_links \<Rightarrow> nat \<Rightarrow> nat \<Rightarrow> nat option" where
  "ring_search hit L search end_ptr = do {
     b \<leftarrow> hit search;
     if b then Some search
     else do {
       l \<leftarrow> L search;
       if link_next l = end_ptr then Some (link_next l) else ring_search hit L (link_next l) end_ptr
     }
   }"

lemma ring_search_hit: "hit a = Some True \<Longrightarrow> ring_search hit L a end_ptr = Some a"
  by (subst ring_search.simps) simp

section \<open>Rings\<close>

definition linked_to :: "nx_links \<Rightarrow> nat \<Rightarrow> nat \<Rightarrow> bool" where
  "linked_to L x y \<longleftrightarrow> (\<exists>lx ly. L x = Some lx \<and> L y = Some ly \<and> link_next lx = y \<and> link_previous ly = x)"

text \<open>The elements of a ring in the order of the next pointers, from some element on.\<close>

definition ring :: "nx_links \<Rightarrow> nat list \<Rightarrow> bool" where
  "ring L xs \<longleftrightarrow> xs \<noteq> [] \<and> distinct xs \<and> 0 \<notin> set xs \<and> successively (linked_to L) (xs @ [hd xs])"

lemma ring_iff:
  "ring L xs \<longleftrightarrow> xs \<noteq> [] \<and> distinct xs \<and> 0 \<notin> set xs \<and> successively (linked_to L) xs \<and>
     linked_to L (last xs) (hd xs)"
  by (auto simp: ring_def successively_append_iff)

lemma ringD:
  assumes "ring L xs"
  shows "xs \<noteq> []" "distinct xs" "0 \<notin> set xs" "hd xs \<noteq> 0" "hd xs \<in> set xs"
proof -
  show "xs \<noteq> []" "distinct xs" and zero: "0 \<notin> set xs" using assms by (simp_all add: ring_def)
  then show mem: "hd xs \<in> set xs" by simp
  show "hd xs \<noteq> 0" using zero mem by metis
qed

lemma linked_to_cong: "L' x = L x \<Longrightarrow> L' y = L y \<Longrightarrow> linked_to L' x y = linked_to L x y"
  by (simp add: linked_to_def)

lemma ring_cong: "(\<And>a. a \<in> set xs \<Longrightarrow> L' a = L a) \<Longrightarrow> ring L' xs = ring L xs"
proof -
  assume eq: "\<And>a. a \<in> set xs \<Longrightarrow> L' a = L a"
  have "successively (linked_to L') xs = successively (linked_to L) xs"
  proof (rule successively_cong)
    fix x y assume "x \<in> set xs" "y \<in> set xs"
    then show "linked_to L' x y = linked_to L x y" by (intro linked_to_cong eq)
  qed simp
  moreover have "xs \<noteq> [] \<Longrightarrow> linked_to L' (last xs) (hd xs) = linked_to L (last xs) (hd xs)"
    by (intro linked_to_cong eq) simp_all
  ultimately show ?thesis by (auto simp: ring_iff)
qed

lemma ring_rotate: "ring L (us @ vs) \<Longrightarrow> ring L (vs @ us)"
  by (cases "us = []"; cases "vs = []") (auto simp: ring_iff successively_append_iff)

lemma ring_head_neighbours:
  "ring L (x # ys) \<Longrightarrow> linked_to L x (hd (ys @ [x])) \<and> linked_to L (last (x # ys)) x"
  by (cases ys) (simp_all add: ring_iff)

lemma ring_neighbours:
  assumes "ring L (us @ x # vs)"
  shows "linked_to L x (hd (vs @ us @ [x]))" "linked_to L (last (x # vs @ us)) x"
proof -
  have "ring L (x # vs @ us)" using ring_rotate [of L us "x # vs"] assms by simp
  then show "linked_to L x (hd (vs @ us @ [x]))" "linked_to L (last (x # vs @ us)) x"
    using ring_head_neighbours [of L x "vs @ us"] by simp_all
qed

lemma ring_mem:
  assumes "ring L xs" "a \<in> set xs"
  obtains l where "L a = Some l" "link_next l \<in> set xs" "link_previous l \<in> set xs"
    "link_next l = a \<longleftrightarrow> xs = [a]"
proof -
  obtain us vs where xs: "xs = us @ a # vs" using assms(2) by (auto simp: in_set_conv_decomp)
  note nb = ring_neighbours [OF assms(1) [unfolded xs]]
  obtain l where l: "L a = Some l" "link_next l = hd (vs @ us @ [a])" using nb(1) by (auto simp: linked_to_def)
  have p: "link_previous l = last (a # vs @ us)" using nb(2) l(1) by (auto simp: linked_to_def)
  have "hd (vs @ us @ [a]) \<in> set xs" by (cases vs; cases us) (auto simp: xs)
  moreover have "last (a # vs @ us) \<in> set xs" using last_in_set [of "a # vs @ us"] by (auto simp: xs)
  moreover have "hd (vs @ us @ [a]) = a \<longleftrightarrow> xs = [a]"
    using ringD(2) [OF assms(1)] by (cases vs; cases us) (auto simp: xs)
  ultimately show ?thesis using that l p by simp
qed

lemma ring_next_nonzero:
  assumes "ring L xs" "a \<in> set xs" "L a = Some l"
  shows "link_next l \<noteq> 0"
proof -
  have "link_next l \<in> set xs" using ring_mem [OF assms(1,2)] assms(3) by (metis option.inject)
  then show ?thesis using ringD(3) [OF assms(1)] by metis
qed

text \<open>A ring is determined by one of its elements.\<close>

lemma ring_subset:
  assumes "ring L xs" "ring L ys" "hd ys \<in> set xs"
  shows "set ys \<subseteq> set xs"
proof -
  have "successively (linked_to L) zs \<Longrightarrow> zs \<noteq> [] \<Longrightarrow> hd zs \<in> set xs \<Longrightarrow> set zs \<subseteq> set xs" for zs
  proof (induction zs)
    case (Cons z zs)
    show ?case
    proof (cases "zs = []")
      case False
      then have "linked_to L z (hd zs)" "successively (linked_to L) zs"
        using Cons.prems(1) by (auto simp: successively_Cons)
      moreover obtain l where "L z = Some l" "link_next l \<in> set xs"
        using ring_mem [OF assms(1), of z] Cons.prems(3) by auto
      ultimately have "hd zs \<in> set xs" by (auto simp: linked_to_def)
      then show ?thesis using Cons.IH \<open>successively (linked_to L) zs\<close> False Cons.prems(3) by simp
    qed (use Cons.prems(3) in simp)
  qed simp
  then show ?thesis using assms(2,3) by (simp add: ring_iff)
qed

text \<open>A path stays one when the next pointer of its last element and the previous pointer of its
  first one change.\<close>

lemma path_frame:
  assumes "successively (linked_to L) xs" "distinct xs"
    and "\<And>a. a \<in> set xs \<Longrightarrow> \<exists>l l'. L a = Some l \<and> L' a = Some l' \<and>
      (a \<noteq> last xs \<longrightarrow> link_next l' = link_next l) \<and> (a \<noteq> hd xs \<longrightarrow> link_previous l' = link_previous l)"
  shows "successively (linked_to L') xs"
  unfolding successively_conv_nth
proof (intro allI impI)
  fix i assume i: "Suc i < length xs"
  then have ne: "xs \<noteq> []" by auto
  have "xs ! i \<noteq> last xs" "xs ! Suc i \<noteq> hd xs"
    using assms(2) i ne by (auto simp: last_conv_nth hd_conv_nth nth_eq_iff_index_eq)
  moreover have "linked_to L (xs ! i) (xs ! Suc i)" using assms(1) i by (simp add: successively_conv_nth)
  ultimately show "linked_to L' (xs ! i) (xs ! Suc i)"
    using assms(3) [of "xs ! i"] assms(3) [of "xs ! Suc i"] i by (auto simp: linked_to_def)
qed

section \<open>The operations on rings\<close>

lemma ring_single_ok:
  assumes "L x = Some l" "x \<noteq> 0"
  shows "ring_single x L = Some (L(x \<mapsto> \<lparr>link_next = x, link_previous = x\<rparr>))"
    and "ring (L(x \<mapsto> \<lparr>link_next = x, link_previous = x\<rparr>)) [x]"
  using assms by (cases l, simp_all add: ring_single_def set_next_def set_previous_def ring_def linked_to_def)

lemma ring_link_last_ok:
  assumes "ring L xs" "x \<notin> set xs" "x \<noteq> 0" "L x = Some lx"
  obtains L' where "ring_link_last x (hd xs) L = Some L'" "ring L' (xs @ [x])"
    "\<And>a. a \<noteq> x \<Longrightarrow> a \<notin> set xs \<Longrightarrow> L' a = L a" "dom L' = dom L"
proof -
  define h where "h = hd xs"
  define t where "t = last xs"
  note D = ringD [OF assms(1)]
  have th: "linked_to L t h" using assms(1) by (simp add: ring_iff t_def h_def)
  then obtain lt lh where lt: "L t = Some lt" "link_next lt = h" and lh: "L h = Some lh" "link_previous lh = t"
    by (auto simp: linked_to_def)
  have mem: "h \<in> set xs" "t \<in> set xs" "h \<noteq> x" "t \<noteq> x" using D(1) assms(2) by (auto simp: h_def t_def)
  define L' where "L' = (\<lambda>a. if a = x then Some \<lparr>link_next = h, link_previous = t\<rparr>
      else map_option (\<lambda>l. l\<lparr>link_next := if a = t then x else link_next l,
             link_previous := if a = h then x else link_previous l\<rparr>) (L a))"
  have "ring_link_last x h L = Some L'"
    using assms(4) lt lh mem
    by (cases "t = h") (auto simp: ring_link_last_def set_next_def set_previous_def L'_def fun_eq_iff option.map_ident)
  moreover have "successively (linked_to L') xs"
  proof (rule path_frame)
    fix a assume a: "a \<in> set xs"
    obtain l where "L a = Some l" using ring_mem [OF assms(1) a] by blast
    then show "\<exists>l l'. L a = Some l \<and> L' a = Some l' \<and> (a \<noteq> last xs \<longrightarrow> link_next l' = link_next l) \<and>
        (a \<noteq> hd xs \<longrightarrow> link_previous l' = link_previous l)"
      using a assms(2) by (auto simp: L'_def t_def [symmetric] h_def [symmetric])
  qed (use assms(1) in \<open>simp_all add: ring_iff\<close>)
  then have "ring L' (xs @ [x])"
    using D assms(2,3) lt lh mem
    by (auto simp: ring_iff successively_append_iff h_def [symmetric] t_def [symmetric] linked_to_def L'_def)
  moreover have "dom L' = dom L" using assms(4) by (auto simp: L'_def split: if_splits)
  moreover have "L' a = L a" if "a \<noteq> x" "a \<notin> set xs" for a
  proof -
    have "a \<noteq> t" "a \<noteq> h" using that(2) mem by auto
    then show ?thesis using that(1) by (simp add: L'_def option.map_ident)
  qed
  ultimately show ?thesis using that [of L'] by (simp add: h_def)
qed

lemma ring_unlink_ok:
  assumes "ring L (us @ x # vs)" "us @ vs \<noteq> []"
  obtains L' where "ring_unlink x L = Some L'" "ring L' (us @ vs)" "L' x = L x"
    "\<And>a. a \<notin> set (us @ vs) \<Longrightarrow> L' a = L a" "dom L' = dom L"
proof -
  define ys where "ys = vs @ us"
  have rot: "ring L (x # ys)" using ring_rotate [of L us "x # vs"] assms(1) by (simp add: ys_def)
  have ne: "ys \<noteq> []" using assms(2) by (auto simp: ys_def)
  define h where "h = hd ys"
  define t where "t = last ys"
  have "linked_to L x h" "linked_to L t x" "successively (linked_to L) ys" and dist: "distinct (x # ys)" "0 \<notin> set (x # ys)"
    using rot ne by (auto simp: ring_iff h_def t_def successively_Cons split: list.splits)
  then obtain l lh lt where l: "L x = Some l" "link_next l = h" "link_previous l = t"
    and lh: "L h = Some lh" and lt: "L t = Some lt" and succ: "successively (linked_to L) ys"
    by (auto simp: linked_to_def)
  have mem: "h \<in> set ys" "t \<in> set ys" "h \<noteq> x" "t \<noteq> x" using ne dist by (auto simp: h_def t_def)
  define L' where "L' = (\<lambda>a. map_option (\<lambda>l. l\<lparr>link_next := if a = t then h else link_next l,
             link_previous := if a = h then t else link_previous l\<rparr>) (L a))"
  have "ring_unlink x L = Some L'"
    using l lt lh mem
    by (cases "t = h") (auto simp: ring_unlink_def set_next_def set_previous_def L'_def fun_eq_iff option.map_ident)
  moreover have "successively (linked_to L') ys"
  proof (rule path_frame [OF succ])
    fix a assume a: "a \<in> set ys"
    have "a \<in> set (x # ys)" using a by simp
    then obtain la where "L a = Some la" using ring_mem [OF rot] by blast
    then show "\<exists>l l'. L a = Some l \<and> L' a = Some l' \<and> (a \<noteq> last ys \<longrightarrow> link_next l' = link_next l) \<and>
        (a \<noteq> hd ys \<longrightarrow> link_previous l' = link_previous l)"
      by (auto simp: L'_def t_def [symmetric] h_def [symmetric])
  qed (use dist in simp)
  then have "ring L' ys"
    using ne dist lh lt by (auto simp: ring_iff linked_to_def L'_def h_def [symmetric] t_def [symmetric])
  then have "ring L' (us @ vs)" unfolding ys_def by (rule ring_rotate)
  moreover have "L' a = L a" if "a \<notin> set (us @ vs)" for a
  proof -
    have "a \<noteq> t" "a \<noteq> h" using that mem by (auto simp: ys_def)
    then show ?thesis by (simp add: L'_def option.map_ident)
  qed
  moreover have "L' x = L x" using mem by (auto simp: L'_def option.map_ident)
  moreover have "dom L' = dom L" by (auto simp: L'_def)
  ultimately show ?thesis using that by blast
qed

lemma ring_search_ok:
  assumes "ring L xs" "\<And>x. x \<in> set xs \<Longrightarrow> hit x = Some (P x)"
  shows "ring_search hit L (hd xs) (hd xs) = Some (case find P xs of Some x \<Rightarrow> x | None \<Rightarrow> hd xs)"
proof -
  have "ring_search hit L (hd ys) (hd xs) = Some (case find P ys of Some x \<Rightarrow> x | None \<Rightarrow> hd xs)"
    if "ys \<noteq> []" "\<exists>us. xs = us @ ys" for ys
    using that
  proof (induction ys)
    case (Cons a ys)
    then obtain us where us: "xs = us @ a # ys" by auto
    show ?case
    proof (cases "P a")
      case True
      then show ?thesis using assms(2) [of a] us by (subst ring_search.simps) simp
    next
      case False
      obtain l where l: "L a = Some l" "link_next l = hd (ys @ us @ [a])"
        using ring_neighbours(1) [OF assms(1) [unfolded us]] by (auto simp: linked_to_def)
      show ?thesis
      proof (cases ys)
        case Nil
        then have "link_next l = hd xs" using l us by (cases us) auto
        then show ?thesis using False Nil l assms(2) [of a] us by (subst ring_search.simps) simp
      next
        case (Cons b zs)
        have "link_next l = b" using l Cons by simp
        moreover have "b \<noteq> hd xs" using ringD(2) [OF assms(1)] us Cons by (cases us) auto
        moreover have "ring_search hit L (hd ys) (hd xs) = Some (case find P ys of Some x \<Rightarrow> x | None \<Rightarrow> hd xs)"
          using Cons.IH us Cons by (metis append_Cons append_Nil append_assoc list.distinct(1))
        ultimately show ?thesis using False Cons l assms(2) [of a] us by (subst ring_search.simps) simp
      qed
    qed
  qed simp
  then show ?thesis using ringD(1) [OF assms(1)] by auto
qed

end
