(* ===== verification/Nx_Udp_Port.thy ===== *)
theory Nx_Udp_Port imports Nx_Port_Search Nx_Ring Nx_Packet_Pool begin

text \<open>
  Binding UDP sockets to ports: the free port search (common/src/nx_udp_free_port_find.c),
  bind (nx_udp_socket_bind.c), unbind with its hand-over to a waiting thread
  (nx_udp_socket_unbind.c), the ThreadX clean-up of a wait (nx_udp_bind_cleanup.c). The bound
  sockets of a hash bucket are a ring through their link fields, the threads that wait for a
  port are a ring through the threads' link fields, hanging off the socket that holds the port.
  All sockets belong to one IP instance, whose mutex makes every service one step. A NULL next
  pointer means that a socket is not bound; while a socket waits, its previous pointer is the
  socket that holds the port.
\<close>

section \<open>State\<close>

record nx_udp_socket =
  nx_udp_socket_id :: nat
  nx_udp_socket_port :: nat
  nx_udp_socket_share :: nat
  nx_udp_socket_notify_pending :: bool
  nx_udp_socket_receive_count :: nat
  nx_udp_socket_receive_head :: nat
  nx_udp_socket_receive_tail :: nat
  nx_udp_socket_bind_in_progress :: nat
  nx_udp_socket_receive_suspension_list :: nat
  nx_udp_socket_receive_suspended_count :: nat
  nx_udp_socket_bind_suspension_list :: nat
  nx_udp_socket_bind_suspended_count :: nat
  nx_udp_socket_icmp_error :: nx_status

abbreviation (input) NX_UDP_ID :: nat where "NX_UDP_ID \<equiv> 0x55445020"
abbreviation (input) NX_UDP_PORT_TABLE_SIZE :: nat where "NX_UDP_PORT_TABLE_SIZE \<equiv> 32"
abbreviation (input) NX_UDP_SOCKET_SHARE_FIRST :: nat where "NX_UDP_SOCKET_SHARE_FIRST \<equiv> 2"

text \<open>\<open>nx_udp_bound_links\<close> are the fields \<open>nx_udp_socket_bound_next\<close> and \<open>_previous\<close>,
  \<open>tx_suspended_links\<close> the fields \<open>tx_thread_suspended_next\<close> and \<open>_previous\<close>.\<close>

record nx_udp =
  nx_udp_sockets :: "nat \<rightharpoonup> nx_udp_socket"
  nx_udp_bound_links :: nx_links
  nx_ip_udp_port_table :: "nat list"
  tx_suspended_links :: nx_links
  nx_udp_mem :: nx_mem

definition put_socket :: "nat \<Rightarrow> nx_udp_socket \<Rightarrow> nx_udp \<Rightarrow> nx_udp" where
  "put_socket a s u = u\<lparr>nx_udp_sockets := (nx_udp_sockets u)(a \<mapsto> s)\<rparr>"

definition udp_thread :: "nx_udp \<Rightarrow> nat \<Rightarrow> tx_thread option" where
  "udp_thread u = tx_threads (nx_udp_mem u)"

definition put_udp_thread :: "nat \<Rightarrow> tx_thread \<Rightarrow> nx_udp \<Rightarrow> nx_udp" where
  "put_udp_thread t th u = u\<lparr>nx_udp_mem := put_thread t th (nx_udp_mem u)\<rparr>"

text \<open>\<open>_tx_thread_preempt_disable++\<close>, and the kernel's resume, which is recorded.\<close>

definition udp_preempt_disable :: "nx_udp \<Rightarrow> nx_udp" where
  "udp_preempt_disable u = u\<lparr>nx_udp_mem := (nx_udp_mem u)
     \<lparr>tx_thread_preempt_disable := ulong_add (tx_thread_preempt_disable (nx_udp_mem u)) 1\<rparr>\<rparr>"

definition udp_call :: "tx_call \<Rightarrow> nx_udp \<Rightarrow> nx_udp" where
  "udp_call c u = u\<lparr>nx_udp_mem := (nx_udp_mem u)\<lparr>tx_calls := tx_calls (nx_udp_mem u) @ [c]\<rparr>\<rparr>"

section \<open>The port table\<close>

definition nx_udp_port_index :: "nat \<Rightarrow> nat" where
  "nx_udp_port_index port = (port + port div 256) mod NX_UDP_PORT_TABLE_SIZE"

definition udp_holds :: "nx_udp \<Rightarrow> nat \<Rightarrow> nat \<Rightarrow> bool option" where
  "udp_holds u port a = map_option (\<lambda>s. nx_udp_socket_port s = port) (nx_udp_sockets u a)"

text \<open>The socket the search of a bucket ends at: NULL for an empty bucket, a socket with the port,
  or the head of the bucket after a full turn.\<close>

definition nx_udp_port_find :: "nx_udp \<Rightarrow> nat \<Rightarrow> nat option" where
  "nx_udp_port_find u port =
     (let head = nx_ip_udp_port_table u ! nx_udp_port_index port
      in if head = NX_NULL then Some NX_NULL
         else ring_search (udp_holds u port) (nx_udp_bound_links u) head head)"

definition nx_udp_port_bound :: "nx_udp \<Rightarrow> nat \<Rightarrow> bool option" where
  "nx_udp_port_bound u port = do {
     a \<leftarrow> nx_udp_port_find u port;
     if a = NX_NULL then Some False else udp_holds u port a
   }"

definition nx_udp_free_port_find :: "nx_udp \<Rightarrow> nat \<Rightarrow> (nx_status \<times> nat option) option" where
  "nx_udp_free_port_find u port = nx_port_search (nx_udp_port_bound u) port port"

section \<open>Bind\<close>

text \<open>Putting a socket into its bucket: the only element of an empty one, or the last one, which
  a SHARE_FIRST socket then becomes the head of.\<close>

definition nx_udp_link_bound :: "bool \<Rightarrow> nat \<Rightarrow> nat \<Rightarrow> nx_udp \<Rightarrow> nx_udp option" where
  "nx_udp_link_bound first index socket_ptr u =
     (let head = nx_ip_udp_port_table u ! index
      in if head \<noteq> NX_NULL
         then do {
           L \<leftarrow> ring_link_last socket_ptr head (nx_udp_bound_links u);
           Some (u\<lparr>nx_udp_bound_links := L,
                   nx_ip_udp_port_table := (if first then (nx_ip_udp_port_table u)[index := socket_ptr]
                                            else nx_ip_udp_port_table u)\<rparr>)
         }
         else do {
           L \<leftarrow> ring_single socket_ptr (nx_udp_bound_links u);
           Some (u\<lparr>nx_udp_bound_links := L,
                   nx_ip_udp_port_table := (nx_ip_udp_port_table u)[index := socket_ptr]\<rparr>)
         })"

text \<open>Preparing the current thread for a wait for the port that \<open>owner\<close> holds.\<close>

definition nx_udp_bind_suspend :: "nat \<Rightarrow> nat \<Rightarrow> nat \<Rightarrow> nx_udp \<Rightarrow> (nat \<times> nx_udp) option" where
  "nx_udp_bind_suspend socket_ptr owner wait_option u = do {
     let thread_ptr = tx_thread_current_ptr (nx_udp_mem u);
     th \<leftarrow> udp_thread u thread_ptr;
     L \<leftarrow> set_previous socket_ptr owner (nx_udp_bound_links u);
     s \<leftarrow> nx_udp_sockets u socket_ptr;
     let u1 = put_socket socket_ptr (s\<lparr>nx_udp_socket_bind_in_progress := thread_ptr\<rparr>) (u\<lparr>nx_udp_bound_links := L\<rparr>);
     own \<leftarrow> nx_udp_sockets u1 owner;
     T \<leftarrow> (if nx_udp_socket_bind_suspension_list own \<noteq> NX_NULL
          then ring_link_last thread_ptr (nx_udp_socket_bind_suspension_list own) (tx_suspended_links u1)
          else ring_single thread_ptr (tx_suspended_links u1));
     let own' = own\<lparr>nx_udp_socket_bind_suspension_list :=
                       (if nx_udp_socket_bind_suspension_list own \<noteq> NX_NULL
                        then nx_udp_socket_bind_suspension_list own else thread_ptr),
                    nx_udp_socket_bind_suspended_count := ulong_add (nx_udp_socket_bind_suspended_count own) 1\<rparr>;
     let th' = th\<lparr>tx_thread_suspend_cleanup := NX_UDP_BIND_CLEANUP,
                  tx_thread_suspend_control_block := socket_ptr,
                  tx_thread_state := TX_TCP_IP, tx_thread_suspending := True,
                  tx_thread_remaining_ticks := wait_option\<rparr>;
     Some (thread_ptr,
       udp_preempt_disable (put_udp_thread thread_ptr th' ((put_socket owner own' u1)\<lparr>tx_suspended_links := T\<rparr>)))
   }"

text \<open>\<open>system_suspend\<close> is the kernel's \<open>_tx_thread_system_suspend\<close>: what has become of the state
  when the thread runs again. \<open>rand\<close> is the value of NX_RAND.\<close>

definition nx_udp_bind_at ::
    "(nat \<Rightarrow> nx_udp \<Rightarrow> nx_udp) \<Rightarrow> nat \<Rightarrow> nx_udp_socket \<Rightarrow> nat \<Rightarrow> nat \<Rightarrow> nx_udp \<Rightarrow> (nx_status \<times> nx_udp) option" where
  "nx_udp_bind_at system_suspend socket_ptr s port wait_option u0 = do {
     let u = put_socket socket_ptr (s\<lparr>nx_udp_socket_port := port\<rparr>) u0;
     search_ptr \<leftarrow> nx_udp_port_find u port;
     free \<leftarrow> (if search_ptr = NX_NULL then Some True
             else do {
               f \<leftarrow> nx_udp_sockets u search_ptr;
               Some (nx_udp_socket_port f \<noteq> port \<or> nx_udp_socket_share f \<noteq> 0 \<and> nx_udp_socket_share s \<noteq> 0)
             });
     if free
     then do {
       u' \<leftarrow> nx_udp_link_bound (nx_udp_socket_share s = NX_UDP_SOCKET_SHARE_FIRST) (nx_udp_port_index port) socket_ptr u;
       Some (NX_SUCCESS, u')
     }
     else if wait_option \<noteq> 0
     then do {
       (thread_ptr, u1) \<leftarrow> nx_udp_bind_suspend socket_ptr search_ptr wait_option u;
       let u2 = system_suspend thread_ptr u1;
       th \<leftarrow> udp_thread u2 thread_ptr;
       Some (tx_thread_suspend_status th, u2)
     }
     else Some (NX_PORT_UNAVAILABLE, u)
   }"

definition nx_udp_socket_bind ::
    "(nat \<Rightarrow> nx_udp \<Rightarrow> nx_udp) \<Rightarrow> nat \<Rightarrow> nat \<Rightarrow> nat \<Rightarrow> nat \<Rightarrow> nx_udp \<Rightarrow> (nx_status \<times> nx_udp) option" where
  "nx_udp_socket_bind system_suspend rand socket_ptr port wait_option u = do {
     s \<leftarrow> nx_udp_sockets u socket_ptr;
     l \<leftarrow> nx_udp_bound_links u socket_ptr;
     if link_next l \<noteq> NX_NULL \<or> nx_udp_socket_bind_in_progress s \<noteq> NX_NULL then Some (NX_ALREADY_BOUND, u)
     else if port = NX_ANY_PORT
     then do {
       (st, p) \<leftarrow> nx_udp_free_port_find u (nx_any_port_start rand);
       case p of
         None \<Rightarrow> Some (NX_NO_FREE_PORTS, u)
       | Some port \<Rightarrow> nx_udp_bind_at system_suspend socket_ptr s port wait_option u
     }
     else nx_udp_bind_at system_suspend socket_ptr s port wait_option u
   }"

section \<open>The end of a wait\<close>

text \<open>Taking a thread off the suspension list of a socket, whose head then is the successor of the
  thread, or NULL when the thread is alone on its list.\<close>

definition nx_udp_unsuspend :: "nat \<Rightarrow> nat \<Rightarrow> nx_udp \<Rightarrow> nx_udp option" where
  "nx_udp_unsuspend thread_ptr owner u = do {
     l \<leftarrow> tx_suspended_links u thread_ptr;
     own \<leftarrow> nx_udp_sockets u owner;
     T \<leftarrow> (if link_next l = thread_ptr then Some (tx_suspended_links u)
          else ring_unlink thread_ptr (tx_suspended_links u));
     Some ((put_socket owner
       (own\<lparr>nx_udp_socket_bind_suspension_list := (if link_next l = thread_ptr then NX_NULL else link_next l),
            nx_udp_socket_bind_suspended_count := ulong_sub (nx_udp_socket_bind_suspended_count own) 1\<rparr>) u)
       \<lparr>tx_suspended_links := T\<rparr>)
   }"

definition nx_udp_bind_cleanup :: "nat \<Rightarrow> nx_udp \<Rightarrow> nx_udp option" where
  "nx_udp_bind_cleanup thread_ptr u = do {
     th \<leftarrow> udp_thread u thread_ptr;
     let socket_ptr = tx_thread_suspend_control_block th;
     if tx_thread_suspend_cleanup th = TX_NO_CLEANUP \<or> socket_ptr = NX_NULL then Some u
     else do {
       s \<leftarrow> nx_udp_sockets u socket_ptr;
       if nx_udp_socket_id s \<noteq> NX_UDP_ID then Some u
       else do {
         let th1 = th\<lparr>tx_thread_suspend_cleanup := TX_NO_CLEANUP\<rparr>;
         let u1 = put_udp_thread thread_ptr th1
                    (put_socket socket_ptr (s\<lparr>nx_udp_socket_bind_in_progress := NX_NULL\<rparr>) u);
         l \<leftarrow> nx_udp_bound_links u1 socket_ptr;
         u2 \<leftarrow> nx_udp_unsuspend thread_ptr (link_previous l) u1;
         if tx_thread_state th = TX_TCP_IP
         then Some (udp_call (Tx_thread_system_resume thread_ptr) (udp_preempt_disable
                (put_udp_thread thread_ptr (th1\<lparr>tx_thread_suspend_status := NX_PORT_UNAVAILABLE\<rparr>) u2)))
         else Some u2
       }
     }
   }"

section \<open>Unbind\<close>

text \<open>Releasing the queued packets, and resuming the threads that wait for a packet.\<close>

primrec nx_udp_release_queue :: "nat \<Rightarrow> nat \<Rightarrow> nx_mem \<Rightarrow> nx_mem option" where
  "nx_udp_release_queue 0 packet_ptr m = Some m"
| "nx_udp_release_queue (Suc receive_count) packet_ptr m = do {
     pk \<leftarrow> nx_packets m packet_ptr;
     (st, m') \<leftarrow> nx_packet_release packet_ptr m;
     nx_udp_release_queue receive_count (nx_packet_queue_next pk) m'
   }"

primrec nx_udp_resume_receivers :: "nat \<Rightarrow> nat \<Rightarrow> nx_udp \<Rightarrow> nx_udp option" where
  "nx_udp_resume_receivers 0 thread_ptr u = Some u"
| "nx_udp_resume_receivers (Suc suspended_count) thread_ptr u = do {
     th \<leftarrow> udp_thread u thread_ptr;
     l \<leftarrow> tx_suspended_links u thread_ptr;
     n \<leftarrow> tx_suspended_links u (link_next l);
     nx_udp_resume_receivers suspended_count (link_next l)
       (udp_call (Tx_thread_system_resume (link_previous n)) (udp_preempt_disable
          (put_udp_thread thread_ptr
             (th\<lparr>tx_thread_suspend_cleanup := TX_NO_CLEANUP, tx_thread_suspend_status := NX_SOCKET_UNBOUND\<rparr>) u)))
   }"

definition nx_udp_unlink_bound :: "nat \<Rightarrow> nat \<Rightarrow> nx_udp \<Rightarrow> nx_udp option" where
  "nx_udp_unlink_bound index socket_ptr u = do {
     l \<leftarrow> nx_udp_bound_links u socket_ptr;
     if link_next l = socket_ptr
     then do {
       L \<leftarrow> set_next socket_ptr NX_NULL (nx_udp_bound_links u);
       Some (u\<lparr>nx_udp_bound_links := L, nx_ip_udp_port_table := (nx_ip_udp_port_table u)[index := NX_NULL]\<rparr>)
     }
     else do {
       L1 \<leftarrow> ring_unlink socket_ptr (nx_udp_bound_links u);
       L2 \<leftarrow> set_next socket_ptr NX_NULL L1;
       Some (u\<lparr>nx_udp_bound_links := L2,
               nx_ip_udp_port_table := (if nx_ip_udp_port_table u ! index = socket_ptr
                 then (nx_ip_udp_port_table u)[index := link_next l] else nx_ip_udp_port_table u)\<rparr>)
     }
   }"

definition nx_udp_clear_receive :: "nat \<Rightarrow> nx_udp \<Rightarrow> nx_udp option" where
  "nx_udp_clear_receive socket_ptr u = do {
     s \<leftarrow> nx_udp_sockets u socket_ptr;
     let s1 = s\<lparr>nx_udp_socket_icmp_error := NX_SUCCESS, nx_udp_socket_notify_pending := False\<rparr>;
     if nx_udp_socket_receive_count s \<noteq> 0
     then do {
       m \<leftarrow> nx_udp_release_queue (nx_udp_socket_receive_count s) (nx_udp_socket_receive_head s) (nx_udp_mem u);
       Some ((put_socket socket_ptr (s1\<lparr>nx_udp_socket_receive_head := NX_NULL, nx_udp_socket_receive_tail := NX_NULL,
                nx_udp_socket_receive_count := 0\<rparr>) u)\<lparr>nx_udp_mem := m\<rparr>)
     }
     else if nx_udp_socket_receive_suspended_count s \<noteq> 0
     then nx_udp_resume_receivers (nx_udp_socket_receive_suspended_count s) (nx_udp_socket_receive_suspension_list s)
            (put_socket socket_ptr (s1\<lparr>nx_udp_socket_receive_suspension_list := NX_NULL,
               nx_udp_socket_receive_suspended_count := 0\<rparr>) u)
     else Some (put_socket socket_ptr s1 u)
   }"

text \<open>Handing the port to the first thread that waits for it: the thread's socket takes the rest
  of the suspension list and joins the bucket.\<close>

definition nx_udp_hand_over :: "nat \<Rightarrow> nat \<Rightarrow> nx_udp \<Rightarrow> nx_udp option" where
  "nx_udp_hand_over index socket_ptr u = do {
     s \<leftarrow> nx_udp_sockets u socket_ptr;
     let thread_ptr = nx_udp_socket_bind_suspension_list s;
     if thread_ptr = NX_NULL then Some u
     else do {
       u1 \<leftarrow> nx_udp_unsuspend thread_ptr socket_ptr u;
       th \<leftarrow> udp_thread u1 thread_ptr;
       let new_socket_ptr = tx_thread_suspend_control_block th;
       new \<leftarrow> nx_udp_sockets u1 new_socket_ptr;
       s1 \<leftarrow> nx_udp_sockets u1 socket_ptr;
       let u2 = put_socket new_socket_ptr (new\<lparr>nx_udp_socket_bind_in_progress := NX_NULL,
                  nx_udp_socket_bind_suspension_list := nx_udp_socket_bind_suspension_list s1\<rparr>) u1;
       s2 \<leftarrow> nx_udp_sockets u2 socket_ptr;
       let u3 = put_socket socket_ptr (s2\<lparr>nx_udp_socket_bind_suspension_list := NX_NULL\<rparr>) u2;
       u4 \<leftarrow> nx_udp_link_bound False index new_socket_ptr u3;
       Some (udp_call Tx_thread_system_preempt_check (udp_call (Tx_thread_system_resume thread_ptr)
         (udp_preempt_disable (put_udp_thread thread_ptr
            (th\<lparr>tx_thread_suspend_cleanup := TX_NO_CLEANUP, tx_thread_suspend_status := NX_SUCCESS\<rparr>) u4))))
     }
   }"

definition nx_udp_socket_unbind :: "nat \<Rightarrow> nx_udp \<Rightarrow> (nx_status \<times> nx_udp) option" where
  "nx_udp_socket_unbind socket_ptr u = do {
     s \<leftarrow> nx_udp_sockets u socket_ptr;
     l \<leftarrow> nx_udp_bound_links u socket_ptr;
     if link_next l = NX_NULL
     then if nx_udp_socket_bind_in_progress s \<noteq> NX_NULL
          then do {
            u' \<leftarrow> nx_udp_bind_cleanup (nx_udp_socket_bind_in_progress s) u;
            Some (NX_SUCCESS, u')
          }
          else Some (NX_NOT_BOUND, u)
     else do {
       let index = nx_udp_port_index (nx_udp_socket_port s);
       u1 \<leftarrow> nx_udp_unlink_bound index socket_ptr u;
       u2 \<leftarrow> nx_udp_clear_receive socket_ptr u1;
       u3 \<leftarrow> nx_udp_hand_over index socket_ptr u2;
       Some (NX_SUCCESS, u3)
     }
   }"

end
