(* ===== verification/Nx_Udp_Table.thy ===== *)
theory Nx_Udp_Table imports Nx_Udp_Port begin

text \<open>
  The table of bound UDP sockets: every bucket is a ring of sockets whose ports hash to it, and
  exactly the sockets on a ring are bound. The search of a bucket, the test of a port, linking
  and unlinking a socket are described over the lists of the rings, and the test of a port
  interprets the contract of the port search.
\<close>

section \<open>Writes to the state\<close>

lemma udp_simps [simp]:
  "nx_udp_sockets (put_socket a s u) = (nx_udp_sockets u)(a \<mapsto> s)"
  "nx_udp_bound_links (put_socket a s u) = nx_udp_bound_links u"
  "nx_ip_udp_port_table (put_socket a s u) = nx_ip_udp_port_table u"
  "tx_suspended_links (put_socket a s u) = tx_suspended_links u"
  "nx_udp_mem (put_socket a s u) = nx_udp_mem u"
  "nx_udp_sockets (put_udp_thread t th u) = nx_udp_sockets u"
  "nx_udp_bound_links (put_udp_thread t th u) = nx_udp_bound_links u"
  "nx_ip_udp_port_table (put_udp_thread t th u) = nx_ip_udp_port_table u"
  "tx_suspended_links (put_udp_thread t th u) = tx_suspended_links u"
  "nx_udp_sockets (udp_preempt_disable u) = nx_udp_sockets u"
  "nx_udp_bound_links (udp_preempt_disable u) = nx_udp_bound_links u"
  "nx_ip_udp_port_table (udp_preempt_disable u) = nx_ip_udp_port_table u"
  "tx_suspended_links (udp_preempt_disable u) = tx_suspended_links u"
  "nx_udp_sockets (udp_call c u) = nx_udp_sockets u"
  "nx_udp_bound_links (udp_call c u) = nx_udp_bound_links u"
  "nx_ip_udp_port_table (udp_call c u) = nx_ip_udp_port_table u"
  "tx_suspended_links (udp_call c u) = tx_suspended_links u"
  by (simp_all add: put_socket_def put_udp_thread_def udp_preempt_disable_def udp_call_def)

lemma udp_thread_simps [simp]:
  "udp_thread (put_socket a s u) = udp_thread u"
  "udp_thread (put_udp_thread t th u) = (udp_thread u)(t \<mapsto> th)"
  "udp_thread (udp_preempt_disable u) = udp_thread u"
  "udp_thread (udp_call c u) = udp_thread u"
  "udp_thread (u\<lparr>nx_udp_bound_links := L\<rparr>) = udp_thread u"
  "udp_thread (u\<lparr>nx_ip_udp_port_table := pt\<rparr>) = udp_thread u"
  "udp_thread (u\<lparr>tx_suspended_links := T\<rparr>) = udp_thread u"
  by (simp_all add: put_socket_def put_udp_thread_def udp_preempt_disable_def udp_call_def udp_thread_def)

section \<open>The table\<close>

definition bucket_ok :: "nx_udp \<Rightarrow> nat \<Rightarrow> nat list \<Rightarrow> bool" where
  "bucket_ok u i xs \<longleftrightarrow>
     (xs = [] \<and> nx_ip_udp_port_table u ! i = 0 \<or>
      ring (nx_udp_bound_links u) xs \<and> nx_ip_udp_port_table u ! i = hd xs) \<and>
     (\<forall>a \<in> set xs. \<exists>s. nx_udp_sockets u a = Some s \<and> nx_udp_port_index (nx_udp_socket_port s) = i)"

text \<open>\<open>F i\<close> is the ring of bucket \<open>i\<close> from its head on.\<close>

definition udp_table_ok :: "nx_udp \<Rightarrow> (nat \<Rightarrow> nat list) \<Rightarrow> bool" where
  "udp_table_ok u F \<longleftrightarrow>
     length (nx_ip_udp_port_table u) = NX_UDP_PORT_TABLE_SIZE \<and>
     (\<forall>i < NX_UDP_PORT_TABLE_SIZE. bucket_ok u i (F i)) \<and> (\<forall>i \<ge> NX_UDP_PORT_TABLE_SIZE. F i = []) \<and>
     dom (nx_udp_bound_links u) = dom (nx_udp_sockets u) \<and> 0 \<notin> dom (nx_udp_sockets u) \<and>
     (\<forall>a l. nx_udp_bound_links u a = Some l \<longrightarrow> (link_next l = 0 \<longleftrightarrow> (\<forall>i. a \<notin> set (F i))))"

definition udp_bound :: "nx_udp \<Rightarrow> nat \<Rightarrow> bool" where
  "udp_bound u a \<longleftrightarrow> (\<exists>l. nx_udp_bound_links u a = Some l \<and> link_next l \<noteq> 0)"

text \<open>What the table promises: the port each bound socket holds.\<close>

definition udp_ports :: "nx_udp \<Rightarrow> nat \<Rightarrow> nat option" where
  "udp_ports u a = (if udp_bound u a then map_option nx_udp_socket_port (nx_udp_sockets u a) else None)"

lemma nx_udp_port_index_less [simp]: "nx_udp_port_index p < 32"
  by (simp add: nx_udp_port_index_def)

lemma bucket_okD:
  assumes "udp_table_ok u F"
  shows "i < 32 \<Longrightarrow> bucket_ok u i (F i)"
    and "a \<in> set (F i) \<Longrightarrow> i < 32 \<and> (\<exists>s. nx_udp_sockets u a = Some s \<and> nx_udp_port_index (nx_udp_socket_port s) = i)"
proof -
  show bucket: "i < 32 \<Longrightarrow> bucket_ok u i (F i)" using assms by (simp add: udp_table_ok_def)
  assume a: "a \<in> set (F i)"
  have "i < 32"
  proof (rule ccontr)
    assume "\<not> i < 32"
    then have "F i = []" using assms by (simp add: udp_table_ok_def)
    then show False using a by simp
  qed
  then show "i < 32 \<and> (\<exists>s. nx_udp_sockets u a = Some s \<and> nx_udp_port_index (nx_udp_socket_port s) = i)"
    using bucket a by (auto simp: bucket_ok_def)
qed

lemma bucket_ring: "udp_table_ok u F \<Longrightarrow> F i \<noteq> [] \<Longrightarrow> ring (nx_udp_bound_links u) (F i) \<and> nx_ip_udp_port_table u ! i = hd (F i)"
proof -
  assume ok: "udp_table_ok u F" and ne: "F i \<noteq> []"
  have "i < 32" using ok ne by (meson udp_table_ok_def not_le)
  then show ?thesis using bucket_okD(1) [OF ok] ne by (auto simp: bucket_ok_def)
qed

lemma bucket_empty:
  assumes "udp_table_ok u F" "i < 32"
  shows "F i = [] \<longleftrightarrow> nx_ip_udp_port_table u ! i = 0"
proof (cases "F i = []")
  case True
  then show ?thesis using bucket_okD(1) [OF assms] by (auto simp: bucket_ok_def ring_def)
next
  case False
  then show ?thesis using bucket_ring [OF assms(1) False] ringD(4) by auto
qed

lemma udp_socket_links:
  assumes "udp_table_ok u F" "nx_udp_sockets u a = Some s"
  obtains l where "nx_udp_bound_links u a = Some l" "a \<noteq> 0"
proof -
  have "a \<in> dom (nx_udp_bound_links u)" "0 \<notin> dom (nx_udp_sockets u)" using assms by (auto simp: udp_table_ok_def)
  then show ?thesis using that assms(2) by (cases "a = 0") auto
qed

text \<open>The buckets are disjoint, and a socket is bound if it is in the bucket of its port.\<close>

lemma bucket_of:
  assumes "udp_table_ok u F" "a \<in> set (F i)" "nx_udp_sockets u a = Some s"
  shows "i = nx_udp_port_index (nx_udp_socket_port s)"
  using bucket_okD(2) [OF assms(1,2)] assms(3) by auto

lemma udp_bound_iff:
  assumes "udp_table_ok u F" "nx_udp_sockets u a = Some s"
  shows "udp_bound u a \<longleftrightarrow> a \<in> set (F (nx_udp_port_index (nx_udp_socket_port s)))"
proof -
  obtain l where l: "nx_udp_bound_links u a = Some l"
    using udp_socket_links [OF assms] by blast
  have "link_next l = 0 \<longleftrightarrow> (\<forall>i. a \<notin> set (F i))" using assms(1) l by (simp add: udp_table_ok_def)
  then show ?thesis using l bucket_of [OF assms(1) _ assms(2)] by (auto simp: udp_bound_def)
qed

lemma udp_bound_bucket:
  assumes "udp_table_ok u F"
  shows "udp_bound u a \<longleftrightarrow> (\<exists>i. a \<in> set (F i))"
proof (cases "nx_udp_sockets u a")
  case None
  have "dom (nx_udp_bound_links u) = dom (nx_udp_sockets u)" using assms by (simp add: udp_table_ok_def)
  then have "nx_udp_bound_links u a = None" using None by blast
  then show ?thesis using None bucket_okD(2) [OF assms, of a] by (auto simp: udp_bound_def)
next
  case (Some s)
  then show ?thesis using udp_bound_iff [OF assms Some] bucket_of [OF assms _ Some] by blast
qed

lemma udp_ports_iff:
  assumes "udp_table_ok u F"
  shows "udp_ports u a = Some p \<longleftrightarrow>
     (\<exists>s. nx_udp_sockets u a = Some s \<and> nx_udp_socket_port s = p \<and> a \<in> set (F (nx_udp_port_index p)))"
  using udp_bound_iff [OF assms] by (auto simp: udp_ports_def)

section \<open>Searching a bucket\<close>

definition holder :: "nx_udp \<Rightarrow> (nat \<Rightarrow> nat list) \<Rightarrow> nat \<Rightarrow> nat option" where
  "holder u F port = find (\<lambda>a. map_option nx_udp_socket_port (nx_udp_sockets u a) = Some port) (F (nx_udp_port_index port))"

lemma nx_udp_port_find_eq:
  assumes "udp_table_ok u F"
  shows "nx_udp_port_find u port = Some (case holder u F port of Some a \<Rightarrow> a
     | None \<Rightarrow> nx_ip_udp_port_table u ! nx_udp_port_index port)"
proof (cases "F (nx_udp_port_index port) = []")
  case True
  then show ?thesis
    using bucket_empty [OF assms, of "nx_udp_port_index port"] by (simp add: nx_udp_port_find_def holder_def)
next
  case False
  note R = bucket_ring [OF assms False]
  have hit: "udp_holds u port a = Some (map_option nx_udp_socket_port (nx_udp_sockets u a) = Some port)"
    if "a \<in> set (F (nx_udp_port_index port))" for a
    using bucket_okD(2) [OF assms that] by (auto simp: udp_holds_def)
  have "ring_search (udp_holds u port) (nx_udp_bound_links u) (hd (F (nx_udp_port_index port))) (hd (F (nx_udp_port_index port))) =
      Some (case holder u F port of Some x \<Rightarrow> x | None \<Rightarrow> hd (F (nx_udp_port_index port)))"
    unfolding holder_def by (rule ring_search_ok) (use R hit in auto)
  moreover have "hd (F (nx_udp_port_index port)) \<noteq> 0" using R ringD(4) by blast
  ultimately show ?thesis using R by (simp add: nx_udp_port_find_def split: option.splits)
qed

lemma holder_some:
  assumes "holder u F port = Some a"
  shows "\<exists>s. a \<in> set (F (nx_udp_port_index port)) \<and> nx_udp_sockets u a = Some s \<and> nx_udp_socket_port s = port"
  using assms by (auto simp: holder_def find_Some_iff)

lemma holder_none:
  assumes "udp_table_ok u F"
  shows "holder u F port = None \<longleftrightarrow> (\<forall>a. udp_ports u a \<noteq> Some port)"
  using udp_ports_iff [OF assms] by (auto simp: holder_def find_None_iff)

definition udp_taken :: "nx_udp \<Rightarrow> nat set" where
  "udp_taken u = {p. \<exists>a. udp_ports u a = Some p}"

lemma nx_udp_port_bound_eq:
  assumes "udp_table_ok u F"
  shows "nx_udp_port_bound u port = Some (port \<in> udp_taken u)"
proof (cases "holder u F port")
  case (Some a)
  from holder_some [OF this] obtain s where s: "a \<in> set (F (nx_udp_port_index port))"
    "nx_udp_sockets u a = Some s" "nx_udp_socket_port s = port" by auto
  have "a \<noteq> 0" using udp_socket_links [OF assms s(2)] by blast
  then show ?thesis
    using nx_udp_port_find_eq [OF assms, of port] Some s udp_ports_iff [OF assms, of a port]
    by (auto simp: nx_udp_port_bound_def udp_holds_def udp_taken_def)
next
  case None
  define h where "h = nx_ip_udp_port_table u ! nx_udp_port_index port"
  have none: "port \<notin> udp_taken u" using None holder_none [OF assms] by (auto simp: udp_taken_def)
  have "h \<noteq> 0 \<Longrightarrow> udp_holds u port h = Some False"
  proof -
    assume "h \<noteq> 0"
    then have ne: "F (nx_udp_port_index port) \<noteq> []" using bucket_empty [OF assms] by (auto simp: h_def)
    then have "h \<in> set (F (nx_udp_port_index port))" using bucket_ring [OF assms ne] by (simp add: h_def)
    then show ?thesis using None bucket_okD(2) [OF assms] by (fastforce simp: holder_def find_None_iff udp_holds_def)
  qed
  then show ?thesis using nx_udp_port_find_eq [OF assms, of port] None none by (simp add: nx_udp_port_bound_def h_def)
qed

interpretation udp_space: port_space nx_udp_port_bound udp_taken "\<lambda>u. \<exists>F. udp_table_ok u F"
  by unfold_locales (auto intro: nx_udp_port_bound_eq)

section \<open>Linking and unlinking\<close>

text \<open>Writes to a socket that keep its port, and to the port of an unbound socket.\<close>

lemma udp_table_ok_put_socket:
  assumes "udp_table_ok u F" "nx_udp_sockets u a = Some s"
    and "nx_udp_socket_port s' = nx_udp_socket_port s \<or> \<not> udp_bound u a"
  shows "udp_table_ok (put_socket a s' u) F"
proof -
  have "bucket_ok (put_socket a s' u) i (F i)" if "i < 32" for i
  proof -
    have "a \<in> set (F i) \<Longrightarrow> nx_udp_socket_port s' = nx_udp_socket_port s"
      using assms(3) udp_bound_iff [OF assms(1,2)] bucket_of [OF assms(1) _ assms(2)] by blast
    then show ?thesis using bucket_okD(1) [OF assms(1) that] assms(2) by (auto simp: bucket_ok_def)
  qed
  then show ?thesis using assms(1,2) by (auto simp: udp_table_ok_def)
qed

lemma udp_table_ok_cong:
  assumes "nx_udp_sockets u' = nx_udp_sockets u" "nx_udp_bound_links u' = nx_udp_bound_links u"
    and "nx_ip_udp_port_table u' = nx_ip_udp_port_table u"
  shows "udp_table_ok u' F = udp_table_ok u F" "udp_bound u' a = udp_bound u a" "udp_ports u' a = udp_ports u a"
proof -
  show "udp_table_ok u' F = udp_table_ok u F" using assms by (simp add: udp_table_ok_def bucket_ok_def)
  show bound: "udp_bound u' a = udp_bound u a" using assms by (simp add: udp_bound_def)
  show "udp_ports u' a = udp_ports u a" unfolding udp_ports_def bound assms(1) ..
qed

text \<open>Replacing the ring of one bucket.\<close>

lemma udp_table_ok_bucket:
  assumes "udp_table_ok u F" "i < 32" "dom L' = dom (nx_udp_bound_links u)"
    and "ys = [] \<and> h = 0 \<or> ring L' ys \<and> hd ys = h"
    and "\<And>b. b \<notin> set ys \<Longrightarrow> b \<notin> set (F i) \<Longrightarrow> L' b = nx_udp_bound_links u b"
    and "\<And>b. b \<in> set ys \<Longrightarrow> \<exists>s. nx_udp_sockets u b = Some s \<and> nx_udp_port_index (nx_udp_socket_port s) = i"
    and "\<And>b. b \<in> set (F i) \<Longrightarrow> b \<notin> set ys \<Longrightarrow> \<exists>l. L' b = Some l \<and> link_next l = 0"
  shows "udp_table_ok (u\<lparr>nx_udp_bound_links := L', nx_ip_udp_port_table := (nx_ip_udp_port_table u)[i := h]\<rparr>) (F(i := ys))"
proof -
  define u' where "u' = u\<lparr>nx_udp_bound_links := L', nx_ip_udp_port_table := (nx_ip_udp_port_table u)[i := h]\<rparr>"
  have len: "length (nx_ip_udp_port_table u) = 32" using assms(1) by (simp add: udp_table_ok_def)
  have disj: "b \<notin> set ys" if "b \<in> set (F j)" "j \<noteq> i" for b j
    using assms(6) [of b] bucket_okD(2) [OF assms(1) that(1)] that(2) by auto
  have same: "L' b = nx_udp_bound_links u b" if "b \<in> set (F j)" "j \<noteq> i" for b j
  proof -
    have "b \<notin> set (F i)" using bucket_okD(2) [OF assms(1), of b i] bucket_okD(2) [OF assms(1), of b j] that by auto
    then show ?thesis using assms(5) disj [OF that] by blast
  qed
  have "bucket_ok u' j ((F(i := ys)) j)" if j: "j < 32" for j
  proof (cases "j = i")
    case True
    then show ?thesis using assms(2,4,6) len by (auto simp: bucket_ok_def u'_def)
  next
    case False
    have "ring L' (F j) = ring (nx_udp_bound_links u) (F j)" using same False by (intro ring_cong) auto
    then show ?thesis using bucket_okD(1) [OF assms(1) j] False by (auto simp: bucket_ok_def u'_def)
  qed
  moreover have "link_next l = 0 \<longleftrightarrow> (\<forall>j. b \<notin> set ((F(i := ys)) j))" if l: "L' b = Some l" for b l
  proof (cases "b \<in> set ys")
    case True
    then have "ring L' ys" using assms(4) by auto
    then have "link_next l \<noteq> 0" using ring_next_nonzero True l by blast
    then show ?thesis using True by (auto intro!: exI [of _ i])
  next
    case False
    show ?thesis
    proof (cases "b \<in> set (F i)")
      case True
      then have "b \<notin> set ((F(i := ys)) j)" for j
        using False bucket_okD(2) [OF assms(1), of b i] bucket_okD(2) [OF assms(1), of b j] by auto
      then show ?thesis using assms(7) [OF True False] l by auto
    next
      case nF: False
      have "link_next l = 0 \<longleftrightarrow> (\<forall>j. b \<notin> set (F j))"
        using assms(1) assms(5) [OF False nF] l by (simp add: udp_table_ok_def)
      then show ?thesis using False nF by auto
    qed
  qed
  ultimately have "udp_table_ok u' (F(i := ys))"
    using assms(1,2,3) len by (simp add: udp_table_ok_def u'_def)
  then show ?thesis by (simp add: u'_def)
qed

definition bucket_with :: "bool \<Rightarrow> nat \<Rightarrow> nat list \<Rightarrow> nat list" where
  "bucket_with first a xs = (if first then a # xs else xs @ [a])"

lemma nx_udp_link_bound_ok:
  assumes "udp_table_ok u F" "nx_udp_sockets u a = Some s" "\<not> udp_bound u a" "i = nx_udp_port_index (nx_udp_socket_port s)"
  obtains L pt where "nx_udp_link_bound first i a u = Some (u\<lparr>nx_udp_bound_links := L, nx_ip_udp_port_table := pt\<rparr>)"
    "udp_table_ok (u\<lparr>nx_udp_bound_links := L, nx_ip_udp_port_table := pt\<rparr>) (F(i := bucket_with first a (F i)))"
    "\<And>b. b \<noteq> a \<Longrightarrow> b \<notin> set (F i) \<Longrightarrow> L b = nx_udp_bound_links u b"
proof -
  define h where "h = nx_ip_udp_port_table u ! i"
  have i: "i < 32" by (simp add: assms(4))
  have fresh: "a \<notin> set (F i)" using assms(3) udp_bound_iff [OF assms(1,2)] by (simp add: assms(4))
  obtain l where l: "nx_udp_bound_links u a = Some l" "a \<noteq> 0" by (rule udp_socket_links [OF assms(1,2)])
  have mem: "\<exists>s. nx_udp_sockets u b = Some s \<and> nx_udp_port_index (nx_udp_socket_port s) = i"
    if "b \<in> set (bucket_with first a (F i))" for b
    using that assms(2,4) bucket_okD(2) [OF assms(1), of b i] by (auto simp: bucket_with_def split: if_splits)
  show ?thesis
  proof (cases "F i = []")
    case True
    then have h: "nx_ip_udp_port_table u ! i = 0" using bucket_empty [OF assms(1) i] by simp
    define L where "L = (nx_udp_bound_links u)(a \<mapsto> \<lparr>link_next = a, link_previous = a\<rparr>)"
    note R = ring_single_ok [where L = "nx_udp_bound_links u", OF l, folded L_def]
    have "bucket_with first a (F i) = [a]" by (simp add: bucket_with_def True)
    moreover have "udp_table_ok (u\<lparr>nx_udp_bound_links := L, nx_ip_udp_port_table := (nx_ip_udp_port_table u)[i := a]\<rparr>) (F(i := [a]))"
      by (rule udp_table_ok_bucket [OF assms(1) i])
        (use R(2) True mem l calculation in \<open>auto simp: L_def\<close>)
    ultimately show ?thesis using that [where L = L and pt = "(nx_ip_udp_port_table u)[i := a]"] R(1) h by (simp add: nx_udp_link_bound_def L_def)
  next
    case False
    note B = bucket_ring [OF assms(1) False]
    obtain L where L: "ring_link_last a (hd (F i)) (nx_udp_bound_links u) = Some L" "ring L (F i @ [a])"
      "\<And>b. b \<noteq> a \<Longrightarrow> b \<notin> set (F i) \<Longrightarrow> L b = nx_udp_bound_links u b" "dom L = dom (nx_udp_bound_links u)"
      by (rule ring_link_last_ok [OF conjunct1 [OF B] fresh l(2,1)]) blast
    have R: "ring L (bucket_with first a (F i))"
      using L(2) ring_rotate [of L "F i" "[a]"] by (auto simp: bucket_with_def)
    define h' where "h' = (if first then a else hd (F i))"
    have "udp_table_ok (u\<lparr>nx_udp_bound_links := L, nx_ip_udp_port_table := (nx_ip_udp_port_table u)[i := h']\<rparr>)
        (F(i := bucket_with first a (F i)))"
    proof (rule udp_table_ok_bucket [OF assms(1) i L(4)])
      show "bucket_with first a (F i) = [] \<and> h' = 0 \<or> ring L (bucket_with first a (F i)) \<and> hd (bucket_with first a (F i)) = h'"
        using R False by (auto simp: bucket_with_def h'_def)
    qed (use L(3) mem in \<open>auto simp: bucket_with_def split: if_splits\<close>)
    moreover have "(nx_ip_udp_port_table u)[i := h'] = (if first then (nx_ip_udp_port_table u)[i := a] else nx_ip_udp_port_table u)"
      using B list_update_id [of "nx_ip_udp_port_table u" i] by (auto simp: h'_def)
    moreover have "hd (F i) \<noteq> 0" using B ringD(4) by blast
    ultimately show ?thesis
      using that [where L = L and pt = "(nx_ip_udp_port_table u)[i := h']"] L(1,3) B by (simp add: nx_udp_link_bound_def)
  qed
qed

lemma nx_udp_unlink_bound_ok:
  assumes "udp_table_ok u F" "nx_udp_sockets u a = Some s" "udp_bound u a" "i = nx_udp_port_index (nx_udp_socket_port s)"
  obtains L pt where "nx_udp_unlink_bound i a u = Some (u\<lparr>nx_udp_bound_links := L, nx_ip_udp_port_table := pt\<rparr>)"
    "udp_table_ok (u\<lparr>nx_udp_bound_links := L, nx_ip_udp_port_table := pt\<rparr>) (F(i := remove1 a (F i)))"
    "\<And>b. b \<notin> set (F i) \<Longrightarrow> L b = nx_udp_bound_links u b"
proof -
  have i: "i < 32" by (simp add: assms(4))
  have mem: "a \<in> set (F i)" using assms(3) udp_bound_iff [OF assms(1,2)] by (simp add: assms(4))
  then have ne: "F i \<noteq> []" by auto
  note B = bucket_ring [OF assms(1) ne]
  have dist: "distinct (F i)" using B ringD(2) by blast
  obtain l where l: "nx_udp_bound_links u a = Some l" "link_next l = a \<longleftrightarrow> F i = [a]"
    using ring_mem [OF conjunct1 [OF B] mem] by metis
  have sock: "\<exists>s. nx_udp_sockets u b = Some s \<and> nx_udp_port_index (nx_udp_socket_port s) = i"
    if "b \<in> set (remove1 a (F i))" for b
    using that bucket_okD(2) [OF assms(1), of b i] notin_set_remove1 [of b "F i" a] by blast
  show ?thesis
  proof (cases "F i = [a]")
    case True
    define L where "L = (nx_udp_bound_links u)(a \<mapsto> l\<lparr>link_next := 0\<rparr>)"
    have "udp_table_ok (u\<lparr>nx_udp_bound_links := L, nx_ip_udp_port_table := (nx_ip_udp_port_table u)[i := 0]\<rparr>) (F(i := []))"
      by (rule udp_table_ok_bucket [OF assms(1) i]) (use True l(1) in \<open>auto simp: L_def\<close>)
    then show ?thesis
      using that [where L = L and pt = "(nx_ip_udp_port_table u)[i := 0]"] True l
      by (simp add: nx_udp_unlink_bound_def set_next_def L_def)
  next
    case False
    obtain us vs where split: "F i = us @ a # vs" using mem by (auto simp: in_set_conv_decomp)
    have rem: "remove1 a (F i) = us @ vs" using dist by (simp add: split remove1_append)
    have ne2: "us @ vs \<noteq> []" using False split by auto
    obtain L1 where L1: "ring_unlink a (nx_udp_bound_links u) = Some L1" "ring L1 (us @ vs)" "L1 a = nx_udp_bound_links u a"
      "\<And>b. b \<notin> set (us @ vs) \<Longrightarrow> L1 b = nx_udp_bound_links u b" "dom L1 = dom (nx_udp_bound_links u)"
      by (rule ring_unlink_ok [OF conjunct1 [OF B, unfolded split] ne2]) blast
    define L where "L = L1(a \<mapsto> l\<lparr>link_next := 0\<rparr>)"
    have notin: "a \<notin> set (us @ vs)" using dist by (simp add: split)
    have "ring L (us @ vs) = ring L1 (us @ vs)" by (rule ring_cong) (use notin in \<open>auto simp: L_def\<close>)
    then have R: "ring L (us @ vs)" using L1(2) by simp
    have next_: "us = [] \<Longrightarrow> link_next l = hd vs"
      using ring_neighbours(1) [OF conjunct1 [OF B, unfolded split]] l(1) ne2 by (cases vs) (auto simp: linked_to_def)
    define h' where "h' = (if nx_ip_udp_port_table u ! i = a then link_next l else nx_ip_udp_port_table u ! i)"
    have "hd (us @ vs) = h'"
      using B next_ notin by (cases us) (auto simp: split h'_def)
    then have "udp_table_ok (u\<lparr>nx_udp_bound_links := L, nx_ip_udp_port_table := (nx_ip_udp_port_table u)[i := h']\<rparr>) (F(i := us @ vs))"
      by (intro udp_table_ok_bucket [OF assms(1) i])
        (use R L1(4,5) l(1) sock [unfolded rem] notin in \<open>auto simp: L_def split\<close>)
    moreover have "L b = nx_udp_bound_links u b" if "b \<notin> set (F i)" for b
      using that L1(4) [of b] by (auto simp: L_def split)
    ultimately show ?thesis
      using that [where L = L and pt = "(nx_ip_udp_port_table u)[i := h']"] False l L1(1,3) rem
      by (auto simp: nx_udp_unlink_bound_def set_next_def L_def h'_def)
  qed
qed

end
