(* ===== verification/Nx_Udp_Inv.thy ===== *)
theory Nx_Udp_Inv imports Nx_Udp_Table begin

text \<open>
  The services on the table of bound UDP sockets: what bind does for a free, a shared and a
  busy port, and the invariant that ties waiting threads to the sockets they wait for, which
  holds as long as no second thread waits for the same port.
\<close>

section \<open>The port map under the table operations\<close>

lemma udp_bound_ports: "udp_table_ok u F \<Longrightarrow> nx_udp_sockets u a = Some s \<Longrightarrow> udp_bound u a \<longleftrightarrow> udp_ports u a \<noteq> None"
  by (simp add: udp_ports_def)

lemma udp_ports_put_socket:
  assumes "nx_udp_sockets u a = Some s" "nx_udp_socket_port s' = nx_udp_socket_port s \<or> \<not> udp_bound u a"
  shows "udp_ports (put_socket a s' u) = udp_ports u" "udp_bound (put_socket a s' u) = udp_bound u"
proof -
  show bound: "udp_bound (put_socket a s' u) = udp_bound u" by (simp add: udp_bound_def fun_eq_iff)
  show "udp_ports (put_socket a s' u) = udp_ports u"
    using assms unfolding udp_ports_def bound by (auto simp: fun_eq_iff)
qed

lemma udp_ports_bucket:
  assumes "udp_table_ok u F" "udp_table_ok u' F'" "nx_udp_sockets u' = nx_udp_sockets u"
    and "nx_udp_sockets u a = Some s" "\<And>b. b \<noteq> a \<Longrightarrow> (\<forall>i. b \<in> set (F' i) \<longleftrightarrow> b \<in> set (F i))"
  shows "udp_ports u' = (udp_ports u)(a := if a \<in> set (F' (nx_udp_port_index (nx_udp_socket_port s))) then Some (nx_udp_socket_port s) else None)"
proof
  fix b
  show "udp_ports u' b = ((udp_ports u)(a := if a \<in> set (F' (nx_udp_port_index (nx_udp_socket_port s))) then Some (nx_udp_socket_port s) else None)) b"
  proof (cases "nx_udp_sockets u b")
    case None
    then show ?thesis using assms(3,4) by (auto simp: udp_ports_def)
  next
    case (Some sb)
    have "udp_bound u' b \<longleftrightarrow> b \<in> set (F' (nx_udp_port_index (nx_udp_socket_port sb)))"
      using udp_bound_iff [OF assms(2)] Some assms(3) by simp
    moreover have "udp_bound u b \<longleftrightarrow> b \<in> set (F (nx_udp_port_index (nx_udp_socket_port sb)))"
      using udp_bound_iff [OF assms(1) Some] .
    ultimately show ?thesis using assms(3,4,5) Some by (auto simp: udp_ports_def)
  qed
qed

section \<open>Bind without waiting\<close>

lemma holder_put_socket:
  assumes "udp_table_ok u F" "nx_udp_sockets u a = Some s" "\<not> udp_bound u a"
  shows "holder (put_socket a s' u) F port = holder u F port"
proof -
  have "a \<notin> set (F i)" for i
    using assms(3) udp_bound_iff [OF assms(1,2)] bucket_of [OF assms(1) _ assms(2)] by blast
  then show ?thesis unfolding holder_def by (intro find_cong) auto
qed

definition shared_with :: "nx_udp \<Rightarrow> nat option \<Rightarrow> nx_udp_socket \<Rightarrow> bool" where
  "shared_with u h s \<longleftrightarrow> (case h of None \<Rightarrow> True | Some b \<Rightarrow>
     (case nx_udp_sockets u b of None \<Rightarrow> False | Some f \<Rightarrow> nx_udp_socket_share f \<noteq> 0 \<and> nx_udp_socket_share s \<noteq> 0))"

definition udp_other_unchanged :: "nat \<Rightarrow> nx_udp \<Rightarrow> nx_udp \<Rightarrow> bool" where
  "udp_other_unchanged a u u' \<longleftrightarrow> tx_suspended_links u' = tx_suspended_links u \<and> nx_udp_mem u' = nx_udp_mem u \<and>
     (\<forall>b. b \<noteq> a \<longrightarrow> nx_udp_sockets u' b = nx_udp_sockets u b \<and>
        (\<not> udp_bound u b \<longrightarrow> nx_udp_bound_links u' b = nx_udp_bound_links u b))"

lemma nx_udp_bind_at_free:
  assumes "udp_table_ok u F" "nx_udp_sockets u a = Some s" "\<not> udp_bound u a" "shared_with u (holder u F port) s"
  obtains u' F' where "nx_udp_bind_at S a s port w u = Some (NX_SUCCESS, u')" "udp_table_ok u' F'"
    "udp_ports u' = (udp_ports u)(a \<mapsto> port)" "nx_udp_sockets u' a = Some (s\<lparr>nx_udp_socket_port := port\<rparr>)"
    "udp_other_unchanged a u u'"
proof -
  define s' where "s' = s\<lparr>nx_udp_socket_port := port\<rparr>"
  define u1 where "u1 = put_socket a s' u"
  define i where "i = nx_udp_port_index port"
  have ok1: "udp_table_ok u1 F" unfolding u1_def by (rule udp_table_ok_put_socket [OF assms(1,2)]) (simp add: assms(3))
  have a1: "nx_udp_sockets u1 a = Some s'" by (simp add: u1_def)
  have p1: "udp_ports u1 = udp_ports u" "udp_bound u1 = udp_bound u"
    unfolding u1_def using udp_ports_put_socket [OF assms(2)] assms(3) by blast+
  have h1: "holder u1 F port = holder u F port" unfolding u1_def by (rule holder_put_socket [OF assms(1-3)])
  have fresh: "a \<notin> set (F j)" for j
    using assms(3) udp_bound_iff [OF assms(1,2)] bucket_of [OF assms(1) _ assms(2)] by blast
  define first where "first = (nx_udp_socket_share s = NX_UDP_SOCKET_SHARE_FIRST)"
  obtain L pt where link: "nx_udp_link_bound first i a u1 = Some (u1\<lparr>nx_udp_bound_links := L, nx_ip_udp_port_table := pt\<rparr>)"
    "udp_table_ok (u1\<lparr>nx_udp_bound_links := L, nx_ip_udp_port_table := pt\<rparr>) (F(i := bucket_with first a (F i)))"
    "\<And>b. b \<noteq> a \<Longrightarrow> b \<notin> set (F i) \<Longrightarrow> L b = nx_udp_bound_links u1 b"
    by (rule nx_udp_link_bound_ok [OF ok1 a1, of i]) (auto simp: p1 assms(3) s'_def i_def)
  define u' where "u' = u1\<lparr>nx_udp_bound_links := L, nx_ip_udp_port_table := pt\<rparr>"
  have "nx_udp_bind_at S a s port w u = Some (NX_SUCCESS, u')"
  proof (cases "holder u F port")
    case None
    have none: "nx_udp_socket_port f \<noteq> port" if "nx_udp_sockets u1 b = Some f" "b = nx_ip_udp_port_table u1 ! i" "b \<noteq> 0" for b f
    proof -
      have "F i \<noteq> []" using bucket_empty [OF ok1, of i] that(2,3) by (auto simp: i_def)
      then have "b \<in> set (F i)" using bucket_ring [OF ok1] that(2) by simp
      moreover have "\<forall>x \<in> set (F i). map_option nx_udp_socket_port (nx_udp_sockets u1 x) \<noteq> Some port"
        using None [folded h1] unfolding holder_def find_None_iff i_def by blast
      ultimately show ?thesis using that(1) by force
    qed
    have sock: "\<exists>f. nx_udp_sockets u1 b = Some f" if "b = nx_ip_udp_port_table u1 ! i" "b \<noteq> 0" for b
    proof -
      have "F i \<noteq> []" using bucket_empty [OF ok1, of i] that by (auto simp: i_def)
      then have "b \<in> set (F i)" using bucket_ring [OF ok1] that(1) by simp
      then show ?thesis using bucket_okD(2) [OF ok1] by blast
    qed
    have "nx_udp_port_find u1 port = Some (nx_ip_udp_port_table u1 ! i)"
      using nx_udp_port_find_eq [OF ok1, of port] None h1 by (simp add: i_def)
    then show ?thesis
      using none sock link(1)
      by (cases "nx_ip_udp_port_table u1 ! i = 0")
        (auto simp: nx_udp_bind_at_def u1_def [symmetric] s'_def [symmetric] u'_def first_def i_def)
  next
    case (Some b)
    then obtain f where f: "nx_udp_sockets u b = Some f" "nx_udp_socket_share f \<noteq> 0" "nx_udp_socket_share s \<noteq> 0"
      using assms(4) by (auto simp: shared_with_def split: option.splits)
    have "b \<noteq> a" using holder_some [OF Some] fresh by auto
    moreover have "b \<noteq> 0" using udp_socket_links [OF assms(1) f(1)] by blast
    moreover have "nx_udp_port_find u1 port = Some b" using nx_udp_port_find_eq [OF ok1, of port] Some h1 by simp
    ultimately show ?thesis
      using f link(1)
      by (simp add: nx_udp_bind_at_def u1_def [symmetric] s'_def [symmetric] u'_def first_def i_def, simp add: u1_def)
  qed
  moreover have "udp_ports u' = (udp_ports u1)(a := if a \<in> set ((F(i := bucket_with first a (F i))) (nx_udp_port_index (nx_udp_socket_port s')))
      then Some (nx_udp_socket_port s') else None)"
    by (rule udp_ports_bucket [OF ok1 link(2) [folded u'_def] _ a1]) (auto simp: u'_def bucket_with_def)
  then have "udp_ports u' = (udp_ports u)(a \<mapsto> port)" by (simp add: p1 s'_def i_def bucket_with_def)
  moreover have "udp_other_unchanged a u u'"
  proof -
    have "L b = nx_udp_bound_links u b" if "b \<noteq> a" "\<not> udp_bound u b" for b
    proof -
      have "b \<notin> set (F i)"
      proof
        assume b: "b \<in> set (F i)"
        then obtain sb where "nx_udp_sockets u b = Some sb" "nx_udp_port_index (nx_udp_socket_port sb) = i"
          using bucket_okD(2) [OF assms(1)] by blast
        then show False using b that(2) udp_bound_iff [OF assms(1)] by blast
      qed
      then show ?thesis using link(3) [OF that(1)] by (simp add: u1_def)
    qed
    then show ?thesis by (simp add: udp_other_unchanged_def u'_def u1_def)
  qed
  ultimately show ?thesis using that link(2) by (simp add: u'_def u1_def s'_def)
qed

lemma nx_udp_bind_at_busy:
  assumes "udp_table_ok u F" "nx_udp_sockets u a = Some s" "\<not> udp_bound u a" "\<not> shared_with u (holder u F port) s"
  obtains b f where "holder u F port = Some b" "nx_udp_sockets u b = Some f" "nx_udp_socket_port f = port"
    "udp_bound u b" "b \<noteq> a"
    "nx_udp_bind_at S a s port w u = (let u1 = put_socket a (s\<lparr>nx_udp_socket_port := port\<rparr>) u in
       if w = 0 then Some (NX_PORT_UNAVAILABLE, u1)
       else do { (t, u2) \<leftarrow> nx_udp_bind_suspend a b w u1; th \<leftarrow> udp_thread (S t u2) t; Some (tx_thread_suspend_status th, S t u2) })"
proof -
  define u1 where "u1 = put_socket a (s\<lparr>nx_udp_socket_port := port\<rparr>) u"
  obtain b where b: "holder u F port = Some b" using assms(4) by (auto simp: shared_with_def split: option.splits)
  from holder_some [OF this] obtain f where f: "b \<in> set (F (nx_udp_port_index port))" "nx_udp_sockets u b = Some f"
    "nx_udp_socket_port f = port" by blast
  have bound: "udp_bound u b" using udp_bound_iff [OF assms(1) f(2)] f by simp
  then have ab: "b \<noteq> a" using assms(3) by auto
  have ok1: "udp_table_ok u1 F" unfolding u1_def by (rule udp_table_ok_put_socket [OF assms(1,2)]) (simp add: assms(3))
  have "nx_udp_port_find u1 port = Some b"
    using nx_udp_port_find_eq [OF ok1, of port] b holder_put_socket [OF assms(1-3)] by (simp add: u1_def)
  moreover have "b \<noteq> 0" using udp_socket_links [OF assms(1) f(2)] by blast
  moreover have "nx_udp_socket_share f = 0 \<or> nx_udp_socket_share s = 0" using assms(4) b f(2) by (auto simp: shared_with_def)
  ultimately have "nx_udp_bind_at S a s port w u =
       (if w = 0 then Some (NX_PORT_UNAVAILABLE, u1)
       else do { (t, u2) \<leftarrow> nx_udp_bind_suspend a b w u1; th \<leftarrow> udp_thread (S t u2) t; Some (tx_thread_suspend_status th, S t u2) })"
    using f ab by (auto simp: nx_udp_bind_at_def u1_def [symmetric] Let_def) (simp_all add: u1_def Let_def)
  then show ?thesis using that b f bound ab by (simp add: u1_def Let_def)
qed

end
