(* ===== verification/Nx_Udp_Wait.thy ===== *)
theory Nx_Udp_Wait imports Nx_Udp_Port begin

text \<open>
  Threads that wait for a UDP port. \<open>W a\<close> is the list of threads that wait for the socket \<open>a\<close>
  to give up its port, from the head of its suspension list on. The consistency of the
  lists with the sockets and the thread control blocks is a predicate on the parts of the state it
  reads, and one lemma per change that the services make says that it is kept.
\<close>

section \<open>Consistency of the waits\<close>

text \<open>No packet is queued at the socket and no thread waits for one: the receive side of a socket
  is not part of the histories considered here.\<close>

definition socket_quiet :: "nx_udp_socket \<Rightarrow> bool" where
  "socket_quiet s \<longleftrightarrow> nx_udp_socket_id s = NX_UDP_ID \<and> nx_udp_socket_receive_count s = 0 \<and>
     nx_udp_socket_receive_suspended_count s = 0"

definition thread_list_ok :: "nx_links \<Rightarrow> nat list \<Rightarrow> nat \<Rightarrow> bool" where
  "thread_list_ok T ts head \<longleftrightarrow> ts = [] \<and> head = 0 \<or> ring T ts \<and> hd ts = head"

text \<open>Thread \<open>t\<close> waits with socket \<open>a\<close> for the port of \<open>own\<close>.\<close>

definition waits_for ::
    "(nat \<rightharpoonup> nx_udp_socket) \<Rightarrow> (nat \<Rightarrow> bool) \<Rightarrow> (nat \<rightharpoonup> tx_thread) \<Rightarrow> nat \<Rightarrow> nat \<Rightarrow> nat \<Rightarrow> bool" where
  "waits_for S B H own t a \<longleftrightarrow> (\<exists>so s th. S own = Some so \<and> S a = Some s \<and> H t = Some th \<and>
     tx_thread_suspend_cleanup th = NX_UDP_BIND_CLEANUP \<and> tx_thread_suspend_control_block th = a \<and>
     nx_udp_socket_bind_in_progress s = t \<and> nx_udp_socket_port s = nx_udp_socket_port so \<and> B own \<and> \<not> B a)"


definition waits_ok ::
    "(nat \<rightharpoonup> nx_udp_socket) \<Rightarrow> (nat \<Rightarrow> bool) \<Rightarrow> nx_links \<Rightarrow> (nat \<rightharpoonup> tx_thread) \<Rightarrow> (nat \<Rightarrow> nat list) \<Rightarrow> bool" where
  "waits_ok S B T H W \<longleftrightarrow>
     dom T = dom H \<and> 0 \<notin> dom H \<and>
     (\<forall>a s. S a = Some s \<longrightarrow> socket_quiet s \<and> thread_list_ok T (W a) (nx_udp_socket_bind_suspension_list s)) \<and>
     (\<forall>own t. t \<in> set (W own) \<longrightarrow> (\<exists>a. waits_for S B H own t a)) \<and>
     (\<forall>own own' t. t \<in> set (W own) \<longrightarrow> t \<in> set (W own') \<longrightarrow> own = own') \<and>
     (\<forall>a s. S a = Some s \<longrightarrow> nx_udp_socket_bind_in_progress s \<noteq> 0 \<longrightarrow>
        (\<exists>own. nx_udp_socket_bind_in_progress s \<in> set (W own) \<and> waits_for S B H own (nx_udp_socket_bind_in_progress s) a)) \<and>
     (\<forall>t th. H t = Some th \<longrightarrow> tx_thread_suspend_cleanup th = NX_UDP_BIND_CLEANUP \<longrightarrow> (\<exists>own. t \<in> set (W own)))"

lemma waits_okD:
  assumes "waits_ok S B T H W"
  shows "dom T = dom H" "0 \<notin> dom H"
    and "S a = Some s \<Longrightarrow> socket_quiet s"
    and "S a = Some s \<Longrightarrow> thread_list_ok T (W a) (nx_udp_socket_bind_suspension_list s)"
    and "t \<in> set (W own) \<Longrightarrow> \<exists>a. waits_for S B H own t a"
    and "t \<in> set (W own) \<Longrightarrow> t \<in> set (W own') \<Longrightarrow> own = own'"
    and "S a = Some s \<Longrightarrow> nx_udp_socket_bind_in_progress s \<noteq> 0 \<Longrightarrow>
        \<exists>own. nx_udp_socket_bind_in_progress s \<in> set (W own) \<and> waits_for S B H own (nx_udp_socket_bind_in_progress s) a"
    and "H t = Some th \<Longrightarrow> tx_thread_suspend_cleanup th = NX_UDP_BIND_CLEANUP \<Longrightarrow> \<exists>own. t \<in> set (W own)"
  using assms unfolding waits_ok_def by blast+

lemma waits_owner:
  assumes "waits_ok S B T H W" "W own \<noteq> []"
  shows "B own \<and> (\<exists>so. S own = Some so)"
  using waits_okD(5) [OF assms(1), of "hd (W own)" own] assms(2) by (auto simp: waits_for_def)

lemma waits_thread_nonzero: "waits_ok S B T H W \<Longrightarrow> waits_for S B H own t a \<Longrightarrow> t \<noteq> 0"
  using waits_okD(2) unfolding waits_for_def by fastforce

lemma thread_list_cong:
  "(\<And>t. t \<in> set ts \<Longrightarrow> T' t = T t) \<Longrightarrow> thread_list_ok T' ts h = thread_list_ok T ts h"
  unfolding thread_list_ok_def using ring_cong by metis

lemma thread_list_cases:
  assumes "thread_list_ok T ts h"
  shows "ts = [] \<longleftrightarrow> h = 0" "ts \<noteq> [] \<Longrightarrow> ring T ts \<and> hd ts = h"
proof -
  show "ts \<noteq> [] \<Longrightarrow> ring T ts \<and> hd ts = h" using assms by (simp add: thread_list_ok_def)
  show "ts = [] \<longleftrightarrow> h = 0" using assms ringD(1,4) [of T ts] by (auto simp: thread_list_ok_def)
qed

lemma thread_list_distinct: "thread_list_ok T ts h \<Longrightarrow> distinct ts"
  by (auto simp: thread_list_ok_def ring_def)

section \<open>Changes that keep the consistency\<close>

text \<open>A socket that is neither bound nor waiting gets a port, or is bound.\<close>

lemma waits_ok_idle:
  assumes "waits_ok S B T H W" "S a = Some s" "\<not> B a" "nx_udp_socket_bind_in_progress s = 0"
    and "nx_udp_socket_bind_in_progress s' = 0" "nx_udp_socket_bind_suspension_list s' = nx_udp_socket_bind_suspension_list s"
    and "socket_quiet s'"
  shows "waits_ok (S(a \<mapsto> s')) (B(a := x)) T H W"
proof -
  have Wa: "W a = []" using waits_owner [OF assms(1), of a] assms(3) by blast
  have keep: "waits_for (S(a \<mapsto> s')) (B(a := x)) H own t b" if "waits_for S B H own t b" for own t b
  proof -
    have "t \<noteq> 0" by (rule waits_thread_nonzero [OF assms(1) that])
    then have "own \<noteq> a" "b \<noteq> a" using that assms(2-4) by (auto simp: waits_for_def)
    then show ?thesis using that by (auto simp: waits_for_def)
  qed
  show ?thesis
    unfolding waits_ok_def
  proof (intro conjI allI impI)
    fix b sb assume "(S(a \<mapsto> s')) b = Some sb"
    then show "socket_quiet sb" "thread_list_ok T (W b) (nx_udp_socket_bind_suspension_list sb)"
      using waits_okD(3,4) [OF assms(1), of b] assms(2,6,7) by (auto split: if_splits)
  next
    fix own t assume "t \<in> set (W own)"
    then show "\<exists>b. waits_for (S(a \<mapsto> s')) (B(a := x)) H own t b" using waits_okD(5) [OF assms(1)] keep by blast
  next
    fix b sb assume "(S(a \<mapsto> s')) b = Some sb" "nx_udp_socket_bind_in_progress sb \<noteq> 0"
    then have "S b = Some sb" "nx_udp_socket_bind_in_progress sb \<noteq> 0" using assms(5) by (auto split: if_splits)
    then show "\<exists>own. nx_udp_socket_bind_in_progress sb \<in> set (W own) \<and>
        waits_for (S(a \<mapsto> s')) (B(a := x)) H own (nx_udp_socket_bind_in_progress sb) b"
      using waits_okD(7) [OF assms(1)] keep by blast
  qed (use waits_okD(1,2,6,8) [OF assms(1)] in blast)+
qed

text \<open>Fields that the waits do not depend on.\<close>

lemma waits_ok_touch:
  assumes "waits_ok S B T H W" "S a = Some s" "nx_udp_socket_port s' = nx_udp_socket_port s"
    and "nx_udp_socket_bind_in_progress s' = nx_udp_socket_bind_in_progress s"
    and "nx_udp_socket_bind_suspension_list s' = nx_udp_socket_bind_suspension_list s" "socket_quiet s'"
  shows "waits_ok (S(a \<mapsto> s')) B T H W"
proof -
  have keep: "waits_for (S(a \<mapsto> s')) B H own t b" if "waits_for S B H own t b" for own t b
    using that assms(2-4) unfolding waits_for_def by (cases "own = a"; cases "b = a") auto
  show ?thesis
    unfolding waits_ok_def
  proof (intro conjI allI impI)
    fix b sb assume "(S(a \<mapsto> s')) b = Some sb"
    then show "socket_quiet sb" "thread_list_ok T (W b) (nx_udp_socket_bind_suspension_list sb)"
      using waits_okD(3,4) [OF assms(1), of b] assms(2,5,6) by (auto split: if_splits)
  next
    fix own t assume "t \<in> set (W own)"
    then show "\<exists>b. waits_for (S(a \<mapsto> s')) B H own t b" using waits_okD(5) [OF assms(1)] keep by blast
  next
    fix b sb assume b: "(S(a \<mapsto> s')) b = Some sb" "nx_udp_socket_bind_in_progress sb \<noteq> 0"
    obtain sb0 where "S b = Some sb0" "nx_udp_socket_bind_in_progress sb0 = nx_udp_socket_bind_in_progress sb"
      using b(1) assms(2,4) by (cases "b = a") auto
    then show "\<exists>own. nx_udp_socket_bind_in_progress sb \<in> set (W own) \<and>
        waits_for (S(a \<mapsto> s')) B H own (nx_udp_socket_bind_in_progress sb) b"
      using waits_okD(7) [OF assms(1), of b sb0] keep b(2) by auto
  qed (use waits_okD(1,2,6,8) [OF assms(1)] in blast)+
qed

text \<open>A bound socket without waiting threads is unbound.\<close>

lemma waits_ok_unbound:
  assumes "waits_ok S B T H W" "S a = Some s" "B a" "W a = []"
    and "nx_udp_socket_bind_in_progress s' = 0" "nx_udp_socket_bind_suspension_list s' = nx_udp_socket_bind_suspension_list s"
    and "socket_quiet s'"
  shows "waits_ok (S(a \<mapsto> s')) (B(a := False)) T H W"
proof -
  have keep: "waits_for (S(a \<mapsto> s')) (B(a := False)) H own t b" if "waits_for S B H own t b" "t \<in> set (W own)" for own t b
  proof -
    have "own \<noteq> a" "b \<noteq> a" using that assms(3,4) by (auto simp: waits_for_def)
    then show ?thesis using that(1) by (auto simp: waits_for_def)
  qed
  show ?thesis
    unfolding waits_ok_def
  proof (intro conjI allI impI)
    fix b sb assume "(S(a \<mapsto> s')) b = Some sb"
    then show "socket_quiet sb" "thread_list_ok T (W b) (nx_udp_socket_bind_suspension_list sb)"
      using waits_okD(3,4) [OF assms(1), of b] assms(2,6,7) by (auto split: if_splits)
  next
    fix own t assume "t \<in> set (W own)"
    then show "\<exists>b. waits_for (S(a \<mapsto> s')) (B(a := False)) H own t b" using waits_okD(5) [OF assms(1)] keep by blast
  next
    fix b sb assume "(S(a \<mapsto> s')) b = Some sb" "nx_udp_socket_bind_in_progress sb \<noteq> 0"
    then have "S b = Some sb" "nx_udp_socket_bind_in_progress sb \<noteq> 0" using assms(5) by (auto split: if_splits)
    then show "\<exists>own. nx_udp_socket_bind_in_progress sb \<in> set (W own) \<and>
        waits_for (S(a \<mapsto> s')) (B(a := False)) H own (nx_udp_socket_bind_in_progress sb) b"
      using waits_okD(7) [OF assms(1)] keep by blast
  qed (use waits_okD(1,2,6,8) [OF assms(1)] in blast)+
qed

text \<open>A thread starts to wait.\<close>

lemma waits_ok_suspend:
  assumes "waits_ok S B T H W" "S a = Some s" "\<not> B a" "nx_udp_socket_bind_in_progress s = 0"
    and "S b = Some f" "B b" "nx_udp_socket_port f = nx_udp_socket_port s"
    and "H t = Some th" "tx_thread_suspend_cleanup th = TX_NO_CLEANUP"
    and "tx_thread_suspend_cleanup th' = NX_UDP_BIND_CLEANUP" "tx_thread_suspend_control_block th' = a"
    and "dom T' = dom T" "ring T' (W b @ [t])" "\<And>x. x \<noteq> t \<Longrightarrow> x \<notin> set (W b) \<Longrightarrow> T' x = T x"
    and "f' = f\<lparr>nx_udp_socket_bind_suspension_list := hd (W b @ [t]), nx_udp_socket_bind_suspended_count := c\<rparr>"
  shows "waits_ok (S(a \<mapsto> s\<lparr>nx_udp_socket_bind_in_progress := t\<rparr>, b \<mapsto> f')) B T' (H(t \<mapsto> th')) (W(b := W b @ [t]))"
proof -
  have ab: "a \<noteq> b" using assms(3,6) by auto
  have new: "t \<notin> set (W own)" for own
    using waits_okD(5) [OF assms(1)] assms(8,9) by (fastforce simp: waits_for_def)
  define S' where "S' = S(a \<mapsto> s\<lparr>nx_udp_socket_bind_in_progress := t\<rparr>, b \<mapsto> f')"
  have keep: "waits_for S' B (H(t \<mapsto> th')) own x d" if "waits_for S B H own x d" "x \<in> set (W own)" for own x d
  proof -
    have "x \<noteq> 0" by (rule waits_thread_nonzero [OF assms(1) that(1)])
    then have "own \<noteq> a" "d \<noteq> a" using that(1) assms(2-4) by (auto simp: waits_for_def)
    moreover have "x \<noteq> t" using that(2) new by auto
    ultimately show ?thesis using that(1) assms(5,15) ab by (auto simp: waits_for_def S'_def)
  qed
  have waits: "waits_for S' B (H(t \<mapsto> th')) b t a"
    using assms(3,6,7,10,11,15) ab by (auto simp: waits_for_def S'_def)
  have lists: "thread_list_ok T' (W own) h = thread_list_ok T (W own) h" if "own \<noteq> b" for own h
  proof (rule thread_list_cong)
    fix x assume x: "x \<in> set (W own)"
    have "x \<notin> set (W b)" using waits_okD(6) [OF assms(1) x] that by blast
    then show "T' x = T x" using assms(14) [of x] new x by blast
  qed
  have "waits_ok S' B T' (H(t \<mapsto> th')) (W(b := W b @ [t]))"
    unfolding waits_ok_def
  proof (intro conjI allI impI)
    fix d sd assume d: "S' d = Some sd"
    show "socket_quiet sd"
      using d waits_okD(3) [OF assms(1)] assms(2,5,15) by (auto simp: S'_def socket_quiet_def split: if_splits)
    have "Wd = W d \<Longrightarrow> d \<noteq> b \<Longrightarrow> thread_list_ok T' Wd (nx_udp_socket_bind_suspension_list sd)" for Wd
      using d lists waits_okD(4) [OF assms(1), of d] assms(2) by (auto simp: S'_def split: if_splits)
    moreover have "d = b \<Longrightarrow> sd = f'" using d by (simp add: S'_def)
    ultimately show "thread_list_ok T' ((W(b := W b @ [t])) d) (nx_udp_socket_bind_suspension_list sd)"
      using assms(13,15) by (simp add: thread_list_ok_def)
  next
    fix own x assume "x \<in> set ((W(b := W b @ [t])) own)"
    then show "\<exists>d. waits_for S' B (H(t \<mapsto> th')) own x d"
      using waits keep waits_okD(5) [OF assms(1), of x own] by (auto split: if_splits)
  next
    fix own own' x assume "x \<in> set ((W(b := W b @ [t])) own)" "x \<in> set ((W(b := W b @ [t])) own')"
    then show "own = own'" using new waits_okD(6) [OF assms(1), of x] by (auto split: if_splits)
  next
    fix d sd assume d: "S' d = Some sd" "nx_udp_socket_bind_in_progress sd \<noteq> 0"
    show "\<exists>own. nx_udp_socket_bind_in_progress sd \<in> set ((W(b := W b @ [t])) own) \<and>
        waits_for S' B (H(t \<mapsto> th')) own (nx_udp_socket_bind_in_progress sd) d"
    proof (cases "d = a")
      case True
      then have "nx_udp_socket_bind_in_progress sd = t" using d ab by (auto simp: S'_def)
      then show ?thesis using True waits by (intro exI [of _ b]) simp
    next
      case False
      then obtain sd0 where sd0: "S d = Some sd0" "nx_udp_socket_bind_in_progress sd0 = nx_udp_socket_bind_in_progress sd"
        using d assms(5,15) by (cases "d = b") (auto simp: S'_def)
      then obtain own where "nx_udp_socket_bind_in_progress sd \<in> set (W own)"
        "waits_for S B H own (nx_udp_socket_bind_in_progress sd) d"
        using waits_okD(7) [OF assms(1), of d sd0] d(2) by auto
      then show ?thesis using keep by (intro exI [of _ own]) auto
    qed
  next
    fix x thx assume x: "(H(t \<mapsto> th')) x = Some thx" "tx_thread_suspend_cleanup thx = NX_UDP_BIND_CLEANUP"
    show "\<exists>own. x \<in> set ((W(b := W b @ [t])) own)"
    proof (cases "x = t")
      case True
      then show ?thesis by (intro exI [of _ b]) simp
    next
      case False
      then obtain own where "x \<in> set (W own)" using x waits_okD(8) [OF assms(1), of x thx] by auto
      then show ?thesis by (intro exI [of _ own]) auto
    qed
  qed (use assms(8,12) waits_okD(1,2) [OF assms(1)] in auto)
  then show ?thesis by (simp add: S'_def)
qed

text \<open>A thread stops waiting.\<close>

lemma waits_ok_remove:
  assumes "waits_ok S B T H W" "W own = us @ t # vs" "waits_for S B H own t a" "S a = Some s" "S own = Some so" "H t = Some th"
    and "tx_thread_suspend_cleanup th' \<noteq> NX_UDP_BIND_CLEANUP" "dom T' = dom T"
    and "us @ vs \<noteq> [] \<Longrightarrow> ring T' (vs @ us)" "\<And>x. x \<notin> set (us @ vs) \<Longrightarrow> T' x = T x"
    and "so' = so\<lparr>nx_udp_socket_bind_suspension_list := (if us @ vs = [] then 0 else hd (vs @ us)), nx_udp_socket_bind_suspended_count := c\<rparr>"
  shows "waits_ok (S(a \<mapsto> s\<lparr>nx_udp_socket_bind_in_progress := 0\<rparr>, own \<mapsto> so')) B T' (H(t \<mapsto> th')) (W(own := vs @ us))"
proof -
  define S' where "S' = S(a \<mapsto> s\<lparr>nx_udp_socket_bind_in_progress := 0\<rparr>, own \<mapsto> so')"
  have ab: "a \<noteq> own" "B own" "\<not> B a" "nx_udp_socket_bind_in_progress s = t" using assms(3,4) by (auto simp: waits_for_def)
  have dist: "distinct (us @ t # vs)" using waits_okD(4) [OF assms(1,5)] assms(2) thread_list_distinct by metis
  have t_only: "t \<in> set (W o') \<Longrightarrow> o' = own" for o' using waits_okD(6) [OF assms(1), of t o' own] assms(2) by simp
  have mem: "x \<in> set ((W(own := vs @ us)) o') \<longleftrightarrow> x \<in> set (W o') \<and> x \<noteq> t" for x o'
    using dist t_only assms(2) by auto
  have keep: "waits_for S' B (H(t \<mapsto> th')) o' x d" if "waits_for S B H o' x d" "x \<noteq> t" for o' x d
  proof -
    have "d \<noteq> a" "o' \<noteq> a" using that ab assms(4) by (auto simp: waits_for_def)
    then show ?thesis using that ab assms(5,11) by (auto simp: waits_for_def S'_def)
  qed
  have lists: "thread_list_ok T' (W o') h = thread_list_ok T (W o') h" if "o' \<noteq> own" for o' h
  proof (rule thread_list_cong)
    fix x assume x: "x \<in> set (W o')"
    have "x \<notin> set (W own)" using waits_okD(6) [OF assms(1) x] that by blast
    then show "T' x = T x" using assms(2,10) by simp
  qed
  have "waits_ok S' B T' (H(t \<mapsto> th')) (W(own := vs @ us))"
    unfolding waits_ok_def
  proof (intro conjI allI impI)
    fix d sd assume d: "S' d = Some sd"
    show "socket_quiet sd"
      using d waits_okD(3) [OF assms(1)] assms(4,5,11) by (auto simp: S'_def socket_quiet_def split: if_splits)
    have "d \<noteq> own \<Longrightarrow> thread_list_ok T' (W d) (nx_udp_socket_bind_suspension_list sd)"
      using d lists waits_okD(4) [OF assms(1), of d] assms(4) by (auto simp: S'_def split: if_splits)
    moreover have "d = own \<Longrightarrow> sd = so'" using d by (simp add: S'_def)
    ultimately show "thread_list_ok T' ((W(own := vs @ us)) d) (nx_udp_socket_bind_suspension_list sd)"
      using assms(9,11) by (auto simp: thread_list_ok_def)
  next
    fix o' x assume "x \<in> set ((W(own := vs @ us)) o')"
    then have "x \<in> set (W o')" "x \<noteq> t" using mem by auto
    then show "\<exists>d. waits_for S' B (H(t \<mapsto> th')) o' x d" using keep waits_okD(5) [OF assms(1)] by blast
  next
    fix o1 o2 x assume "x \<in> set ((W(own := vs @ us)) o1)" "x \<in> set ((W(own := vs @ us)) o2)"
    then show "o1 = o2" unfolding mem using waits_okD(6) [OF assms(1)] by blast
  next
    fix d sd assume d: "S' d = Some sd" "nx_udp_socket_bind_in_progress sd \<noteq> 0"
    have "d \<noteq> a" using d ab by (auto simp: S'_def)
    then obtain sd0 where sd0: "S d = Some sd0" "nx_udp_socket_bind_in_progress sd0 = nx_udp_socket_bind_in_progress sd"
      using d assms(5,11) by (cases "d = own") (auto simp: S'_def)
    then obtain o' where o': "nx_udp_socket_bind_in_progress sd \<in> set (W o')"
      "waits_for S B H o' (nx_udp_socket_bind_in_progress sd) d"
      using waits_okD(7) [OF assms(1), of d sd0] d(2) by auto
    have "nx_udp_socket_bind_in_progress sd \<noteq> t" using o'(2) assms(3) \<open>d \<noteq> a\<close> by (auto simp: waits_for_def)
    then show "\<exists>o'. nx_udp_socket_bind_in_progress sd \<in> set ((W(own := vs @ us)) o') \<and>
        waits_for S' B (H(t \<mapsto> th')) o' (nx_udp_socket_bind_in_progress sd) d"
      unfolding mem using o' keep by blast
  next
    fix x thx assume x: "(H(t \<mapsto> th')) x = Some thx" "tx_thread_suspend_cleanup thx = NX_UDP_BIND_CLEANUP"
    then have "x \<noteq> t" using assms(7) by auto
    then show "\<exists>o'. x \<in> set ((W(own := vs @ us)) o')" unfolding mem using x waits_okD(8) [OF assms(1)] by auto
  qed (use assms(6,8) waits_okD(1,2) [OF assms(1)] in auto)
  then show ?thesis by (simp add: S'_def)
qed

text \<open>The threads that wait for a bound socket pass to an idle socket with the same port, which
  is bound in its place.\<close>

lemma waits_ok_transfer:
  assumes "waits_ok S B T H W" "S a = Some s" "B a" "S n = Some sn" "\<not> B n"
    and "nx_udp_socket_bind_in_progress sn = 0" "nx_udp_socket_bind_in_progress s = 0"
    and "nx_udp_socket_port sn = nx_udp_socket_port s"
    and "S' = S(n \<mapsto> sn\<lparr>nx_udp_socket_bind_suspension_list := nx_udp_socket_bind_suspension_list s\<rparr>,
           a \<mapsto> s\<lparr>nx_udp_socket_bind_suspension_list := 0\<rparr>)"
  shows "waits_ok S' (B(a := False, n := True)) T H (W(n := W a, a := []))"
proof -
  have an: "a \<noteq> n" using assms(3,5) by auto
  define W' where "W' = W(n := W a, a := [])"
  have Wn: "W n = []" using waits_owner [OF assms(1), of n] assms(5) by blast
  have keep: "waits_for S' (B(a := False, n := True)) H (if o' = a then n else o') x d"
    if "waits_for S B H o' x d" for o' x d
  proof -
    have "x \<noteq> 0" by (rule waits_thread_nonzero [OF assms(1) that])
    then have "d \<noteq> n" "d \<noteq> a" "o' \<noteq> n" using that assms(2-6) by (auto simp: waits_for_def)
    then show ?thesis using that assms(2,4,8) an by (auto simp: waits_for_def assms(9))
  qed
  have mem: "x \<in> set (W' o') \<longleftrightarrow> (\<exists>o1. x \<in> set (W o1) \<and> o' = (if o1 = a then n else o1))" for x o'
    using Wn an by (auto simp: W'_def)
  have "waits_ok S' (B(a := False, n := True)) T H W'"
    unfolding waits_ok_def
  proof (intro conjI allI impI)
    fix d sd assume d: "S' d = Some sd"
    show "socket_quiet sd"
      using d waits_okD(3) [OF assms(1)] assms(2,4) by (auto simp: assms(9) socket_quiet_def split: if_splits)
    show "thread_list_ok T (W' d) (nx_udp_socket_bind_suspension_list sd)"
      using d waits_okD(4) [OF assms(1), of d] waits_okD(4) [OF assms(1,2)] an
      by (auto simp: assms(9) W'_def thread_list_ok_def [of _ "[]"] split: if_splits)
  next
    fix o' x assume "x \<in> set (W' o')"
    then show "\<exists>d. waits_for S' (B(a := False, n := True)) H o' x d"
      unfolding mem using keep waits_okD(5) [OF assms(1)] by blast
  next
    fix o1 o2 x assume "x \<in> set (W' o1)" "x \<in> set (W' o2)"
    then show "o1 = o2" unfolding mem using waits_okD(6) [OF assms(1)] by metis
  next
    fix d sd assume d: "S' d = Some sd" "nx_udp_socket_bind_in_progress sd \<noteq> 0"
    then have "d \<noteq> n" "d \<noteq> a" using assms(6,7) an by (auto simp: assms(9))
    then have "S d = Some sd" using d(1) by (simp add: assms(9))
    then show "\<exists>o'. nx_udp_socket_bind_in_progress sd \<in> set (W' o') \<and>
        waits_for S' (B(a := False, n := True)) H o' (nx_udp_socket_bind_in_progress sd) d"
      unfolding mem using keep waits_okD(7) [OF assms(1), of d sd] \<open>S d = Some sd\<close> d(2) by blast
  next
    fix x thx assume "H x = Some thx" "tx_thread_suspend_cleanup thx = NX_UDP_BIND_CLEANUP"
    then show "\<exists>o'. x \<in> set (W' o')" unfolding mem using waits_okD(8) [OF assms(1)] by blast
  qed (use waits_okD(1,2) [OF assms(1)] in auto)
  then show ?thesis by (simp add: W'_def)
qed

end
