(* ===== verification/Nx_Udp_Steps.thy ===== *)
theory Nx_Udp_Steps imports Nx_Udp_Inv Nx_Udp_Wait begin

text \<open>
  The invariant of the UDP ports, the table of bound sockets together with the threads that wait
  for a port, and that bind, unbind and the clean-up of a wait keep it.
\<close>

section \<open>The invariant\<close>

text \<open>If no socket shares its port, then a port has one socket at most.\<close>

definition udp_unshared :: "nx_udp \<Rightarrow> bool" where
  "udp_unshared u \<longleftrightarrow> (\<forall>a s. nx_udp_sockets u a = Some s \<longrightarrow> nx_udp_socket_share s = 0)"

definition udp_exclusive :: "nx_udp \<Rightarrow> bool" where
  "udp_exclusive u \<longleftrightarrow> (\<forall>a b p. udp_ports u a = Some p \<longrightarrow> udp_ports u b = Some p \<longrightarrow> a = b)"

definition udp_inv :: "nx_udp \<Rightarrow> (nat \<Rightarrow> nat list) \<Rightarrow> (nat \<Rightarrow> nat list) \<Rightarrow> bool" where
  "udp_inv u F W \<longleftrightarrow> udp_table_ok u F \<and> (udp_unshared u \<longrightarrow> udp_exclusive u) \<and>
     waits_ok (nx_udp_sockets u) (udp_bound u) (tx_suspended_links u) (udp_thread u) W"

lemma udp_invD:
  assumes "udp_inv u F W"
  shows "udp_table_ok u F" "udp_unshared u \<Longrightarrow> udp_exclusive u"
    "waits_ok (nx_udp_sockets u) (udp_bound u) (tx_suspended_links u) (udp_thread u) W"
  using assms by (simp_all add: udp_inv_def)

lemma udp_bound_not_waiting:
  assumes "udp_inv u F W" "nx_udp_sockets u a = Some s" "udp_bound u a"
  shows "nx_udp_socket_bind_in_progress s = 0"
  using waits_okD(7) [OF udp_invD(3) [OF assms(1)] assms(2)] assms(3) by (auto simp: waits_for_def)

lemma udp_unshared_put:
  "nx_udp_sockets u a = Some s \<Longrightarrow> nx_udp_socket_share s' = nx_udp_socket_share s \<Longrightarrow>
     udp_unshared (put_socket a s' u) = udp_unshared u"
  by (auto simp: udp_unshared_def split: if_splits)

lemma udp_exclusive_free:
  assumes "udp_exclusive u" "\<And>b. udp_ports u b \<noteq> Some p" "udp_ports u' = (udp_ports u)(a \<mapsto> p)"
  shows "udp_exclusive u'"
  using assms by (auto simp: udp_exclusive_def split: if_splits)

lemma udp_exclusive_less:
  assumes "udp_exclusive u" "\<And>b p. udp_ports u' b = Some p \<Longrightarrow> udp_ports u b = Some p"
  shows "udp_exclusive u'"
  using assms by (auto simp: udp_exclusive_def)

section \<open>Bind\<close>

lemma udp_table_ok_previous:
  assumes "udp_table_ok u F" "\<not> udp_bound u a" "nx_udp_bound_links u a = Some l"
  shows "udp_table_ok (u\<lparr>nx_udp_bound_links := (nx_udp_bound_links u)(a \<mapsto> l\<lparr>link_previous := p\<rparr>)\<rparr>) F"
proof -
  define L where "L = (nx_udp_bound_links u)(a \<mapsto> l\<lparr>link_previous := p\<rparr>)"
  have out: "a \<notin> set (F i)" for i using assms(2) udp_bound_bucket [OF assms(1)] by blast
  then have "ring L (F i) = ring (nx_udp_bound_links u) (F i)" for i
    by (intro ring_cong) (auto simp: L_def)
  moreover have "dom L = dom (nx_udp_bound_links u)" using assms(3) by (auto simp: L_def)
  moreover have "link_next k = 0 \<longleftrightarrow> (\<forall>i. b \<notin> set (F i))" if "L b = Some k" for b k
  proof (cases "b = a")
    case True
    have "link_next l = 0 \<longleftrightarrow> (\<forall>i. a \<notin> set (F i))" using assms(1,3) by (simp add: udp_table_ok_def)
    then show ?thesis using True that by (auto simp: L_def)
  next
    case False
    then show ?thesis using that assms(1) by (simp add: L_def udp_table_ok_def)
  qed
  ultimately show ?thesis using assms(1) by (simp add: udp_table_ok_def bucket_ok_def L_def [symmetric])
qed

lemma nx_udp_bind_suspend_ok:
  assumes "udp_inv u F W" "nx_udp_sockets u a = Some s" "\<not> udp_bound u a" "nx_udp_socket_bind_in_progress s = 0"
    and "nx_udp_sockets u b = Some f" "udp_bound u b" "nx_udp_socket_port f = nx_udp_socket_port s"
    and "t = tx_thread_current_ptr (nx_udp_mem u)" "udp_thread u t = Some th" "tx_thread_suspend_cleanup th = TX_NO_CLEANUP"
  obtains u' where "nx_udp_bind_suspend a b w u = Some (t, u')" "udp_inv u' F (W(b := W b @ [t]))"
    "udp_ports u' = udp_ports u" "\<exists>th'. udp_thread u' t = Some th'"
proof -
  note inv = udp_invD [OF assms(1)]
  have ab: "a \<noteq> b" using assms(3,6) by auto
  obtain l where l: "nx_udp_bound_links u a = Some l" by (rule udp_socket_links [OF inv(1) assms(2)])
  define L where "L = (nx_udp_bound_links u)(a \<mapsto> l\<lparr>link_previous := b\<rparr>)"
  define T where "T = tx_suspended_links u"
  have t: "t \<noteq> 0" "\<exists>lt. T t = Some lt" and new: "t \<notin> set (W b)"
    using waits_okD(1,2) [OF inv(3)] waits_okD(5) [OF inv(3), of t b] assms(9,10) by (auto simp: T_def waits_for_def)
  note list = waits_okD(4) [OF inv(3) assms(5)]
  obtain T' where T': "(if nx_udp_socket_bind_suspension_list f \<noteq> NX_NULL then ring_link_last t (nx_udp_socket_bind_suspension_list f) T
      else ring_single t T) = Some T'" "ring T' (W b @ [t])" "\<And>x. x \<noteq> t \<Longrightarrow> x \<notin> set (W b) \<Longrightarrow> T' x = T x" "dom T' = dom T"
  proof (cases "W b = []")
    case True
    then have "nx_udp_socket_bind_suspension_list f = 0" using thread_list_cases [OF list] by simp
    moreover obtain lt where "T t = Some lt" using t(2) by blast
    ultimately show ?thesis
      using that [of "T(t \<mapsto> \<lparr>link_next = t, link_previous = t\<rparr>)"] ring_single_ok [of T t lt] t(1) True by auto
  next
    case False
    then have "ring T (W b)" "hd (W b) = nx_udp_socket_bind_suspension_list f" "nx_udp_socket_bind_suspension_list f \<noteq> 0"
      using thread_list_cases [OF list] by (auto simp: T_def)
    moreover obtain lt where "T t = Some lt" using t(2) by blast
    ultimately show ?thesis using that ring_link_last_ok [OF _ new t(1), of T lt] by metis
  qed
  define f' where "f' = f\<lparr>nx_udp_socket_bind_suspension_list := hd (W b @ [t]),
    nx_udp_socket_bind_suspended_count := ulong_add (nx_udp_socket_bind_suspended_count f) 1\<rparr>"
  have head: "(if nx_udp_socket_bind_suspension_list f \<noteq> NX_NULL then nx_udp_socket_bind_suspension_list f else t) = hd (W b @ [t])"
    using thread_list_cases [OF list] by (auto simp: hd_append)
  define s' where "s' = s\<lparr>nx_udp_socket_bind_in_progress := t\<rparr>"
  define th' where "th' = th\<lparr>tx_thread_suspend_cleanup := NX_UDP_BIND_CLEANUP, tx_thread_suspend_control_block := a,
     tx_thread_state := TX_TCP_IP, tx_thread_suspending := True, tx_thread_remaining_ticks := w\<rparr>"
  define u1 where "u1 = put_socket b f' (put_socket a s' (u\<lparr>nx_udp_bound_links := L\<rparr>))"
  define u' where "u' = udp_preempt_disable (put_udp_thread t th' (u1\<lparr>tx_suspended_links := T'\<rparr>))"
  have "nx_udp_bind_suspend a b w u = Some (t, u')"
    using assms(2,5,9) l ab T'(1) [unfolded T_def] head
    by (simp add: nx_udp_bind_suspend_def assms(8) [symmetric] set_previous_def L_def [symmetric] s'_def f'_def
        th'_def [symmetric] u1_def u'_def Let_def cong: if_cong split del: if_split)
  moreover have t0: "udp_table_ok (u\<lparr>nx_udp_bound_links := L\<rparr>) F"
    unfolding L_def by (rule udp_table_ok_previous [OF inv(1) assms(3) l])
  have "udp_table_ok (put_socket a s' (u\<lparr>nx_udp_bound_links := L\<rparr>)) F"
    using udp_table_ok_put_socket [OF t0, of a s s'] assms(2) by (simp add: s'_def)
  then have "udp_table_ok u1 F" unfolding u1_def
    by (rule udp_table_ok_put_socket [where s = f]) (use assms(5) ab in \<open>simp_all add: f'_def\<close>)
  then have tab: "udp_table_ok u' F"
    using udp_table_ok_cong(1) [of u' u1] by (simp add: u'_def)
  moreover have bound: "udp_bound u' = udp_bound u"
    using udp_bound_bucket [OF tab] udp_bound_bucket [OF inv(1)] by (simp add: fun_eq_iff)
  moreover have ports: "udp_ports u' = udp_ports u"
    using assms(2,5) unfolding udp_ports_def bound by (auto simp: fun_eq_iff u'_def u1_def s'_def f'_def)
  moreover have "udp_unshared u' = udp_unshared u"
    using assms(2,5) ab by (auto simp: udp_unshared_def u'_def u1_def s'_def f'_def)
  moreover have "udp_exclusive u' = udp_exclusive u" by (simp add: udp_exclusive_def ports)
  moreover have "waits_ok (nx_udp_sockets u') (udp_bound u') (tx_suspended_links u') (udp_thread u') (W(b := W b @ [t]))"
  proof -
    have "waits_ok ((nx_udp_sockets u)(a \<mapsto> s', b \<mapsto> f')) (udp_bound u) T' ((udp_thread u)(t \<mapsto> th')) (W(b := W b @ [t]))"
      unfolding s'_def
      by (rule waits_ok_suspend [OF inv(3) assms(2-7,9,10) _ _ T'(4) [unfolded T_def] T'(2) T'(3) [unfolded T_def] f'_def])
        (simp_all add: th'_def)
    then show ?thesis unfolding bound by (simp add: u'_def u1_def)
  qed
  ultimately show ?thesis using that inv(2) by (simp add: udp_inv_def u'_def)
qed

text \<open>A thread runs when no thread is suspended in the port services with its control block.\<close>

definition udp_running :: "nx_udp \<Rightarrow> bool" where
  "udp_running u \<longleftrightarrow> (\<exists>th. udp_thread u (tx_thread_current_ptr (nx_udp_mem u)) = Some th \<and> tx_thread_suspend_cleanup th = TX_NO_CLEANUP)"

lemma nx_udp_bind_at_inv:
  assumes "udp_inv u F W" "nx_udp_sockets u a = Some s" "\<not> udp_bound u a" "nx_udp_socket_bind_in_progress s = 0" "udp_running u"
  obtains st u' F' W' where "nx_udp_bind_at (\<lambda>_ u. u) a s port w u = Some (st, u')" "udp_inv u' F' W'"
proof (cases "shared_with u (holder u F port) s")
  case True
  note inv = udp_invD [OF assms(1)]
  obtain u' F' where u': "nx_udp_bind_at (\<lambda>_ u. u) a s port w u = Some (NX_SUCCESS, u')" "udp_table_ok u' F'"
    "udp_ports u' = (udp_ports u)(a \<mapsto> port)" "nx_udp_sockets u' a = Some (s\<lparr>nx_udp_socket_port := port\<rparr>)"
    "udp_other_unchanged a u u'"
    by (rule nx_udp_bind_at_free [OF inv(1) assms(2,3) True])
  have socks: "nx_udp_sockets u' = (nx_udp_sockets u)(a \<mapsto> s\<lparr>nx_udp_socket_port := port\<rparr>)"
    using u'(4,5) by (auto simp: udp_other_unchanged_def)
  have bound: "udp_bound u' = (udp_bound u)(a := True)"
  proof
    fix b
    have "udp_ports u' b \<noteq> None \<longleftrightarrow> b = a \<or> udp_ports u b \<noteq> None" using u'(3) by simp
    moreover have "udp_table_ok v G \<Longrightarrow> udp_bound v b \<longleftrightarrow> udp_ports v b \<noteq> None" for v G
    proof -
      assume "udp_table_ok v G"
      then show ?thesis using udp_bound_bucket [of v G b] bucket_okD(2) [of v G b] by (auto simp: udp_ports_def)
    qed
    ultimately show "udp_bound u' b = ((udp_bound u)(a := True)) b" using inv(1) u'(2) by auto
  qed
  have un: "udp_unshared u' = udp_unshared u" using assms(2) unfolding udp_unshared_def socks by (auto split: if_splits)
  have "udp_exclusive u'" if "udp_unshared u"
  proof (rule udp_exclusive_free [OF inv(2) _ u'(3)])
    show "udp_unshared u" by (rule that)
    have "holder u F port = None"
      using True that by (cases "holder u F port") (auto simp: shared_with_def udp_unshared_def split: option.splits)
    then show "\<And>b. udp_ports u b \<noteq> Some port" using holder_none [OF inv(1)] by blast
  qed
  moreover have "waits_ok (nx_udp_sockets u') (udp_bound u') (tx_suspended_links u') (udp_thread u') W"
    using waits_ok_idle [OF inv(3) assms(2-4), of "s\<lparr>nx_udp_socket_port := port\<rparr>" True] waits_okD(3) [OF inv(3) assms(2)] u'(5) assms(4)
    by (simp add: socks bound udp_other_unchanged_def udp_thread_def socket_quiet_def)
  ultimately have "udp_inv u' F' W" using u'(2) by (simp add: udp_inv_def un)
  then show ?thesis using that u'(1) by blast
next
  case False
  note inv = udp_invD [OF assms(1)]
  define s1 where "s1 = s\<lparr>nx_udp_socket_port := port\<rparr>"
  define u1 where "u1 = put_socket a s1 u"
  obtain b f where b: "nx_udp_sockets u b = Some f" "nx_udp_socket_port f = port" "udp_bound u b" "b \<noteq> a"
    "nx_udp_bind_at (\<lambda>_ u. u) a s port w u = (if w = 0 then Some (NX_PORT_UNAVAILABLE, u1)
       else do { (t, u2) \<leftarrow> nx_udp_bind_suspend a b w u1; th \<leftarrow> udp_thread u2 t; Some (tx_thread_suspend_status th, u2) })"
    by (rule nx_udp_bind_at_busy [OF inv(1) assms(2,3) False, of "\<lambda>_ u. u" w]) (auto simp: u1_def s1_def Let_def)
  have ports1: "udp_ports u1 = udp_ports u" "udp_bound u1 = udp_bound u"
    unfolding u1_def using udp_ports_put_socket [OF assms(2)] assms(3) by blast+
  have t1: "udp_table_ok u1 F" unfolding u1_def by (rule udp_table_ok_put_socket [OF inv(1) assms(2)]) (simp add: assms(3))
  have "waits_ok ((nx_udp_sockets u)(a \<mapsto> s1)) ((udp_bound u)(a := False)) (tx_suspended_links u) (udp_thread u) W"
    by (rule waits_ok_idle [OF inv(3) assms(2-4)])
      (use waits_okD(3) [OF inv(3) assms(2)] assms(4) in \<open>simp_all add: s1_def socket_quiet_def\<close>)
  moreover have "(udp_bound u)(a := False) = udp_bound u" using assms(3) by (simp add: fun_eq_iff)
  ultimately have "waits_ok (nx_udp_sockets u1) (udp_bound u1) (tx_suspended_links u1) (udp_thread u1) W"
    unfolding ports1 by (simp add: u1_def)
  moreover have "udp_unshared u1 = udp_unshared u"
    unfolding u1_def by (rule udp_unshared_put [OF assms(2)]) (simp add: s1_def)
  ultimately have i1: "udp_inv u1 F W" using t1 inv(2) by (simp add: udp_inv_def udp_exclusive_def ports1)
  show ?thesis
  proof (cases "w = 0")
    case True
    then show ?thesis using that b(5) i1 by simp
  next
    case wait: False
    obtain th where th: "udp_thread u (tx_thread_current_ptr (nx_udp_mem u)) = Some th" "tx_thread_suspend_cleanup th = TX_NO_CLEANUP"
      using assms(5) by (auto simp: udp_running_def)
    obtain u' where "nx_udp_bind_suspend a b w u1 = Some (tx_thread_current_ptr (nx_udp_mem u), u')"
      "udp_inv u' F (W(b := W b @ [tx_thread_current_ptr (nx_udp_mem u)]))"
      "\<exists>th'. udp_thread u' (tx_thread_current_ptr (nx_udp_mem u)) = Some th'"
      by (rule nx_udp_bind_suspend_ok [OF i1, of a s1 b f "tx_thread_current_ptr (nx_udp_mem u)" th w])
        (use b th assms(3,4) in \<open>auto simp: u1_def s1_def ports1 [unfolded u1_def s1_def]\<close>)
    then show ?thesis using that b(5) wait by auto
  qed
qed

lemma nx_udp_socket_bind_inv:
  assumes "udp_inv u F W" "nx_udp_sockets u a = Some s" "udp_running u"
  obtains st u' F' W' where "nx_udp_socket_bind (\<lambda>_ u. u) rand a port w u = Some (st, u')" "udp_inv u' F' W'"
proof -
  note inv = udp_invD [OF assms(1)]
  obtain l where l: "nx_udp_bound_links u a = Some l" by (rule udp_socket_links [OF inv(1) assms(2)])
  show ?thesis
  proof (cases "link_next l \<noteq> 0 \<or> nx_udp_socket_bind_in_progress s \<noteq> 0")
    case True
    then show ?thesis using that [of NX_ALREADY_BOUND u F W] assms(1,2) l by (auto simp: nx_udp_socket_bind_def)
  next
    case False
    then have idle: "\<not> udp_bound u a" "nx_udp_socket_bind_in_progress s = 0" using l by (auto simp: udp_bound_def)
    note at = nx_udp_bind_at_inv [OF assms(1,2) idle assms(3)]
    show ?thesis
    proof (cases "port = NX_ANY_PORT")
      case True
      have "\<exists>F. udp_table_ok u F" using inv(1) by blast
      then have "nx_udp_free_port_find u (nx_any_port_start rand) =
          search_result (find (\<lambda>q. q \<notin> udp_taken u) (port_candidates (nx_any_port_start rand)))"
        unfolding nx_udp_free_port_find_def using udp_space.search_eq nx_any_port_start_range by blast
      then show ?thesis
      proof (cases "find (\<lambda>q. q \<notin> udp_taken u) (port_candidates (nx_any_port_start rand))")
        case None
        then show ?thesis
          using that [of NX_NO_FREE_PORTS u F W] assms(1,2) l False True \<open>nx_udp_free_port_find u _ = _\<close>
          by (simp add: nx_udp_socket_bind_def search_result_def)
      next
        case (Some p)
        obtain st u' F' W' where "nx_udp_bind_at (\<lambda>_ u. u) a s p w u = Some (st, u')" "udp_inv u' F' W'"
          by (rule at)
        then show ?thesis
          using that Some assms(2) l False True \<open>nx_udp_free_port_find u _ = _\<close>
          by (simp add: nx_udp_socket_bind_def search_result_def)
      qed
    next
      case fixed: False
      obtain st u' F' W' where "nx_udp_bind_at (\<lambda>_ u. u) a s port w u = Some (st, u')" "udp_inv u' F' W'"
        by (rule at)
      then show ?thesis using that assms(2) l False fixed by (simp add: nx_udp_socket_bind_def)
    qed
  qed
qed

section \<open>The end of a wait\<close>

lemma nx_udp_unsuspend_ok:
  assumes "thread_list_ok (tx_suspended_links u) (us @ t # vs) (nx_udp_socket_bind_suspension_list own)"
    and "nx_udp_sockets u a = Some own"
  obtains T' own' where
    "nx_udp_unsuspend t a u = Some ((put_socket a own' u)\<lparr>tx_suspended_links := T'\<rparr>)"
    "own' = own\<lparr>nx_udp_socket_bind_suspension_list := (if us @ vs = [] then 0 else hd (vs @ us)),
       nx_udp_socket_bind_suspended_count := ulong_sub (nx_udp_socket_bind_suspended_count own) 1\<rparr>"
    "dom T' = dom (tx_suspended_links u)" "us @ vs \<noteq> [] \<Longrightarrow> ring T' (vs @ us)"
    "\<And>x. x \<notin> set (us @ vs) \<Longrightarrow> T' x = tx_suspended_links u x"
proof -
  define T where "T = tx_suspended_links u"
  have ring: "ring T (us @ t # vs)" using thread_list_cases(2) [OF assms(1)] by (simp add: T_def)
  obtain l where l: "T t = Some l" "link_next l = hd (vs @ us @ [t])"
    using ring_neighbours(1) [OF ring] by (auto simp: linked_to_def)
  show ?thesis
  proof (cases "us @ vs = []")
    case True
    then show ?thesis
      using that [of T "own\<lparr>nx_udp_socket_bind_suspension_list := 0,
       nx_udp_socket_bind_suspended_count := ulong_sub (nx_udp_socket_bind_suspended_count own) 1\<rparr>"] l assms(2)
      by (simp add: nx_udp_unsuspend_def T_def)
  next
    case False
    obtain T' where T': "ring_unlink t T = Some T'" "ring T' (us @ vs)"
      "\<And>x. x \<notin> set (us @ vs) \<Longrightarrow> T' x = T x" "dom T' = dom T"
      by (rule ring_unlink_ok [OF ring False]) blast
    have hd: "link_next l = hd (vs @ us)" using l(2) False by (cases vs; cases us) auto
    have "hd (vs @ us) \<in> set (vs @ us)" using False by (intro hd_in_set) auto
    then have "link_next l \<noteq> t" using hd ringD(2) [OF ring] by auto
    have "ring T' (vs @ us)" by (rule ring_rotate [OF T'(2)])
    define own' where "own' = own\<lparr>nx_udp_socket_bind_suspension_list := hd (vs @ us),
       nx_udp_socket_bind_suspended_count := ulong_sub (nx_udp_socket_bind_suspended_count own) 1\<rparr>"
    have "nx_udp_unsuspend t a u = Some ((put_socket a own' u)\<lparr>tx_suspended_links := T'\<rparr>)"
      using l(1) \<open>link_next l \<noteq> t\<close> T'(1) assms(2) by (simp add: nx_udp_unsuspend_def T_def own'_def hd)
    then show ?thesis
      by (rule that) (use False T'(3,4) \<open>ring T' (vs @ us)\<close> in \<open>auto simp: own'_def T_def\<close>)
  qed
qed

text \<open>The wait of a thread is current if the socket that the previous pointer of the waiting
  socket names has the thread on its suspension list.\<close>

definition udp_wait_current :: "nx_udp \<Rightarrow> nat \<Rightarrow> bool" where
  "udp_wait_current u t \<longleftrightarrow> (\<exists>th l own ts. udp_thread u t = Some th \<and>
     nx_udp_bound_links u (tx_thread_suspend_control_block th) = Some l \<and>
     nx_udp_sockets u (link_previous l) = Some own \<and> ring (tx_suspended_links u) ts \<and>
     hd ts = nx_udp_socket_bind_suspension_list own \<and> t \<in> set ts)"

lemma udp_wait_currentD:
  assumes "udp_inv u F W" "udp_wait_current u t"
  obtains a l s th so us vs where "udp_thread u t = Some th" "tx_thread_suspend_cleanup th = NX_UDP_BIND_CLEANUP"
    "tx_thread_suspend_control_block th = a" "nx_udp_bound_links u a = Some l" "nx_udp_sockets u a = Some s"
    "nx_udp_sockets u (link_previous l) = Some so" "W (link_previous l) = us @ t # vs"
    "waits_for (nx_udp_sockets u) (udp_bound u) (udp_thread u) (link_previous l) t a"
proof -
  note inv = udp_invD [OF assms(1)]
  from assms(2) obtain th l own ts where t: "udp_thread u t = Some th"
    "nx_udp_bound_links u (tx_thread_suspend_control_block th) = Some l" "nx_udp_sockets u (link_previous l) = Some own"
    "ring (tx_suspended_links u) ts" "hd ts = nx_udp_socket_bind_suspension_list own" "t \<in> set ts"
    unfolding udp_wait_current_def by blast
  note list = thread_list_cases [OF waits_okD(4) [OF inv(3) t(3)]]
  have "nx_udp_socket_bind_suspension_list own \<noteq> 0" using ringD(4) [OF t(4)] t(5) by simp
  then have "W (link_previous l) \<noteq> []" using list(1) by simp
  then have "ring (tx_suspended_links u) (W (link_previous l))" "hd ts \<in> set (W (link_previous l))"
    using list(2) t(5) hd_in_set [of "W (link_previous l)"] by auto
  then have mem: "t \<in> set (W (link_previous l))" using ring_subset [OF _ t(4)] t(6) by blast
  then obtain us vs where "W (link_previous l) = us @ t # vs" by (auto simp: in_set_conv_decomp)
  moreover obtain a where a: "waits_for (nx_udp_sockets u) (udp_bound u) (udp_thread u) (link_previous l) t a"
    using waits_okD(5) [OF inv(3) mem] by blast
  moreover obtain s where "tx_thread_suspend_cleanup th = NX_UDP_BIND_CLEANUP" "tx_thread_suspend_control_block th = a"
    "nx_udp_sockets u a = Some s"
    using a t(1) by (auto simp: waits_for_def)
  ultimately show ?thesis using that [of th a l s own us vs] t(1-3) by simp
qed

lemma nx_udp_bind_cleanup_inv:
  assumes "udp_inv u F W" "udp_wait_current u t"
  obtains u' W' where "nx_udp_bind_cleanup t u = Some u'" "udp_inv u' F W'"
proof -
  note inv = udp_invD [OF assms(1)]
  obtain a l s th so us vs where t: "udp_thread u t = Some th" "tx_thread_suspend_cleanup th = NX_UDP_BIND_CLEANUP"
    "tx_thread_suspend_control_block th = a" "nx_udp_bound_links u a = Some l" "nx_udp_sockets u a = Some s"
    "nx_udp_sockets u (link_previous l) = Some so" "W (link_previous l) = us @ t # vs"
    and wf: "waits_for (nx_udp_sockets u) (udp_bound u) (udp_thread u) (link_previous l) t a"
    by (rule udp_wait_currentD [OF assms]) blast
  define own where "own = link_previous l"
  have ne: "own \<noteq> a" "\<not> udp_bound u a" "udp_bound u own" using wf by (auto simp: waits_for_def own_def)
  have a0: "a \<noteq> 0" using udp_socket_links [OF inv(1) t(5)] by blast
  have id: "nx_udp_socket_id s = NX_UDP_ID" using waits_okD(3) [OF inv(3) t(5)] by (simp add: socket_quiet_def)
  define s1 where "s1 = s\<lparr>nx_udp_socket_bind_in_progress := 0\<rparr>"
  define th1 where "th1 = th\<lparr>tx_thread_suspend_cleanup := TX_NO_CLEANUP\<rparr>"
  define u1 where "u1 = put_udp_thread t th1 (put_socket a s1 u)"
  have "thread_list_ok (tx_suspended_links u1) (us @ t # vs) (nx_udp_socket_bind_suspension_list so)"
    using waits_okD(4) [OF inv(3) t(6)] t(7) by (simp add: u1_def)
  moreover have "nx_udp_sockets u1 own = Some so" using t(6) ne by (simp add: u1_def own_def)
  ultimately obtain T' so' where T': "nx_udp_unsuspend t own u1 = Some ((put_socket own so' u1)\<lparr>tx_suspended_links := T'\<rparr>)"
    "so' = so\<lparr>nx_udp_socket_bind_suspension_list := (if us @ vs = [] then 0 else hd (vs @ us)),
       nx_udp_socket_bind_suspended_count := ulong_sub (nx_udp_socket_bind_suspended_count so) 1\<rparr>"
    "dom T' = dom (tx_suspended_links u1)" "us @ vs \<noteq> [] \<Longrightarrow> ring T' (vs @ us)"
    "\<And>x. x \<notin> set (us @ vs) \<Longrightarrow> T' x = tx_suspended_links u1 x"
    by (rule nx_udp_unsuspend_ok) blast
  define u2 where "u2 = (put_socket own so' u1)\<lparr>tx_suspended_links := T'\<rparr>"
  have inv2: "udp_inv u' F (W(own := vs @ us))"
    if u': "nx_udp_sockets u' = nx_udp_sockets u2" "nx_udp_bound_links u' = nx_udp_bound_links u2"
      "nx_ip_udp_port_table u' = nx_ip_udp_port_table u2" "tx_suspended_links u' = T'"
      "udp_thread u' = (udp_thread u)(t \<mapsto> th')" "tx_thread_suspend_cleanup th' = TX_NO_CLEANUP" for u' th'
  proof -
    have "udp_table_ok (put_socket a s1 u) F" by (rule udp_table_ok_put_socket [OF inv(1) t(5)]) (simp add: s1_def)
    then have "udp_table_ok (put_socket own so' (put_socket a s1 u)) F"
      by (rule udp_table_ok_put_socket [where s = so]) (use t(6) ne in \<open>simp_all add: T'(2) own_def\<close>)
    then have tab: "udp_table_ok u' F"
      using udp_table_ok_cong(1) [of u' "put_socket own so' (put_socket a s1 u)"] u' by (simp add: u2_def u1_def)
    have bound: "udp_bound u' = udp_bound u" using udp_bound_bucket [OF tab] udp_bound_bucket [OF inv(1)] by (simp add: fun_eq_iff)
    have socks: "nx_udp_sockets u' = (nx_udp_sockets u)(a \<mapsto> s1, own \<mapsto> so')" using u'(1) by (simp add: u2_def u1_def)
    have ports: "udp_ports u' = udp_ports u"
      using t(5,6) unfolding udp_ports_def bound socks own_def by (auto simp: fun_eq_iff s1_def T'(2))
    have "udp_unshared u' = udp_unshared u"
      using t(5,6) ne(1) unfolding udp_unshared_def socks by (auto simp: s1_def T'(2) own_def split: if_splits)
    moreover have "waits_ok ((nx_udp_sockets u)(a \<mapsto> s1, own \<mapsto> so')) (udp_bound u) T' ((udp_thread u)(t \<mapsto> th')) (W(own := vs @ us))"
      unfolding s1_def
      by (rule waits_ok_remove [OF inv(3) t(7) [folded own_def] wf [folded own_def] t(5) t(6) [folded own_def] t(1) _ _ T'(4) _ T'(2)])
        (use T'(3,5) u'(6) in \<open>simp_all add: u1_def\<close>)
    ultimately show ?thesis using tab inv(2) u'(4,5) by (simp add: udp_inv_def udp_exclusive_def ports bound socks)
  qed
  show ?thesis
  proof (cases "tx_thread_state th")
    case TX_TCP_IP
    define th2 where "th2 = th1\<lparr>tx_thread_suspend_status := NX_PORT_UNAVAILABLE\<rparr>"
    define u3 where "u3 = udp_call (Tx_thread_system_resume t) (udp_preempt_disable (put_udp_thread t th2 u2))"
    have "nx_udp_bind_cleanup t u = Some u3"
      using t a0 id TX_TCP_IP T'(1)
      by (simp add: nx_udp_bind_cleanup_def u3_def u2_def th2_def th1_def [symmetric] s1_def [symmetric] u1_def [symmetric] own_def)
    moreover have "udp_inv u3 F (W(own := vs @ us))"
      by (rule inv2 [where th' = th2]) (simp_all add: u3_def u2_def u1_def th2_def th1_def)
    ultimately show ?thesis using that by blast
  next
    case TX_OTHER_STATE
    have "nx_udp_bind_cleanup t u = Some u2"
      using t a0 id TX_OTHER_STATE T'(1)
      by (simp add: nx_udp_bind_cleanup_def u2_def th1_def [symmetric] s1_def [symmetric] u1_def [symmetric] own_def)
    moreover have "udp_inv u2 F (W(own := vs @ us))"
      by (rule inv2 [where th' = th1]) (simp_all add: u2_def u1_def th1_def)
    ultimately show ?thesis using that by blast
  qed
qed

section \<open>Unbind\<close>

text \<open>What unbind does to the ports: the socket gives its port to the first thread that waits
  for it, if there is one.\<close>

lemma nx_udp_clear_receive_quiet:
  assumes "nx_udp_sockets u a = Some s" "socket_quiet s"
  shows "nx_udp_clear_receive a u = Some (put_socket a (s\<lparr>nx_udp_socket_icmp_error := NX_SUCCESS, nx_udp_socket_notify_pending := False\<rparr>) u)"
  using assms by (simp add: nx_udp_clear_receive_def socket_quiet_def)

lemma nx_udp_socket_unbind_bound_inv:
  assumes "udp_inv u F W" "nx_udp_sockets u a = Some s" "udp_bound u a"
  obtains u' F' W' where "nx_udp_socket_unbind a u = Some (NX_SUCCESS, u')" "udp_inv u' F' W'"
    "W a = [] \<Longrightarrow> udp_ports u' = (udp_ports u)(a := None)"
    "\<And>t ts th. W a = t # ts \<Longrightarrow> udp_thread u t = Some th \<Longrightarrow>
       udp_ports u' = (udp_ports u)(a := None, tx_thread_suspend_control_block th \<mapsto> nx_udp_socket_port s) \<and>
       W' = W(tx_thread_suspend_control_block th := ts, a := []) \<and>
       (\<exists>th'. udp_thread u' t = Some th' \<and> tx_thread_suspend_cleanup th' = TX_NO_CLEANUP \<and> tx_thread_suspend_status th' = NX_SUCCESS) \<and>
       tx_calls (nx_udp_mem u') = tx_calls (nx_udp_mem u) @ [Tx_thread_system_resume t, Tx_thread_system_preempt_check]"
proof -
  note inv = udp_invD [OF assms(1)]
  note quiet = waits_okD(3) [OF inv(3) assms(2)]
  define i where "i = nx_udp_port_index (nx_udp_socket_port s)"
  define p where "p = nx_udp_socket_port s"
  define s1 where "s1 = s\<lparr>nx_udp_socket_icmp_error := NX_SUCCESS, nx_udp_socket_notify_pending := False\<rparr>"
  obtain l where l: "nx_udp_bound_links u a = Some l" "link_next l \<noteq> 0" using assms(3) by (auto simp: udp_bound_def)
  obtain L pt where unlink: "nx_udp_unlink_bound i a u = Some (u\<lparr>nx_udp_bound_links := L, nx_ip_udp_port_table := pt\<rparr>)"
    "udp_table_ok (u\<lparr>nx_udp_bound_links := L, nx_ip_udp_port_table := pt\<rparr>) (F(i := remove1 a (F i)))"
    by (rule nx_udp_unlink_bound_ok [OF inv(1) assms(2,3) i_def]) blast
  define u1 where "u1 = u\<lparr>nx_udp_bound_links := L, nx_ip_udp_port_table := pt\<rparr>"
  define F1 where "F1 = F(i := remove1 a (F i))"
  have dist: "distinct (F i)" using bucket_ring [OF inv(1), of i] ringD(2) by (cases "F i = []") auto
  have mem: "b \<in> set (F1 j) \<longleftrightarrow> b \<in> set (F j) \<and> b \<noteq> a" for b j
    using dist bucket_of [OF inv(1) _ assms(2), of j] by (auto simp: F1_def i_def)
  have t1: "udp_table_ok u1 F1" using unlink(2) by (simp add: u1_def F1_def)
  have b1: "udp_bound u1 = (udp_bound u)(a := False)"
    using udp_bound_bucket [OF t1] udp_bound_bucket [OF inv(1)] by (auto simp: mem fun_eq_iff)
  have p1: "udp_ports u1 = (udp_ports u)(a := None)"
    unfolding udp_ports_def b1 by (simp add: fun_eq_iff u1_def)
  define u2 where "u2 = put_socket a s1 u1"
  have t2: "udp_table_ok u2 F1" unfolding u2_def
    by (rule udp_table_ok_put_socket [OF t1, where s = s]) (simp_all add: u1_def assms(2) s1_def)
  have b2: "udp_bound u2 = udp_bound u1" and p2: "udp_ports u2 = udp_ports u1"
    unfolding u2_def using udp_ports_put_socket [of u1 a s s1] by (simp_all add: u1_def assms(2) s1_def)
  have clear: "nx_udp_clear_receive a u1 = Some u2"
    unfolding u2_def s1_def by (rule nx_udp_clear_receive_quiet) (simp_all add: u1_def assms(2) quiet)
  have prefix: "nx_udp_socket_unbind a u = do { u3 \<leftarrow> nx_udp_hand_over i a u2; Some (NX_SUCCESS, u3) }"
    using assms(2) l unlink(1) clear by (simp add: nx_udp_socket_unbind_def i_def [symmetric] u1_def)
  have s1: "nx_udp_sockets u2 a = Some s1" by (simp add: u2_def)
  have unshared: "udp_unshared u2 = udp_unshared u"
    using assms(2) by (auto simp: u2_def u1_def s1_def udp_unshared_def)
  have idle: "nx_udp_socket_bind_in_progress s = 0" by (rule udp_bound_not_waiting [OF assms])
  have quiet1: "socket_quiet s1" using quiet by (simp add: s1_def socket_quiet_def)
  note list = thread_list_cases [OF waits_okD(4) [OF inv(3) assms(2)]]
  show ?thesis
  proof (cases "W a")
    case Nil
    then have zero: "nx_udp_socket_bind_suspension_list s = 0" using list(1) by simp
    then have run: "nx_udp_socket_unbind a u = Some (NX_SUCCESS, u2)"
      unfolding prefix using s1 by (simp add: nx_udp_hand_over_def s1_def)
    have "waits_ok ((nx_udp_sockets u)(a \<mapsto> s1)) ((udp_bound u)(a := False)) (tx_suspended_links u) (udp_thread u) W"
      by (rule waits_ok_unbound [OF inv(3) assms(2,3) Nil]) (use quiet1 idle in \<open>simp_all add: s1_def\<close>)
    then have "waits_ok (nx_udp_sockets u2) (udp_bound u2) (tx_suspended_links u2) (udp_thread u2) W"
      unfolding b2 b1 by (simp add: u2_def u1_def)
    moreover have "udp_exclusive u2" if "udp_exclusive u"
      by (rule udp_exclusive_less [OF that]) (auto simp: p2 p1 split: if_splits)
    ultimately have "udp_inv u2 F1 W" using t2 inv(2) unshared by (simp add: udp_inv_def)
    then show ?thesis by (rule that [OF run]) (simp_all add: p2 p1 Nil)
  next
    case (Cons t ts)
    obtain n where wf: "waits_for (nx_udp_sockets u) (udp_bound u) (udp_thread u) a t n"
      using waits_okD(5) [OF inv(3), of t a] Cons by auto
    then obtain th sn where t: "udp_thread u t = Some th" "tx_thread_suspend_cleanup th = NX_UDP_BIND_CLEANUP"
      "tx_thread_suspend_control_block th = n" "nx_udp_sockets u n = Some sn" "nx_udp_socket_bind_in_progress sn = t"
      "nx_udp_socket_port sn = p" "\<not> udp_bound u n"
      using assms(2) by (auto simp: waits_for_def p_def)
    have an: "a \<noteq> n" using assms(3) t(7) by auto
    have head: "nx_udp_socket_bind_suspension_list s = t" "t \<noteq> 0"
      using list Cons by auto
    define T where "T = tx_suspended_links u"
    have "thread_list_ok (tx_suspended_links u2) ([] @ t # ts) (nx_udp_socket_bind_suspension_list s1)"
      using waits_okD(4) [OF inv(3) assms(2)] Cons by (simp add: u2_def u1_def s1_def)
    then obtain T' sa where T': "nx_udp_unsuspend t a u2 = Some ((put_socket a sa u2)\<lparr>tx_suspended_links := T'\<rparr>)"
      "sa = s1\<lparr>nx_udp_socket_bind_suspension_list := (if [] @ ts = [] then 0 else hd (ts @ [])),
         nx_udp_socket_bind_suspended_count := ulong_sub (nx_udp_socket_bind_suspended_count s1) 1\<rparr>"
      "dom T' = dom (tx_suspended_links u2)" "[] @ ts \<noteq> [] \<Longrightarrow> ring T' (ts @ [])"
      "\<And>x. x \<notin> set ([] @ ts) \<Longrightarrow> T' x = tx_suspended_links u2 x"
      by (rule nx_udp_unsuspend_ok [OF _ s1]) blast
    define sn1 where "sn1 = sn\<lparr>nx_udp_socket_bind_in_progress := 0\<rparr>"
    define sn2 where "sn2 = sn1\<lparr>nx_udp_socket_bind_suspension_list := nx_udp_socket_bind_suspension_list sa\<rparr>"
    define sa2 where "sa2 = sa\<lparr>nx_udp_socket_bind_suspension_list := 0\<rparr>"
    define th' where "th' = th\<lparr>tx_thread_suspend_cleanup := TX_NO_CLEANUP, tx_thread_suspend_status := NX_SUCCESS\<rparr>"
    define u3 where "u3 = put_socket a sa2 (put_socket n sn2 ((put_socket a sa u2)\<lparr>tx_suspended_links := T'\<rparr>))"
    have "udp_table_ok (put_socket a sa u2) F1"
      by (rule udp_table_ok_put_socket [OF t2 s1]) (simp add: T'(2))
    then have "udp_table_ok ((put_socket a sa u2)\<lparr>tx_suspended_links := T'\<rparr>) F1"
      using udp_table_ok_cong(1) [of "(put_socket a sa u2)\<lparr>tx_suspended_links := T'\<rparr>" "put_socket a sa u2"] by simp
    then have "udp_table_ok (put_socket n sn2 ((put_socket a sa u2)\<lparr>tx_suspended_links := T'\<rparr>)) F1"
      by (rule udp_table_ok_put_socket [where s = sn])
        (use an t(4) in \<open>simp_all add: u2_def u1_def sn2_def sn1_def\<close>)
    then have t3: "udp_table_ok u3 F1"
      unfolding u3_def by (rule udp_table_ok_put_socket [where s = sa]) (use an in \<open>simp_all add: sa2_def\<close>)
    have b3: "udp_bound u3 = (udp_bound u)(a := False)"
      using udp_bound_bucket [OF t3] udp_bound_bucket [OF t2] by (simp add: fun_eq_iff b1 [symmetric] b2)
    have n3: "nx_udp_sockets u3 n = Some sn2" using an by (simp add: u3_def)
    have free: "\<not> udp_bound u3 n" using t(7) by (simp add: b3)
    have i2: "i = nx_udp_port_index (nx_udp_socket_port sn2)" using t(6) by (simp add: sn2_def sn1_def i_def p_def)
    obtain L2 pt2 where link: "nx_udp_link_bound False i n u3 = Some (u3\<lparr>nx_udp_bound_links := L2, nx_ip_udp_port_table := pt2\<rparr>)"
      "udp_table_ok (u3\<lparr>nx_udp_bound_links := L2, nx_ip_udp_port_table := pt2\<rparr>) (F1(i := bucket_with False n (F1 i)))"
      by (rule nx_udp_link_bound_ok [OF t3 n3 free i2]) blast
    define u4 where "u4 = u3\<lparr>nx_udp_bound_links := L2, nx_ip_udp_port_table := pt2\<rparr>"
    define F2 where "F2 = F1(i := bucket_with False n (F1 i))"
    define u' where "u' = udp_call Tx_thread_system_preempt_check (udp_call (Tx_thread_system_resume t)
       (udp_preempt_disable (put_udp_thread t th' u4)))"
    have run: "nx_udp_socket_unbind a u = Some (NX_SUCCESS, u')"
    proof -
      have tsk: "nx_udp_socket_bind_suspension_list s1 = t" using head(1) by (simp add: s1_def)
      show ?thesis
        unfolding prefix
        using s1 tsk head(2) T'(1) t(1,3,4) an link(1)
        by (simp add: nx_udp_hand_over_def u'_def u4_def u3_def u2_def u1_def sa2_def [symmetric] sn2_def sn1_def th'_def)
    qed
    have t4: "udp_table_ok u' F2"
      using link(2) udp_table_ok_cong(1) [of u' u4] by (simp add: u'_def u4_def F2_def)
    have b4: "udp_bound u' = (udp_bound u)(a := False, n := True)"
    proof
      fix b
      have "b \<in> set (F2 j) \<longleftrightarrow> b \<in> set (F1 j) \<or> b = n \<and> j = i" for j by (auto simp: F2_def bucket_with_def)
      then show "udp_bound u' b = ((udp_bound u)(a := False, n := True)) b"
        using udp_bound_bucket [OF t4, of b] udp_bound_bucket [OF t3, of b] b3 an by (auto simp: fun_eq_iff)
    qed
    have socks: "nx_udp_sockets u' = (nx_udp_sockets u)(n \<mapsto> sn2, a \<mapsto> sa2)"
      using an by (simp add: u'_def u4_def u3_def u2_def u1_def fun_eq_iff)
    have ports: "udp_ports u' = (udp_ports u)(a := None, n \<mapsto> p)"
      using an t(6) unfolding udp_ports_def b4 socks by (auto simp: fun_eq_iff sn2_def sn1_def)
    have "udp_unshared u' = udp_unshared u"
      using assms(2) t(4) an unfolding udp_unshared_def socks
      by (auto simp: sn2_def sn1_def sa2_def T'(2) s1_def split: if_splits)
    moreover have "udp_exclusive u'" if ex: "udp_exclusive u"
    proof (rule udp_exclusive_free [of "u1" p u' n])
      have pa: "udp_ports u a = Some p" using assms(2,3) by (simp add: udp_ports_def p_def)
      show "udp_exclusive u1" by (rule udp_exclusive_less [OF ex]) (auto simp: p1 split: if_splits)
      show "udp_ports u1 b \<noteq> Some p" for b using ex pa by (auto simp: p1 udp_exclusive_def)
      show "udp_ports u' = (udp_ports u1)(n \<mapsto> p)" by (simp add: ports p1)
    qed
    moreover have "waits_ok (nx_udp_sockets u') (udp_bound u') (tx_suspended_links u') (udp_thread u') (W(n := ts, a := []))"
    proof -
      have c1: "waits_ok ((nx_udp_sockets u)(a \<mapsto> s1)) (udp_bound u) (tx_suspended_links u) (udp_thread u) W"
        by (rule waits_ok_touch [OF inv(3) assms(2)]) (use quiet1 in \<open>simp_all add: s1_def\<close>)
      have w1: "waits_for ((nx_udp_sockets u)(a \<mapsto> s1)) (udp_bound u) (udp_thread u) a t n"
        using wf assms(2) an by (auto simp: waits_for_def s1_def)
      have "waits_ok ((nx_udp_sockets u)(a \<mapsto> s1, n \<mapsto> sn1, a \<mapsto> sa)) (udp_bound u) T' ((udp_thread u)(t \<mapsto> th')) (W(a := ts @ []))"
        unfolding sn1_def
        by (rule waits_ok_remove [OF c1 _ w1 _ _ t(1) _ _ T'(4) _ T'(2), unfolded append_Nil])
          (use T'(3,5) Cons t(4) an in \<open>simp_all add: th'_def u2_def u1_def\<close>)
      then have c2: "waits_ok ((nx_udp_sockets u)(n \<mapsto> sn1, a \<mapsto> sa)) (udp_bound u) T' ((udp_thread u)(t \<mapsto> th')) (W(a := ts))"
        using an by (simp add: fun_upd_twist)
      have "waits_ok (((nx_udp_sockets u)(n \<mapsto> sn1, a \<mapsto> sa))(n \<mapsto> sn2, a \<mapsto> sa2)) ((udp_bound u)(a := False, n := True)) T'
          ((udp_thread u)(t \<mapsto> th')) ((W(a := ts))(n := (W(a := ts)) a, a := []))"
        by (rule waits_ok_transfer [OF c2, of a sa n sn1])
          (use assms(3) t(6,7) an idle in \<open>simp_all add: sn1_def sn2_def sa2_def T'(2) s1_def p_def\<close>)
      moreover have "((nx_udp_sockets u)(n \<mapsto> sn1, a \<mapsto> sa))(n \<mapsto> sn2, a \<mapsto> sa2) = (nx_udp_sockets u)(n \<mapsto> sn2, a \<mapsto> sa2)"
        using an by (simp add: fun_eq_iff)
      moreover have "(W(a := ts))(n := (W(a := ts)) a, a := []) = W(n := ts, a := [])" using an by (simp add: fun_eq_iff)
      ultimately show ?thesis unfolding b4 socks by (simp add: u'_def u4_def u3_def u2_def u1_def)
    qed
    ultimately have "udp_inv u' F2 (W(n := ts, a := []))" using t4 inv(2) by (simp add: udp_inv_def)
    moreover have "udp_thread u' t = Some th'" by (simp add: u'_def)
    moreover have "tx_calls (nx_udp_mem u') = tx_calls (nx_udp_mem u) @ [Tx_thread_system_resume t, Tx_thread_system_preempt_check]"
      by (simp add: u'_def udp_call_def u4_def u3_def u2_def u1_def put_udp_thread_def put_thread_def udp_preempt_disable_def put_socket_def)
    ultimately show ?thesis
      by (intro that [OF run]) (use Cons t(1,3) in \<open>auto simp: ports p_def th'_def\<close>)
  qed
qed

lemma nx_udp_socket_unbind_inv:
  assumes "udp_inv u F W" "nx_udp_sockets u a = Some s"
    and "udp_bound u a \<or> nx_udp_socket_bind_in_progress s = 0 \<or> udp_wait_current u (nx_udp_socket_bind_in_progress s)"
  obtains st u' F' W' where "nx_udp_socket_unbind a u = Some (st, u')" "udp_inv u' F' W'"
proof (cases "udp_bound u a")
  case True
  show ?thesis by (rule nx_udp_socket_unbind_bound_inv [OF assms(1,2) True]) (rule that)
next
  case False
  obtain l where l: "nx_udp_bound_links u a = Some l" by (rule udp_socket_links [OF udp_invD(1) [OF assms(1)] assms(2)])
  then have zero: "link_next l = 0" using False by (simp add: udp_bound_def)
  show ?thesis
  proof (cases "nx_udp_socket_bind_in_progress s = 0")
    case True
    then show ?thesis using that [of NX_NOT_BOUND u F W] assms(1,2) l zero by (simp add: nx_udp_socket_unbind_def)
  next
    case wait: False
    obtain u' W' where "nx_udp_bind_cleanup (nx_udp_socket_bind_in_progress s) u = Some u'" "udp_inv u' F W'"
      using nx_udp_bind_cleanup_inv [OF assms(1)] assms(3) False wait by blast
    then show ?thesis using that [of NX_SUCCESS u' F W'] assms(2) l zero wait by (simp add: nx_udp_socket_unbind_def)
  qed
qed

section \<open>Histories\<close>

text \<open>Any thread that does not wait may run and call the services; a wait may time out. The calls
  for a socket that waits for a port are restricted to waits that are current.\<close>

inductive udp_step :: "nx_udp \<Rightarrow> nx_udp \<Rightarrow> bool" where
  udp_run: "udp_running (u\<lparr>nx_udp_mem := (nx_udp_mem u)\<lparr>tx_thread_current_ptr := t\<rparr>\<rparr>) \<Longrightarrow>
     udp_step u (u\<lparr>nx_udp_mem := (nx_udp_mem u)\<lparr>tx_thread_current_ptr := t\<rparr>\<rparr>)"
| udp_bind: "udp_running u \<Longrightarrow> nx_udp_socket_bind (\<lambda>_ v. v) rand a port wait_option u = Some (st, u') \<Longrightarrow> udp_step u u'"
| udp_unbind: "nx_udp_sockets u a = Some s \<Longrightarrow>
     udp_bound u a \<or> nx_udp_socket_bind_in_progress s = 0 \<or> udp_wait_current u (nx_udp_socket_bind_in_progress s) \<Longrightarrow>
     nx_udp_socket_unbind a u = Some (st, u') \<Longrightarrow> udp_step u u'"
| udp_time_out: "udp_wait_current u t \<Longrightarrow> nx_udp_bind_cleanup t u = Some u' \<Longrightarrow> udp_step u u'"

inductive_cases udp_stepE: "udp_step u u'"

text \<open>No socket is bound, no thread waits.\<close>

definition udp_initial :: "nx_udp \<Rightarrow> bool" where
  "udp_initial u \<longleftrightarrow> nx_ip_udp_port_table u = replicate NX_UDP_PORT_TABLE_SIZE NX_NULL \<and>
     dom (nx_udp_bound_links u) = dom (nx_udp_sockets u) \<and> 0 \<notin> dom (nx_udp_sockets u) \<and>
     (\<forall>a l. nx_udp_bound_links u a = Some l \<longrightarrow> link_next l = 0) \<and>
     (\<forall>a s. nx_udp_sockets u a = Some s \<longrightarrow> socket_quiet s \<and> nx_udp_socket_bind_in_progress s = 0 \<and>
        nx_udp_socket_bind_suspension_list s = 0) \<and>
     dom (tx_suspended_links u) = dom (udp_thread u) \<and> 0 \<notin> dom (udp_thread u) \<and>
     (\<forall>t th. udp_thread u t = Some th \<longrightarrow> tx_thread_suspend_cleanup th \<noteq> NX_UDP_BIND_CLEANUP)"

definition udp_reachable :: "nx_udp \<Rightarrow> bool" where
  "udp_reachable u \<longleftrightarrow> (\<exists>u0. udp_initial u0 \<and> udp_step\<^sup>*\<^sup>* u0 u)"

lemma udp_initial_inv: "udp_initial u \<Longrightarrow> udp_inv u (\<lambda>_. []) (\<lambda>_. [])"
proof -
  assume init: "udp_initial u"
  have "\<not> udp_bound u a" for a using init by (auto simp: udp_bound_def udp_initial_def)
  then have "udp_exclusive u" by (simp add: udp_exclusive_def udp_ports_def)
  then show "udp_inv u (\<lambda>_. []) (\<lambda>_. [])"
    using init by (auto simp: udp_initial_def udp_inv_def udp_table_ok_def bucket_ok_def waits_ok_def thread_list_ok_def)
qed

lemma udp_step_inv: "udp_step u u' \<Longrightarrow> udp_inv u F W \<Longrightarrow> \<exists>F' W'. udp_inv u' F' W'"
proof (induction rule: udp_step.induct)
  case (udp_run t u)
  define u' where "u' = u\<lparr>nx_udp_mem := (nx_udp_mem u)\<lparr>tx_thread_current_ptr := t\<rparr>\<rparr>"
  have ports: "udp_table_ok u' F = udp_table_ok u F" "udp_bound u' = udp_bound u" "udp_ports u' = udp_ports u"
    using udp_table_ok_cong [of u' u] by (simp_all add: u'_def fun_eq_iff)
  then have "udp_inv u' F W"
    using udp_run.prems by (simp add: udp_inv_def udp_exclusive_def ports) (simp add: u'_def udp_unshared_def udp_thread_def)
  then show ?case by (auto simp: u'_def)
next
  case (udp_bind u rand a port wait_option st u')
  from udp_bind.hyps(2) obtain s where s: "nx_udp_sockets u a = Some s"
    by (auto simp: nx_udp_socket_bind_def split: option.splits Option.bind_splits)
  obtain st1 u1 F' W' where "nx_udp_socket_bind (\<lambda>_ v. v) rand a port wait_option u = Some (st1, u1)" "udp_inv u1 F' W'"
    by (rule nx_udp_socket_bind_inv [OF udp_bind.prems s udp_bind.hyps(1)])
  then show ?case using udp_bind.hyps(2) by auto
next
  case (udp_unbind u a s st u')
  obtain st1 u1 F' W' where "nx_udp_socket_unbind a u = Some (st1, u1)" "udp_inv u1 F' W'"
    by (rule nx_udp_socket_unbind_inv [OF udp_unbind.prems udp_unbind.hyps(1,2)])
  then show ?case using udp_unbind.hyps(3) by auto
next
  case (udp_time_out u t u')
  obtain u1 W' where "nx_udp_bind_cleanup t u = Some u1" "udp_inv u1 F W'"
    by (rule nx_udp_bind_cleanup_inv [OF udp_time_out.prems udp_time_out.hyps(1)])
  then show ?case using udp_time_out.hyps(2) by auto
qed

lemma udp_reachable_inv:
  assumes "udp_reachable u"
  obtains F W where "udp_inv u F W"
proof -
  obtain u0 where "udp_initial u0" "udp_step\<^sup>*\<^sup>* u0 u" using assms by (auto simp: udp_reachable_def)
  from this(2,1) have "\<exists>F W. udp_inv u F W"
  proof (induction rule: rtranclp_induct)
    case base
    then show ?case using udp_initial_inv by blast
  next
    case (step u1 u2)
    then show ?case using udp_step_inv by blast
  qed
  then show ?thesis using that by blast
qed

lemma udp_reachable_step: "udp_reachable u \<Longrightarrow> udp_step u u' \<Longrightarrow> udp_reachable u'"
  by (auto simp: udp_reachable_def intro: rtranclp.rtrancl_into_rtrancl)

end
