(* ===== verification/Nx_Udp_Demo.thy ===== *)
theory Nx_Udp_Demo imports Nx_Udp_Steps Nx_Pool_Demo begin

text \<open>
  A concrete history of the UDP port services: the socket at address 10 is bound to port 80,
  threads 2 and 3 wait for the port with the sockets at 20 and 30, and the socket 10 is
  unbound, which binds the socket 20. Thread 3 still waits.
\<close>

definition udp_demo_socket :: "nat \<Rightarrow> nat \<Rightarrow> nat \<Rightarrow> nat \<Rightarrow> nx_udp_socket" where
  "udp_demo_socket port pending head count = \<lparr>nx_udp_socket_id = NX_UDP_ID, nx_udp_socket_port = port,
     nx_udp_socket_share = 0, nx_udp_socket_notify_pending = False, nx_udp_socket_receive_count = 0,
     nx_udp_socket_receive_head = 0, nx_udp_socket_receive_tail = 0, nx_udp_socket_bind_in_progress = pending,
     nx_udp_socket_receive_suspension_list = 0, nx_udp_socket_receive_suspended_count = 0,
     nx_udp_socket_bind_suspension_list = head, nx_udp_socket_bind_suspended_count = count,
     nx_udp_socket_icmp_error = NX_SUCCESS\<rparr>"

definition udp_demo_waiting :: "nat \<Rightarrow> tx_thread" where
  "udp_demo_waiting a = demo_thread\<lparr>tx_thread_suspend_cleanup := NX_UDP_BIND_CLEANUP,
     tx_thread_suspend_control_block := a, tx_thread_state := TX_TCP_IP, tx_thread_suspending := True,
     tx_thread_remaining_ticks := 5\<rparr>"

definition nx_at :: "nat \<Rightarrow> nat \<Rightarrow> nx_link" where
  "nx_at n p = \<lparr>link_next = n, link_previous = p\<rparr>"

lemma nx_at_simps [simp]:
  "link_next (nx_at a b) = a" "link_previous (nx_at a b) = b"
  "(nx_at a b)\<lparr>link_next := c\<rparr> = nx_at c b" "(nx_at a b)\<lparr>link_previous := c\<rparr> = nx_at a c"
  "nx_at a b = nx_at c d \<longleftrightarrow> a = c \<and> b = d"
  by (simp_all add: nx_at_def)

definition udp_demo ::
    "nx_udp_socket list \<Rightarrow> nx_link list \<Rightarrow> nat \<Rightarrow> nx_link list \<Rightarrow> tx_thread list \<Rightarrow> nat \<Rightarrow> nat \<Rightarrow> tx_call list \<Rightarrow> nx_udp" where
  "udp_demo S L head T H cur preempt calls =
     \<lparr>nx_udp_sockets = [10 \<mapsto> S ! 0, 20 \<mapsto> S ! 1, 30 \<mapsto> S ! 2],
      nx_udp_bound_links = [10 \<mapsto> L ! 0, 20 \<mapsto> L ! 1, 30 \<mapsto> L ! 2],
      nx_ip_udp_port_table = (replicate 32 0)[16 := head],
      tx_suspended_links = [1 \<mapsto> T ! 0, 2 \<mapsto> T ! 1, 3 \<mapsto> T ! 2],
      nx_udp_mem = empty_mem\<lparr>tx_threads := [1 \<mapsto> H ! 0, 2 \<mapsto> H ! 1, 3 \<mapsto> H ! 2], tx_thread_current_ptr := cur,
        tx_thread_preempt_disable := preempt, tx_calls := calls\<rparr>\<rparr>"

abbreviation (input) "idle_udp \<equiv> udp_demo_socket 0 0 0 0"

definition udp_demo0 :: nx_udp where
  "udp_demo0 = udp_demo [idle_udp, idle_udp, idle_udp] [nx_at 0 0, nx_at 0 0, nx_at 0 0] 0
     [nx_at 0 0, nx_at 0 0, nx_at 0 0] [demo_thread, demo_thread, demo_thread] 1 0 []"

definition udp_demo1 :: nx_udp where
  "udp_demo1 = udp_demo [udp_demo_socket 80 0 0 0, idle_udp, idle_udp] [nx_at 10 10, nx_at 0 0, nx_at 0 0] 10
     [nx_at 0 0, nx_at 0 0, nx_at 0 0] [demo_thread, demo_thread, demo_thread] 1 0 []"

definition udp_demo2 :: nx_udp where
  "udp_demo2 = udp_demo [udp_demo_socket 80 0 2 1, udp_demo_socket 80 2 0 0, idle_udp] [nx_at 10 10, nx_at 0 10, nx_at 0 0] 10
     [nx_at 0 0, nx_at 2 2, nx_at 0 0] [demo_thread, udp_demo_waiting 20, demo_thread] 2 1 []"

definition udp_demo3 :: nx_udp where
  "udp_demo3 = udp_demo [udp_demo_socket 80 0 2 2, udp_demo_socket 80 2 0 0, udp_demo_socket 80 3 0 0]
     [nx_at 10 10, nx_at 0 10, nx_at 0 10] 10
     [nx_at 0 0, nx_at 3 3, nx_at 2 2] [demo_thread, udp_demo_waiting 20, udp_demo_waiting 30] 3 2 []"

definition udp_demo4 :: nx_udp where
  "udp_demo4 = udp_demo [udp_demo_socket 80 0 0 1, udp_demo_socket 80 0 3 0, udp_demo_socket 80 3 0 0]
     [nx_at 0 10, nx_at 20 20, nx_at 0 10] 20
     [nx_at 0 0, nx_at 3 3, nx_at 3 3]
     [demo_thread, (udp_demo_waiting 20)\<lparr>tx_thread_suspend_cleanup := TX_NO_CLEANUP\<rparr>, udp_demo_waiting 30] 3 3
     [Tx_thread_system_resume 2, Tx_thread_system_preempt_check]"

lemmas udp_demo_defs = udp_demo_def udp_demo_socket_def udp_demo_waiting_def demo_thread_def empty_mem_def

lemmas udp_service_defs = nx_udp_socket_bind_def nx_udp_bind_at_def nx_udp_port_find_def udp_holds_def nx_udp_link_bound_def
  nx_udp_bind_suspend_def nx_udp_port_index_def set_next_def set_previous_def ring_single_def ring_link_last_def
  put_socket_def put_udp_thread_def put_thread_def udp_thread_def udp_preempt_disable_def udp_call_def

lemma udp_demo_bind1: "nx_udp_socket_bind (\<lambda>_ v. v) 0 10 80 0 udp_demo0 = Some (NX_SUCCESS, udp_demo1)"
  by (simp add: udp_demo0_def udp_demo1_def udp_service_defs udp_demo_defs fun_eq_iff)

definition udp_demo_run :: "nat \<Rightarrow> nx_udp \<Rightarrow> nx_udp" where
  "udp_demo_run t u = u\<lparr>nx_udp_mem := (nx_udp_mem u)\<lparr>tx_thread_current_ptr := t\<rparr>\<rparr>"

lemma udp_demo_bind2: "nx_udp_socket_bind (\<lambda>_ v. v) 0 20 80 5 (udp_demo_run 2 udp_demo1) = Some (NX_SUCCESS, udp_demo2)"
  by (simp add: udp_demo1_def udp_demo2_def udp_demo_run_def udp_service_defs udp_demo_defs nx_at_def ring_search_hit fun_eq_iff)

lemma udp_demo_bind3: "nx_udp_socket_bind (\<lambda>_ v. v) 0 30 80 5 (udp_demo_run 3 udp_demo2) = Some (NX_SUCCESS, udp_demo3)"
  by (simp add: udp_demo2_def udp_demo3_def udp_demo_run_def udp_service_defs udp_demo_defs nx_at_def ring_search_hit fun_eq_iff)

lemmas udp_end_defs = nx_udp_socket_unbind_def nx_udp_unlink_bound_def nx_udp_clear_receive_def nx_udp_hand_over_def
  nx_udp_unsuspend_def nx_udp_bind_cleanup_def ring_unlink_def

lemma udp_demo_unbind: "nx_udp_socket_unbind 10 udp_demo3 = Some (NX_SUCCESS, udp_demo4)"
  by (simp add: udp_demo3_def udp_demo4_def udp_service_defs udp_end_defs udp_demo_defs nx_at_def fun_eq_iff)

lemma table_head_null: "(replicate n x)[i := x] = replicate n x"
  by (cases "i < n") (simp_all add: list_update_same_conv list_update_beyond)

lemma udp_demo_initial: "udp_initial udp_demo0"
  by (auto simp: udp_initial_def udp_demo0_def udp_demo_defs nx_at_def socket_quiet_def udp_thread_def table_head_null split: if_splits)

lemma udp_demo_reachable: "udp_reachable udp_demo1" "udp_reachable udp_demo3" "udp_reachable udp_demo4"
proof -
  have run: "udp_running udp_demo0" "udp_running (udp_demo_run 2 udp_demo1)" "udp_running (udp_demo_run 3 udp_demo2)"
    by (simp_all add: udp_running_def udp_demo_run_def udp_demo0_def udp_demo1_def udp_demo2_def udp_demo_defs udp_thread_def)
  have "udp_reachable udp_demo0" using udp_demo_initial by (auto simp: udp_reachable_def)
  then show r1: "udp_reachable udp_demo1" using udp_bind [OF run(1) udp_demo_bind1] udp_reachable_step by blast
  have "udp_step udp_demo1 (udp_demo_run 2 udp_demo1)" "udp_step udp_demo2 (udp_demo_run 3 udp_demo2)"
    using run(2,3) unfolding udp_demo_run_def by (auto intro: udp_run)
  then show r3: "udp_reachable udp_demo3"
    using r1 udp_bind [OF run(2) udp_demo_bind2] udp_bind [OF run(3) udp_demo_bind3] udp_reachable_step by blast
  have "nx_udp_sockets udp_demo3 10 = Some (udp_demo_socket 80 0 2 2)" "udp_bound udp_demo3 10"
    by (simp_all add: udp_demo3_def udp_demo_def udp_bound_def)
  then show "udp_reachable udp_demo4" using r3 udp_unbind [OF _ _ udp_demo_unbind] udp_reachable_step by blast
qed

end
