(* ===== verification/Nx_Udp_Props.thy ===== *)
theory Nx_Udp_Props imports Nx_Udp_Demo begin

text \<open>
  The properties of the UDP ports: a port has one owner in every reachable state, the services
  always return there, what bind and unbind do to the owner of a port, the outcome of the search
  for a free port, and the state in which the end of a wait acts on the wrong socket.
\<close>

section \<open>One owner\<close>



section \<open>The services return\<close>



section \<open>Bind\<close>

text \<open>C28: The outcome of binding an idle socket to a given port without waiting: it succeeds
  and the socket owns the port if no socket has the port, or if all that have it and the
  socket itself allow sharing; it fails with NX_PORT_UNAVAILABLE and no port changes its owner
  if some socket has the port and the socket does not allow sharing.\<close>

theorem nx_udp_socket_bind_outcome:
  assumes "udp_reachable u" "nx_udp_sockets u a = Some s" "udp_ports u a = None" "nx_udp_socket_bind_in_progress s = 0"
    and "port \<noteq> NX_ANY_PORT"
  shows "((\<forall>b f. udp_ports u b = Some port \<longrightarrow> nx_udp_sockets u b = Some f \<longrightarrow>
        nx_udp_socket_share f \<noteq> 0 \<and> nx_udp_socket_share s \<noteq> 0) \<longrightarrow>
      (\<exists>u'. nx_udp_socket_bind S rand a port 0 u = Some (NX_SUCCESS, u') \<and> udp_ports u' = (udp_ports u)(a \<mapsto> port))) \<and>
    ((\<exists>b. udp_ports u b = Some port) \<longrightarrow> nx_udp_socket_share s = 0 \<longrightarrow>
      (\<exists>u'. nx_udp_socket_bind S rand a port 0 u = Some (NX_PORT_UNAVAILABLE, u') \<and> udp_ports u' = udp_ports u))"
proof -
  obtain F W where inv: "udp_inv u F W" by (rule udp_reachable_inv [OF assms(1)])
  note tab = udp_invD(1) [OF inv]
  obtain l where l: "nx_udp_bound_links u a = Some l" by (rule udp_socket_links [OF tab assms(2)])
  have free: "\<not> udp_bound u a" using assms(2,3) by (auto simp: udp_ports_def)
  then have run: "nx_udp_socket_bind S rand a port 0 u = nx_udp_bind_at S a s port 0 u"
    using assms(2,4,5) l by (simp add: nx_udp_socket_bind_def udp_bound_def)
  have held: "udp_ports u c = Some port" if "holder u F port = Some c" for c
    using holder_some [OF that] udp_ports_iff [OF tab] by blast
  have "(\<forall>b f. udp_ports u b = Some port \<longrightarrow> nx_udp_sockets u b = Some f \<longrightarrow>
        nx_udp_socket_share f \<noteq> 0 \<and> nx_udp_socket_share s \<noteq> 0) \<longrightarrow>
      (\<exists>u'. nx_udp_socket_bind S rand a port 0 u = Some (NX_SUCCESS, u') \<and> udp_ports u' = (udp_ports u)(a \<mapsto> port))"
  proof
    assume share: "\<forall>b f. udp_ports u b = Some port \<longrightarrow> nx_udp_sockets u b = Some f \<longrightarrow>
        nx_udp_socket_share f \<noteq> 0 \<and> nx_udp_socket_share s \<noteq> 0"
    have sw: "shared_with u (holder u F port) s"
      using held holder_some [of u F port] share by (fastforce simp: shared_with_def split: option.splits)
    show "\<exists>u'. nx_udp_socket_bind S rand a port 0 u = Some (NX_SUCCESS, u') \<and> udp_ports u' = (udp_ports u)(a \<mapsto> port)"
      by (rule nx_udp_bind_at_free [OF tab assms(2) free sw, of S 0]) (auto simp: run)
  qed
  moreover have "(\<exists>b. udp_ports u b = Some port) \<longrightarrow> nx_udp_socket_share s = 0 \<longrightarrow>
      (\<exists>u'. nx_udp_socket_bind S rand a port 0 u = Some (NX_PORT_UNAVAILABLE, u') \<and> udp_ports u' = udp_ports u)"
  proof (intro impI)
    assume "\<exists>b. udp_ports u b = Some port" "nx_udp_socket_share s = 0"
    then have sw: "\<not> shared_with u (holder u F port) s"
      using holder_none [OF tab, of port] by (auto simp: shared_with_def split: option.splits)
    show "\<exists>u'. nx_udp_socket_bind S rand a port 0 u = Some (NX_PORT_UNAVAILABLE, u') \<and> udp_ports u' = udp_ports u"
      by (rule nx_udp_bind_at_busy [OF tab assms(2) free sw, of S 0])
        (use run udp_ports_put_socket(1) [OF assms(2)] free in auto)
  qed
  ultimately show ?thesis by blast
qed

theorem nx_udp_socket_bind_outcome_witness:
  "(\<exists>u'. nx_udp_socket_bind (\<lambda>_ v. v) 0 20 90 0 udp_demo1 = Some (NX_SUCCESS, u') \<and> udp_ports u' = (udp_ports udp_demo1)(20 \<mapsto> 90)) \<and>
   (\<exists>u'. nx_udp_socket_bind (\<lambda>_ v. v) 0 20 80 0 udp_demo1 = Some (NX_PORT_UNAVAILABLE, u') \<and> udp_ports u' = udp_ports udp_demo1)"
proof -
  have s: "nx_udp_sockets udp_demo1 20 = Some (udp_demo_socket 0 0 0 0)" "nx_udp_socket_bind_in_progress (udp_demo_socket 0 0 0 0) = 0"
    "nx_udp_socket_share (udp_demo_socket 0 0 0 0) = 0"
    by (simp_all add: udp_demo1_def udp_demo_def udp_demo_socket_def)
  have p: "udp_ports udp_demo1 = [10 \<mapsto> 80]"
    by (rule ext) (simp add: udp_ports_def udp_bound_def udp_demo1_def udp_demo_defs)
  note out = nx_udp_socket_bind_outcome [OF udp_demo_reachable(1) s(1) _ s(2), where S = "\<lambda>_ v. v" and rand = 0]
  have "\<exists>u'. nx_udp_socket_bind (\<lambda>_ v. v) 0 20 90 0 udp_demo1 = Some (NX_SUCCESS, u') \<and> udp_ports u' = (udp_ports udp_demo1)(20 \<mapsto> 90)"
    using conjunct1 [OF out, of 90] by (simp add: p)
  moreover have "\<exists>u'. nx_udp_socket_bind (\<lambda>_ v. v) 0 20 80 0 udp_demo1 = Some (NX_PORT_UNAVAILABLE, u') \<and> udp_ports u' = udp_ports udp_demo1"
    using conjunct2 [OF out, of 80] s(3) by (auto simp: p)
  ultimately show ?thesis by blast
qed

section \<open>The search for a free port\<close>

text \<open>C29: The search for a free port ends in every reachable state. A port it returns belongs to no
  socket, lies at or above the starting port or in the dynamic range, and at most 65535; it reports
  NX_NO_FREE_PORTS only if every port from the starting port to 65535 and every dynamic port
  below the starting port is taken.\<close>

theorem nx_udp_free_port_find_outcome:
  assumes "udp_reachable u" "start \<le> NX_MAX_PORT"
  shows "(\<exists>p. nx_udp_free_port_find u start = Some (NX_SUCCESS, Some p) \<and> (\<forall>a. udp_ports u a \<noteq> Some p) \<and> p \<le> NX_MAX_PORT \<and>
       (start \<le> p \<or> NX_SEARCH_PORT_START \<le> p)) \<or>
     nx_udp_free_port_find u start = Some (NX_NO_FREE_PORTS, None) \<and>
       (\<forall>p. start \<le> p \<and> p \<le> NX_MAX_PORT \<or> NX_SEARCH_PORT_START \<le> p \<and> p < start \<longrightarrow> (\<exists>a. udp_ports u a = Some p))"
proof -
  obtain F W where inv: "udp_inv u F W" by (rule udp_reachable_inv [OF assms(1)])
  have "\<exists>F. udp_table_ok u F" using udp_invD(1) [OF inv] by blast
  from udp_space.search_outcome [OF this assms(2)] show ?thesis
    unfolding nx_udp_free_port_find_def by (simp add: udp_taken_def)
qed

theorem nx_udp_free_port_find_outcome_witness:
  "\<exists>p. nx_udp_free_port_find udp_demo1 80 = Some (NX_SUCCESS, Some p) \<and> p \<noteq> 80 \<and> 80 \<le> p"
proof -
  have p: "udp_ports udp_demo1 = [10 \<mapsto> 80]"
    by (rule ext) (simp add: udp_ports_def udp_bound_def udp_demo1_def udp_demo_defs)
  have "\<not> (\<forall>p. 80 \<le> p \<and> p \<le> NX_MAX_PORT \<or> NX_SEARCH_PORT_START \<le> p \<and> p < 80 \<longrightarrow> (\<exists>a. udp_ports udp_demo1 a = Some p))"
    by (auto simp: p intro!: exI [of _ "81::nat"] split: if_splits)
  moreover have "(80::nat) \<le> NX_MAX_PORT" by simp
  ultimately obtain q where q: "nx_udp_free_port_find udp_demo1 80 = Some (NX_SUCCESS, Some q)" "\<forall>a. udp_ports udp_demo1 a \<noteq> Some q"
    "80 \<le> q \<or> NX_SEARCH_PORT_START \<le> q"
    using nx_udp_free_port_find_outcome [OF udp_demo_reachable(1), of 80] by blast
  have "q \<noteq> 80" using q(2) p by (auto simp: fun_upd_apply split: if_splits)
  then show ?thesis using q(1,3) by auto
qed

section \<open>Handing a port over\<close>

text \<open>C30: Unbinding a socket on whose port threads wait gives the port, in the same step, to the
  socket of the thread at the head of the suspension list: no state in between has the port free.
  That thread is resumed with NX_SUCCESS, and it no longer waits.\<close>

theorem nx_udp_socket_unbind_hands_over:
  assumes "udp_reachable u" "nx_udp_sockets u a = Some s" "udp_ports u a = Some p"
    and "nx_udp_socket_bind_suspension_list s = t" "t \<noteq> 0"
  shows "\<exists>th th' u'. udp_thread u t = Some th \<and> nx_udp_socket_unbind a u = Some (NX_SUCCESS, u') \<and>
     udp_ports u' = (udp_ports u)(a := None, tx_thread_suspend_control_block th \<mapsto> p) \<and>
     udp_thread u' t = Some th' \<and> tx_thread_suspend_cleanup th' = TX_NO_CLEANUP \<and> tx_thread_suspend_status th' = NX_SUCCESS \<and>
     tx_calls (nx_udp_mem u') = tx_calls (nx_udp_mem u) @ [Tx_thread_system_resume t, Tx_thread_system_preempt_check]"
proof -
  obtain F W where inv: "udp_inv u F W" by (rule udp_reachable_inv [OF assms(1)])
  note waits = udp_invD(3) [OF inv]
  have bound: "udp_bound u a" and p: "nx_udp_socket_port s = p" using assms(2,3) by (auto simp: udp_ports_def split: if_splits)
  note list = thread_list_cases [OF waits_okD(4) [OF waits assms(2)]]
  then obtain ts where ts: "W a = t # ts" using assms(4,5) by (cases "W a") auto
  then obtain n where "waits_for (nx_udp_sockets u) (udp_bound u) (udp_thread u) a t n" using waits_okD(5) [OF waits, of t a] by auto
  then obtain th where th: "udp_thread u t = Some th" by (auto simp: waits_for_def)
  show ?thesis by (rule nx_udp_socket_unbind_bound_inv [OF inv assms(2) bound]) (use ts th p in auto)
qed

theorem nx_udp_socket_unbind_hands_over_witness:
  "\<exists>u'. nx_udp_socket_unbind 10 udp_demo3 = Some (NX_SUCCESS, u') \<and> udp_ports u' 10 = None \<and> udp_ports u' 20 = Some 80"
proof -
  have "nx_udp_sockets udp_demo3 10 = Some (udp_demo_socket 80 0 2 2)" "udp_ports udp_demo3 10 = Some 80"
    "nx_udp_socket_bind_suspension_list (udp_demo_socket 80 0 2 2) = 2" "udp_thread udp_demo3 2 = Some (udp_demo_waiting 20)"
    by (simp_all add: udp_demo3_def udp_demo_defs udp_ports_def udp_bound_def udp_thread_def nx_at_def)
  then show ?thesis
    using nx_udp_socket_unbind_hands_over [OF udp_demo_reachable(2), of 10 "udp_demo_socket 80 0 2 2" 80 2]
    by (auto simp: udp_demo_waiting_def)
qed

section \<open>A stale wait\<close>

text \<open>When a port is handed over, the threads that go on waiting keep the former owner in the previous
  pointer of their sockets. A time-out then takes the thread off the list of the wrong socket:
  there is a reachable state in which the bind of socket 30 ends with NX_PORT_UNAVAILABLE and the
  next unbind of the owner nevertheless binds socket 30.\<close>

theorem nx_udp_bind_cleanup_stale:
  "\<exists>u u1 u2. udp_reachable u \<and> nx_udp_bind_cleanup 3 u = Some u1 \<and>
     map_option tx_thread_suspend_status (udp_thread u1 3) = Some NX_PORT_UNAVAILABLE \<and>
     udp_ports u1 20 = Some 80 \<and> udp_ports u1 30 = None \<and>
     nx_udp_socket_unbind 20 u1 = Some (NX_SUCCESS, u2) \<and> udp_ports u2 30 = Some 80"
proof -
  define u1 where "u1 = the (nx_udp_bind_cleanup 3 udp_demo4)"
  define u2 where "u2 = snd (the (nx_udp_socket_unbind 20 u1))"
  note defs = udp_service_defs udp_end_defs udp_demo_defs nx_at_def udp_ports_def udp_bound_def
  have "nx_udp_bind_cleanup 3 udp_demo4 = Some u1 \<and>
     map_option tx_thread_suspend_status (udp_thread u1 3) = Some NX_PORT_UNAVAILABLE \<and>
     udp_ports u1 20 = Some 80 \<and> udp_ports u1 30 = None"
    unfolding u1_def by (simp add: udp_demo4_def defs)
  moreover have "nx_udp_socket_unbind 20 u1 = Some (NX_SUCCESS, u2) \<and> udp_ports u2 30 = Some 80"
    unfolding u2_def u1_def by (simp add: udp_demo4_def defs)
  ultimately show ?thesis using udp_demo_reachable(3) by blast
qed

end
