(* ===== verification/Nx_Tcp_Option.thy ===== *)
theory Nx_Tcp_Option imports Nx_Prelude begin

text \<open>
  Reading the options of a TCP header: the maximum segment size (common/src/nx_tcp_mss_option_get.c),
  the window scale (nx_tcp_window_scaling_option_get.c), the timestamps and their writer
  (nx_tcp_timestamp_option_get.c) and the SACK-permitted option
  (nx_tcp_sack_permitted_option_get.c). The option area comes from the network. The memory
  that may be read is a partial map, so a read outside of it is None.
\<close>

section \<open>The readable bytes\<close>

type_synonym byte_area = "nat \<rightharpoonup> byte"
type_synonym ulong = "32 word"

definition area_bytes :: "byte_area \<Rightarrow> nat \<Rightarrow> byte list \<Rightarrow> bool" where
  "area_bytes rd p bs \<longleftrightarrow> (\<forall>i < length bs. rd (p + i) = Some (bs ! i))"

definition area_write :: "nat \<Rightarrow> byte list \<Rightarrow> byte_area \<Rightarrow> byte_area" where
  "area_write p bs rd = (\<lambda>a. if p \<le> a \<and> a < p + length bs then Some (bs ! (a - p)) else rd a)"

text \<open>Four bytes in network order.\<close>

definition ulong_bytes :: "ulong \<Rightarrow> byte list" where
  "ulong_bytes w = [ucast (drop_bit 24 w), ucast (drop_bit 16 w), ucast (drop_bit 8 w), ucast w]"

definition ulong_read :: "byte_area \<Rightarrow> nat \<Rightarrow> ulong option" where
  "ulong_read rd p = do {
     a \<leftarrow> rd p; b \<leftarrow> rd (p + 1); c \<leftarrow> rd (p + 2); d \<leftarrow> rd (p + 3);
     Some (push_bit 24 (ucast a) OR push_bit 16 (ucast b) OR push_bit 8 (ucast c) OR ucast d)
   }"

section \<open>The option readers\<close>

abbreviation (input) NX_TCP_EOL_KIND :: byte where "NX_TCP_EOL_KIND \<equiv> 0"
abbreviation (input) NX_TCP_NOP_KIND :: byte where "NX_TCP_NOP_KIND \<equiv> 1"
abbreviation (input) NX_TCP_MSS_KIND :: byte where "NX_TCP_MSS_KIND \<equiv> 2"
abbreviation (input) NX_TCP_RWIN_KIND :: byte where "NX_TCP_RWIN_KIND \<equiv> 3"
abbreviation (input) NX_TCP_SACK_PERMITTED_KIND :: byte where "NX_TCP_SACK_PERMITTED_KIND \<equiv> 4"
abbreviation (input) NX_TCP_SACK_KIND :: byte where "NX_TCP_SACK_KIND \<equiv> 5"
abbreviation (input) NX_TCP_TIMESTAMP_KIND :: byte where "NX_TCP_TIMESTAMP_KIND \<equiv> 8"
abbreviation (input) NX_TCP_TIMESTAMP_LENGTH :: nat where "NX_TCP_TIMESTAMP_LENGTH \<equiv> 10"

text \<open>A reader returns its status and the values it stores through its pointer arguments.\<close>

function (sequential) nx_tcp_mss_option_get :: "byte_area \<Rightarrow> nat \<Rightarrow> nat \<Rightarrow> (bool \<times> nat) option" where
  "nx_tcp_mss_option_get rd option_ptr option_area_size =
     (if option_area_size < 4 then Some (True, 0)
      else case rd option_ptr of None \<Rightarrow> None | Some kind \<Rightarrow>
        if kind = NX_TCP_MSS_KIND
        then do {
          option_length \<leftarrow> rd (option_ptr + 1);
          if option_length \<noteq> 4 then Some (False, 0)
          else do {
            msb \<leftarrow> rd (option_ptr + 2);
            lsb \<leftarrow> rd (option_ptr + 3);
            Some (True, 256 * unat msb + unat lsb)
          }
        }
        else if kind = NX_TCP_EOL_KIND then Some (True, 0)
        else if kind = NX_TCP_NOP_KIND then nx_tcp_mss_option_get rd (option_ptr + 1) (option_area_size - 1)
        else case rd (option_ptr + 1) of None \<Rightarrow> None | Some option_length \<Rightarrow>
          if option_length = 0 then Some (False, 0)
          else if unat option_length > option_area_size then Some (False, 0)
          else nx_tcp_mss_option_get rd (option_ptr + unat option_length) (option_area_size - unat option_length))"
  by pat_completeness auto
termination
  by (relation "measure (\<lambda>(rd, p, n). n)") (auto simp: unat_gt_0)

function (sequential) nx_tcp_window_scaling_option_get :: "byte_area \<Rightarrow> nat \<Rightarrow> nat \<Rightarrow> (bool \<times> nat) option" where
  "nx_tcp_window_scaling_option_get rd option_ptr option_area_size =
     (if option_area_size < 3 then Some (True, 0xFF)
      else case rd option_ptr of None \<Rightarrow> None | Some kind \<Rightarrow>
        if kind = NX_TCP_RWIN_KIND
        then do {
          option_length \<leftarrow> rd (option_ptr + 1);
          if option_length \<noteq> 3 then Some (False, 0xFF)
          else do {
            window_scale \<leftarrow> rd (option_ptr + 2);
            Some (True, if unat window_scale > 14 then 14 else unat window_scale)
          }
        }
        else if kind = NX_TCP_EOL_KIND then Some (True, 0xFF)
        else if kind = NX_TCP_NOP_KIND then nx_tcp_window_scaling_option_get rd (option_ptr + 1) (option_area_size - 1)
        else case rd (option_ptr + 1) of None \<Rightarrow> None | Some option_length \<Rightarrow>
          if option_length = 0 then Some (False, 0xFF)
          else if unat option_length > option_area_size then Some (False, 0xFF)
          else nx_tcp_window_scaling_option_get rd (option_ptr + unat option_length) (option_area_size - unat option_length))"
  by pat_completeness auto
termination
  by (relation "measure (\<lambda>(rd, p, n). n)") (auto simp: unat_gt_0)

function (sequential) nx_tcp_sack_permitted_option_get :: "byte_area \<Rightarrow> nat \<Rightarrow> nat \<Rightarrow> (bool \<times> bool) option" where
  "nx_tcp_sack_permitted_option_get rd option_ptr option_area_size =
     (if option_area_size < 2 then Some (True, False)
      else case rd option_ptr of None \<Rightarrow> None | Some kind \<Rightarrow>
        if kind = NX_TCP_SACK_PERMITTED_KIND
        then do {
          option_length \<leftarrow> rd (option_ptr + 1);
          if option_length \<noteq> 2 then Some (False, False) else Some (True, True)
        }
        else if kind = NX_TCP_EOL_KIND then Some (True, False)
        else if kind = NX_TCP_NOP_KIND then nx_tcp_sack_permitted_option_get rd (option_ptr + 1) (option_area_size - 1)
        else case rd (option_ptr + 1) of None \<Rightarrow> None | Some option_length \<Rightarrow>
          if option_length = 0 then Some (False, False)
          else if unat option_length > option_area_size then Some (False, False)
          else nx_tcp_sack_permitted_option_get rd (option_ptr + unat option_length) (option_area_size - unat option_length))"
  by pat_completeness auto
termination
  by (relation "measure (\<lambda>(rd, p, n). n)") (auto simp: unat_gt_0)

function (sequential) nx_tcp_timestamp_option_get :: "byte_area \<Rightarrow> nat \<Rightarrow> nat \<Rightarrow> (bool \<times> ulong \<times> ulong) option" where
  "nx_tcp_timestamp_option_get rd option_ptr option_area_size =
     (if option_area_size < NX_TCP_TIMESTAMP_LENGTH then Some (False, 0, 0)
      else case rd option_ptr of None \<Rightarrow> None | Some kind \<Rightarrow>
        if kind = NX_TCP_TIMESTAMP_KIND
        then do {
          option_length \<leftarrow> rd (option_ptr + 1);
          if unat option_length \<noteq> NX_TCP_TIMESTAMP_LENGTH then Some (False, 0, 0)
          else do {
            timestamp_value \<leftarrow> ulong_read rd (option_ptr + 2);
            timestamp_echo \<leftarrow> ulong_read rd (option_ptr + 6);
            Some (True, timestamp_value, timestamp_echo)
          }
        }
        else if kind = NX_TCP_EOL_KIND then Some (False, 0, 0)
        else if kind = NX_TCP_NOP_KIND then nx_tcp_timestamp_option_get rd (option_ptr + 1) (option_area_size - 1)
        else case rd (option_ptr + 1) of None \<Rightarrow> None | Some option_length \<Rightarrow>
          if unat option_length < 2 then Some (False, 0, 0)
          else if unat option_length > option_area_size then Some (False, 0, 0)
          else nx_tcp_timestamp_option_get rd (option_ptr + unat option_length) (option_area_size - unat option_length))"
  by pat_completeness auto
termination
  by (relation "measure (\<lambda>(rd, p, n). n)") (auto simp: unat_gt_0)

declare nx_tcp_mss_option_get.simps [simp del] nx_tcp_window_scaling_option_get.simps [simp del]
  nx_tcp_sack_permitted_option_get.simps [simp del] nx_tcp_timestamp_option_get.simps [simp del]

definition nx_tcp_timestamp_option_add :: "nat \<Rightarrow> ulong \<Rightarrow> ulong \<Rightarrow> byte_area \<Rightarrow> byte_area" where
  "nx_tcp_timestamp_option_add option_ptr timestamp_value timestamp_echo rd =
     area_write option_ptr
       ([NX_TCP_NOP_KIND, NX_TCP_NOP_KIND, NX_TCP_TIMESTAMP_KIND, of_nat NX_TCP_TIMESTAMP_LENGTH] @
        ulong_bytes timestamp_value @ ulong_bytes timestamp_echo) rd"

section \<open>Reads and writes\<close>

lemma area_bytes_Nil [simp]: "area_bytes rd p []"
  by (simp add: area_bytes_def)

lemma area_bytes_Cons [simp]: "area_bytes rd p (b # bs) \<longleftrightarrow> rd p = Some b \<and> area_bytes rd (Suc p) bs"
  by (auto simp: area_bytes_def less_Suc_eq_0_disj All_less_Suc2)

lemma area_bytes_append [simp]: "area_bytes rd p (bs @ cs) \<longleftrightarrow> area_bytes rd p bs \<and> area_bytes rd (p + length bs) cs"
  by (induction bs arbitrary: p) simp_all

lemma area_bytes_write: "area_bytes (area_write p bs rd) p bs"
  by (simp add: area_bytes_def area_write_def)

lemma length_ulong_bytes [simp]: "length (ulong_bytes w) = 4"
  by (simp add: ulong_bytes_def)

lemma ulong_join:
  fixes w :: ulong
  shows "push_bit 24 (ucast (ucast (drop_bit 24 w) :: byte)) OR push_bit 16 (ucast (ucast (drop_bit 16 w) :: byte)) OR
     push_bit 8 (ucast (ucast (drop_bit 8 w) :: byte)) OR ucast (ucast w :: byte) = w"
proof (rule bit_eqI)
  fix n
  assume "possible_bit TYPE(32 word) n"
  then have "n < 32" by simp
  then show "bit (push_bit 24 (ucast (ucast (drop_bit 24 w) :: byte)) OR push_bit 16 (ucast (ucast (drop_bit 16 w) :: byte)) OR
     push_bit 8 (ucast (ucast (drop_bit 8 w) :: byte)) OR ucast (ucast w :: byte) :: ulong) n = bit w n"
    by (cases "n < 8"; cases "n < 16"; cases "n < 24")
      (auto simp: bit_or_iff bit_push_bit_iff bit_ucast_iff bit_drop_bit_eq)
qed

lemma ulong_read_bytes: "area_bytes rd p (ulong_bytes w) \<Longrightarrow> ulong_read rd p = Some w"
  using ulong_join [of w] by (simp add: ulong_bytes_def ulong_read_def numeral_3_eq_3)

end
