(* ===== verification/Nx_Tcp_Base.thy ===== *)
theory Nx_Tcp_Base imports Nx_Packet_Base Nx_Tcp_Option begin

text \<open>
  The fields of a TCP socket that the SACK code uses (NX_TCP_SOCKET in common/inc/nx_api.h),
  the TCP header of a queued packet, and arithmetic on sequence numbers. A sequence number is a
  32-bit word; the code compares two of them by the sign of their difference, which is the
  order of their distances to a common base as long as both distances are below \<open>2 ^ 31\<close>.
\<close>

section \<open>Sockets and headers\<close>

datatype nx_tcp_state =
    NX_TCP_CLOSED | NX_TCP_LISTEN_STATE | NX_TCP_SYN_SENT | NX_TCP_SYN_RECEIVED | NX_TCP_ESTABLISHED
  | NX_TCP_CLOSE_WAIT | NX_TCP_FIN_WAIT_1 | NX_TCP_FIN_WAIT_2 | NX_TCP_CLOSING | NX_TCP_TIMED_WAIT
  | NX_TCP_LAST_ACK

record nx_tcp_socket =
  nx_tcp_socket_state :: nx_tcp_state
  nx_tcp_socket_fin_acked :: bool
  nx_tcp_socket_rx_sequence :: ulong
  nx_tcp_socket_tx_sequence :: ulong
  nx_tcp_socket_tx_outstanding_bytes :: ulong
  nx_tcp_socket_receive_queue_head :: nat
  nx_tcp_socket_receive_queue_tail :: nat
  nx_tcp_socket_timestamp_enabled :: bool
  nx_tcp_socket_sack_permitted :: bool
  nx_tcp_socket_sack_block_count :: nat
  nx_tcp_socket_sack_recent_sequence :: ulong
  nx_tcp_socket_dsack_left :: ulong
  nx_tcp_socket_dsack_right :: ulong
  nx_tcp_socket_sack_left :: "ulong list"
  nx_tcp_socket_sack_right :: "ulong list"

abbreviation (input) NX_TCP_SACK_MAX_BLOCKS :: nat where "NX_TCP_SACK_MAX_BLOCKS \<equiv> 4"

text \<open>The two words of the TCP header that are read here, in host order as the receive path
  leaves them.\<close>

record nx_tcp_header =
  nx_tcp_sequence_number :: ulong
  nx_tcp_header_word_3 :: ulong

definition nx_tcp_header_length :: "nx_tcp_header \<Rightarrow> ulong" where
  "nx_tcp_header_length h = drop_bit 28 (nx_tcp_header_word_3 h) * 4"

section \<open>ULONG as numbers\<close>

lemma ulong_less: "unat (x :: ulong) < 4294967296"
  using unsigned_less [of x, where 'a = nat] by simp

lemma unat_plus_ulong: "unat a + unat b < 4294967296 \<Longrightarrow> unat (a + b :: ulong) = unat a + unat b"
  by (subst unat_add_lem [THEN iffD1]) simp_all

lemma unat_minus_ulong: "unat b \<le> unat a \<Longrightarrow> unat (a - b :: ulong) = unat a - unat b"
  by (rule unat_sub) (simp add: word_le_nat_alt)

lemma unat_times_ulong: "unat a * unat b < 4294967296 \<Longrightarrow> unat (a * b :: ulong) = unat a * unat b"
  by (subst unat_mult_lem [THEN iffD1]) simp_all

section \<open>Sequence numbers\<close>

text \<open>\<open>(INT)(a - b)\<close>\<close>

definition seq_diff :: "ulong \<Rightarrow> ulong \<Rightarrow> int" where
  "seq_diff a b = sint (a - b)"

definition seq_off :: "ulong \<Rightarrow> ulong \<Rightarrow> nat" where
  "seq_off base a = unat (a - base)"

lemma sint_cases:
  fixes w :: ulong
  shows "sint w = (if unat w < 2147483648 then int (unat w) else int (unat w) - 4294967296)"
proof -
  define n where "n = unat w"
  have n: "uint w = int n" "n < 4294967296" using unsigned_less [of w, where 'a = nat] by (simp_all add: n_def)
  have "sint w = (int n + 2147483648) mod 4294967296 - 2147483648"
    unfolding n(1) [symmetric] using int_word_sint [where 'a = 32, of "uint w"] by simp
  also have "\<dots> = (if n < 2147483648 then int n else int n - 4294967296)"
  proof (cases "n < 2147483648")
    case False
    have "(int n + 2147483648) mod 4294967296 = (int n - 2147483648 + 4294967296) mod 4294967296" by (simp add: add.commute)
    also have "\<dots> = (int n - 2147483648) mod 4294967296" by (rule mod_add_self2)
    also have "\<dots> = int n - 2147483648" using False n(2) by (intro mod_pos_pos_trivial) linarith+
    finally show ?thesis using False by simp
  qed simp
  finally show ?thesis by (simp add: n_def)
qed

lemma sint_diff:
  fixes x y :: ulong
  assumes "unat x < 2147483648" "unat y < 2147483648"
  shows "sint (x - y) = int (unat x) - int (unat y)"
proof (cases "unat y \<le> unat x")
  case True
  then have "unat (x - y) = unat x - unat y" by (simp add: unat_sub word_le_nat_alt)
  then show ?thesis unfolding sint_cases using assms True by (simp only: of_nat_diff) auto
next
  case False
  then have "unat (x - y) = unat x + 4294967296 - unat y"
    using unat_sub_if_size [of x y] by (simp add: word_size)
  then have "\<not> unat (x - y) < 2147483648" "int (unat (x - y)) = int (unat x) + 4294967296 - int (unat y)"
    using assms False by linarith+
  then show ?thesis unfolding sint_cases by (simp only: if_False)
qed

lemma seq_diff_off:
  assumes "seq_off base a < 2147483648" "seq_off base b < 2147483648"
  shows "seq_diff a b = int (seq_off base a) - int (seq_off base b)"
  using sint_diff [OF assms [unfolded seq_off_def]] by (simp add: seq_diff_def seq_off_def)

lemma seq_diff_cases: "seq_diff a b = (if seq_off b a < 2147483648 then int (seq_off b a) else int (seq_off b a) - 4294967296)"
  unfolding seq_diff_def seq_off_def by (rule sint_cases)

lemma seq_diff_pos: "0 < seq_diff a b \<longleftrightarrow> 0 < seq_off b a \<and> seq_off b a < 2147483648"
proof -
  have "seq_off b a < 4294967296" using unsigned_less [of "a - b", where 'a = nat] by (simp add: seq_off_def)
  then show ?thesis by (simp add: seq_diff_cases)
qed

lemma seq_off_self [simp]: "seq_off a a = 0"
  by (simp add: seq_off_def)

lemma seq_off_inj: "seq_off base a = seq_off base b \<longleftrightarrow> a = b"
  using word_unat_eq_iff [of "a - base" "b - base"] by (simp add: seq_off_def)

text \<open>Distances add up when they do not wrap around.\<close>

lemma seq_off_add: "seq_off base a + seq_off a b < 4294967296 \<Longrightarrow> seq_off base b = seq_off base a + seq_off a b"
proof -
  assume "seq_off base a + seq_off a b < 4294967296"
  then have "unat ((a - base) + (b - a)) = unat (a - base) + unat (b - a)"
    by (subst unat_add_lem [THEN iffD1]) (simp_all add: seq_off_def)
  then show ?thesis by (simp add: seq_off_def)
qed

lemma seq_off_diff: "seq_off base a \<le> seq_off base b \<Longrightarrow> seq_off a b = seq_off base b - seq_off base a"
proof -
  assume "seq_off base a \<le> seq_off base b"
  then have "a - base \<le> b - base" by (simp add: seq_off_def word_le_nat_alt)
  then have "unat ((b - base) - (a - base)) = unat (b - base) - unat (a - base)" by (rule unat_sub)
  moreover have "(b - base) - (a - base) = b - a" by simp
  ultimately show ?thesis by (simp add: seq_off_def)
qed

lemma seq_off_both: "a \<noteq> b \<Longrightarrow> 4294967296 \<le> seq_off a b + seq_off b a"
proof (rule ccontr)
  assume "a \<noteq> b" "\<not> 4294967296 \<le> seq_off a b + seq_off b a"
  then have "seq_off a b = 0" using seq_off_add [of a b a] by simp
  then show False using seq_off_inj [of a b a] \<open>a \<noteq> b\<close> by simp
qed

lemma seq_diff_nonneg: "0 \<le> seq_diff a b \<longleftrightarrow> seq_off b a < 2147483648"
proof -
  have "seq_off b a < 4294967296" using unsigned_less [of "a - b", where 'a = nat] by (simp add: seq_off_def)
  then show ?thesis by (simp add: seq_diff_cases)
qed

end
