(* ===== verification/Nx_Tcp_Sack_Option.thy ===== *)
theory Nx_Tcp_Sack_Option imports Nx_Tcp_Base begin

text \<open>
  The SACK option of RFC 2018 with the D-SACK block of RFC 2883: reading the blocks that a
  peer reports (common/src/nx_tcp_sack_option_get.c) and describing the out-of-order data in
  the receive queue to a peer (nx_tcp_sack_option_build.c).
\<close>

section \<open>Reading\<close>

function (sequential) nx_sack_walk :: "byte_area \<Rightarrow> nat \<Rightarrow> nat \<Rightarrow> (nat \<times> nat) option option" where
  "nx_sack_walk rd option_ptr option_area_size =
     (if option_area_size < 2 then Some None
      else case rd option_ptr of None \<Rightarrow> None | Some kind \<Rightarrow>
        if kind = NX_TCP_SACK_KIND then Some (Some (option_ptr, option_area_size))
        else if kind = NX_TCP_EOL_KIND then Some None
        else if kind = NX_TCP_NOP_KIND then nx_sack_walk rd (option_ptr + 1) (option_area_size - 1)
        else case rd (option_ptr + 1) of None \<Rightarrow> None | Some option_length \<Rightarrow>
          if option_length = 0 \<or> unat option_length > option_area_size then Some None
          else nx_sack_walk rd (option_ptr + unat option_length) (option_area_size - unat option_length))"
  by pat_completeness auto
termination
  by (relation "measure (\<lambda>(rd, p, n). n)") (auto simp: unat_gt_0)

declare nx_sack_walk.simps [simp del]

text \<open>The end of the data that this side has sent and the peer has not acknowledged; the sequence
  number of a FIN is not part of it.\<close>

definition nx_sack_snd_una :: "nx_tcp_socket \<Rightarrow> ulong" where
  "nx_sack_snd_una s =
     (let snd_una = nx_tcp_socket_tx_sequence s - nx_tcp_socket_tx_outstanding_bytes s
      in if \<not> nx_tcp_socket_fin_acked s \<and>
            (nx_tcp_socket_state s = NX_TCP_FIN_WAIT_1 \<or> nx_tcp_socket_state s = NX_TCP_CLOSING \<or>
             nx_tcp_socket_state s = NX_TCP_LAST_ACK)
         then snd_una - 1 else snd_una)"

text \<open>The loop over the blocks of the option, for the indices that remain.\<close>

primrec nx_sack_record :: "byte_area \<Rightarrow> nat \<Rightarrow> ulong \<Rightarrow> ulong \<Rightarrow> nat list \<Rightarrow> ulong list \<Rightarrow> ulong list \<Rightarrow> nat \<Rightarrow>
    (ulong list \<times> ulong list \<times> nat) option" where
  "nx_sack_record rd option_ptr snd_una snd_nxt [] sack_left sack_right count = Some (sack_left, sack_right, count)"
| "nx_sack_record rd option_ptr snd_una snd_nxt (i # rest) sack_left sack_right count = do {
     left \<leftarrow> ulong_read rd (option_ptr + 2 + 8 * i);
     right \<leftarrow> ulong_read rd (option_ptr + 6 + 8 * i);
     if seq_diff right left \<le> 0 \<or> seq_diff left snd_una \<le> 0 \<or> seq_diff snd_nxt right < 0 \<or>
        list_ex (\<lambda>j. seq_diff right (sack_left ! j) > 0 \<and> seq_diff (sack_right ! j) left > 0) [0 ..< count]
     then nx_sack_record rd option_ptr snd_una snd_nxt rest sack_left sack_right count
     else nx_sack_record rd option_ptr snd_una snd_nxt rest (sack_left[count := left]) (sack_right[count := right]) (count + 1)
   }"

definition nx_tcp_sack_option_get :: "byte_area \<Rightarrow> nat \<Rightarrow> nat \<Rightarrow> nx_tcp_socket \<Rightarrow> nx_tcp_socket option" where
  "nx_tcp_sack_option_get rd option_ptr option_area_size s =
     (if \<not> nx_tcp_socket_sack_permitted s then Some s
      else do {
        w \<leftarrow> nx_sack_walk rd option_ptr option_area_size;
        case w of
          None \<Rightarrow> Some s
        | Some (option_ptr, option_area_size) \<Rightarrow> do {
            option_length \<leftarrow> rd (option_ptr + 1);
            if unat option_length < 10 \<or> unat option_length > option_area_size \<or> (unat option_length - 2) mod 8 \<noteq> 0
            then Some s
            else do {
              (sack_left, sack_right, count) \<leftarrow>
                nx_sack_record rd option_ptr (nx_sack_snd_una s) (nx_tcp_socket_tx_sequence s)
                  [0 ..< min ((unat option_length - 2) div 8) NX_TCP_SACK_MAX_BLOCKS]
                  (nx_tcp_socket_sack_left s) (nx_tcp_socket_sack_right s) 0;
              Some (s\<lparr>nx_tcp_socket_sack_left := sack_left, nx_tcp_socket_sack_right := sack_right,
                      nx_tcp_socket_sack_block_count := count\<rparr>)
            }
          }
      })"

section \<open>Building\<close>

text \<open>\<open>hdr\<close> are the TCP headers in memory. A packet of the receive queue as the range of sequence
  numbers of its data, and whether it is out of order.\<close>

definition nx_queued_range :: "(nat \<rightharpoonup> nx_tcp_header) \<Rightarrow> nx_packet \<Rightarrow> (ulong \<times> ulong) option" where
  "nx_queued_range hdr pk = do {
     h \<leftarrow> hdr (nx_packet_prepend_ptr pk);
     Some (nx_tcp_sequence_number h,
           nx_tcp_sequence_number h + of_nat (nx_packet_length pk) - nx_tcp_header_length h)
   }"

text \<open>The blocks collected so far, in ascending order; \<open>count\<close> is the length of the list.\<close>

definition nx_sack_collect :: "ulong \<Rightarrow> nat \<Rightarrow> ulong \<times> ulong \<Rightarrow> (ulong \<times> ulong) list \<Rightarrow> (ulong \<times> ulong) list" where
  "nx_sack_collect rx_sequence limit seg blocks =
     (case seg of (begin_sequence, end_sequence) \<Rightarrow>
        if seq_diff end_sequence rx_sequence > 0
        then if blocks \<noteq> [] \<and> snd (last blocks) = begin_sequence
             then butlast blocks @ [(fst (last blocks), end_sequence)]
             else if length blocks < limit then blocks @ [(begin_sequence, end_sequence)]
             else tl blocks @ [(begin_sequence, end_sequence)]
        else blocks)"

partial_function (option) nx_sack_blocks_of_queue ::
    "(nat \<rightharpoonup> nx_packet) \<Rightarrow> (nat \<rightharpoonup> nx_tcp_header) \<Rightarrow> ulong \<Rightarrow> nat \<Rightarrow> nat \<Rightarrow> (ulong \<times> ulong) list \<Rightarrow> (ulong \<times> ulong) list option" where
  "nx_sack_blocks_of_queue pks hdr rx_sequence limit search_ptr blocks =
     (if search_ptr = NX_NULL \<or> search_ptr = NX_PACKET_ENQUEUED then Some blocks
      else do {
        pk \<leftarrow> pks search_ptr;
        seg \<leftarrow> nx_queued_range hdr pk;
        nx_sack_blocks_of_queue pks hdr rx_sequence limit (nx_packet_tcp_queue_next pk)
          (nx_sack_collect rx_sequence limit seg blocks)
      })"

text \<open>Where the walk over the queue starts: nowhere if even its last packet is in order.\<close>

definition nx_sack_start :: "(nat \<rightharpoonup> nx_packet) \<Rightarrow> (nat \<rightharpoonup> nx_tcp_header) \<Rightarrow> nx_tcp_socket \<Rightarrow> nat \<Rightarrow> nat option" where
  "nx_sack_start pks hdr s limit =
     (if nx_tcp_socket_receive_queue_head s = NX_NULL \<or> limit = 0 then Some NX_NULL
      else do {
        tail \<leftarrow> pks (nx_tcp_socket_receive_queue_tail s);
        (begin_sequence, end_sequence) \<leftarrow> nx_queued_range hdr tail;
        Some (if seq_diff end_sequence (nx_tcp_socket_rx_sequence s) \<le> 0 then NX_NULL
              else nx_tcp_socket_receive_queue_head s)
      })"

definition nx_sack_recent :: "ulong \<Rightarrow> (ulong \<times> ulong) list \<Rightarrow> nat" where
  "nx_sack_recent recent_sequence blocks =
     (case find (\<lambda>i. seq_diff recent_sequence (fst (blocks ! i)) \<ge> 0 \<and> seq_diff (snd (blocks ! i)) recent_sequence > 0)
        [0 ..< length blocks]
      of Some i \<Rightarrow> i | None \<Rightarrow> if 0 < length blocks then length blocks - 1 else 0)"

text \<open>The blocks in the order they are written.\<close>

definition nx_sack_order :: "nat \<Rightarrow> (ulong \<times> ulong) list \<Rightarrow> (ulong \<times> ulong) list" where
  "nx_sack_order recent blocks =
     (if blocks = [] then [] else [blocks ! recent]) @
     map (\<lambda>i. blocks ! i) (filter (\<lambda>i. i \<noteq> recent) (rev [0 ..< length blocks]))"

definition nx_sack_block_bytes :: "ulong \<times> ulong \<Rightarrow> byte list" where
  "nx_sack_block_bytes b = ulong_bytes (fst b) @ ulong_bytes (snd b)"

definition nx_tcp_sack_option_build ::
    "(nat \<rightharpoonup> nx_packet) \<Rightarrow> (nat \<rightharpoonup> nx_tcp_header) \<Rightarrow> nx_tcp_socket \<Rightarrow> nat \<Rightarrow> byte_area \<Rightarrow> (nat \<times> nx_tcp_socket \<times> byte_area) option" where
  "nx_tcp_sack_option_build pks hdr s option_ptr rd =
     (if \<not> nx_tcp_socket_sack_permitted s then Some (0, s, rd)
      else do {
        let dsack = (if nx_tcp_socket_dsack_left s \<noteq> nx_tcp_socket_dsack_right s then 1 else 0 :: nat);
        let limit = (if nx_tcp_socket_timestamp_enabled s \<and> NX_TCP_SACK_MAX_BLOCKS - dsack > 3 - dsack
                     then 3 - dsack else NX_TCP_SACK_MAX_BLOCKS - dsack);
        search_ptr \<leftarrow> nx_sack_start pks hdr s limit;
        blocks \<leftarrow> nx_sack_blocks_of_queue pks hdr (nx_tcp_socket_rx_sequence s) limit search_ptr [];
        if length blocks = 0 \<and> dsack = 0 then Some (0, s, rd)
        else do {
          let recent = nx_sack_recent (nx_tcp_socket_sack_recent_sequence s) blocks;
          let dsack_blocks = (if dsack \<noteq> 0 then [(nx_tcp_socket_dsack_left s, nx_tcp_socket_dsack_right s)] else []);
          let s' = (if dsack \<noteq> 0 then s\<lparr>nx_tcp_socket_dsack_left := 0, nx_tcp_socket_dsack_right := 0\<rparr> else s);
          Some (4 + 8 * (length blocks + dsack), s',
                area_write option_ptr
                  ([NX_TCP_NOP_KIND, NX_TCP_NOP_KIND, NX_TCP_SACK_KIND, of_nat (2 + 8 * (length blocks + dsack))] @
                   concat (map nx_sack_block_bytes (dsack_blocks @ nx_sack_order recent blocks))) rd)
        }
      })"

end
