(* ===== verification/Nx_Tcp_Option_Walk.thy ===== *)
theory Nx_Tcp_Option_Walk imports Nx_Tcp_Option begin

text \<open>
  What the option readers have in common. The option area as a list of options is the reference
  definition; one locale states how a reader walks over the area, and its lemmas, that a walk never
  leaves the area and that it finds the first option of its kind, hold for each reader by
  interpretation.
\<close>

section \<open>Options\<close>

datatype tcp_option = Tcp_nop | Tcp_option byte "byte list"

fun option_bytes :: "tcp_option \<Rightarrow> byte list" where
  "option_bytes Tcp_nop = [NX_TCP_NOP_KIND]"
| "option_bytes (Tcp_option k d) = k # of_nat (2 + length d) # d"

fun tcp_option_ok :: "tcp_option \<Rightarrow> bool" where
  "tcp_option_ok Tcp_nop = True"
| "tcp_option_ok (Tcp_option k d) = (k \<noteq> NX_TCP_EOL_KIND \<and> k \<noteq> NX_TCP_NOP_KIND \<and> length d \<le> 253)"

definition options_bytes :: "tcp_option list \<Rightarrow> byte list" where
  "options_bytes opts = concat (map option_bytes opts)"

fun tcp_find :: "byte \<Rightarrow> tcp_option list \<Rightarrow> byte list option" where
  "tcp_find kind [] = None"
| "tcp_find kind (Tcp_nop # opts) = tcp_find kind opts"
| "tcp_find kind (Tcp_option k d # opts) = (if k = kind then Some d else tcp_find kind opts)"

text \<open>The area ends after its last option or at an end-of-list option.\<close>

definition option_area :: "byte_area \<Rightarrow> nat \<Rightarrow> nat \<Rightarrow> tcp_option list \<Rightarrow> bool" where
  "option_area rd p n opts \<longleftrightarrow> (\<forall>x \<in> set opts. tcp_option_ok x) \<and>
     (\<exists>rest. area_bytes rd p (options_bytes opts @ rest) \<and> n = length (options_bytes opts @ rest) \<and>
        (rest = [] \<or> hd rest = NX_TCP_EOL_KIND))"

lemma options_bytes_simps [simp]:
  "options_bytes [] = []" "options_bytes (x # opts) = option_bytes x @ options_bytes opts"
  by (simp_all add: options_bytes_def)

lemma tcp_find_size: "tcp_find kind opts = Some d \<Longrightarrow> 2 + length d \<le> length (options_bytes opts)"
  by (induction kind opts rule: tcp_find.induct) (auto split: if_splits)

lemma unat_option_length: "n \<le> 253 \<Longrightarrow> unat (of_nat (2 + n) :: byte) = 2 + n"
  by (simp only: unat_of_nat) (simp add: take_bit_eq_mod)

lemma option_area_Nil: "option_area rd p n [] \<Longrightarrow> n = 0 \<or> rd p = Some NX_TCP_EOL_KIND"
proof -
  assume "option_area rd p n []"
  then obtain rest where "area_bytes rd p rest" "n = length rest" "rest = [] \<or> hd rest = NX_TCP_EOL_KIND"
    by (auto simp: option_area_def)
  then show ?thesis by (cases rest) auto
qed

lemma option_area_nop: "option_area rd p n (Tcp_nop # opts) \<Longrightarrow>
    rd p = Some NX_TCP_NOP_KIND \<and> 1 \<le> n \<and> option_area rd (p + 1) (n - 1) opts"
  by (auto simp: option_area_def)

lemma option_area_option:
  assumes "option_area rd p n (Tcp_option k d # opts)"
  shows "rd p = Some k" "k \<noteq> NX_TCP_EOL_KIND" "k \<noteq> NX_TCP_NOP_KIND" "2 + length d \<le> n"
    "rd (p + 1) = Some (of_nat (2 + length d))" "unat (of_nat (2 + length d) :: byte) = 2 + length d"
    "area_bytes rd (p + 2) d" "option_area rd (p + (2 + length d)) (n - (2 + length d)) opts"
proof -
  show "unat (of_nat (2 + length d) :: byte) = 2 + length d"
    using assms by (intro unat_option_length) (simp add: option_area_def)
  obtain rest where rest: "area_bytes rd p (options_bytes (Tcp_option k d # opts) @ rest)"
    "n = length (options_bytes (Tcp_option k d # opts) @ rest)" "rest = [] \<or> hd rest = NX_TCP_EOL_KIND"
    using assms unfolding option_area_def by blast
  show "rd p = Some k" "2 + length d \<le> n" "rd (p + 1) = Some (of_nat (2 + length d))" "area_bytes rd (p + 2) d"
    using rest(1,2) by (simp_all add: numeral_2_eq_2)
  show "k \<noteq> NX_TCP_EOL_KIND" "k \<noteq> NX_TCP_NOP_KIND" using assms by (simp_all add: option_area_def)
  have "area_bytes rd (p + (2 + length d)) (options_bytes opts @ rest)"
    using rest(1) by (simp add: numeral_2_eq_2 add.commute add.left_commute)
  moreover have "n - (2 + length d) = length (options_bytes opts @ rest)" using rest(2) by simp
  ultimately show "option_area rd (p + (2 + length d)) (n - (2 + length d)) opts"
    using assms rest(3) unfolding option_area_def by auto
qed

section \<open>The walk\<close>

text \<open>\<open>hit\<close> is what a reader does at an option of its kind with so many bytes left.\<close>

locale option_reader =
  fixes get :: "byte_area \<Rightarrow> nat \<Rightarrow> nat \<Rightarrow> 'r option" and kind :: byte and shortest :: nat and absent :: 'r
    and hit :: "byte_area \<Rightarrow> nat \<Rightarrow> nat \<Rightarrow> 'r option"
  assumes shortest: "2 \<le> shortest" and proper: "kind \<noteq> NX_TCP_EOL_KIND" "kind \<noteq> NX_TCP_NOP_KIND"
    and too_short: "n < shortest \<Longrightarrow> get rd p n = Some absent"
    and at_kind: "shortest \<le> n \<Longrightarrow> rd p = Some kind \<Longrightarrow> get rd p n = hit rd p n"
    and at_end: "shortest \<le> n \<Longrightarrow> rd p = Some NX_TCP_EOL_KIND \<Longrightarrow> get rd p n = Some absent"
    and at_nop: "shortest \<le> n \<Longrightarrow> rd p = Some NX_TCP_NOP_KIND \<Longrightarrow> get rd p n = get rd (p + 1) (n - 1)"
    and at_other: "shortest \<le> n \<Longrightarrow> rd p = Some k \<Longrightarrow> k \<noteq> kind \<Longrightarrow> k \<noteq> NX_TCP_EOL_KIND \<Longrightarrow> k \<noteq> NX_TCP_NOP_KIND \<Longrightarrow>
      rd (p + 1) = Some l \<Longrightarrow> 2 \<le> unat l \<Longrightarrow> unat l \<le> n \<Longrightarrow> get rd p n = get rd (p + unat l) (n - unat l)"
    and at_broken: "shortest \<le> n \<Longrightarrow> rd p = Some k \<Longrightarrow> k \<noteq> kind \<Longrightarrow> k \<noteq> NX_TCP_EOL_KIND \<Longrightarrow> k \<noteq> NX_TCP_NOP_KIND \<Longrightarrow>
      rd (p + 1) = Some l \<Longrightarrow> unat l < 2 \<or> n < unat l \<Longrightarrow>
      get rd p n \<noteq> None \<or> get rd p n = get rd (p + 1) (n - 1)"
    and hit_inside: "shortest \<le> n \<Longrightarrow> rd p = Some kind \<Longrightarrow> (\<And>i. i < n \<Longrightarrow> rd (p + i) \<noteq> None) \<Longrightarrow> hit rd p n \<noteq> None"
begin

lemma stays_inside:
  assumes "\<And>i. i < n \<Longrightarrow> rd (p + i) \<noteq> None"
  shows "get rd p n \<noteq> None"
  using assms
proof (induction n arbitrary: p rule: less_induct)
  case (less n)
  show ?case
  proof (cases "n < shortest")
    case True
    then show ?thesis using too_short by simp
  next
    case False
    then have n: "shortest \<le> n" "2 \<le> n" using shortest by auto
    obtain k l where k: "rd p = Some k" and l: "rd (p + 1) = Some l" using less.prems [of 0] less.prems [of 1] n(2) by auto
    have later: "get rd (p + m) (n - m) \<noteq> None" if m: "1 \<le> m" "m \<le> n" for m
    proof (rule less.IH)
      show "n - m < n" using m n(2) by simp
      show "rd (p + m + i) \<noteq> None" if "i < n - m" for i using less.prems [of "m + i"] that by (simp add: add.assoc)
    qed
    consider "k = kind" | "k = NX_TCP_EOL_KIND" | "k = NX_TCP_NOP_KIND" | "k \<noteq> kind" "k \<noteq> NX_TCP_EOL_KIND" "k \<noteq> NX_TCP_NOP_KIND" by blast
    then show ?thesis
    proof cases
      case 1
      then show ?thesis using at_kind [OF n(1)] hit_inside [OF n(1), of rd p] k less.prems by simp
    next
      case 2
      then show ?thesis using at_end [OF n(1)] k by simp
    next
      case 3
      then show ?thesis using at_nop [OF n(1)] k later [of 1] n(2) by simp
    next
      case 4
      then show ?thesis
        using at_other [OF n(1) k 4 l] at_broken [OF n(1) k 4 l] later [of "unat l"] later [of 1] n(2)
        by (cases "2 \<le> unat l \<and> unat l \<le> n") auto
    qed
  qed
qed

lemma finds_first:
  assumes "option_area rd p n opts" "\<And>d. tcp_find kind opts = Some d \<Longrightarrow> shortest \<le> 2 + length d"
  shows "case tcp_find kind opts of
      None \<Rightarrow> get rd p n = Some absent
    | Some d \<Rightarrow> \<exists>q m. get rd p n = hit rd q m \<and> rd q = Some kind \<and> rd (q + 1) = Some (of_nat (2 + length d)) \<and>
        area_bytes rd (q + 2) d \<and> 2 + length d \<le> m \<and> length d \<le> 253"
  using assms
proof (induction opts arbitrary: p n)
  case Nil
  then show ?case using option_area_Nil [OF Nil.prems(1)] too_short at_end shortest by (cases "n < shortest") auto
next
  case (Cons x opts)
  have small: "tcp_find kind (x # opts) = None" if "n < shortest"
  proof (rule ccontr)
    assume "tcp_find kind (x # opts) \<noteq> None"
    then obtain d where d: "tcp_find kind (x # opts) = Some d" by blast
    have "length (options_bytes (x # opts)) \<le> n" using Cons.prems(1) by (auto simp: option_area_def)
    then show False using tcp_find_size [OF d] Cons.prems(2) [OF d] that by simp
  qed
  show ?case
  proof (cases "n < shortest")
    case True
    then show ?thesis using small too_short by simp
  next
    case False
    then have n: "shortest \<le> n" by simp
    show ?thesis
    proof (cases x)
      case Tcp_nop
      then have o: "rd p = Some NX_TCP_NOP_KIND" "option_area rd (p + 1) (n - 1) opts"
        using option_area_nop [of rd p n opts] Cons.prems(1) by blast+
      show ?thesis
        using Cons.IH [OF o(2)] Cons.prems(2) unfolding Tcp_nop tcp_find.simps at_nop [where rd = rd and p = p, OF n o(1)] by blast
    next
      case (Tcp_option k d)
      note o = option_area_option [OF Cons.prems(1) [unfolded Tcp_option]]
      show ?thesis
      proof (cases "k = kind")
        case True
        have "length d \<le> 253" using Cons.prems(1) Tcp_option by (simp add: option_area_def)
        moreover have "get rd p n = hit rd p n" by (rule at_kind [OF n]) (use o True in simp)
        ultimately have "get rd p n = hit rd p n \<and> rd p = Some kind \<and> rd (p + 1) = Some (of_nat (2 + length d)) \<and>
            area_bytes rd (p + 2) d \<and> 2 + length d \<le> n \<and> length d \<le> 253" using o True by blast
        then show ?thesis unfolding Tcp_option tcp_find.simps if_P [OF True] option.case by blast
      next
        case False
        have step: "get rd p n = get rd (p + (2 + length d)) (n - (2 + length d))"
          using at_other [OF n o(1) False o(2,3,5)] o(4,6) by simp
        have "\<And>e. tcp_find kind opts = Some e \<Longrightarrow> shortest \<le> 2 + length e" using Cons.prems(2) False Tcp_option by simp
        note ih = Cons.IH [OF o(8) this]
        show ?thesis unfolding Tcp_option tcp_find.simps if_not_P [OF False] step by (rule ih)
      qed
    qed
  qed
qed

end

section \<open>The readers\<close>

definition mss_at :: "byte_area \<Rightarrow> nat \<Rightarrow> nat \<Rightarrow> (bool \<times> nat) option" where
  "mss_at rd p n = do {
     n \<leftarrow> rd (p + 1);
     if n \<noteq> 4 then Some (False, 0)
     else do { msb \<leftarrow> rd (p + 2); lsb \<leftarrow> rd (p + 3); Some (True, 256 * unat msb + unat lsb) }
   }"

lemma small_length: "unat (l :: byte) < 2 \<Longrightarrow> l = 0 \<or> unat l = 1"
  using unat_gt_0 [of l] by linarith

definition readable :: "byte_area \<Rightarrow> nat \<Rightarrow> nat \<Rightarrow> bool" where
  "readable rd p n \<longleftrightarrow> (\<forall>i < n. rd (p + i) \<noteq> None)"

lemma readableD: "readable rd p n \<Longrightarrow> i < n \<Longrightarrow> \<exists>b. rd (p + i) = Some b"
  by (auto simp: readable_def)

lemma ulong_read_readable: "readable rd p n \<Longrightarrow> i + 3 < n \<Longrightarrow> \<exists>w. ulong_read rd (p + i) = Some w"
  using readableD [of rd p n i] readableD [of rd p n "i + 1"] readableD [of rd p n "i + 2"] readableD [of rd p n "i + 3"]
  by (auto simp: ulong_read_def add.assoc)

interpretation mss_reader: option_reader nx_tcp_mss_option_get NX_TCP_MSS_KIND 4 "(True, 0)" mss_at
proof
  fix n p :: nat and rd :: byte_area and k l :: byte
  assume "4 \<le> n" "rd p = Some k" "k \<noteq> 2" "k \<noteq> 0" "k \<noteq> 1" "rd (p + 1) = Some l" "unat l < 2 \<or> n < unat l"
  then show "nx_tcp_mss_option_get rd p n \<noteq> None \<or> nx_tcp_mss_option_get rd p n = nx_tcp_mss_option_get rd (p + 1) (n - 1)"
    using small_length [of l] nx_tcp_mss_option_get.simps [of rd p n] by auto
next
  fix n p :: nat and rd :: byte_area
  assume n: "4 \<le> n" and rd: "\<And>i. i < n \<Longrightarrow> rd (p + i) \<noteq> None"
  then have r: "readable rd p n" by (simp add: readable_def)
  obtain a b c where "rd (p + 1) = Some a" "rd (p + 2) = Some b" "rd (p + 3) = Some c"
    using readableD [OF r, of 1] readableD [OF r, of 2] readableD [OF r, of 3] n by auto
  then show "mss_at rd p n \<noteq> None" by (simp add: mss_at_def del: not_None_eq)
qed (auto simp: nx_tcp_mss_option_get.simps mss_at_def)

definition window_scale_at :: "byte_area \<Rightarrow> nat \<Rightarrow> nat \<Rightarrow> (bool \<times> nat) option" where
  "window_scale_at rd p n = do {
     l \<leftarrow> rd (p + 1);
     if l \<noteq> 3 then Some (False, 0xFF)
     else do { w \<leftarrow> rd (p + 2); Some (True, if unat w > 14 then 14 else unat w) }
   }"

interpretation window_scale_reader: option_reader nx_tcp_window_scaling_option_get NX_TCP_RWIN_KIND 3 "(True, 0xFF)" window_scale_at
proof
  fix n p :: nat and rd :: byte_area and k l :: byte
  assume "3 \<le> n" "rd p = Some k" "k \<noteq> 3" "k \<noteq> 0" "k \<noteq> 1" "rd (p + 1) = Some l" "unat l < 2 \<or> n < unat l"
  then show "nx_tcp_window_scaling_option_get rd p n \<noteq> None \<or>
      nx_tcp_window_scaling_option_get rd p n = nx_tcp_window_scaling_option_get rd (p + 1) (n - 1)"
    using small_length [of l] nx_tcp_window_scaling_option_get.simps [of rd p n] by auto
next
  fix n p :: nat and rd :: byte_area
  assume n: "3 \<le> n" and rd: "\<And>i. i < n \<Longrightarrow> rd (p + i) \<noteq> None"
  then have r: "readable rd p n" by (simp add: readable_def)
  obtain a b where "rd (p + 1) = Some a" "rd (p + 2) = Some b"
    using readableD [OF r, of 1] readableD [OF r, of 2] n by auto
  then show "window_scale_at rd p n \<noteq> None" by (simp add: window_scale_at_def del: not_None_eq)
qed (auto simp: nx_tcp_window_scaling_option_get.simps window_scale_at_def)

definition sack_permitted_at :: "byte_area \<Rightarrow> nat \<Rightarrow> nat \<Rightarrow> (bool \<times> bool) option" where
  "sack_permitted_at rd p n = do { l \<leftarrow> rd (p + 1); if l \<noteq> 2 then Some (False, False) else Some (True, True) }"

interpretation sack_permitted_reader:
  option_reader nx_tcp_sack_permitted_option_get NX_TCP_SACK_PERMITTED_KIND 2 "(True, False)" sack_permitted_at
proof
  fix n p :: nat and rd :: byte_area and k l :: byte
  assume "2 \<le> n" "rd p = Some k" "k \<noteq> 4" "k \<noteq> 0" "k \<noteq> 1" "rd (p + 1) = Some l" "unat l < 2 \<or> n < unat l"
  then show "nx_tcp_sack_permitted_option_get rd p n \<noteq> None \<or>
      nx_tcp_sack_permitted_option_get rd p n = nx_tcp_sack_permitted_option_get rd (p + 1) (n - 1)"
    using small_length [of l] nx_tcp_sack_permitted_option_get.simps [of rd p n] by auto
next
  fix n p :: nat and rd :: byte_area
  assume n: "2 \<le> n" and rd: "\<And>i. i < n \<Longrightarrow> rd (p + i) \<noteq> None"
  then have r: "readable rd p n" by (simp add: readable_def)
  obtain a where "rd (p + 1) = Some a" using readableD [OF r, of 1] n by auto
  then show "sack_permitted_at rd p n \<noteq> None" by (simp add: sack_permitted_at_def del: not_None_eq)
qed (auto simp: nx_tcp_sack_permitted_option_get.simps sack_permitted_at_def)

definition timestamp_at :: "byte_area \<Rightarrow> nat \<Rightarrow> nat \<Rightarrow> (bool \<times> ulong \<times> ulong) option" where
  "timestamp_at rd p n = do {
     l \<leftarrow> rd (p + 1);
     if unat l \<noteq> 10 then Some (False, 0, 0)
     else do { v \<leftarrow> ulong_read rd (p + 2); e \<leftarrow> ulong_read rd (p + 6); Some (True, v, e) }
   }"

interpretation timestamp_reader:
  option_reader nx_tcp_timestamp_option_get NX_TCP_TIMESTAMP_KIND 10 "(False, 0, 0)" timestamp_at
proof
  fix n p :: nat and rd :: byte_area and k l :: byte
  assume "10 \<le> n" "rd p = Some k" "k \<noteq> 8" "k \<noteq> 0" "k \<noteq> 1" "rd (p + 1) = Some l" "unat l < 2 \<or> n < unat l"
  then show "nx_tcp_timestamp_option_get rd p n \<noteq> None \<or>
      nx_tcp_timestamp_option_get rd p n = nx_tcp_timestamp_option_get rd (p + 1) (n - 1)"
    using nx_tcp_timestamp_option_get.simps [of rd p n] by auto
next
  fix n p :: nat and rd :: byte_area
  assume n: "10 \<le> n" and rd: "\<And>i. i < n \<Longrightarrow> rd (p + i) \<noteq> None"
  then have r: "readable rd p n" by (simp add: readable_def)
  obtain a v e where "rd (p + 1) = Some a" "ulong_read rd (p + 2) = Some v" "ulong_read rd (p + 6) = Some e"
    using readableD [OF r, of 1] ulong_read_readable [OF r, of 2] ulong_read_readable [OF r, of 6] n by auto
  then show "timestamp_at rd p n \<noteq> None" by (simp add: timestamp_at_def del: not_None_eq)
qed (auto simp: nx_tcp_timestamp_option_get.simps timestamp_at_def)

end
