(* ===== verification/Nx_Tcp_Sack_Read.thy ===== *)
theory Nx_Tcp_Sack_Read imports Nx_Tcp_Sack_Option Nx_Tcp_Option_Walk begin

text \<open>
  Reading the SACK option: it stays inside the option area whatever the peer sends, what it
  records, and that it records the blocks of a well-formed option.
\<close>

section \<open>The walk to the option\<close>

interpretation sack_walk: option_reader nx_sack_walk NX_TCP_SACK_KIND 2 None "\<lambda>rd p n. Some (Some (p, n))"
proof
  fix n p :: nat and rd :: byte_area and k l :: byte
  assume "2 \<le> n" "rd p = Some k" "k \<noteq> 5" "k \<noteq> 0" "k \<noteq> 1" "rd (p + 1) = Some l" "unat l < 2 \<or> n < unat l"
  then show "nx_sack_walk rd p n \<noteq> None \<or> nx_sack_walk rd p n = nx_sack_walk rd (p + 1) (n - 1)"
    using small_length [of l] nx_sack_walk.simps [of rd p n] by auto
qed (auto simp: nx_sack_walk.simps)

lemma nx_sack_walk_range:
  "nx_sack_walk rd p n = Some (Some (q, m)) \<Longrightarrow> p \<le> q \<and> q + m = p + n \<and> 2 \<le> m"
proof (induction rd p n rule: nx_sack_walk.induct)
  case (1 rd p n)
  show ?case
  proof (cases "n < 2 \<or> rd p = None")
    case True
    then show ?thesis using "1.prems" by (subst (asm) nx_sack_walk.simps) (auto split: option.splits if_splits)
  next
    case False
    then obtain kind where k: "rd p = Some kind" "\<not> n < 2" by auto
    consider "kind = 5" | "kind = 0" | "kind = 1" | "kind \<noteq> 5" "kind \<noteq> 0" "kind \<noteq> 1" by blast
    then show ?thesis
    proof cases
      case 1
      then show ?thesis using "1.prems" k by (subst (asm) nx_sack_walk.simps) simp
    next
      case 2
      then show ?thesis using "1.prems" k by (subst (asm) nx_sack_walk.simps) simp
    next
      case 3
      then have "nx_sack_walk rd (p + 1) (n - 1) = Some (Some (q, m))"
        using "1.prems" k by (subst (asm) nx_sack_walk.simps) simp
      then show ?thesis using "1.IH"(1) [OF k(2,1)] 3 k(2) by auto
    next
      case 4
      from "1.prems" k 4 obtain l where l: "rd (p + 1) = Some l" "\<not> (l = 0 \<or> n < unat l)"
        "nx_sack_walk rd (p + unat l) (n - unat l) = Some (Some (q, m))"
        by (subst (asm) nx_sack_walk.simps) (auto split: option.splits if_splits)
      then show ?thesis using "1.IH"(2) [OF k(2,1) 4 l(1,2)] by auto
    qed
  qed
qed

section \<open>The loop over the blocks\<close>

lemma nx_sack_record_returns:
  assumes "\<And>i. i \<in> set is \<Longrightarrow> readable rd p (10 + 8 * i)"
  shows "\<exists>L' R' c'. nx_sack_record rd p una nxt is L R c = Some (L', R', c')"
  using assms
proof (induction "is" arbitrary: L R c)
  case (Cons i is')
  have r: "readable rd p (10 + 8 * i)" by (rule Cons.prems) simp
  obtain left right where "ulong_read rd (p + (2 + 8 * i)) = Some left" "ulong_read rd (p + (6 + 8 * i)) = Some right"
    using ulong_read_readable [OF r, of "2 + 8 * i"] ulong_read_readable [OF r, of "6 + 8 * i"] by auto
  moreover have "\<exists>L' R' c'. nx_sack_record rd p una nxt is' L0 R0 c0 = Some (L', R', c')" for L0 R0 c0
    by (rule Cons.IH) (use Cons.prems in simp)
  ultimately show ?case by (simp add: add.assoc)
qed simp

text \<open>What every recorded block satisfies, as the code compares.\<close>

definition sack_block_checked :: "ulong \<Rightarrow> ulong \<Rightarrow> ulong \<times> ulong \<Rightarrow> bool" where
  "sack_block_checked una nxt b \<longleftrightarrow>
     seq_diff (snd b) (fst b) > 0 \<and> seq_diff (fst b) una > 0 \<and> seq_diff nxt (snd b) \<ge> 0"

definition sack_overlap :: "ulong \<times> ulong \<Rightarrow> ulong \<times> ulong \<Rightarrow> bool" where
  "sack_overlap b c \<longleftrightarrow> seq_diff (snd c) (fst b) > 0 \<and> seq_diff (snd b) (fst c) > 0"

definition recorded :: "ulong list \<Rightarrow> ulong list \<Rightarrow> nat \<Rightarrow> (ulong \<times> ulong) list" where
  "recorded L R c = map (\<lambda>j. (L ! j, R ! j)) [0 ..< c]"

lemma length_recorded [simp]: "length (recorded L R c) = c"
  by (simp add: recorded_def)

lemma recorded_Suc:
  "c < length L \<Longrightarrow> c < length R \<Longrightarrow> recorded (L[c := l]) (R[c := r]) (Suc c) = recorded L R c @ [(l, r)]"
  by (simp add: recorded_def)

lemma nx_sack_record_checked:
  assumes "nx_sack_record rd p una nxt is L R c = Some (L', R', c')" "length L = 4" "length R = 4" "c + length is \<le> 4"
    and "\<forall>b \<in> set (recorded L R c). sack_block_checked una nxt b"
    and "\<forall>j k. j < k \<longrightarrow> k < c \<longrightarrow> \<not> sack_overlap (recorded L R c ! j) (recorded L R c ! k)"
  shows "length L' = 4 \<and> length R' = 4 \<and> c' \<le> c + length is \<and>
     (\<forall>b \<in> set (recorded L' R' c'). sack_block_checked una nxt b) \<and>
     (\<forall>j k. j < k \<longrightarrow> k < c' \<longrightarrow> \<not> sack_overlap (recorded L' R' c' ! j) (recorded L' R' c' ! k))"
  using assms
proof (induction "is" arbitrary: L R c)
  case (Cons i is')
  from Cons.prems(1) obtain l r where lr: "ulong_read rd (p + 2 + 8 * i) = Some l" "ulong_read rd (p + 6 + 8 * i) = Some r"
    by (auto simp: bind_eq_Some_conv)
  define reject where "reject \<longleftrightarrow> seq_diff r l \<le> 0 \<or> seq_diff l una \<le> 0 \<or> seq_diff nxt r < 0 \<or>
        list_ex (\<lambda>j. seq_diff r (L ! j) > 0 \<and> seq_diff (R ! j) l > 0) [0 ..< c]"
  show ?case
  proof (cases reject)
    case True
    then have "nx_sack_record rd p una nxt is' L R c = Some (L', R', c')"
      using Cons.prems(1) lr by (simp add: reject_def)
    then show ?thesis using Cons.IH [of L R c] Cons.prems(2-6) by simp
  next
    case False
    define L1 where "L1 = L[c := l]"
    define R1 where "R1 = R[c := r]"
    have run: "nx_sack_record rd p una nxt is' L1 R1 (Suc c) = Some (L', R', c')"
      using Cons.prems(1) lr False by (simp add: reject_def L1_def R1_def)
    have rec: "recorded L1 R1 (Suc c) = recorded L R c @ [(l, r)]"
      unfolding L1_def R1_def using Cons.prems(2-4) by (intro recorded_Suc) simp_all
    have "sack_block_checked una nxt (l, r)" using False by (auto simp: reject_def sack_block_checked_def)
    then have chk: "\<forall>b \<in> set (recorded L1 R1 (Suc c)). sack_block_checked una nxt b" using Cons.prems(5) by (simp add: rec)
    have "\<not> sack_overlap (recorded L R c ! j) (l, r)" if "j < c" for j
      using False that by (auto simp: reject_def sack_overlap_def recorded_def list_ex_iff)
    then have "\<forall>j k. j < k \<longrightarrow> k < Suc c \<longrightarrow> \<not> sack_overlap (recorded L1 R1 (Suc c) ! j) (recorded L1 R1 (Suc c) ! k)"
      using Cons.prems(6) by (auto simp: rec nth_append less_Suc_eq)
    then have "length L' = 4 \<and> length R' = 4 \<and> c' \<le> Suc c + length is' \<and>
       (\<forall>b \<in> set (recorded L' R' c'). sack_block_checked una nxt b) \<and>
       (\<forall>j k. j < k \<longrightarrow> k < c' \<longrightarrow> \<not> sack_overlap (recorded L' R' c' ! j) (recorded L' R' c' ! k))"
      by (intro Cons.IH [OF run _ _ _ chk]) (use Cons.prems(2-4) in \<open>simp_all add: L1_def R1_def\<close>)
    then show ?thesis by simp
  qed
qed simp

text \<open>A checked block that is no longer than the outstanding data lies inside of it.\<close>

definition inside_window :: "ulong \<Rightarrow> ulong \<Rightarrow> ulong \<times> ulong \<Rightarrow> bool" where
  "inside_window una nxt b \<longleftrightarrow>
     0 < seq_off una (fst b) \<and> seq_off una (fst b) < seq_off una (snd b) \<and> seq_off una (snd b) \<le> seq_off una nxt"

lemma sack_block_checked_inside:
  assumes "sack_block_checked una nxt b" "seq_off una nxt < 2147483648" "seq_off (fst b) (snd b) \<le> seq_off una nxt + 1"
  shows "inside_window una nxt b"
proof -
  define x where "x = seq_off una (fst b)"
  define d where "d = seq_off (fst b) (snd b)"
  define w where "w = seq_off una nxt"
  have x: "0 < x" "x < 2147483648" and d: "0 < d" "d < 2147483648"
    using assms(1) by (simp_all add: sack_block_checked_def seq_diff_pos x_def d_def)
  have r: "seq_off una (snd b) = x + d" using seq_off_add [of una "fst b" "snd b"] x d by (simp add: x_def d_def)
  have "x + d \<le> w"
  proof (rule ccontr)
    assume "\<not> x + d \<le> w"
    then have beyond: "w < x + d" by simp
    then have "seq_off nxt (snd b) = x + d - w" using seq_off_diff [of una nxt "snd b"] r by (simp add: w_def)
    moreover have "nxt \<noteq> snd b" using beyond r by (auto simp: w_def)
    then have "4294967296 \<le> seq_off nxt (snd b) + seq_off (snd b) nxt" by (rule seq_off_both)
    moreover have "seq_off (snd b) nxt < 2147483648" using assms(1) by (simp add: sack_block_checked_def seq_diff_nonneg)
    ultimately show False using x d assms(3) by (simp add: d_def w_def)
  qed
  then show ?thesis using x d r by (simp add: inside_window_def x_def w_def)
qed

section \<open>Reading the option\<close>

definition sack_recorded :: "nx_tcp_socket \<Rightarrow> (ulong \<times> ulong) list" where
  "sack_recorded s = recorded (nx_tcp_socket_sack_left s) (nx_tcp_socket_sack_right s) (nx_tcp_socket_sack_block_count s)"

definition sack_arrays :: "nx_tcp_socket \<Rightarrow> bool" where
  "sack_arrays s \<longleftrightarrow> length (nx_tcp_socket_sack_left s) = 4 \<and> length (nx_tcp_socket_sack_right s) = 4"

lemma readable_sub: "readable rd p n \<Longrightarrow> p \<le> q \<Longrightarrow> q + m \<le> p + n \<Longrightarrow> readable rd q m"
  unfolding readable_def
proof (intro allI impI)
  fix i assume r: "\<forall>i < n. rd (p + i) \<noteq> None" "p \<le> q" "q + m \<le> p + n" "i < m"
  then have "rd (p + (q - p + i)) \<noteq> None" by (intro r(1) [rule_format]) simp
  then show "rd (q + i) \<noteq> None" using r(2) by simp
qed

lemma sack_block_fits: "i < (l - 2) div 8 \<Longrightarrow> 10 \<le> l \<Longrightarrow> l \<le> m \<Longrightarrow> 10 + 8 * i \<le> (m :: nat)"
  by linarith

lemma nx_tcp_sack_option_get_returns:
  assumes "readable rd p n"
  shows "\<exists>s'. nx_tcp_sack_option_get rd p n s = Some s'"
proof (cases "nx_tcp_socket_sack_permitted s")
  case True
  have "nx_sack_walk rd p n \<noteq> None" using assms by (intro sack_walk.stays_inside) (simp add: readable_def)
  then obtain w where w: "nx_sack_walk rd p n = Some w" by blast
  show ?thesis
  proof (cases w)
    case None
    then show ?thesis using w True by (simp add: nx_tcp_sack_option_get_def)
  next
    case (Some qm)
    obtain q m where qm: "qm = (q, m)" by (cases qm)
    have walk: "nx_sack_walk rd p n = Some (Some (q, m))" using w Some qm by simp
    note r = nx_sack_walk_range [OF walk]
    have rq: "readable rd q m" using readable_sub [OF assms, of q m] r by simp
    obtain l where l: "rd (q + 1) = Some l" using readableD [OF rq, of 1] r by auto
    show ?thesis
    proof (cases "unat l < 10 \<or> unat l > m \<or> (unat l - 2) mod 8 \<noteq> 0")
      case True
      then show ?thesis using walk l \<open>nx_tcp_socket_sack_permitted s\<close> by (simp add: nx_tcp_sack_option_get_def)
    next
      case False
      have "readable rd q (10 + 8 * i)" if "i \<in> set [0 ..< min ((unat l - 2) div 8) 4]" for i
      proof -
        have "10 + 8 * i \<le> m" by (rule sack_block_fits [of i "unat l"]) (use that False in auto)
        then have "q + (10 + 8 * i) \<le> q + m" by simp
        then show ?thesis using readable_sub [OF rq, of q "10 + 8 * i"] by simp
      qed
      note nx_sack_record_returns [OF this, of "[0 ..< min ((unat l - 2) div 8) 4]", OF _]
      then obtain L R c where "nx_sack_record rd q (nx_sack_snd_una s) (nx_tcp_socket_tx_sequence s) [0 ..< min ((unat l - 2) div 8) 4]
          (nx_tcp_socket_sack_left s) (nx_tcp_socket_sack_right s) 0 = Some (L, R, c)" by blast
      then show ?thesis using walk l False \<open>nx_tcp_socket_sack_permitted s\<close> by (simp add: nx_tcp_sack_option_get_def)
    qed
  qed
qed (simp add: nx_tcp_sack_option_get_def)

lemma nx_tcp_sack_option_get_checked:
  assumes "nx_tcp_sack_option_get rd p n s = Some s'" "sack_arrays s"
  shows "s' = s \<or> (\<exists>L R c. s' = s\<lparr>nx_tcp_socket_sack_left := L, nx_tcp_socket_sack_right := R, nx_tcp_socket_sack_block_count := c\<rparr> \<and>
     sack_arrays s' \<and> c \<le> 4 \<and>
     (\<forall>b \<in> set (sack_recorded s'). sack_block_checked (nx_sack_snd_una s) (nx_tcp_socket_tx_sequence s) b) \<and>
     (\<forall>j k. j < k \<longrightarrow> k < c \<longrightarrow> \<not> sack_overlap (sack_recorded s' ! j) (sack_recorded s' ! k)))"
proof (cases "s' = s")
  case False
  then obtain q m l L R c where get: "s' = s\<lparr>nx_tcp_socket_sack_left := L, nx_tcp_socket_sack_right := R, nx_tcp_socket_sack_block_count := c\<rparr>"
    "nx_sack_record rd q (nx_sack_snd_una s) (nx_tcp_socket_tx_sequence s) [0 ..< min ((unat (l :: byte) - 2) div 8) 4]
       (nx_tcp_socket_sack_left s) (nx_tcp_socket_sack_right s) 0 = Some (L, R, c)"
    using assms(1) by (auto simp: nx_tcp_sack_option_get_def bind_eq_Some_conv split: if_splits option.splits)
  have "length L = 4 \<and> length R = 4 \<and> c \<le> 0 + length [0 ..< min ((unat l - 2) div 8) 4] \<and>
     (\<forall>b \<in> set (recorded L R c). sack_block_checked (nx_sack_snd_una s) (nx_tcp_socket_tx_sequence s) b) \<and>
     (\<forall>j k. j < k \<longrightarrow> k < c \<longrightarrow> \<not> sack_overlap (recorded L R c ! j) (recorded L R c ! k))"
    by (rule nx_sack_record_checked [OF get(2)]) (use assms(2) in \<open>simp_all add: sack_arrays_def recorded_def\<close>)
  then show ?thesis by (intro disjI2 exI [of _ L] exI [of _ R] exI [of _ c]) (simp add: get(1) sack_recorded_def sack_arrays_def)
qed simp

end
