(* ===== verification/Nx_Tcp_Sack_Queue.thy ===== *)
theory Nx_Tcp_Sack_Queue imports Nx_Tcp_Sack_Read "HOL-Library.Multiset" begin

text \<open>
  What the builder of the SACK option reports of the receive queue. The queue is a chain of
  packets in ascending order of their sequence numbers; merging the ranges that lie behind the
  next expected sequence number is the reference, and as long as the merged ranges fit into the
  option, it reports exactly these.
\<close>

section \<open>The queue as a list of ranges\<close>

fun queue_ranges ::
    "(nat \<rightharpoonup> nx_packet) \<Rightarrow> (nat \<rightharpoonup> nx_tcp_header) \<Rightarrow> nat \<Rightarrow> nat list \<Rightarrow> (ulong \<times> ulong) list \<Rightarrow> bool" where
  "queue_ranges pks hdr p [] segs \<longleftrightarrow> (p = NX_NULL \<or> p = NX_PACKET_ENQUEUED) \<and> segs = []"
| "queue_ranges pks hdr p (q # qs) segs \<longleftrightarrow> p = q \<and> q \<noteq> NX_NULL \<and> q \<noteq> NX_PACKET_ENQUEUED \<and>
     (\<exists>pk seg rest. pks q = Some pk \<and> nx_queued_range hdr pk = Some seg \<and> segs = seg # rest \<and>
        queue_ranges pks hdr (nx_packet_tcp_queue_next pk) qs rest)"

definition merge_range :: "ulong \<times> ulong \<Rightarrow> (ulong \<times> ulong) list \<Rightarrow> (ulong \<times> ulong) list" where
  "merge_range seg blocks =
     (if blocks \<noteq> [] \<and> snd (last blocks) = fst seg then butlast blocks @ [(fst (last blocks), snd seg)]
      else blocks @ [seg])"

definition merge_ranges :: "(ulong \<times> ulong) list \<Rightarrow> (ulong \<times> ulong) list" where
  "merge_ranges segs = fold merge_range segs []"

definition out_of_order :: "ulong \<Rightarrow> (ulong \<times> ulong) list \<Rightarrow> (ulong \<times> ulong) list" where
  "out_of_order rx segs = filter (\<lambda>g. seq_diff (snd g) rx > 0) segs"

lemma nx_sack_blocks_of_queue_eq:
  "queue_ranges pks hdr p qs segs \<Longrightarrow>
     nx_sack_blocks_of_queue pks hdr rx limit p blocks = Some (fold (nx_sack_collect rx limit) segs blocks)"
proof (induction qs arbitrary: p segs blocks)
  case Nil
  then show ?case by (subst nx_sack_blocks_of_queue.simps) auto
next
  case (Cons q qs)
  then show ?case by (subst nx_sack_blocks_of_queue.simps) auto
qed

lemma length_merge_range: "length blocks \<le> length (merge_range seg blocks)"
  by (simp add: merge_range_def)

lemma length_fold_merge: "length blocks \<le> length (fold merge_range segs blocks)"
proof (induction segs arbitrary: blocks)
  case (Cons seg segs)
  then show ?case using length_merge_range [of blocks seg] le_trans by fastforce
qed simp

lemma nx_sack_collect_merge:
  "length (fold merge_range (out_of_order rx segs) blocks) \<le> limit \<Longrightarrow>
     fold (nx_sack_collect rx limit) segs blocks = fold merge_range (out_of_order rx segs) blocks"
proof (induction segs arbitrary: blocks)
  case (Cons seg segs)
  show ?case
  proof (cases "seq_diff (snd seg) rx > 0")
    case True
    have "length (merge_range seg blocks) \<le> limit"
      using Cons.prems True length_fold_merge [of "merge_range seg blocks" "out_of_order rx segs"] by (simp add: out_of_order_def)
    then have "nx_sack_collect rx limit seg blocks = merge_range seg blocks"
      using True by (auto simp: nx_sack_collect_def merge_range_def split: prod.splits)
    then show ?thesis using Cons True by (simp add: out_of_order_def)
  next
    case False
    then have "nx_sack_collect rx limit seg blocks = blocks" by (auto simp: nx_sack_collect_def split: prod.splits)
    then show ?thesis using Cons False by (simp add: out_of_order_def)
  qed
qed (simp add: out_of_order_def)

section \<open>Merged ranges\<close>

text \<open>The numbers of the bytes of a range, counted from \<open>una\<close>.\<close>

definition range_bytes :: "ulong \<Rightarrow> ulong \<times> ulong \<Rightarrow> nat set" where
  "range_bytes una b = {seq_off una (fst b) ..< seq_off una (snd b)}"

definition before :: "ulong \<Rightarrow> ulong \<times> ulong \<Rightarrow> ulong \<times> ulong \<Rightarrow> bool" where
  "before una b c \<longleftrightarrow> seq_off una (snd b) \<le> seq_off una (fst c)"

text \<open>Ranges in the window, one after the other.\<close>

definition ascending :: "ulong \<Rightarrow> ulong \<Rightarrow> (ulong \<times> ulong) list \<Rightarrow> bool" where
  "ascending una nxt bs \<longleftrightarrow> (\<forall>b \<in> set bs. inside_window una nxt b) \<and> sorted_wrt (before una) bs"

lemma ascending_Nil [simp]: "ascending una nxt []"
  by (simp add: ascending_def)

lemma ascending_append: "ascending una nxt (bs @ cs) \<longleftrightarrow> ascending una nxt bs \<and> ascending una nxt cs \<and>
    (\<forall>b \<in> set bs. \<forall>c \<in> set cs. before una b c)"
  by (auto simp: ascending_def sorted_wrt_append)

lemma merge_range_ascending:
  assumes "ascending una nxt (bs @ [seg])"
  shows "ascending una nxt (merge_range seg bs)" "\<Union> (range_bytes una ` set (merge_range seg bs)) = \<Union> (range_bytes una ` set (bs @ [seg]))"
    "\<And>c. \<forall>b \<in> set (bs @ [seg]). before una b c \<Longrightarrow> \<forall>b \<in> set (merge_range seg bs). before una b c"
proof -
  have "ascending una nxt (merge_range seg bs) \<and>
    \<Union> (range_bytes una ` set (merge_range seg bs)) = \<Union> (range_bytes una ` set (bs @ [seg])) \<and>
    (\<forall>c. (\<forall>b \<in> set (bs @ [seg]). before una b c) \<longrightarrow> (\<forall>b \<in> set (merge_range seg bs). before una b c))"
  proof (cases "bs \<noteq> [] \<and> snd (last bs) = fst seg")
    case True
    then obtain cs b where bs: "bs = cs @ [b]" by (metis rev_exhaust)
    have join: "snd b = fst seg" using True bs by simp
    have merged: "merge_range seg bs = cs @ [(fst b, snd seg)]" using True by (simp add: merge_range_def bs)
    have "inside_window una nxt b" "inside_window una nxt seg" using assms by (auto simp: ascending_def bs)
    then have "inside_window una nxt (fst b, snd seg)" and
      bytes: "range_bytes una (fst b, snd seg) = range_bytes una b \<union> range_bytes una seg"
      using join by (auto simp: inside_window_def range_bytes_def)
    then have "ascending una nxt (cs @ [(fst b, snd seg)])"
      using assms by (auto simp: ascending_append bs before_def) (auto simp: ascending_def)
    moreover have "before una (fst b, snd seg) c = before una seg c" for c by (simp add: before_def)
    ultimately show ?thesis unfolding merged using bytes by (auto simp: bs)
  next
    case False
    then have "merge_range seg bs = bs @ [seg]" by (auto simp: merge_range_def)
    then show ?thesis using assms by simp
  qed
  then show "ascending una nxt (merge_range seg bs)" "\<Union> (range_bytes una ` set (merge_range seg bs)) = \<Union> (range_bytes una ` set (bs @ [seg]))"
    "\<And>c. \<forall>b \<in> set (bs @ [seg]). before una b c \<Longrightarrow> \<forall>b \<in> set (merge_range seg bs). before una b c" by blast+
qed

lemma ascending_snoc: "ascending una nxt (bs @ seg # segs) \<longleftrightarrow> ascending una nxt (bs @ [seg]) \<and> ascending una nxt segs \<and>
    (\<forall>c \<in> set segs. \<forall>b \<in> set (bs @ [seg]). before una b c)"
proof -
  have eq: "bs @ seg # segs = (bs @ [seg]) @ segs" by simp
  show ?thesis unfolding eq ascending_append [of una nxt "bs @ [seg]" segs] by blast
qed

lemma fold_merge_ascending:
  assumes "ascending una nxt (bs @ segs)"
  shows "ascending una nxt (fold merge_range segs bs) \<and>
    \<Union> (range_bytes una ` set (fold merge_range segs bs)) = \<Union> (range_bytes una ` set (bs @ segs))"
  using assms
proof (induction segs arbitrary: bs)
  case (Cons seg segs)
  have bs: "ascending una nxt (bs @ [seg])" and segs: "ascending una nxt segs"
    and apart: "\<forall>c \<in> set segs. \<forall>b \<in> set (bs @ [seg]). before una b c" using Cons.prems ascending_snoc [of una nxt bs seg segs] by blast+
  note m = merge_range_ascending [OF bs]
  have "ascending una nxt (merge_range seg bs @ segs)"
    unfolding ascending_append using m(1) segs apart m(3) by blast
  from Cons.IH [OF this] have "ascending una nxt (fold merge_range segs (merge_range seg bs))"
    "\<Union> (range_bytes una ` set (fold merge_range segs (merge_range seg bs))) =
       \<Union> (range_bytes una ` set (merge_range seg bs @ segs))" by blast+
  then show ?case by (simp add: m(2) Un_assoc)
qed simp

lemma merge_ranges_ascending:
  assumes "ascending una nxt segs"
  shows "ascending una nxt (merge_ranges segs)"
    "\<Union> (range_bytes una ` set (merge_ranges segs)) = \<Union> (range_bytes una ` set segs)"
  using fold_merge_ascending [of una nxt "[]" segs] assms by (simp_all add: merge_ranges_def)

lemma merge_ranges_Nil: "merge_ranges segs = [] \<longleftrightarrow> segs = []"
proof (cases segs)
  case (Cons s r)
  have "1 \<le> length (merge_range s [])" by (simp add: merge_range_def)
  then have "1 \<le> length (fold merge_range r (merge_range s []))" using length_fold_merge le_trans by blast
  then show ?thesis using Cons by (auto simp: merge_ranges_def)
qed (simp add: merge_ranges_def)

section \<open>The order of the blocks\<close>

lemma nx_sack_recent_less: "blocks \<noteq> [] \<Longrightarrow> nx_sack_recent r blocks < length blocks"
  by (auto simp: nx_sack_recent_def find_Some_iff split: option.splits)

lemma mset_move_front:
  assumes "r < n"
  shows "mset (r # filter (\<lambda>i. i \<noteq> r) (rev [0 ..< n])) = mset [0 ..< (n :: nat)]"
proof -
  have "distinct (r # filter (\<lambda>i. i \<noteq> r) (rev [0 ..< n]))" by simp
  moreover have "set (r # filter (\<lambda>i. i \<noteq> r) (rev [0 ..< n])) = set [0 ..< n]" using assms by auto
  ultimately show ?thesis by (metis distinct_upt set_eq_iff_mset_eq_distinct)
qed

lemma nx_sack_order_perm:
  assumes "recent < length blocks"
  shows "mset (nx_sack_order recent blocks) = mset blocks"
proof -
  have "nx_sack_order recent blocks = map ((!) blocks) (recent # filter (\<lambda>i. i \<noteq> recent) (rev [0 ..< length blocks]))"
    using assms by (auto simp: nx_sack_order_def)
  also have "mset \<dots> = image_mset ((!) blocks) (mset [0 ..< length blocks])"
    by (simp only: mset_map mset_move_front [OF assms])
  also have "\<dots> = mset (map ((!) blocks) [0 ..< length blocks])" by (simp only: mset_map)
  finally show ?thesis by (simp only: map_nth)
qed

end
