(* ===== verification/Nx_Tcp_Sack_Trip.thy ===== *)
theory Nx_Tcp_Sack_Trip imports Nx_Tcp_Sack_Queue begin

text \<open>
  From the receive queue of one side to the SACK blocks of the other: the option the builder
  writes, read back by the reader of the peer.
\<close>

section \<open>Blocks in the option\<close>

fun blocks_at :: "byte_area \<Rightarrow> nat \<Rightarrow> nat \<Rightarrow> (ulong \<times> ulong) list \<Rightarrow> bool" where
  "blocks_at rd q k [] = True"
| "blocks_at rd q k (b # bs) = (ulong_read rd (q + 2 + 8 * k) = Some (fst b) \<and> ulong_read rd (q + 6 + 8 * k) = Some (snd b) \<and>
     blocks_at rd q (Suc k) bs)"

lemma length_block_bytes: "length (concat (map nx_sack_block_bytes bs)) = 8 * length bs"
  by (induction bs) (simp_all add: nx_sack_block_bytes_def)

lemma blocks_at_bytes: "area_bytes rd (q + 2 + 8 * k) (concat (map nx_sack_block_bytes bs)) \<Longrightarrow> blocks_at rd q k bs"
proof (induction bs arbitrary: k)
  case (Cons b bs)
  have "area_bytes rd (q + 2 + 8 * k) (ulong_bytes (fst b) @ ulong_bytes (snd b) @ concat (map nx_sack_block_bytes bs))"
    using Cons.prems by (simp add: nx_sack_block_bytes_def [of b])
  then have b: "area_bytes rd (q + 2 + 8 * k) (ulong_bytes (fst b))" "area_bytes rd (q + 2 + 8 * k + 4) (ulong_bytes (snd b))"
    and bs: "area_bytes rd (q + 2 + 8 * k + 8) (concat (map nx_sack_block_bytes bs))"
    by (simp_all add: add.commute add.left_commute)
  have at: "q + 2 + 8 * k + 4 = q + 6 + 8 * k" "q + 2 + 8 * k + 8 = q + 2 + 8 * Suc k" by simp_all
  show ?case using ulong_read_bytes [OF b(1)] ulong_read_bytes [OF b(2)] Cons.IH [of "Suc k"] bs unfolding at by simp
qed simp

section \<open>Blocks that the reader takes\<close>

lemma ascending_apart:
  "ascending una nxt bs \<Longrightarrow> distinct bs \<and> (\<forall>b \<in> set bs. \<forall>c \<in> set bs. b \<noteq> c \<longrightarrow> before una b c \<or> before una c b)"
proof (induction bs)
  case (Cons b bs)
  from Cons.prems have b: "inside_window una nxt b" "ascending una nxt bs" "\<forall>c \<in> set bs. before una b c"
    by (auto simp: ascending_def)
  then have "b \<notin> set bs" by (auto simp: inside_window_def before_def)
  then show ?case using Cons.IH [OF b(2)] b(3) by auto
qed simp

lemma inside_window_checked:
  "inside_window una nxt b \<Longrightarrow> seq_off una nxt < 2147483648 \<Longrightarrow> sack_block_checked una nxt b"
  using seq_diff_off [of una "snd b" "fst b"] seq_diff_off [of una "fst b" una] seq_diff_off [of una nxt "snd b"]
  by (auto simp: inside_window_def sack_block_checked_def)

lemma before_no_overlap:
  assumes "before una b c \<or> before una c b" "inside_window una nxt b" "inside_window una nxt c" "seq_off una nxt < 2147483648"
  shows "\<not> sack_overlap b c"
  using assms seq_diff_off [of una "snd c" "fst b"] seq_diff_off [of una "snd b" "fst c"]
  by (auto simp: inside_window_def sack_overlap_def before_def)

text \<open>A set of blocks as the reader accepts it: in the window and apart from each other.\<close>

definition sack_acceptable :: "ulong \<Rightarrow> ulong \<Rightarrow> (ulong \<times> ulong) list \<Rightarrow> bool" where
  "sack_acceptable una nxt bs \<longleftrightarrow> distinct bs \<and> (\<forall>b \<in> set bs. sack_block_checked una nxt b) \<and>
     (\<forall>b \<in> set bs. \<forall>c \<in> set bs. b \<noteq> c \<longrightarrow> \<not> sack_overlap b c)"

lemma ascending_acceptable:
  assumes "ascending una nxt bs" "seq_off una nxt < 2147483648"
  shows "sack_acceptable una nxt bs"
  unfolding sack_acceptable_def
proof (intro conjI ballI impI)
  have win: "\<And>b. b \<in> set bs \<Longrightarrow> inside_window una nxt b" using assms(1) by (simp add: ascending_def)
  show "distinct bs" using ascending_apart [OF assms(1)] by simp
  show "sack_block_checked una nxt b" if "b \<in> set bs" for b using inside_window_checked [OF win [OF that] assms(2)] .
  show "\<not> sack_overlap b c" if "b \<in> set bs" "c \<in> set bs" "b \<noteq> c" for b c
  proof -
    have "before una b c \<or> before una c b" using ascending_apart [OF assms(1)] that by blast
    then show ?thesis using win [OF that(1)] win [OF that(2)] assms(2) by (rule before_no_overlap)
  qed
qed

lemma sack_acceptable_mset: "mset bs = mset cs \<Longrightarrow> sack_acceptable una nxt bs = sack_acceptable una nxt cs"
  using mset_eq_setD [of bs cs] mset_eq_imp_distinct_iff [of bs cs] by (simp add: sack_acceptable_def)

lemma nx_sack_record_accepts:
  assumes "blocks_at rd p k bs" "sack_acceptable una nxt (recorded L R c @ bs)" "c + length bs \<le> length L" "length R = length L"
  shows "\<exists>L' R'. nx_sack_record rd p una nxt [k ..< k + length bs] L R c = Some (L', R', c + length bs) \<and>
     recorded L' R' (c + length bs) = recorded L R c @ bs"
  using assms
proof (induction bs arbitrary: k L R c)
  case (Cons b bs)
  obtain l r where b: "b = (l, r)" by (cases b)
  have read: "ulong_read rd (p + 2 + 8 * k) = Some l" "ulong_read rd (p + 6 + 8 * k) = Some r" using Cons.prems(1) b by simp_all
  have ok: "0 < seq_diff r l" "0 < seq_diff l una" "0 \<le> seq_diff nxt r"
    using Cons.prems(2) by (simp_all add: sack_acceptable_def sack_block_checked_def b)
  have "\<not> sack_overlap (recorded L R c ! j) (l, r)" if "j < c" for j
  proof -
    have "recorded L R c ! j \<in> set (recorded L R c)" using that by simp
    moreover have "(l, r) \<notin> set (recorded L R c)" using Cons.prems(2) b by (auto simp: sack_acceptable_def)
    ultimately show ?thesis using Cons.prems(2) unfolding sack_acceptable_def b by (metis Un_iff list.set_intros(1) set_append)
  qed
  then have clear: "\<not> list_ex (\<lambda>j. seq_diff r (L ! j) > 0 \<and> seq_diff (R ! j) l > 0) [0 ..< c]"
    by (auto simp: list_ex_iff sack_overlap_def recorded_def)
  have "recorded (L[c := l]) (R[c := r]) (Suc c) = recorded L R c @ [b]"
    using Cons.prems(3,4) b by (simp add: recorded_Suc)
  then obtain L' R' where "nx_sack_record rd p una nxt [Suc k ..< Suc k + length bs] (L[c := l]) (R[c := r]) (Suc c) =
      Some (L', R', Suc c + length bs)" "recorded L' R' (Suc c + length bs) = recorded L R c @ b # bs"
    using Cons.IH [of "Suc k" "L[c := l]" "R[c := r]" "Suc c"] Cons.prems by auto
  moreover have "[k ..< k + length (b # bs)] = k # [Suc k ..< Suc k + length bs]" using upt_conv_Cons [of k "k + Suc (length bs)"] by simp
  ultimately show ?case using read ok clear by auto
qed simp

section \<open>The option\<close>

definition sack_option_at :: "byte_area \<Rightarrow> nat \<Rightarrow> (ulong \<times> ulong) list \<Rightarrow> bool" where
  "sack_option_at rd p bs \<longleftrightarrow>
     area_bytes rd p ([NX_TCP_NOP_KIND, NX_TCP_NOP_KIND, NX_TCP_SACK_KIND, of_nat (2 + 8 * length bs)] @
        concat (map nx_sack_block_bytes bs))"

lemma nx_tcp_sack_option_get_at:
  assumes "sack_option_at rd p bs" "bs \<noteq> []" "length bs \<le> 4" "4 + 8 * length bs \<le> n" "nx_tcp_socket_sack_permitted s"
  shows "nx_tcp_sack_option_get rd p n s =
      do {
        (L, R, c) \<leftarrow> nx_sack_record rd (p + 2) (nx_sack_snd_una s) (nx_tcp_socket_tx_sequence s) [0 ..< length bs]
          (nx_tcp_socket_sack_left s) (nx_tcp_socket_sack_right s) 0;
        Some (s\<lparr>nx_tcp_socket_sack_left := L, nx_tcp_socket_sack_right := R, nx_tcp_socket_sack_block_count := c\<rparr>)
      }" and "blocks_at rd (p + 2) 0 bs"
proof -
  have b: "rd p = Some 1" "rd (p + 1) = Some 1" "rd (p + 2) = Some 5" "rd (p + 3) = Some (of_nat (2 + 8 * length bs))"
    "area_bytes rd (Suc (Suc (Suc (Suc p)))) (concat (map nx_sack_block_bytes bs))"
    using assms(1) by (simp_all add: sack_option_at_def numeral_3_eq_3)
  have "p + 2 + 2 + 8 * 0 = Suc (Suc (Suc (Suc p)))" by simp
  then show "blocks_at rd (p + 2) 0 bs" using blocks_at_bytes [of rd "p + 2" 0 bs] b(5) by simp
  obtain m where m: "n = Suc (Suc (Suc (Suc m)))"
    using assms(4) le_Suc_ex [of 4 n] by (auto simp: add.commute eval_nat_numeral)
  have "nx_sack_walk rd p n = nx_sack_walk rd (Suc p) (Suc (Suc (Suc m)))" using b(1) by (subst nx_sack_walk.simps) (simp add: m)
  also have "\<dots> = nx_sack_walk rd (Suc (Suc p)) (Suc (Suc m))" using b(2) by (subst nx_sack_walk.simps) simp
  also have "\<dots> = Some (Some (p + 2, n - 2))" using b(3) by (subst nx_sack_walk.simps) (simp add: m)
  finally have walk: "nx_sack_walk rd p n = Some (Some (p + 2, n - 2))" .
  have len: "unat (of_nat (2 + 8 * length bs) :: byte) = 2 + 8 * length bs" by (rule unat_option_length) (use assms(3) in simp)
  have "1 \<le> length bs" using assms(2) by (cases bs) simp_all
  moreover have "2 + 8 * length bs \<le> n - 2" using assms(4) by linarith
  moreover have "(2 + 8 * length bs - 2) mod 8 = 0" by simp
  ultimately have fits: "\<not> (2 + 8 * length bs < 10 \<or> 2 + 8 * length bs > n - 2 \<or> (2 + 8 * length bs - 2) mod 8 \<noteq> 0)"
    by linarith
  have "min ((2 + 8 * length bs - 2) div 8) 4 = length bs" using assms(3) by simp
  then show "nx_tcp_sack_option_get rd p n s =
      do {
        (L, R, c) \<leftarrow> nx_sack_record rd (p + 2) (nx_sack_snd_una s) (nx_tcp_socket_tx_sequence s) [0 ..< length bs]
          (nx_tcp_socket_sack_left s) (nx_tcp_socket_sack_right s) 0;
        Some (s\<lparr>nx_tcp_socket_sack_left := L, nx_tcp_socket_sack_right := R, nx_tcp_socket_sack_block_count := c\<rparr>)
      }"
    unfolding nx_tcp_sack_option_get_def walk using assms(5) fits b(4) len by (simp add: numeral_3_eq_3)
qed

text \<open>A D-SACK block in front reports data below the acknowledgment; the reader skips it.\<close>

lemma sack_option_recorded:
  assumes "sack_option_at rd p (ds @ bs)" "length ds \<le> 1" "\<forall>d \<in> set ds. seq_diff (fst d) (nx_sack_snd_una s) \<le> 0"
    and "bs \<noteq> []" "length ds + length bs \<le> 4" "4 + 8 * (length ds + length bs) \<le> n"
    and "nx_tcp_socket_sack_permitted s" "sack_arrays s"
    and "sack_acceptable (nx_sack_snd_una s) (nx_tcp_socket_tx_sequence s) bs"
  shows "\<exists>s'. nx_tcp_sack_option_get rd p n s = Some s' \<and> sack_recorded s' = bs"
proof -
  let ?una = "nx_sack_snd_una s" and ?nxt = "nx_tcp_socket_tx_sequence s"
  let ?L = "nx_tcp_socket_sack_left s" and ?R = "nx_tcp_socket_sack_right s"
  let ?run = "\<lambda>is. nx_sack_record rd (p + 2) ?una ?nxt is ?L ?R 0"
  have "ds @ bs \<noteq> []" "length (ds @ bs) \<le> 4" "4 + 8 * length (ds @ bs) \<le> n" using assms(4,5,6) by simp_all
  note at = nx_tcp_sack_option_get_at [OF assms(1) this assms(7)]
  have rec0: "recorded ?L ?R 0 = []" by (simp add: recorded_def)
  have blocks: "blocks_at rd (p + 2) (length ds) bs \<and> ?run [0 ..< length (ds @ bs)] = ?run [length ds ..< length ds + length bs]"
  proof (cases ds)
    case Nil
    then show ?thesis using at(2) by simp
  next
    case (Cons d ds')
    then have ds: "ds = [d]" using assms(2) by simp
    then have "ulong_read rd (p + 2 + 2) = Some (fst d)" "ulong_read rd (p + 2 + 6) = Some (snd d)" "blocks_at rd (p + 2) 1 bs"
      using at(2) by simp_all
    moreover have "[0 ..< length (ds @ bs)] = 0 # [1 ..< 1 + length bs]" using upt_conv_Cons [of 0 "Suc (length bs)"] ds by simp
    moreover have "seq_diff (fst d) ?una \<le> 0" using assms(3) ds by simp
    ultimately show ?thesis using ds by simp
  qed
  obtain L R where "?run [length ds ..< length ds + length bs] = Some (L, R, 0 + length bs)" "recorded L R (0 + length bs) = bs"
    using nx_sack_record_accepts [of rd "p + 2" "length ds" bs ?una ?nxt ?L ?R 0] blocks assms(5,8,9) rec0
    by (auto simp: sack_arrays_def)
  then show ?thesis using at(1) blocks by (auto simp: sack_recorded_def)
qed

section \<open>The builder\<close>

definition nx_sack_limit :: "nx_tcp_socket \<Rightarrow> nat" where
  "nx_sack_limit s =
     (let dsack = (if nx_tcp_socket_dsack_left s \<noteq> nx_tcp_socket_dsack_right s then 1 else 0 :: nat)
      in if nx_tcp_socket_timestamp_enabled s then 3 - dsack else 4 - dsack)"

definition nx_dsack_blocks :: "nx_tcp_socket \<Rightarrow> (ulong \<times> ulong) list" where
  "nx_dsack_blocks s = (if nx_tcp_socket_dsack_left s \<noteq> nx_tcp_socket_dsack_right s
     then [(nx_tcp_socket_dsack_left s, nx_tcp_socket_dsack_right s)] else [])"

text \<open>The receive queue of a socket, from its head to its tail.\<close>

definition receive_queue ::
    "(nat \<rightharpoonup> nx_packet) \<Rightarrow> (nat \<rightharpoonup> nx_tcp_header) \<Rightarrow> nx_tcp_socket \<Rightarrow> nat list \<Rightarrow> (ulong \<times> ulong) list \<Rightarrow> bool" where
  "receive_queue pks hdr s qs segs \<longleftrightarrow> queue_ranges pks hdr (nx_tcp_socket_receive_queue_head s) qs segs \<and>
     (qs \<noteq> [] \<longrightarrow> nx_tcp_socket_receive_queue_tail s = last qs)"

lemma queue_ranges_last:
  "queue_ranges pks hdr p qs segs \<Longrightarrow> qs \<noteq> [] \<Longrightarrow>
     \<exists>pk. pks (last qs) = Some pk \<and> nx_queued_range hdr pk = Some (last segs) \<and> segs \<noteq> []"
proof (induction qs arbitrary: p segs)
  case (Cons q qs)
  show ?case
  proof (cases qs)
    case Nil
    then show ?thesis using Cons.prems(1) by auto
  next
    case (Cons q' qs')
    obtain pk :: nx_packet and seg rest where rest: "segs = seg # rest" "queue_ranges pks hdr (nx_packet_tcp_queue_next pk) qs rest"
      using Cons.prems(1) unfolding queue_ranges.simps(2) by blast
    then obtain pk' where "pks (last qs) = Some pk'" "nx_queued_range hdr pk' = Some (last rest)" "rest \<noteq> []"
      using Cons.IH local.Cons by blast
    then show ?thesis using rest(1) local.Cons by simp
  qed
qed simp

lemma nx_sack_start_head:
  assumes "receive_queue pks hdr s qs segs" "segs \<noteq> []" "0 < seq_diff (snd (last segs)) (nx_tcp_socket_rx_sequence s)" "0 < limit"
  shows "nx_sack_start pks hdr s limit = Some (nx_tcp_socket_receive_queue_head s)"
proof -
  obtain q qs' where qs: "qs = q # qs'" "nx_tcp_socket_receive_queue_head s = q" "q \<noteq> NX_NULL"
    using assms(1,2) by (cases qs) (auto simp: receive_queue_def)
  then obtain pk where "pks (nx_tcp_socket_receive_queue_tail s) = Some pk" "nx_queued_range hdr pk = Some (last segs)"
    using queue_ranges_last [of pks hdr q qs segs] assms(1) by (auto simp: receive_queue_def)
  then show ?thesis using qs assms(3,4) by (auto simp: nx_sack_start_def split: prod.splits)
qed

lemma out_of_order_last:
  "segs \<noteq> [] \<Longrightarrow> 0 < seq_diff (snd (last segs)) rx \<Longrightarrow> out_of_order rx segs \<noteq> []"
  using last_in_set [of segs] by (auto simp: out_of_order_def filter_empty_conv)

lemma nx_tcp_sack_option_build_writes:
  assumes "receive_queue pks hdr s qs segs" "nx_tcp_socket_sack_permitted s"
    and "segs \<noteq> []" "0 < seq_diff (snd (last segs)) (nx_tcp_socket_rx_sequence s)"
    and "merge_ranges (out_of_order (nx_tcp_socket_rx_sequence s) segs) = bs" "length bs \<le> nx_sack_limit s"
  shows "\<exists>recent < length bs. \<exists>s' rd'. sack_option_at rd' p (nx_dsack_blocks s @ nx_sack_order recent bs) \<and>
     nx_dsack_blocks s' = [] \<and>
     nx_tcp_sack_option_build pks hdr s p rd = Some (4 + 8 * (length (nx_dsack_blocks s) + length bs), s', rd')"
proof -
  have "bs \<noteq> []" using out_of_order_last [OF assms(3,4)] assms(5) by (auto simp: merge_ranges_Nil)
  then have rec: "nx_sack_recent (nx_tcp_socket_sack_recent_sequence s) bs < length bs" by (rule nx_sack_recent_less)
  then have pos: "0 < nx_sack_limit s" using assms(6) by simp
  have start: "nx_sack_start pks hdr s (nx_sack_limit s) = Some (nx_tcp_socket_receive_queue_head s)"
    by (rule nx_sack_start_head [OF assms(1,3,4) pos])
  have "nx_sack_blocks_of_queue pks hdr (nx_tcp_socket_rx_sequence s) (nx_sack_limit s) (nx_tcp_socket_receive_queue_head s) [] =
      Some (fold (nx_sack_collect (nx_tcp_socket_rx_sequence s) (nx_sack_limit s)) segs [])"
    using assms(1) by (intro nx_sack_blocks_of_queue_eq [of _ _ _ qs]) (simp add: receive_queue_def)
  also have "fold (nx_sack_collect (nx_tcp_socket_rx_sequence s) (nx_sack_limit s)) segs [] = bs"
    using nx_sack_collect_merge [of "nx_tcp_socket_rx_sequence s" segs "[]" "nx_sack_limit s"] assms(5,6)
    by (simp add: merge_ranges_def)
  finally have walk: "nx_sack_blocks_of_queue pks hdr (nx_tcp_socket_rx_sequence s) (nx_sack_limit s)
      (nx_tcp_socket_receive_queue_head s) [] = Some bs" .
  have len: "length (nx_sack_order recent bs) = length bs" if "recent < length bs" for recent
    using nx_sack_order_perm [OF that] mset_eq_length by blast
  define recent where "recent = nx_sack_recent (nx_tcp_socket_sack_recent_sequence s) bs"
  define all where "all = nx_dsack_blocks s @ nx_sack_order recent bs"
  define out where "out = area_write p ([NX_TCP_NOP_KIND, NX_TCP_NOP_KIND, NX_TCP_SACK_KIND, of_nat (2 + 8 * length all)] @
      concat (map nx_sack_block_bytes all)) rd"
  define s' where "s' = (if nx_tcp_socket_dsack_left s \<noteq> nx_tcp_socket_dsack_right s
      then s\<lparr>nx_tcp_socket_dsack_left := 0, nx_tcp_socket_dsack_right := 0\<rparr> else s)"
  have "length all = length bs + length (nx_dsack_blocks s)" using len rec by (simp add: all_def recent_def)
  then have "nx_tcp_sack_option_build pks hdr s p rd = Some (4 + 8 * (length (nx_dsack_blocks s) + length bs), s', out)"
    using start walk \<open>bs \<noteq> []\<close> assms(2)
    by (cases "nx_tcp_socket_timestamp_enabled s"; cases "nx_tcp_socket_dsack_left s = nx_tcp_socket_dsack_right s")
      (simp_all add: nx_tcp_sack_option_build_def nx_dsack_blocks_def nx_sack_limit_def s'_def out_def all_def recent_def)
  moreover have "sack_option_at out p all" unfolding sack_option_at_def out_def by (rule area_bytes_write)
  moreover have "nx_dsack_blocks s' = []" by (simp add: nx_dsack_blocks_def s'_def)
  ultimately show ?thesis using rec unfolding all_def recent_def by blast
qed

end
