(* ===== verification/Nx_Tcp_Option_Props.thy ===== *)
theory Nx_Tcp_Option_Props imports Nx_Tcp_Sack_Trip begin

text \<open>
  The properties of the TCP options: the readers stay inside the option area, they agree with the
  area as a list of options, what the SACK reader may record, and the SACK option from the receive
  queue of one side to the blocks of the other.
\<close>

section \<open>The readers of the simple options\<close>














text \<open>
  C31: No reader of a TCP option reads outside of the option area, whatever bytes it holds and wherever
  it ends: with only the area readable, each returns.
\<close>

lemma tcp_options_stay_inside:
  assumes "readable rd option_ptr option_area_size"
  shows "nx_tcp_mss_option_get rd option_ptr option_area_size \<noteq> None \<and>
    nx_tcp_window_scaling_option_get rd option_ptr option_area_size \<noteq> None \<and>
    nx_tcp_sack_permitted_option_get rd option_ptr option_area_size \<noteq> None \<and>
    nx_tcp_timestamp_option_get rd option_ptr option_area_size \<noteq> None \<and>
    nx_tcp_sack_option_get rd option_ptr option_area_size s \<noteq> None"
proof -
  have r: "rd (option_ptr + i) \<noteq> None" if "i < option_area_size" for i using assms that by (simp add: readable_def)
  show ?thesis using nx_tcp_sack_option_get_returns [OF assms, of s]
    by (intro conjI mss_reader.stays_inside window_scale_reader.stays_inside sack_permitted_reader.stays_inside
        timestamp_reader.stays_inside r) auto
qed

definition demo_sender :: nx_tcp_socket where
  "demo_sender = \<lparr>nx_tcp_socket_state = NX_TCP_ESTABLISHED, nx_tcp_socket_fin_acked = False,
     nx_tcp_socket_rx_sequence = 5000, nx_tcp_socket_tx_sequence = 1900, nx_tcp_socket_tx_outstanding_bytes = 900,
     nx_tcp_socket_receive_queue_head = 0, nx_tcp_socket_receive_queue_tail = 0,
     nx_tcp_socket_timestamp_enabled = False, nx_tcp_socket_sack_permitted = True, nx_tcp_socket_sack_block_count = 0,
     nx_tcp_socket_sack_recent_sequence = 0, nx_tcp_socket_dsack_left = 0, nx_tcp_socket_dsack_right = 0,
     nx_tcp_socket_sack_left = [0, 0, 0, 0], nx_tcp_socket_sack_right = [0, 0, 0, 0]\<rparr>"

text \<open>A SACK option of the length 250 in an area of three bytes.\<close>

definition demo_truncated :: byte_area where
  "demo_truncated = [40 \<mapsto> 1, 41 \<mapsto> 5, 42 \<mapsto> 250]"

lemma tcp_options_stay_inside_witness:
  "readable demo_truncated 40 3 \<and> demo_truncated 43 = None \<and> nx_tcp_timestamp_option_get demo_truncated 40 3 \<noteq> None \<and>
     nx_tcp_sack_option_get demo_truncated 40 3 demo_sender \<noteq> None"
proof -
  have "readable demo_truncated 40 3" by (auto simp: readable_def demo_truncated_def less_Suc_eq numeral_3_eq_3)
  then show ?thesis using tcp_options_stay_inside [of demo_truncated 40 3 demo_sender] by (simp add: demo_truncated_def)
qed




section \<open>SACK blocks\<close>

lemma no_overlap_disjoint:
  assumes "\<not> sack_overlap b c" "inside_window una nxt b" "inside_window una nxt c" "seq_off una nxt < 2147483648"
  shows "range_bytes una b \<inter> range_bytes una c = {}"
  using assms seq_diff_off [of una "snd c" "fst b"] seq_diff_off [of una "snd b" "fst c"]
  by (auto simp: inside_window_def sack_overlap_def range_bytes_def)

text \<open>
  C33: Whatever a peer sends, reading the SACK option either leaves the socket as it was or replaces its
  blocks, by at most four. Each new block lies within the data sent and not yet acknowledged, unless
  it is longer than all of this data, and no two blocks within it have a byte in common.
\<close>

lemma nx_tcp_sack_option_get_blocks:
  assumes "nx_tcp_sack_option_get rd option_ptr option_area_size s = Some s'" "sack_arrays s"
    and "una = nx_sack_snd_una s" "nxt = nx_tcp_socket_tx_sequence s" "seq_off una nxt < 2147483648"
  shows "s' = s \<or>
    sack_arrays s' \<and> length (sack_recorded s') \<le> 4 \<and>
    s' = s\<lparr>nx_tcp_socket_sack_left := nx_tcp_socket_sack_left s', nx_tcp_socket_sack_right := nx_tcp_socket_sack_right s',
            nx_tcp_socket_sack_block_count := length (sack_recorded s')\<rparr> \<and>
    (\<forall>b \<in> set (sack_recorded s'). inside_window una nxt b \<or> seq_off una nxt + 1 < seq_off (fst b) (snd b)) \<and>
    (\<forall>j k. j < k \<longrightarrow> k < length (sack_recorded s') \<longrightarrow>
       inside_window una nxt (sack_recorded s' ! j) \<longrightarrow> inside_window una nxt (sack_recorded s' ! k) \<longrightarrow>
       range_bytes una (sack_recorded s' ! j) \<inter> range_bytes una (sack_recorded s' ! k) = {})"
proof (cases "s' = s")
  case False
  then obtain L R c where s': "s' = s\<lparr>nx_tcp_socket_sack_left := L, nx_tcp_socket_sack_right := R, nx_tcp_socket_sack_block_count := c\<rparr>"
    "sack_arrays s'" "c \<le> 4" "\<forall>b \<in> set (sack_recorded s'). sack_block_checked una nxt b"
    "\<forall>j k. j < k \<longrightarrow> k < c \<longrightarrow> \<not> sack_overlap (sack_recorded s' ! j) (sack_recorded s' ! k)"
    using nx_tcp_sack_option_get_checked [OF assms(1,2)] unfolding assms(3,4) by blast
  have len: "length (sack_recorded s') = c" by (simp add: sack_recorded_def s'(1))
  have "inside_window una nxt b \<or> seq_off una nxt + 1 < seq_off (fst b) (snd b)" if "b \<in> set (sack_recorded s')" for b
    using sack_block_checked_inside [of una nxt b] s'(4) that assms(5) by fastforce
  moreover have "s' = s\<lparr>nx_tcp_socket_sack_left := nx_tcp_socket_sack_left s', nx_tcp_socket_sack_right := nx_tcp_socket_sack_right s',
            nx_tcp_socket_sack_block_count := c\<rparr>" by (simp add: s'(1))
  ultimately show ?thesis using s'(2,3,5) no_overlap_disjoint [OF _ _ _ assms(5)] unfolding len by blast
qed simp

text \<open>The sender of 900 bytes from the sequence number 1000 on reads the option with the blocks 1100 to 1200 and
  1400 to 1500.\<close>

definition demo_sack_area :: "(ulong \<times> ulong) list \<Rightarrow> byte_area" where
  "demo_sack_area bs = area_write 60 ([NX_TCP_NOP_KIND, NX_TCP_NOP_KIND, NX_TCP_SACK_KIND, of_nat (2 + 8 * length bs)] @
        concat (map nx_sack_block_bytes bs)) Map.empty"

lemma demo_sack_area_at: "sack_option_at (demo_sack_area bs) 60 bs"
  unfolding sack_option_at_def demo_sack_area_def by (rule area_bytes_write)

lemma demo_sender_window: "nx_sack_snd_una demo_sender = 1000" "nx_tcp_socket_tx_sequence demo_sender = 1900"
  "seq_off 1000 1900 = 900" "sack_arrays demo_sender" "nx_tcp_socket_sack_permitted demo_sender"
  by (simp_all add: nx_sack_snd_una_def demo_sender_def seq_off_def sack_arrays_def)

lemma nx_tcp_sack_option_get_blocks_witness:
  "\<exists>s'. nx_tcp_sack_option_get (demo_sack_area [(1400, 1500), (1100, 1200)]) 60 20 demo_sender = Some s' \<and>
     sack_recorded s' = [(1400, 1500), (1100, 1200)] \<and> range_bytes 1000 (1400, 1500) \<inter> range_bytes 1000 (1100, 1200) = {}"
proof -
  let ?bs = "[(1400, 1500), (1100, 1200)] :: (ulong \<times> ulong) list"
  have "sack_acceptable 1000 1900 ?bs"
    by (simp add: sack_acceptable_def sack_block_checked_def sack_overlap_def seq_diff_def)
  then obtain s' where s': "nx_tcp_sack_option_get (demo_sack_area ?bs) 60 20 demo_sender = Some s'" "sack_recorded s' = ?bs"
    using sack_option_recorded [of "demo_sack_area ?bs" 60 "[]" ?bs demo_sender 20] demo_sack_area_at [of ?bs]
    by (auto simp: demo_sender_window)
  have "s' \<noteq> demo_sender"
  proof
    assume "s' = demo_sender"
    then show False using s'(2) by (simp add: sack_recorded_def recorded_def demo_sender_def)
  qed
  moreover have "inside_window 1000 1900 (1400, 1500)" "inside_window 1000 1900 (1100, 1200)"
    by (simp_all add: inside_window_def seq_off_def)
  moreover have "\<forall>j k. j < k \<longrightarrow> k < length (sack_recorded s') \<longrightarrow>
      inside_window 1000 1900 (sack_recorded s' ! j) \<longrightarrow> inside_window 1000 1900 (sack_recorded s' ! k) \<longrightarrow>
      range_bytes 1000 (sack_recorded s' ! j) \<inter> range_bytes 1000 (sack_recorded s' ! k) = {}"
    using nx_tcp_sack_option_get_blocks [OF s'(1) demo_sender_window(4), of 1000 1900] \<open>s' \<noteq> demo_sender\<close>
    unfolding demo_sender_window(1-3) by simp
  from this [rule_format, of 0 1] have "inside_window 1000 1900 (1400, 1500) \<Longrightarrow> inside_window 1000 1900 (1100, 1200) \<Longrightarrow>
      range_bytes 1000 (1400, 1500) \<inter> range_bytes 1000 (1100, 1200) = {}" by (simp add: s'(2))
  ultimately show ?thesis using s' by blast
qed

text \<open>The exception is real: with nothing but 900 bytes outstanding, a block of two gigabytes that ends just before
  the acknowledged data, one turn of the sequence numbers later, passes the three comparisons.\<close>

lemma sack_far_block_recorded:
  "\<exists>s'. nx_tcp_sack_option_get (demo_sack_area [(1000 + 0x7FFFFFFF, 1000 + 0xFFFFFFFE)]) 60 12 demo_sender = Some s' \<and>
     sack_recorded s' = [(1000 + 0x7FFFFFFF, 1000 + 0xFFFFFFFE)] \<and>
     \<not> inside_window 1000 1900 (1000 + 0x7FFFFFFF, 1000 + 0xFFFFFFFE)"
proof -
  let ?bs = "[(1000 + 0x7FFFFFFF, 1000 + 0xFFFFFFFE)] :: (ulong \<times> ulong) list"
  have "sack_acceptable 1000 1900 ?bs" by (simp add: sack_acceptable_def sack_block_checked_def seq_diff_def)
  then have "\<exists>s'. nx_tcp_sack_option_get (demo_sack_area ?bs) 60 12 demo_sender = Some s' \<and> sack_recorded s' = ?bs"
    using sack_option_recorded [of "demo_sack_area ?bs" 60 "[]" ?bs demo_sender 12] demo_sack_area_at [of ?bs]
    by (auto simp: demo_sender_window)
  moreover have "\<not> inside_window 1000 1900 (1000 + 0x7FFFFFFF, 1000 + 0xFFFFFFFE)" by (simp add: inside_window_def seq_off_def)
  ultimately show ?thesis by blast
qed

text \<open>
  C34: The SACK option carries the out-of-order data of the receive queue to the sender. The receiver writes an
  option for its queue, in ascending order and with no more gaps than the option has room for; the sender reads
  it, whatever else follows in the option area. It then holds exactly the merged ranges of the queue behind the
  next expected byte, hence the same bytes, and the D-SACK in front, which reports acknowledged data, is not among
  them and is not reported again.
\<close>

lemma nx_tcp_sack_roundtrip:
  assumes "receive_queue pks hdr r qs segs" "nx_tcp_socket_sack_permitted r" "nx_tcp_socket_sack_permitted s" "sack_arrays s"
    and "una = nx_sack_snd_una s" "nxt = nx_tcp_socket_tx_sequence s" "seq_off una nxt < 2147483648"
    and "segs \<noteq> []" "0 < seq_diff (snd (last segs)) (nx_tcp_socket_rx_sequence r)"
    and "ascending una nxt (out_of_order (nx_tcp_socket_rx_sequence r) segs)"
    and "length (merge_ranges (out_of_order (nx_tcp_socket_rx_sequence r) segs)) \<le> nx_sack_limit r"
    and "\<forall>d \<in> set (nx_dsack_blocks r). seq_diff (fst d) una \<le> 0"
  shows "\<exists>n r' rd'. nx_tcp_sack_option_build pks hdr r option_ptr rd = Some (n, r', rd') \<and> 12 \<le> n \<and> n \<le> 36 \<and>
    nx_dsack_blocks r' = [] \<and>
    (\<forall>more. \<exists>s'. nx_tcp_sack_option_get rd' option_ptr (n + more) s = Some s' \<and>
       mset (sack_recorded s') = mset (merge_ranges (out_of_order (nx_tcp_socket_rx_sequence r) segs)) \<and>
       \<Union> (range_bytes una ` set (sack_recorded s')) =
         \<Union> (range_bytes una ` set (out_of_order (nx_tcp_socket_rx_sequence r) segs)))"
proof -
  define ooo where "ooo = out_of_order (nx_tcp_socket_rx_sequence r) segs"
  define bs where "bs = merge_ranges ooo"
  have "ooo \<noteq> []" unfolding ooo_def by (rule out_of_order_last [OF assms(8,9)])
  then have bs: "bs \<noteq> []" "ascending una nxt bs" "\<Union> (range_bytes una ` set bs) = \<Union> (range_bytes una ` set ooo)"
    using merge_ranges_ascending [OF assms(10)] by (simp_all add: bs_def ooo_def merge_ranges_Nil)
  obtain recent r' rd' where built: "recent < length bs"
    "sack_option_at rd' option_ptr (nx_dsack_blocks r @ nx_sack_order recent bs)" "nx_dsack_blocks r' = []"
    "nx_tcp_sack_option_build pks hdr r option_ptr rd = Some (4 + 8 * (length (nx_dsack_blocks r) + length bs), r', rd')"
    using nx_tcp_sack_option_build_writes [OF assms(1,2,8,9) refl assms(11)] unfolding bs_def ooo_def by blast
  have perm: "mset (nx_sack_order recent bs) = mset bs" by (rule nx_sack_order_perm [OF built(1)])
  then have order: "set (nx_sack_order recent bs) = set bs" "length (nx_sack_order recent bs) = length bs"
    by (rule mset_eq_setD, rule mset_eq_length)
  have few: "length (nx_dsack_blocks r) \<le> 1" "length (nx_dsack_blocks r) + length bs \<le> 4"
    using assms(11) by (auto simp: nx_dsack_blocks_def nx_sack_limit_def bs_def ooo_def Let_def split: if_splits)
  have "sack_acceptable una nxt (nx_sack_order recent bs)"
    using ascending_acceptable [OF bs(2) assms(7)] sack_acceptable_mset [OF perm] by simp
  then have "\<forall>more. \<exists>s'. nx_tcp_sack_option_get rd' option_ptr (4 + 8 * (length (nx_dsack_blocks r) + length bs) + more) s = Some s' \<and>
      sack_recorded s' = nx_sack_order recent bs"
    using sack_option_recorded [OF built(2) few(1), of s] few(2) assms(3,4,5,6,12) order(2) bs(1) by fastforce
  moreover have "12 \<le> 4 + 8 * (length (nx_dsack_blocks r) + length bs)" using bs(1) by (cases bs) simp_all
  moreover have "4 + 8 * (length (nx_dsack_blocks r) + length bs) \<le> 36" using few(2) by simp
  ultimately show ?thesis
    using built(3,4) perm order(1) bs(3) unfolding bs_def [symmetric] ooo_def [symmetric]
    by (intro exI [of _ "4 + 8 * (length (nx_dsack_blocks r) + length bs)"] exI [of _ r'] exI [of _ rd']) (simp, metis)
qed

text \<open>The receiver has the bytes before 1000 and two packets behind a gap each; a duplicate is waiting to be reported.\<close>

definition demo_packet :: "nat \<Rightarrow> nat \<Rightarrow> nx_packet" where
  "demo_packet ptr following = \<lparr>nx_packet_pool_owner = 1, nx_packet_next = 0, nx_packet_prepend_ptr = ptr,
     nx_packet_append_ptr = ptr + 120, nx_packet_data_start = ptr, nx_packet_data_end = ptr + 200, nx_packet_last = 0,
     nx_packet_queue_next = NX_PACKET_ALLOCATED, nx_packet_tcp_queue_next = following, nx_packet_length = 120,
     nx_packet_option_state = 0, nx_packet_ip_version = 4, nx_packet_identical_copy = False,
     nx_packet_ip_header_length = 0, nx_packet_interface_ptr = 0, nx_packet_ip_header = 0\<rparr>"

definition demo_packets :: "nat \<rightharpoonup> nx_packet" where
  "demo_packets = [10 \<mapsto> demo_packet 600 20, 20 \<mapsto> demo_packet 900 NX_PACKET_ENQUEUED]"

definition demo_headers :: "nat \<rightharpoonup> nx_tcp_header" where
  "demo_headers = [600 \<mapsto> \<lparr>nx_tcp_sequence_number = 1100, nx_tcp_header_word_3 = 0x50100000\<rparr>,
     900 \<mapsto> \<lparr>nx_tcp_sequence_number = 1400, nx_tcp_header_word_3 = 0x50100000\<rparr>]"

definition demo_receiver :: nx_tcp_socket where
  "demo_receiver = demo_sender\<lparr>nx_tcp_socket_rx_sequence := 1000, nx_tcp_socket_receive_queue_head := 10,
     nx_tcp_socket_receive_queue_tail := 20, nx_tcp_socket_timestamp_enabled := True,
     nx_tcp_socket_dsack_left := 700, nx_tcp_socket_dsack_right := 800\<rparr>"

lemma demo_queue: "receive_queue demo_packets demo_headers demo_receiver [10, 20] [(1100, 1200), (1400, 1500)]"
  by (simp add: receive_queue_def demo_receiver_def demo_packets_def demo_packet_def nx_queued_range_def demo_headers_def
      nx_tcp_header_length_def)

lemma nx_tcp_sack_roundtrip_witness:
  "\<exists>n r' rd' s'. nx_tcp_sack_option_build demo_packets demo_headers demo_receiver 60 Map.empty = Some (n, r', rd') \<and>
     nx_dsack_blocks demo_receiver = [(700, 800)] \<and> nx_dsack_blocks r' = [] \<and>
     nx_tcp_sack_option_get rd' 60 (n + 0) demo_sender = Some s' \<and>
     mset (sack_recorded s') = {#(1100, 1200), (1400, 1500)#}"
proof -
  let ?segs = "[(1100, 1200), (1400, 1500)] :: (ulong \<times> ulong) list"
  have rx: "nx_tcp_socket_rx_sequence demo_receiver = 1000" by (simp add: demo_receiver_def)
  have ooo: "out_of_order 1000 ?segs = ?segs" by (simp add: out_of_order_def seq_diff_def)
  have merged: "merge_ranges ?segs = ?segs" by (simp add: merge_ranges_def merge_range_def)
  have asc: "ascending 1000 1900 ?segs" by (simp add: ascending_def inside_window_def before_def seq_off_def)
  have dsack: "nx_dsack_blocks demo_receiver = [(700, 800)]" by (simp add: nx_dsack_blocks_def demo_receiver_def)
  have "\<exists>n r' rd'. nx_tcp_sack_option_build demo_packets demo_headers demo_receiver 60 Map.empty = Some (n, r', rd') \<and>
      12 \<le> n \<and> n \<le> 36 \<and> nx_dsack_blocks r' = [] \<and>
      (\<forall>more. \<exists>s'. nx_tcp_sack_option_get rd' 60 (n + more) demo_sender = Some s' \<and>
        mset (sack_recorded s') = mset (merge_ranges (out_of_order (nx_tcp_socket_rx_sequence demo_receiver) ?segs)) \<and>
        \<Union> (range_bytes 1000 ` set (sack_recorded s')) =
          \<Union> (range_bytes 1000 ` set (out_of_order (nx_tcp_socket_rx_sequence demo_receiver) ?segs)))"
    by (rule nx_tcp_sack_roundtrip [OF demo_queue, where nxt = 1900])
      (use asc dsack in \<open>simp_all add: rx ooo merged demo_sender_window seq_diff_def nx_sack_limit_def demo_receiver_def\<close>)
  then show ?thesis using dsack unfolding rx ooo merged by (metis mset.simps mset_single_iff_right)
qed

end
