(* ===== verification/Nx_Tcp_Prr.thy ===== *)
theory Nx_Tcp_Prr imports Nx_Tcp_Base begin

text \<open>
  The proportional credit of RFC 6937 (common/inc/nx_tcp.h, \<open>_nx_tcp_prr_proportional_credit\<close>): a product
  divided by a 32-bit number and rounded up, computed without 64-bit arithmetic. The special cases,
  the division and the loop over the bits all give the rounded-up quotient, or the largest ULONG
  when it does not fit.
\<close>

unbundle bit_operations_syntax

section \<open>The routine\<close>

text \<open>One doubling step of the loop: the fraction and the remainder below \<open>flight\<close>.\<close>

definition nx_prr_double :: "ulong \<Rightarrow> ulong \<times> ulong \<Rightarrow> ulong \<times> ulong" where
  "nx_prr_double flight x =
     (case x of (fraction, remainder) \<Rightarrow>
        if flight - remainder \<le> remainder
        then (push_bit 1 fraction + 1, remainder - (flight - remainder))
        else (push_bit 1 fraction, remainder + remainder))"

definition nx_prr_add :: "ulong \<Rightarrow> ulong \<Rightarrow> ulong \<times> ulong \<Rightarrow> ulong \<times> ulong" where
  "nx_prr_add flight residue x =
     (case x of (fraction, remainder) \<Rightarrow>
        if flight - residue \<le> remainder
        then (fraction + 1, remainder - (flight - residue))
        else (fraction, remainder + residue))"

function (sequential) nx_prr_fraction :: "ulong \<Rightarrow> ulong \<Rightarrow> ulong \<Rightarrow> ulong \<Rightarrow> ulong \<times> ulong \<Rightarrow> ulong \<times> ulong" where
  "nx_prr_fraction threshold flight residue b x =
     (if b = 0 then x
      else nx_prr_fraction threshold flight residue (drop_bit 1 b)
        (if threshold AND b \<noteq> 0 then nx_prr_add flight residue (nx_prr_double flight x) else nx_prr_double flight x))"
  by pat_completeness auto
termination
  by (relation "measure (\<lambda>(t, f, r, b, x). unat b)")
    (auto simp: drop_bit_eq_div unat_div unat_gt_0)

declare nx_prr_fraction.simps [simp del]

definition nx_tcp_prr_proportional_credit :: "ulong \<Rightarrow> ulong \<Rightarrow> ulong \<Rightarrow> ulong" where
  "nx_tcp_prr_proportional_credit delivered threshold flight =
     (let maximum = 0xFFFFFFFF in
      if flight = 0 \<or> threshold = 0 then 0
      else if threshold = flight div 2 then
        if flight AND 1 = 0 \<or> delivered < flight then drop_bit 1 delivered + (delivered AND 1)
        else
          let whole = delivered div flight; residue = delivered mod flight
          in whole * threshold + drop_bit 1 residue + (residue AND 1)
      else if threshold = flight then delivered
      else if delivered \<le> maximum div threshold then
        let product = delivered * threshold
        in product div flight + (if product mod flight \<noteq> 0 then 1 else 0)
      else
        let whole = delivered div flight; residue = delivered mod flight
        in if whole \<noteq> 0 \<and> maximum div whole < threshold then maximum
           else
             let product = whole * threshold;
                 (fraction, remainder) = nx_prr_fraction threshold flight residue 0x80000000 (0, 0);
                 fraction = fraction + (if remainder \<noteq> 0 then 1 else 0)
             in if maximum - product < fraction then maximum else product + fraction)"

section \<open>Rounding up\<close>

lemma factor_less: "x * c < y * c \<Longrightarrow> x < (y :: nat)"
  by simp

definition divide_up :: "nat \<Rightarrow> nat \<Rightarrow> nat" where
  "divide_up a b = a div b + (if a mod b \<noteq> 0 then 1 else 0)"

lemma divide_up_unique:
  assumes "0 < b" "a \<le> q * b" "q * b < a + b"
  shows "divide_up a b = q"
proof -
  define d where "d = a div b"
  define r where "r = a mod b"
  have a: "a = d * b + r" "r < b" using assms(1) by (simp_all add: d_def r_def)
  show ?thesis
  proof (cases "r = 0")
    case True
    then have "d * b \<le> q * b" "q * b < (d + 1) * b" using assms(2,3) a by (simp_all add: algebra_simps)
    then have "d \<le> q" "q < d + 1" using assms(1) factor_less [of q b "d + 1"] by simp_all
    then show ?thesis using True by (simp add: divide_up_def d_def r_def)
  next
    case False
    then have "d * b < q * b" using assms(2) a(1) by linarith
    moreover have "q * b < (d + 2) * b" using assms(3) a by (simp add: algebra_simps)
    ultimately have "d < q" "q < d + 2" using factor_less [of d b q] factor_less [of q b "d + 2"] by simp_all
    then show ?thesis using False by (simp add: divide_up_def d_def r_def)
  qed
qed

lemma divide_up_bounds: "0 < b \<Longrightarrow> a \<le> divide_up a b * b \<and> divide_up a b * b < a + b"
proof -
  assume "0 < b"
  define d where "d = a div b"
  define r where "r = a mod b"
  have "a = d * b + r" "r < b" using \<open>0 < b\<close> by (simp_all add: d_def r_def)
  then show ?thesis by (simp add: divide_up_def algebra_simps flip: d_def r_def)
qed

lemma divide_up_le: "0 < b \<Longrightarrow> divide_up a b \<le> a"
proof (rule ccontr)
  assume "0 < b" "\<not> divide_up a b \<le> a"
  then have "(a + 1) * b \<le> divide_up a b * b" by (intro mult_le_mono1) simp
  then have "(a + 1) * b < a + b" using divide_up_bounds [OF \<open>0 < b\<close>, of a] by (blast intro: le_less_trans)
  then show False using \<open>0 < b\<close> by simp
qed

lemma divide_up_add: "0 < b \<Longrightarrow> divide_up (w * b * t + x) b = w * t + divide_up x b"
  using divide_up_bounds [of b x] by (intro divide_up_unique) (simp_all add: algebra_simps)

section \<open>The loop\<close>

lemma unat_double_ulong: "2 * unat a < 4294967296 \<Longrightarrow> unat (push_bit 1 a :: ulong) = 2 * unat a"
  using unat_times_ulong [of 2 a] by (simp add: push_bit_eq_mult mult.commute)

definition prr_quotient :: "ulong \<Rightarrow> ulong \<times> ulong \<Rightarrow> nat \<Rightarrow> bool" where
  "prr_quotient flight x n \<longleftrightarrow> unat (fst x) * unat flight + unat (snd x) = n \<and> unat (snd x) < unat flight"

lemma nx_prr_double_quotient:
  assumes "prr_quotient flight x n" "2 * n < 4294967296 * unat flight"
  shows "prr_quotient flight (nx_prr_double flight x) (2 * n)"
proof -
  obtain fr rm where x: "x = (fr, rm)" by (cases x)
  have n: "n = unat fr * unat flight + unat rm" "unat rm < unat flight" using assms(1) by (simp_all add: prr_quotient_def x)
  have "(2 * unat fr) * unat flight \<le> 2 * n" using n(1) by (simp add: algebra_simps)
  then have "(2 * unat fr) * unat flight < 4294967296 * unat flight" using assms(2) by (rule le_less_trans)
  then have fr: "2 * unat fr < 4294967296" by (rule factor_less)
  have sub: "unat (flight - rm) = unat flight - unat rm" using n(2) by (intro unat_minus_ulong) simp
  show ?thesis
  proof (cases "flight - rm \<le> rm")
    case True
    then have le: "unat flight - unat rm \<le> unat rm" using sub by (simp add: word_le_nat_alt)
    have "(2 * unat fr + 1) * unat flight \<le> 2 * n" using n le by (simp add: algebra_simps)
    then have "(2 * unat fr + 1) * unat flight < 4294967296 * unat flight" using assms(2) by (rule le_less_trans)
    then have "2 * unat fr + 1 < 4294967296" by (rule factor_less)
    then have "unat (push_bit 1 fr + 1) = 2 * unat fr + 1"
      using unat_plus_ulong [of "push_bit 1 fr" 1] unat_double_ulong [OF fr] by simp
    moreover have "unat (rm - (flight - rm)) = unat rm - (unat flight - unat rm)"
      using unat_minus_ulong [of "flight - rm" rm] sub le by simp
    ultimately show ?thesis using True n le by (simp add: prr_quotient_def nx_prr_double_def x algebra_simps)
  next
    case False
    then have gt: "unat rm < unat flight - unat rm" using sub by (simp add: word_le_nat_alt)
    then have "unat (rm + rm) = 2 * unat rm" using unat_plus_ulong [of rm rm] ulong_less [of flight] by simp
    then show ?thesis using False n gt unat_double_ulong [OF fr] by (simp add: prr_quotient_def nx_prr_double_def x algebra_simps)
  qed
qed

lemma nx_prr_add_quotient:
  assumes "prr_quotient flight x n" "unat residue < unat flight" "n + unat residue < 4294967296 * unat flight"
  shows "prr_quotient flight (nx_prr_add flight residue x) (n + unat residue)"
proof -
  obtain fr rm where x: "x = (fr, rm)" by (cases x)
  have n: "n = unat fr * unat flight + unat rm" "unat rm < unat flight" using assms(1) by (simp_all add: prr_quotient_def x)
  have sub: "unat (flight - residue) = unat flight - unat residue" using assms(2) by (intro unat_minus_ulong) simp
  show ?thesis
  proof (cases "flight - residue \<le> rm")
    case True
    then have le: "unat flight - unat residue \<le> unat rm" using sub by (simp add: word_le_nat_alt)
    have "(unat fr + 1) * unat flight \<le> n + unat residue" using n le by (simp add: algebra_simps)
    then have "(unat fr + 1) * unat flight < 4294967296 * unat flight" using assms(3) by (rule le_less_trans)
    then have "unat fr + 1 < 4294967296" by (rule factor_less)
    then have "unat (fr + 1) = unat fr + 1" using unat_plus_ulong [of fr 1] by simp
    moreover have "unat (rm - (flight - residue)) = unat rm - (unat flight - unat residue)"
      using unat_minus_ulong [of "flight - residue" rm] sub le by simp
    ultimately show ?thesis using True n le assms(2) by (simp add: prr_quotient_def nx_prr_add_def x algebra_simps)
  next
    case False
    then have gt: "unat rm < unat flight - unat residue" using sub by (simp add: word_le_nat_alt)
    then have "unat (rm + residue) = unat rm + unat residue" using unat_plus_ulong [of rm residue] ulong_less [of flight] by simp
    then show ?thesis using False n gt by (simp add: prr_quotient_def nx_prr_add_def x algebra_simps)
  qed
qed

lemma prr_bit: "T AND 2 ^ j \<noteq> 0 \<longleftrightarrow> odd (unat (T :: ulong) div 2 ^ j)"
proof -
  have "T AND 2 ^ j \<noteq> 0 \<longleftrightarrow> bit T j" by (simp add: and_exp_eq_0_iff_not_bit)
  also have "\<dots> \<longleftrightarrow> bit (unat T) j" by (auto simp: bit_unsigned_iff dest: bit_imp_le_length)
  finally show ?thesis by (simp add: bit_iff_odd)
qed

lemma prr_next_bit: "j < 32 \<Longrightarrow> drop_bit (Suc 0) (2 ^ j :: ulong) = (if j = 0 then 0 else 2 ^ (j - 1))"
  by (cases j) (simp_all add: drop_bit_exp_eq del: power_Suc)

lemma nx_prr_fraction_quotient:
  assumes "prr_quotient flight x (unat residue * (unat threshold div 2 ^ k))" "unat residue < unat flight" "k \<le> 32"
  shows "prr_quotient flight (nx_prr_fraction threshold flight residue (if k = 0 then 0 else 2 ^ (k - 1)) x)
    (unat residue * unat threshold)"
  using assms(1,3)
proof (induction k arbitrary: x)
  case 0
  then show ?case by (subst nx_prr_fraction.simps) simp
next
  case (Suc j)
  let ?t = "unat threshold" and ?r = "unat residue"
  define y where "y = (if threshold AND 2 ^ j \<noteq> 0 then nx_prr_add flight residue (nx_prr_double flight x) else nx_prr_double flight x)"
  have half: "?t div 2 ^ j = 2 * (?t div 2 ^ Suc j) + (if threshold AND 2 ^ j \<noteq> 0 then 1 else 0)"
    unfolding prr_bit using div_mult2_eq [of ?t "2 ^ j" 2] by (auto simp: mult.commute odd_iff_mod_2_eq_one)
  have "?t div 2 ^ j < 4294967296" using ulong_less [of threshold] div_le_dividend [of ?t "2 ^ j"] by (rule le_less_trans [rotated])
  then have "?r * (?t div 2 ^ j) < unat flight * 4294967296" using assms(2) by (intro mult_strict_mono) simp_all
  then have small: "?r * (?t div 2 ^ j) < 4294967296 * unat flight" by (simp only: mult.commute)
  have double: "prr_quotient flight (nx_prr_double flight x) (2 * (?r * (?t div 2 ^ Suc j)))"
    by (rule nx_prr_double_quotient [OF Suc.prems(1)]) (use small in \<open>simp only: half distrib_left mult.left_commute\<close>)
  have "prr_quotient flight y (?r * (?t div 2 ^ j))"
  proof (cases "threshold AND 2 ^ j = 0")
    case True
    then show ?thesis using double by (simp add: y_def half mult.left_commute)
  next
    case False
    then have n: "?r * (?t div 2 ^ j) = 2 * (?r * (?t div 2 ^ Suc j)) + ?r" by (simp add: half distrib_left mult.left_commute)
    show ?thesis using nx_prr_add_quotient [OF double assms(2)] small False unfolding n y_def by simp
  qed
  then have "prr_quotient flight (nx_prr_fraction threshold flight residue (if j = 0 then 0 else 2 ^ (j - 1)) y) (?r * ?t)"
    using Suc.IH Suc.prems(2) by simp
  moreover have "nx_prr_fraction threshold flight residue (2 ^ j) x =
      nx_prr_fraction threshold flight residue (if j = 0 then 0 else 2 ^ (j - 1)) y"
    using Suc.prems(2) by (subst nx_prr_fraction.simps) (simp add: prr_next_bit y_def)
  ultimately show ?case by simp
qed

section \<open>The branches\<close>

lemma half_up: "unat (drop_bit 1 d + (d AND 1) :: ulong) = divide_up (unat d) 2"
proof -
  have "unat (d AND 1) = unat d mod 2" by (simp add: and_one_eq unat_mod)
  moreover have "unat (drop_bit 1 d) = unat d div 2" by (simp add: drop_bit_eq_div unat_div)
  ultimately show ?thesis using unat_plus_ulong [of "drop_bit 1 d" "d AND 1"] ulong_less [of d]
    by (auto simp: divide_up_def)
qed

lemma divide_up_half:
  assumes "0 < f" "even f \<or> d < f"
  shows "divide_up (d * (f div 2)) f = divide_up d 2"
proof (cases "even f")
  case True
  then obtain c where c: "f = 2 * c" "0 < c" using assms(1) by (auto elim: evenE)
  define q where "q = divide_up d 2"
  have "d \<le> 2 * q" "2 * q < d + 2" using divide_up_bounds [of 2 d] by (simp_all add: q_def mult.commute)
  then have "d * c \<le> (2 * q) * c" "(2 * q) * c < (d + 2) * c" using c(2) by (simp_all only: mult_le_mono1 mult_less_cancel2)
  then have "divide_up (d * c) (2 * c) = q" using c(2) by (intro divide_up_unique) (simp_all add: algebra_simps)
  then show ?thesis by (simp add: c q_def)
next
  case False
  then obtain k where f: "f = 2 * k + 1" by (auto elim: oddE)
  have d: "d \<le> 2 * k" using assms(2) False f by simp
  obtain q where q: "d = 2 * q \<or> d = 2 * q + 1" by (metis oddE evenE)
  then have "divide_up d 2 = (if d = 2 * q then q else q + 1)" by (auto simp: divide_up_def)
  then show ?thesis using q d f by (intro divide_up_unique) (auto simp: algebra_simps)
qed

lemma divide_up_product:
  assumes "unat d * unat t < 4294967296" "f \<noteq> 0"
  shows "unat (d * t div f + (if d * t mod f \<noteq> 0 then 1 else 0) :: ulong) = divide_up (unat d * unat t) (unat f)"
proof -
  have p: "unat (d * t) = unat d * unat t" by (rule unat_times_ulong [OF assms(1)])
  have f: "0 < unat f" using assms(2) by (simp add: unat_gt_0)
  have r: "d * t mod f \<noteq> 0 \<longleftrightarrow> unat d * unat t mod unat f \<noteq> 0" by (simp add: word_unat_eq_iff unat_mod p)
  have "unat (d * t div f) = unat d * unat t div unat f" by (simp add: unat_div p)
  moreover have "divide_up (unat d * unat t) (unat f) \<le> unat d * unat t" by (rule divide_up_le [OF f])
  ultimately show ?thesis using r assms(1) unat_plus_ulong [of "d * t div f" 1]
    by (auto simp: divide_up_def)
qed

lemma ulong_product_fits: "t \<noteq> 0 \<Longrightarrow> d \<le> 0xFFFFFFFF div t \<longleftrightarrow> unat d * unat (t :: ulong) < 4294967296"
proof -
  assume "t \<noteq> 0"
  then have "0 < unat t" by (simp add: unat_gt_0)
  then have "unat d \<le> 4294967295 div unat t \<longleftrightarrow> unat d * unat t \<le> 4294967295" by (simp add: less_eq_div_iff_mult_less_eq)
  moreover have "n \<le> 4294967295 \<longleftrightarrow> n < 4294967296" for n :: nat by linarith
  ultimately show ?thesis by (simp add: word_le_nat_alt unat_div)
qed

lemma nx_prr_general:
  assumes "t \<noteq> 0" "f \<noteq> 0" "whole = d div f" "residue = d mod f" "unat whole * unat t < 4294967296"
    and "nx_prr_fraction t f residue 0x80000000 (0, 0) = (fr, rm)"
  shows "(if 0xFFFFFFFF - whole * t < fr + (if rm \<noteq> 0 then 1 else 0) then 0xFFFFFFFF
      else whole * t + (fr + (if rm \<noteq> 0 then 1 else 0))) = (of_nat (min (divide_up (unat d * unat t) (unat f)) 0xFFFFFFFF) :: ulong)"
proof -
  have f: "0 < unat f" using assms(2) by (simp add: unat_gt_0)
  have R: "unat residue < unat f" using f by (simp add: assms(4) unat_mod)
  have "prr_quotient f (nx_prr_fraction t f residue (if (32 :: nat) = 0 then 0 else 2 ^ (32 - 1)) (0, 0)) (unat residue * unat t)"
    by (rule nx_prr_fraction_quotient [OF _ R]) (use f ulong_less [of t] in \<open>simp_all add: prr_quotient_def\<close>)
  then have q: "unat fr * unat f + unat rm = unat residue * unat t" "unat rm < unat f"
    using assms(6) by (simp_all add: prr_quotient_def)
  define c where "c = divide_up (unat residue * unat t) (unat f)"
  have "c = unat fr + (if rm \<noteq> 0 then 1 else 0)"
    unfolding c_def q(1) [symmetric] using q(2) by (simp add: divide_up_def word_unat_eq_iff)
  moreover have "c \<le> unat t"
  proof -
    have "unat residue * unat t \<le> unat t * unat f" using R by simp
    moreover have "c * unat f < unat residue * unat t + unat f" using divide_up_bounds [OF f] by (simp add: c_def)
    ultimately have "c * unat f < (unat t + 1) * unat f" by (simp only: distrib_right)
    then have "c < unat t + 1" by (rule factor_less)
    then show ?thesis by simp
  qed
  ultimately have fr: "unat (fr + (if rm \<noteq> 0 then 1 else 0)) = c"
    using ulong_less [of t] unat_plus_ulong [of fr 1] by (auto split: if_splits)
  have prod: "unat (whole * t) = unat whole * unat t" by (rule unat_times_ulong [OF assms(5)])
  have "unat d * unat t = unat whole * unat f * unat t + unat residue * unat t"
    using div_mult_mod_eq [of "unat d" "unat f"] by (simp add: assms(3,4) unat_div unat_mod flip: distrib_right)
  then have up: "divide_up (unat d * unat t) (unat f) = unat whole * unat t + c"
    using divide_up_add [OF f, of "unat whole" "unat t"] by (simp add: c_def)
  have "unat (0xFFFFFFFF - whole * t) = 4294967295 - unat whole * unat t"
    using unat_minus_ulong [of "whole * t" "0xFFFFFFFF"] prod assms(5) by simp
  then have "0xFFFFFFFF - whole * t < fr + (if rm \<noteq> 0 then 1 else 0) \<longleftrightarrow> 4294967295 < unat whole * unat t + c"
    using fr assms(5) by (auto simp: word_less_nat_alt)
  then show ?thesis
    using up fr prod unat_plus_ulong [of "whole * t" "fr + (if rm \<noteq> 0 then 1 else 0)"] ulong_less
    by (auto simp: word_unat_eq_iff unat_of_nat take_bit_eq_mod min_def not_less)
qed

text \<open>The whole routine.\<close>

lemma nx_tcp_prr_proportional_credit_eq:
  assumes "flight \<noteq> 0"
  shows "nx_tcp_prr_proportional_credit delivered threshold flight =
    of_nat (min (divide_up (unat delivered * unat threshold) (unat flight)) 0xFFFFFFFF)"
proof -
  let ?d = "unat delivered" and ?t = "unat threshold" and ?f = "unat flight"
  have f: "0 < ?f" using assms by (simp add: unat_gt_0)
  have exact: "x = of_nat (min q 0xFFFFFFFF)" if "unat x = q" for x :: ulong and q
    using that ulong_less [of x] by (auto simp: min_def)
  have le: "divide_up ?d 2 \<le> 0xFFFFFFFF" using divide_up_le [of 2 ?d] ulong_less [of delivered] by linarith
  consider "threshold = 0" | "threshold \<noteq> 0" "threshold = flight div 2" | "threshold \<noteq> 0" "threshold \<noteq> flight div 2" "threshold = flight"
    | "threshold \<noteq> 0" "threshold \<noteq> flight div 2" "threshold \<noteq> flight" "delivered \<le> 0xFFFFFFFF div threshold"
    | "threshold \<noteq> 0" "threshold \<noteq> flight div 2" "threshold \<noteq> flight" "\<not> delivered \<le> 0xFFFFFFFF div threshold" by blast
  then show ?thesis
  proof cases
    case 1
    then show ?thesis by (simp add: nx_tcp_prr_proportional_credit_def divide_up_def)
  next
    case 2
    then have t: "?t = ?f div 2" by (simp add: unat_div)
    have ev: "flight AND 1 = 0 \<longleftrightarrow> even ?f" by (simp add: and_one_eq word_unat_eq_iff unat_mod even_iff_mod_2_eq_zero)
    show ?thesis
    proof (cases "flight AND 1 = 0 \<or> delivered < flight")
      case True
      then have "divide_up (?d * ?t) ?f = divide_up ?d 2"
        unfolding t ev word_less_nat_alt by (rule divide_up_half [OF f])
      then show ?thesis using True 2 assms half_up [of delivered]
        by (simp add: nx_tcp_prr_proportional_credit_def exact)
    next
      case False
      define w where "w = delivered div flight"
      define r where "r = delivered mod flight"
      have r: "unat r < ?f" using f by (simp add: r_def unat_mod)
      have split: "?d = unat w * ?f + unat r" by (simp add: w_def r_def unat_div unat_mod)
      have "divide_up (unat r * ?t) ?f = divide_up (unat r) 2" unfolding t using divide_up_half [OF f] r by blast
      then have up: "divide_up (?d * ?t) ?f = unat w * ?t + divide_up (unat r) 2"
        using divide_up_add [OF f, of "unat w" ?t "unat r * ?t"] by (simp add: split distrib_right)
      have "unat w * ?t \<le> unat w * ?f" by (simp add: t)
      moreover have "divide_up (unat r) 2 \<le> unat r" by (rule divide_up_le) simp
      ultimately have fits: "unat w * ?t + divide_up (unat r) 2 \<le> ?d" "unat w * ?t \<le> ?d" using split by linarith+
      have "unat (w * threshold) = unat w * ?t" using fits(2) ulong_less [of delivered] by (intro unat_times_ulong) linarith
      then have "unat (w * threshold + (drop_bit 1 r + (r AND 1))) = unat w * ?t + divide_up (unat r) 2"
        using unat_plus_ulong [of "w * threshold" "drop_bit 1 r + (r AND 1)"] half_up [of r] fits(1) ulong_less [of delivered] by simp
      from exact [OF this] show ?thesis using False 2 assms up
        by (simp add: nx_tcp_prr_proportional_credit_def Let_def add.assoc flip: w_def r_def)
    qed
  next
    case 3
    then have "divide_up (?d * ?t) ?f = ?d" using f by (simp add: divide_up_def)
    then show ?thesis using 3 assms exact [of delivered ?d] by (simp add: nx_tcp_prr_proportional_credit_def)
  next
    case 4
    then have "?d * ?t < 4294967296" by (simp add: ulong_product_fits)
    note exact [OF divide_up_product [OF this assms]]
    then show ?thesis using 4 assms unfolding nx_tcp_prr_proportional_credit_def Let_def by simp
  next
    case 5
    define w where "w = delivered div flight"
    define r where "r = delivered mod flight"
    have fits: "w \<noteq> 0 \<and> 0xFFFFFFFF div w < threshold \<longleftrightarrow> \<not> unat w * ?t < 4294967296"
      using ulong_product_fits [of w threshold] by (cases "w = 0") (simp_all add: not_le [symmetric] mult.commute)
    show ?thesis
    proof (cases "unat w * ?t < 4294967296")
      case True
      obtain fr rm where frm: "nx_prr_fraction threshold flight r 0x80000000 (0, 0) = (fr, rm)" by fastforce
      have no: "\<not> (w \<noteq> 0 \<and> 0xFFFFFFFF div w < threshold)" using fits True by blast
      show ?thesis using 5 assms frm nx_prr_general [OF 5(1) assms w_def r_def True frm]
        unfolding nx_tcp_prr_proportional_credit_def Let_def w_def [symmetric] r_def [symmetric] if_not_P [OF no] by simp
    next
      case False
      have "?d = unat w * ?f + unat r" by (simp add: w_def r_def unat_div unat_mod)
      then have "divide_up (?d * ?t) ?f = unat w * ?t + divide_up (unat r * ?t) ?f"
        using divide_up_add [OF f, of "unat w" ?t "unat r * ?t"] by (simp add: distrib_right)
      then have "min (divide_up (?d * ?t) ?f) 0xFFFFFFFF = 0xFFFFFFFF" using False by simp
      then show ?thesis using 5 assms False fits
        by (simp add: nx_tcp_prr_proportional_credit_def Let_def flip: w_def r_def)
    qed
  qed
qed

end
