(* ===== verification/Nx_Sack_Board.thy ===== *)
theory Nx_Sack_Board imports Nx_Packet_Pool Nx_Tcp_Prr begin

text \<open>
  The SACK scoreboard and proportional rate reduction of a TCP sender
  (common/src/nx_tcp_sack_recovery.c). The scoreboard is a list of holes, the ranges below the
  highest byte that was reported which no report covers. It is stored twice, in two banks of
  slots in chained control packets; an update writes the inactive bank and then switches.
\<close>

section \<open>Holes and the socket\<close>

record nx_sack_hole =
  sack_hole_left :: ulong
  sack_hole_right :: ulong
  sack_hole_rxmit :: ulong

text \<open>The bits of \<open>nx_tcp_socket_sack_scoreboard_flags\<close> are fields of their own; the bank is 0 or 1. The last
  field is the value of the macro \<open>NX_TCP_SOCKET_TX_QUEUE_STOPPED\<close>.\<close>

record nx_sack_socket = nx_tcp_socket +
  nx_tcp_socket_connect_mss :: ulong
  nx_tcp_socket_fast_recovery :: bool
  nx_tcp_socket_timeout :: ulong
  nx_tcp_socket_timeout_rate :: ulong
  nx_tcp_socket_timeout_retries :: ulong
  nx_tcp_socket_stall_ticks :: ulong
  nx_tcp_socket_tx_slow_start_threshold :: ulong
  nx_tcp_socket_tx_window_congestion :: ulong
  nx_tcp_socket_tx_window_advertised :: ulong
  nx_tcp_socket_tx_sequence_recover :: ulong
  nx_tcp_socket_tx_high_rxt :: ulong
  nx_tcp_socket_tx_rto_next :: ulong
  nx_tcp_socket_tx_rto_end :: ulong
  nx_tcp_socket_transmit_sent_head :: nat
  nx_tcp_socket_transmit_sent_count :: ulong
  nx_tcp_socket_transmit_queue_maximum :: ulong
  nx_tcp_socket_transmit_suspension_list :: nat
  nx_tcp_socket_sack_scoreboard :: nat
  nx_tcp_socket_sack_cursor :: nat
  nx_tcp_socket_sack_high_ack :: ulong
  nx_tcp_socket_sack_fack :: ulong
  nx_tcp_socket_sack_lost_edge :: ulong
  nx_tcp_socket_prr_recover_fs :: ulong
  nx_tcp_socket_prr_delivered :: ulong
  nx_tcp_socket_prr_out :: ulong
  nx_tcp_socket_prr_credit :: ulong
  nx_tcp_socket_sack_rescue_rxt :: ulong
  nx_tcp_socket_sack_rxt_mark :: ulong
  nx_tcp_socket_sack_delivery_bank :: ulong
  nx_tcp_socket_sack_delivered_data :: ulong
  nx_tcp_socket_sack_uncertain_start :: ulong
  nx_tcp_socket_sack_uncertain_end :: ulong
  nx_tcp_socket_sack_hole_count :: nat
  nx_tcp_socket_sack_hole_capacity :: nat
  nx_tcp_socket_sack_page_capacity :: nat
  nx_sack_bank :: nat
  nx_sack_initialized :: bool
  nx_sack_alloc_failed :: bool
  nx_sack_ack_jump :: bool
  nx_sack_uncertain :: bool
  nx_ip_default_packet_pool :: nat
  nx_tcp_socket_tx_queue_stopped :: bool

type_synonym sack_slots = "nat \<rightharpoonup> nx_sack_hole"

abbreviation (input) NX_SACK_HOLES_PER_PAGE :: nat where "NX_SACK_HOLES_PER_PAGE \<equiv> 64"
abbreviation (input) NX_SACK_PAGES_MAX :: nat where "NX_SACK_PAGES_MAX \<equiv> 16"
abbreviation (input) SIZEOF_NX_SACK_HOLE :: nat where "SIZEOF_NX_SACK_HOLE \<equiv> 12"

definition sack_data_end :: "nx_sack_socket \<Rightarrow> ulong" where
  "sack_data_end s =
     (if \<not> nx_tcp_socket_fin_acked s \<and>
         (nx_tcp_socket_state s = NX_TCP_FIN_WAIT_1 \<or> nx_tcp_socket_state s = NX_TCP_CLOSING \<or>
          nx_tcp_socket_state s = NX_TCP_LAST_ACK)
      then nx_tcp_socket_tx_sequence s - 1 else nx_tcp_socket_tx_sequence s)"

section \<open>Slots\<close>

partial_function (option) nx_sack_page :: "(nat \<rightharpoonup> nx_packet) \<Rightarrow> nat \<Rightarrow> nat \<Rightarrow> nat \<Rightarrow> (nat \<times> nat) option" where
  "nx_sack_page pks cap page index =
     (if cap \<le> index then do {
        pk \<leftarrow> pks page;
        nx_sack_page pks cap (nx_packet_queue_next pk) (index - cap)
      }
      else Some (page, index))"

text \<open>The address of a slot. A bank takes the first or the second half of each page.\<close>

definition sack_hole :: "nx_mem \<Rightarrow> nx_sack_socket \<Rightarrow> nat \<Rightarrow> nat \<Rightarrow> nat option" where
  "sack_hole m s bank index = do {
     (page, i) \<leftarrow> nx_sack_page (nx_packets m) (nx_tcp_socket_sack_page_capacity s) (nx_tcp_socket_sack_scoreboard s) index;
     pk \<leftarrow> nx_packets m page;
     Some (nx_packet_prepend_ptr pk + SIZEOF_NX_SACK_HOLE * (bank * nx_tcp_socket_sack_page_capacity s + i))
   }"

partial_function (option) nx_sack_last_page :: "(nat \<rightharpoonup> nx_packet) \<Rightarrow> nat \<Rightarrow> nat \<Rightarrow> (nat \<times> nat) option" where
  "nx_sack_last_page pks page pages = do {
     pk \<leftarrow> pks page;
     if nx_packet_queue_next pk \<noteq> NX_NULL then nx_sack_last_page pks (nx_packet_queue_next pk) (pages + 1)
     else Some (page, pages)
   }"

definition sack_grow ::
    "(nat \<Rightarrow> nx_mem \<Rightarrow> nx_mem) \<Rightarrow> nx_mem \<Rightarrow> nx_sack_socket \<Rightarrow> (bool \<times> nx_mem \<times> nx_sack_socket) option" where
  "sack_grow system_suspend m s = do {
     pk \<leftarrow> nx_packets m (nx_tcp_socket_sack_scoreboard s);
     pool \<leftarrow> nx_pools m (nx_packet_pool_owner pk);
     let reserve = (if nx_packet_pool_total pool div 8 < 4 then 4 else nx_packet_pool_total pool div 8);
     let limit = (if NX_SACK_PAGES_MAX < nx_packet_pool_total pool div 32 then NX_SACK_PAGES_MAX
                  else nx_packet_pool_total pool div 32);
     (page, pages) \<leftarrow> nx_sack_last_page (nx_packets m) (nx_tcp_socket_sack_scoreboard s) 1;
     if limit \<le> pages then Some (False, m, s)
     else if nx_packet_pool_available pool \<le> reserve then Some (False, m, s)
     else do {
       (status, extra, m1) \<leftarrow> nx_packet_allocate system_suspend (nx_packet_pool_owner pk) 0 0 NX_NO_WAIT m;
       if status \<noteq> NX_SUCCESS then Some (False, m1, s)
       else do {
         last_pk \<leftarrow> nx_packets m1 page;
         Some (True, put_packet page (last_pk\<lparr>nx_packet_queue_next := extra\<rparr>) m1,
               s\<lparr>nx_tcp_socket_sack_hole_capacity :=
                   nx_tcp_socket_sack_hole_capacity s + nx_tcp_socket_sack_page_capacity s\<rparr>)
       }
     }
   }"

section \<open>The blocks of the peer\<close>

text \<open>One recorded block, clipped, or None where the loop continues.\<close>

definition sack_block_clip :: "nx_sack_socket \<Rightarrow> ulong \<Rightarrow> ulong \<Rightarrow> (ulong \<times> ulong) option" where
  "sack_block_clip s left right =
     (let ack = nx_tcp_socket_sack_high_ack s;
          data_end = sack_data_end s;
          right = (if right = data_end + 1 \<and> right = nx_tcp_socket_tx_sequence s then data_end else right)
      in if seq_diff left ack \<le> 0 \<or> seq_diff right left \<le> 0 \<or> seq_diff data_end right < 0 then None
         else if nx_sack_uncertain s then
           let frontier = nx_tcp_socket_sack_uncertain_start s
           in if seq_diff left frontier \<ge> 0 then None
              else if seq_diff right frontier > 0 then Some (left, frontier) else Some (left, right)
         else Some (left, right))"

text \<open>The insertion from the end of the array; here the array is a list in descending order.\<close>

fun sack_block_insert :: "ulong \<times> ulong \<Rightarrow> (ulong \<times> ulong) list \<Rightarrow> (ulong \<times> ulong) list" where
  "sack_block_insert b [] = [b]"
| "sack_block_insert b (c # cs) = (if seq_diff (fst c) (fst b) > 0 then c # sack_block_insert b cs else b # c # cs)"

definition sack_blocks :: "nx_sack_socket \<Rightarrow> (ulong \<times> ulong) list" where
  "sack_blocks s =
     rev (fold (\<lambda>i blocks.
             case sack_block_clip s (nx_tcp_socket_sack_left s ! i) (nx_tcp_socket_sack_right s ! i) of
               None \<Rightarrow> blocks
             | Some b \<Rightarrow> sack_block_insert b blocks)
           [0 ..< min (nx_tcp_socket_sack_block_count s) NX_TCP_SACK_MAX_BLOCKS] [])"

section \<open>Rebuilding the inactive bank\<close>

definition sack_rxmit_clamp :: "ulong \<Rightarrow> ulong \<Rightarrow> ulong \<Rightarrow> ulong" where
  "sack_rxmit_clamp left right rxmit =
     (let rxmit = (if seq_diff rxmit left < 0 then left else rxmit)
      in if seq_diff rxmit right > 0 then right else rxmit)"

definition sack_append ::
    "nx_mem \<Rightarrow> nx_sack_socket \<Rightarrow> nat \<Rightarrow> nat \<Rightarrow> ulong \<Rightarrow> ulong \<Rightarrow> ulong \<Rightarrow> sack_slots \<times> nat \<Rightarrow> (sack_slots \<times> nat) option" where
  "sack_append m s bank cap left right rxmit x =
     (case x of (hs, count) \<Rightarrow>
        if seq_diff right left \<le> 0 then Some (hs, count)
        else if count = cap then Some (hs, cap + 1)
        else do {
          out \<leftarrow> sack_hole m s bank count;
          Some (hs(out \<mapsto> \<lparr>sack_hole_left = left, sack_hole_right = right,
                            sack_hole_rxmit = sack_rxmit_clamp left right rxmit\<rparr>), count + 1)
        })"

fun sack_subtract ::
    "nx_mem \<Rightarrow> nx_sack_socket \<Rightarrow> nat \<Rightarrow> nat \<Rightarrow> ulong \<Rightarrow> ulong \<Rightarrow> ulong \<Rightarrow> (ulong \<times> ulong) list \<Rightarrow>
       sack_slots \<times> nat \<Rightarrow> (sack_slots \<times> nat) option" where
  "sack_subtract m s bank cap left right rxmit [] x = sack_append m s bank cap left right rxmit x"
| "sack_subtract m s bank cap left right rxmit (b # blocks) x =
     (if \<not> seq_diff right left > 0 then sack_append m s bank cap left right rxmit x
      else if seq_diff (snd b) left \<le> 0 then sack_subtract m s bank cap left right rxmit blocks x
      else if seq_diff (fst b) right \<ge> 0 then sack_append m s bank cap left right rxmit x
      else if seq_diff (fst b) left > 0 then do {
        y \<leftarrow> sack_append m s bank cap left (fst b) rxmit x;
        if cap < snd y then Some y else sack_subtract m s bank cap (snd b) right rxmit blocks y
      }
      else sack_subtract m s bank cap (snd b) right rxmit blocks x)"

text \<open>The loop over the holes of the active bank.\<close>

primrec sack_rebuild_holes ::
    "nx_mem \<Rightarrow> nx_sack_socket \<Rightarrow> nat \<Rightarrow> nat \<Rightarrow> (ulong \<times> ulong) list \<Rightarrow> nat list \<Rightarrow> sack_slots \<times> nat \<Rightarrow> (sack_slots \<times> nat) option" where
  "sack_rebuild_holes m s bank cap blocks [] x = Some x"
| "sack_rebuild_holes m s bank cap blocks (i # rest) x = do {
     a \<leftarrow> sack_hole m s bank i;
     h \<leftarrow> fst x a;
     let ack = nx_tcp_socket_sack_high_ack s;
     let left = (if seq_diff ack (sack_hole_left h) > 0 then ack else sack_hole_left h);
     y \<leftarrow> sack_subtract m s (1 - bank) cap left (sack_hole_right h) (sack_hole_rxmit h) blocks x;
     if cap < snd y then Some y else sack_rebuild_holes m s bank cap blocks rest y
   }"

definition sack_rebuild ::
    "nx_mem \<Rightarrow> (ulong \<times> ulong) list \<Rightarrow> ulong \<Rightarrow> bool \<Rightarrow> sack_slots \<Rightarrow> nx_sack_socket \<Rightarrow> (bool \<times> sack_slots \<times> nx_sack_socket) option" where
  "sack_rebuild m blocks fack discard hs s = do {
     let bank = nx_sack_bank s;
     let cap = nx_tcp_socket_sack_hole_capacity s;
     let ack = nx_tcp_socket_sack_high_ack s;
     let old_fack = nx_tcp_socket_sack_fack s;
     x \<leftarrow> (if discard then sack_subtract m s (1 - bank) cap ack fack ack blocks (hs, 0)
           else do {
             x \<leftarrow> sack_rebuild_holes m s bank cap blocks [0 ..< nx_tcp_socket_sack_hole_count s] (hs, 0);
             if cap < snd x then Some x
             else
               let old_fack = (if seq_diff ack old_fack > 0 then ack else old_fack)
               in sack_subtract m s (1 - bank) cap old_fack fack old_fack blocks x
           });
     if cap < snd x then Some (False, fst x, s)
     else Some (True, fst x,
       s\<lparr>nx_tcp_socket_sack_hole_count := snd x, nx_tcp_socket_sack_fack := fack, nx_sack_bank := 1 - bank\<rparr>)
   }"

end
