(* ===== verification/Nx_Sack_Recovery.thy ===== *)
theory Nx_Sack_Recovery imports Nx_Sack_Board begin

text \<open>
  The operations of the loss recovery on the scoreboard (common/src/nx_tcp_sack_recovery.c): the
  estimate of the data in flight, the credit, the processing of an acknowledgment, the start of a
  recovery, the choice of the next range to send, and the release of the control pages.
\<close>

section \<open>The view of the holes\<close>

text \<open>The holes of a bank in order; the C code reads them one by one.\<close>

primrec sack_read_holes :: "nx_mem \<Rightarrow> sack_slots \<Rightarrow> nx_sack_socket \<Rightarrow> nat \<Rightarrow> nat list \<Rightarrow> nx_sack_hole list option" where
  "sack_read_holes m hs s bank [] = Some []"
| "sack_read_holes m hs s bank (i # rest) = do {
     a \<leftarrow> sack_hole m s bank i;
     h \<leftarrow> hs a;
     holes \<leftarrow> sack_read_holes m hs s bank rest;
     Some (h # holes)
   }"

text \<open>Without a control page the blocks of the last option give the holes, in an array on the stack.\<close>

definition sack_scratch_append :: "ulong \<Rightarrow> ulong \<Rightarrow> ulong \<Rightarrow> nx_sack_hole list \<Rightarrow> nx_sack_hole list" where
  "sack_scratch_append left right rxmit holes =
     (if seq_diff right left \<le> 0 then holes
      else holes @ [\<lparr>sack_hole_left = left, sack_hole_right = right, sack_hole_rxmit = sack_rxmit_clamp left right rxmit\<rparr>])"

definition sack_view :: "nx_mem \<Rightarrow> sack_slots \<Rightarrow> nx_sack_socket \<Rightarrow> (nx_sack_hole list \<times> ulong) option" where
  "sack_view m hs s =
     (if nx_tcp_socket_sack_scoreboard s \<noteq> NX_NULL then do {
        holes \<leftarrow> sack_read_holes m hs s (nx_sack_bank s) [0 ..< nx_tcp_socket_sack_hole_count s];
        Some (holes, nx_tcp_socket_sack_fack s)
      }
      else Some (fold (\<lambda>b (holes, left).
                   (sack_scratch_append left (fst b) (nx_tcp_socket_tx_high_rxt s) holes, snd b))
                 (sack_blocks s) ([], nx_tcp_socket_sack_high_ack s)))"

section \<open>Data in flight\<close>

text \<open>One turn of the loop from the highest hole down. \<open>NX_TCP_FAST_RETRANSMIT_THRESHOLD\<close> is 3.\<close>

definition sack_lost_step :: "ulong \<Rightarrow> nx_sack_hole \<Rightarrow> ulong \<times> ulong \<times> ulong \<times> nat \<Rightarrow> ulong \<times> ulong \<times> ulong \<times> nat" where
  "sack_lost_step threshold hole x =
     (case x of (edge, cursor, bytes, ranges) \<Rightarrow>
        let gap = cursor - sack_hole_right hole
        in if gap \<noteq> 0 then
             let ranges = ranges + 1;
                 edge = (if bytes \<le> threshold \<and> threshold - bytes < gap then cursor - (threshold - bytes) else edge);
                 edge = (if ranges = 3 \<and> seq_diff (sack_hole_right hole) edge > 0 then sack_hole_right hole else edge)
             in (edge, sack_hole_left hole, bytes + gap, ranges)
           else (edge, sack_hole_left hole, bytes, ranges))"

definition sack_lost_edge :: "nx_sack_socket \<Rightarrow> nx_sack_hole list \<Rightarrow> ulong \<Rightarrow> ulong" where
  "sack_lost_edge s holes fack =
     fst (fold (sack_lost_step (2 * nx_tcp_socket_connect_mss s)) (rev holes) (nx_tcp_socket_sack_high_ack s, fack, 0, 0))"

text \<open>What a hole adds to the data in flight.\<close>

definition sack_hole_pipe :: "ulong \<Rightarrow> ulong \<Rightarrow> nx_sack_hole \<Rightarrow> ulong" where
  "sack_hole_pipe edge high_rxt hole =
     (let left = (if seq_diff edge (sack_hole_left hole) > 0 then edge else sack_hole_left hole);
          unsent = (if seq_diff (sack_hole_right hole) left > 0 then sack_hole_right hole - left else 0);
          left = (if seq_diff high_rxt (sack_hole_right hole) > 0 then sack_hole_right hole else high_rxt)
      in unsent + (if seq_diff left (sack_hole_left hole) > 0 then left - sack_hole_left hole else 0))"

definition sack_pipe_edge :: "nx_sack_socket \<Rightarrow> ulong \<Rightarrow> ulong" where
  "sack_pipe_edge s edge =
     (if nx_sack_uncertain s \<and> seq_diff edge (nx_tcp_socket_sack_uncertain_start s) > 0
      then let edge = nx_tcp_socket_sack_uncertain_start s
           in if seq_diff (nx_tcp_socket_sack_high_ack s) edge > 0 then nx_tcp_socket_sack_high_ack s else edge
      else edge)"

definition nx_tcp_sack_recovery_pipe :: "nx_mem \<Rightarrow> sack_slots \<Rightarrow> nx_sack_socket \<Rightarrow> (ulong \<times> nx_sack_socket) option" where
  "nx_tcp_sack_recovery_pipe m hs s = do {
     (holes, fack) \<leftarrow> sack_view m hs s;
     let edge = sack_pipe_edge s (sack_lost_edge s holes fack);
     let high_rxt = nx_tcp_socket_tx_high_rxt s;
     let pipe = sack_data_end s - fack;
     let pipe = (if seq_diff high_rxt fack > 0 then pipe + (high_rxt - fack) else pipe);
     Some (fold (\<lambda>hole pipe. pipe + sack_hole_pipe edge high_rxt hole) holes pipe,
           s\<lparr>nx_tcp_socket_sack_lost_edge := edge\<rparr>)
   }"

section \<open>Credit\<close>

definition sack_recovery_active :: "nx_sack_socket \<Rightarrow> bool" where
  "sack_recovery_active s \<longleftrightarrow> nx_tcp_socket_sack_permitted s \<and> nx_tcp_socket_fast_recovery s \<and> nx_tcp_socket_prr_recover_fs s \<noteq> 0"

definition sack_credit :: "nx_sack_socket \<Rightarrow> ulong \<Rightarrow> ulong" where
  "sack_credit s pipe =
     (let threshold = nx_tcp_socket_tx_slow_start_threshold s;
          delivered = nx_tcp_socket_prr_delivered s;
          sent = nx_tcp_socket_prr_out s
      in if threshold < pipe then
           let credit = nx_tcp_prr_proportional_credit delivered threshold (nx_tcp_socket_prr_recover_fs s)
           in if sent < credit then credit - sent else 0
         else
           let limit = (if sent < delivered then delivered - sent else 0);
               limit = (if limit < nx_tcp_socket_sack_delivered_data s then nx_tcp_socket_sack_delivered_data s else limit);
               limit = limit + nx_tcp_socket_connect_mss s;
               credit = threshold - pipe
           in if limit < credit then limit else credit)"

definition sack_prr_credit :: "nx_mem \<Rightarrow> sack_slots \<Rightarrow> nx_sack_socket \<Rightarrow> nx_sack_socket option" where
  "sack_prr_credit m hs s = do {
     (pipe, s) \<leftarrow> nx_tcp_sack_recovery_pipe m hs s;
     Some (s\<lparr>nx_tcp_socket_prr_credit := sack_credit s pipe\<rparr>)
   }"

text \<open>Retransmissions that were lost: their ranges become eligible again.\<close>

primrec sack_lost_holes :: "nx_mem \<Rightarrow> nat list \<Rightarrow> sack_slots \<times> nx_sack_socket \<Rightarrow> (sack_slots \<times> nx_sack_socket) option" where
  "sack_lost_holes m [] x = Some x"
| "sack_lost_holes m (i # rest) x = do {
     a \<leftarrow> sack_hole m (snd x) (nx_sack_bank (snd x)) i;
     h \<leftarrow> fst x a;
     sack_lost_holes m rest
       (if seq_diff (sack_hole_rxmit h) (sack_hole_left h) > 0
        then ((fst x)(a \<mapsto> h\<lparr>sack_hole_rxmit := sack_hole_left h\<rparr>),
              if seq_diff (nx_tcp_socket_tx_high_rxt (snd x)) (sack_hole_left h) > 0
              then (snd x)\<lparr>nx_tcp_socket_tx_high_rxt := sack_hole_left h\<rparr> else snd x)
        else x)
   }"

definition sack_lost_retransmit :: "nx_mem \<Rightarrow> sack_slots \<Rightarrow> nx_sack_socket \<Rightarrow> (sack_slots \<times> nx_sack_socket) option" where
  "sack_lost_retransmit m hs s =
     (if seq_diff (nx_tcp_socket_sack_fack s) (nx_tcp_socket_sack_rxt_mark s) < sint (nx_tcp_socket_connect_mss s)
      then Some (hs, s)
      else sack_lost_holes m [0 ..< nx_tcp_socket_sack_hole_count s] (hs, s))"

section \<open>An acknowledgment\<close>

definition sack_initialize :: "nx_sack_socket \<Rightarrow> nx_sack_socket" where
  "sack_initialize s =
     (if nx_sack_initialized s then s
      else
        let high_ack = sack_data_end s - nx_tcp_socket_tx_outstanding_bytes s
        in s\<lparr>nx_tcp_socket_sack_high_ack := high_ack, nx_tcp_socket_sack_fack := high_ack,
             nx_tcp_socket_sack_delivery_bank := 0, nx_sack_bank := 0, nx_sack_initialized := True,
             nx_sack_alloc_failed := False, nx_sack_ack_jump := False, nx_sack_uncertain := False\<rparr>)"

text \<open>An acknowledgment that ends inside a hole, or at an edge of one, keeps the evidence; one that ends within
  data that was reported discards it.\<close>

definition sack_advance :: "nx_mem \<Rightarrow> sack_slots \<Rightarrow> ulong \<Rightarrow> nx_sack_socket \<Rightarrow> (ulong \<times> bool \<times> nx_sack_socket) option" where
  "sack_advance m hs ack s =
     (if seq_diff ack (nx_tcp_socket_sack_high_ack s) > 0 then do {
        discard \<leftarrow>
          (if nx_tcp_socket_sack_scoreboard s \<noteq> NX_NULL \<and> seq_diff (nx_tcp_socket_sack_fack s) ack > 0 then do {
             holes \<leftarrow> sack_read_holes m hs s (nx_sack_bank s) [0 ..< nx_tcp_socket_sack_hole_count s];
             Some (\<not> list_ex (\<lambda>h. seq_diff ack (sack_hole_left h) \<ge> 0 \<and> seq_diff (sack_hole_right h) ack > 0) holes)
           }
           else Some False);
        Some (ack - nx_tcp_socket_sack_high_ack s, discard, s\<lparr>nx_tcp_socket_sack_high_ack := ack\<rparr>)
      }
      else Some (0, False, s))"

definition sack_progress :: "ulong \<Rightarrow> nx_sack_socket \<Rightarrow> nx_sack_socket" where
  "sack_progress advance s =
     (let s = s\<lparr>nx_sack_ack_jump := (nx_tcp_socket_connect_mss s < advance)\<rparr>;
          s = (if nx_sack_uncertain s \<and> seq_diff (nx_tcp_socket_sack_high_ack s) (nx_tcp_socket_sack_uncertain_end s) \<ge> 0
               then s\<lparr>nx_sack_uncertain := False\<rparr> else s)
      in if advance \<noteq> 0 \<and> nx_tcp_socket_fast_recovery s
         then s\<lparr>nx_tcp_socket_timeout := nx_tcp_socket_timeout_rate s, nx_tcp_socket_timeout_retries := 0,
                nx_tcp_socket_stall_ticks := 0\<rparr>
         else s)"

text \<open>The first control page.\<close>

definition sack_open ::
    "(nat \<Rightarrow> nx_mem \<Rightarrow> nx_mem) \<Rightarrow> nx_mem \<Rightarrow> (ulong \<times> ulong) list \<Rightarrow> nx_sack_socket \<Rightarrow> (nx_mem \<times> nx_sack_socket) option" where
  "sack_open system_suspend m blocks s =
     (if nx_tcp_socket_sack_scoreboard s = NX_NULL \<and> blocks \<noteq> [] \<and> \<not> nx_sack_alloc_failed s then do {
        (status, packet, m1) \<leftarrow>
          (if nx_ip_default_packet_pool s \<noteq> NX_NULL
           then nx_packet_allocate system_suspend (nx_ip_default_packet_pool s) NX_NULL 0 NX_NO_WAIT m
           else Some (NX_NO_PACKET, NX_NULL, m));
        (m2, s2) \<leftarrow>
          (if status = NX_SUCCESS then do {
             pk \<leftarrow> nx_packets m1 packet;
             let cap = (nx_packet_data_end pk - nx_packet_prepend_ptr pk) div (2 * SIZEOF_NX_SACK_HOLE);
             if 2 \<le> cap then
               let cap = (if NX_SACK_HOLES_PER_PAGE < cap then NX_SACK_HOLES_PER_PAGE else cap)
               in Some (m1, s\<lparr>nx_tcp_socket_sack_scoreboard := packet, nx_tcp_socket_sack_page_capacity := cap,
                              nx_tcp_socket_sack_hole_capacity := cap, nx_tcp_socket_sack_hole_count := 0,
                              nx_tcp_socket_sack_fack := nx_tcp_socket_sack_high_ack s\<rparr>)
             else do {
               (_, m2) \<leftarrow> nx_packet_release packet m1;
               Some (m2, s)
             }
           }
           else Some (m1, s));
        Some (m2, if nx_tcp_socket_sack_scoreboard s2 = NX_NULL then s2\<lparr>nx_sack_alloc_failed := True\<rparr> else s2)
      }
      else Some (m, s))"

definition sack_new_fack :: "(ulong \<times> ulong) list \<Rightarrow> nx_sack_socket \<Rightarrow> ulong" where
  "sack_new_fack blocks s =
     (let ack = nx_tcp_socket_sack_high_ack s;
          fack = nx_tcp_socket_sack_fack s;
          fack = (if seq_diff ack fack > 0 then ack else fack)
      in fold (\<lambda>b fack. if seq_diff (snd b) fack > 0 then snd b else fack) blocks fack)"

partial_function (option) sack_retry ::
    "(nat \<Rightarrow> nx_mem \<Rightarrow> nx_mem) \<Rightarrow> (ulong \<times> ulong) list \<Rightarrow> ulong \<Rightarrow> bool \<Rightarrow> nx_mem \<Rightarrow> sack_slots \<Rightarrow> nx_sack_socket \<Rightarrow>
       (bool \<times> nx_mem \<times> sack_slots \<times> nx_sack_socket) option" where
  "sack_retry system_suspend blocks fack discard m hs s = do {
     (rebuilt, hs1, s1) \<leftarrow> sack_rebuild m blocks fack discard hs s;
     if rebuilt then Some (True, m, hs1, s1)
     else do {
       (grown, m2, s2) \<leftarrow> sack_grow system_suspend m s1;
       if grown then sack_retry system_suspend blocks fack discard m2 hs1 s2 else Some (False, m2, hs1, s2)
     }
   }"

text \<open>The bytes that are reported, in total.\<close>

definition sack_reported :: "ulong \<Rightarrow> ulong \<Rightarrow> nx_sack_hole list \<Rightarrow> ulong" where
  "sack_reported high_ack fack holes = fold (\<lambda>h sacked. sacked - (sack_hole_right h - sack_hole_left h)) holes (fack - high_ack)"

definition sack_update ::
    "(nat \<Rightarrow> nx_mem \<Rightarrow> nx_mem) \<Rightarrow> (ulong \<times> ulong) list \<Rightarrow> bool \<Rightarrow> nx_mem \<Rightarrow> sack_slots \<Rightarrow> nx_sack_socket \<Rightarrow>
       (ulong \<times> nx_mem \<times> sack_slots \<times> nx_sack_socket) option" where
  "sack_update system_suspend blocks discard m hs s =
     (if nx_tcp_socket_sack_scoreboard s \<noteq> NX_NULL then do {
        (rebuilt, m1, hs1, s1) \<leftarrow> sack_retry system_suspend blocks (sack_new_fack blocks s) discard m hs s;
        (hs2, s2) \<leftarrow>
          (if rebuilt then Some (hs1, s1)
           else do {
             let start = (if nx_sack_uncertain s1 then nx_tcp_socket_sack_uncertain_start s1 else nx_tcp_socket_sack_fack s1);
             let s2 = s1\<lparr>nx_tcp_socket_sack_uncertain_start := start, nx_sack_uncertain := True,
                         nx_tcp_socket_sack_uncertain_end := sack_data_end s1\<rparr>;
             (_, hs3, s3) \<leftarrow> sack_rebuild m1 [] (sack_new_fack [] s2) discard hs1 s2;
             Some (hs3, s3)
           });
        holes \<leftarrow> sack_read_holes m1 hs2 s2 (nx_sack_bank s2) [0 ..< nx_tcp_socket_sack_hole_count s2];
        Some (sack_reported (nx_tcp_socket_sack_high_ack s2) (nx_tcp_socket_sack_fack s2) holes, m1, hs2, s2)
      }
      else Some (fold (\<lambda>b sacked. sacked + (snd b - fst b)) blocks 0, m, hs, s))"

text \<open>The data that this acknowledgment delivered: the high-water mark of the reported data counts once.\<close>

definition sack_deliver :: "ulong \<Rightarrow> ulong \<Rightarrow> nx_sack_socket \<Rightarrow> nx_sack_socket" where
  "sack_deliver advance sacked s =
     (let bank = nx_tcp_socket_sack_delivery_bank s;
          estimate = advance + sacked;
          delivered = (if bank < estimate then estimate - bank else 0);
          bank = (if advance < bank then bank - advance else 0)
      in s\<lparr>nx_tcp_socket_sack_delivered_data := delivered,
           nx_tcp_socket_sack_delivery_bank := (if bank < sacked then sacked else bank)\<rparr>)"

definition nx_tcp_sack_recovery_ack ::
    "(nat \<Rightarrow> nx_mem \<Rightarrow> nx_mem) \<Rightarrow> ulong \<Rightarrow> nx_mem \<Rightarrow> sack_slots \<Rightarrow> nx_sack_socket \<Rightarrow>
       (nx_mem \<times> sack_slots \<times> nx_sack_socket) option" where
  "nx_tcp_sack_recovery_ack system_suspend ack m hs s = do {
     let ack = (if seq_diff ack (sack_data_end s) > 0 then sack_data_end s else ack);
     (advance, discard, s1) \<leftarrow> sack_advance m hs ack (sack_initialize s);
     let s2 = sack_progress advance s1;
     let blocks = sack_blocks s2;
     (m3, s3) \<leftarrow> sack_open system_suspend m blocks s2;
     (sacked, m4, hs4, s4) \<leftarrow> sack_update system_suspend blocks discard m3 hs s3;
     let s5 = sack_deliver advance sacked s4;
     (hs6, s6) \<leftarrow> (if sack_recovery_active s5 \<and> nx_tcp_socket_sack_scoreboard s5 \<noteq> NX_NULL
                 then sack_lost_retransmit m4 hs4 s5 else Some (hs4, s5));
     s7 \<leftarrow> (if sack_recovery_active s6 \<and> nx_tcp_socket_sack_delivered_data s6 \<noteq> 0
          then sack_prr_credit m4 hs6 (s6\<lparr>nx_tcp_socket_prr_delivered :=
                 nx_tcp_socket_prr_delivered s6 + nx_tcp_socket_sack_delivered_data s6\<rparr>)
          else Some s6);
     Some (m4, hs6, s7)
   }"

end
