(* ===== verification/Nx_Sack_Slots.thy ===== *)
theory Nx_Sack_Slots imports Nx_Sack_Recovery begin

text \<open>
  The slots of the scoreboard as two arrays. The operations rely on an interface only: each of two
  banks has a slot for every index below the capacity, and no two of them share an address. The
  chained control packets provide it.
\<close>

section \<open>The interface\<close>

locale slot_banks =
  fixes ok :: "'s \<Rightarrow> bool" and slot :: "'s \<Rightarrow> nat \<Rightarrow> nat \<Rightarrow> nat option" and size :: "'s \<Rightarrow> nat"
  assumes slot_exists: "ok s \<Longrightarrow> b < 2 \<Longrightarrow> i < size s \<Longrightarrow> \<exists>a. slot s b i = Some a"
    and slot_inj: "ok s \<Longrightarrow> b < 2 \<Longrightarrow> c < 2 \<Longrightarrow> i < size s \<Longrightarrow> j < size s \<Longrightarrow> slot s b i = slot s c j \<Longrightarrow> b = c \<and> i = j"
begin

definition holds :: "'s \<Rightarrow> (nat \<rightharpoonup> 'v) \<Rightarrow> nat \<Rightarrow> 'v list \<Rightarrow> bool" where
  "holds s hs b vs \<longleftrightarrow> length vs \<le> size s \<and> (\<forall>i < length vs. \<exists>a. slot s b i = Some a \<and> hs a = Some (vs ! i))"

lemma holds_Nil: "holds s hs b []"
  by (simp add: holds_def)

lemma holds_nth: "holds s hs b vs \<Longrightarrow> i < length vs \<Longrightarrow> \<exists>a. slot s b i = Some a \<and> hs a = Some (vs ! i)"
  by (simp add: holds_def)

lemma holds_write_other:
  assumes "ok s" "b < 2" "c < 2" "b \<noteq> c" "slot s b i = Some a" "i < size s" "holds s hs c vs"
  shows "holds s (hs(a \<mapsto> v)) c vs"
  unfolding holds_def
proof (intro conjI allI impI)
  show "length vs \<le> size s" using assms(7) by (simp add: holds_def)
next
  fix j assume j: "j < length vs"
  then obtain x where x: "slot s c j = Some x" "hs x = Some (vs ! j)" using assms(7) by (auto simp: holds_def)
  then have "x \<noteq> a" using slot_inj [of s b c i j] assms j by (auto simp: holds_def)
  then show "\<exists>x. slot s c j = Some x \<and> (hs(a \<mapsto> v)) x = Some (vs ! j)" using x by simp
qed

lemma holds_snoc:
  assumes "ok s" "b < 2" "slot s b (length vs) = Some a" "length vs < size s" "holds s hs b vs"
  shows "holds s (hs(a \<mapsto> v)) b (vs @ [v])"
  unfolding holds_def
proof (intro conjI allI impI)
  show "length (vs @ [v]) \<le> size s" using assms(4) by simp
next
  fix j assume j: "j < length (vs @ [v])"
  show "\<exists>x. slot s b j = Some x \<and> (hs(a \<mapsto> v)) x = Some ((vs @ [v]) ! j)"
  proof (cases "j < length vs")
    case True
    then obtain x where x: "slot s b j = Some x" "hs x = Some (vs ! j)" using assms(5) by (auto simp: holds_def)
    then have "x \<noteq> a" using slot_inj [of s b b j "length vs"] assms True by auto
    then show ?thesis using x True by (simp add: nth_append)
  next
    case False
    then show ?thesis using j assms(3) by (simp add: less_Suc_eq)
  qed
qed

lemma holds_update:
  assumes "ok s" "b < 2" "slot s b i = Some a" "i < length vs" "holds s hs b vs"
  shows "holds s (hs(a \<mapsto> v)) b (vs[i := v])"
  unfolding holds_def
proof (intro conjI allI impI)
  show "length (vs[i := v]) \<le> size s" using assms(5) by (simp add: holds_def)
next
  fix j assume j: "j < length (vs[i := v])"
  obtain x where x: "slot s b j = Some x" "hs x = Some (vs ! j)" using assms(5) j by (auto simp: holds_def)
  have "x = a \<longleftrightarrow> j = i" using slot_inj [of s b b j i] assms x j by (auto simp: holds_def)
  then show "\<exists>x. slot s b j = Some x \<and> (hs(a \<mapsto> v)) x = Some (vs[i := v] ! j)" using x j by (auto simp: nth_list_update)
qed

end

section \<open>Control packets\<close>

text \<open>Each page has room for both banks, and no two pages share an area.\<close>

definition sack_pages :: "nx_mem \<Rightarrow> nx_sack_socket \<Rightarrow> nat list \<Rightarrow> bool" where
  "sack_pages m s ps \<longleftrightarrow> queue m (nx_tcp_socket_sack_scoreboard s) ps \<and> distinct ps \<and>
     0 < nx_tcp_socket_sack_page_capacity s \<and>
     nx_tcp_socket_sack_hole_capacity s = nx_tcp_socket_sack_page_capacity s * length ps \<and>
     (\<forall>p \<in> set ps. \<forall>pk. nx_packets m p = Some pk \<longrightarrow> nx_packet_data_start pk \<le> nx_packet_prepend_ptr pk \<and>
        nx_packet_prepend_ptr pk + 2 * SIZEOF_NX_SACK_HOLE * nx_tcp_socket_sack_page_capacity s \<le> nx_packet_data_end pk) \<and>
     (\<forall>p \<in> set ps. \<forall>q \<in> set ps. \<forall>pk qk. p \<noteq> q \<longrightarrow> nx_packets m p = Some pk \<longrightarrow> nx_packets m q = Some qk \<longrightarrow> separate pk qk)"

lemma nx_sack_page_nth:
  "linked nx_packet_queue_next pks page ps \<Longrightarrow> 0 < cap \<Longrightarrow> index < cap * length ps \<Longrightarrow>
     nx_sack_page pks cap page index = Some (ps ! (index div cap), index mod cap)"
proof (induction ps arbitrary: page index)
  case (Cons p ps)
  obtain pk where pk: "page = p" "pks p = Some pk" "linked nx_packet_queue_next pks (nx_packet_queue_next pk) ps"
    using Cons.prems(1) by auto
  show ?case
  proof (cases "cap \<le> index")
    case True
    then have "index - cap < cap * length ps" using Cons.prems(3) by simp
    note ih = Cons.IH [OF pk(3) Cons.prems(2) this]
    have "index div cap = Suc ((index - cap) div cap)" "index mod cap = (index - cap) mod cap"
      using True Cons.prems(2) by (simp_all add: le_div_geq le_mod_geq)
    then show ?thesis using True pk ih by (subst nx_sack_page.simps) simp
  next
    case False
    then show ?thesis using pk by (subst nx_sack_page.simps) simp
  qed
qed simp

lemma sack_hole_address:
  assumes "sack_pages m s ps" "i < nx_tcp_socket_sack_hole_capacity s"
  shows "\<exists>pk. nx_packets m (ps ! (i div nx_tcp_socket_sack_page_capacity s)) = Some pk \<and>
    i div nx_tcp_socket_sack_page_capacity s < length ps \<and>
    sack_hole m s b i = Some (nx_packet_prepend_ptr pk +
      SIZEOF_NX_SACK_HOLE * (b * nx_tcp_socket_sack_page_capacity s + i mod nx_tcp_socket_sack_page_capacity s))"
proof -
  let ?cap = "nx_tcp_socket_sack_page_capacity s"
  have ps: "queue m (nx_tcp_socket_sack_scoreboard s) ps" "0 < ?cap" "i < ?cap * length ps"
    using assms by (auto simp: sack_pages_def)
  have page: "i div ?cap < length ps" using ps(2,3) by (simp add: less_mult_imp_div_less mult.commute)
  then obtain pk where "nx_packets m (ps ! (i div ?cap)) = Some pk" using linked_valid [OF ps(1), of "ps ! (i div ?cap)"] by auto
  then show ?thesis using nx_sack_page_nth [OF ps] page by (simp add: sack_hole_def)
qed

lemma slots_apart:
  assumes "e \<le> d' \<or> e' \<le> d" "d \<le> p" "p + 24 * cap \<le> e" "d' \<le> p'" "p' + 24 * cap \<le> e'" "x < 2 * cap" "y < 2 * (cap :: nat)"
  shows "p + 12 * x \<noteq> p' + 12 * y"
  using assms by linarith

lemma radix: "b * cap + x = c * cap + y \<Longrightarrow> x < cap \<Longrightarrow> y < cap \<Longrightarrow> b = c \<and> x = (y :: nat)"
proof -
  assume eq: "b * cap + x = c * cap + y" and x: "x < cap" and y: "y < cap"
  have "(b * cap + x) div cap = b" "(c * cap + y) div cap = c" using x y by simp_all
  then have "b = c" using eq by simp
  then show ?thesis using eq by simp
qed

lemma sack_hole_inj:
  assumes "sack_pages m s ps" "i < nx_tcp_socket_sack_hole_capacity s" "j < nx_tcp_socket_sack_hole_capacity s" "b < 2" "c < 2"
    and "sack_hole m s b i = sack_hole m s c j"
  shows "b = c \<and> i = j"
proof -
  let ?cap = "nx_tcp_socket_sack_page_capacity s"
  let ?p = "ps ! (i div ?cap)" and ?q = "ps ! (j div ?cap)"
  have cap: "0 < ?cap" and dist: "distinct ps" using assms(1) by (auto simp: sack_pages_def)
  obtain pk qk where pk: "nx_packets m ?p = Some pk" "i div ?cap < length ps"
    and qk: "nx_packets m ?q = Some qk" "j div ?cap < length ps"
    and eq: "nx_packet_prepend_ptr pk + 12 * (b * ?cap + i mod ?cap) = nx_packet_prepend_ptr qk + 12 * (c * ?cap + j mod ?cap)"
    using sack_hole_address [OF assms(1,2), of b] sack_hole_address [OF assms(1,3), of c] assms(6) by auto
  have room: "b * ?cap + i mod ?cap < 2 * ?cap" "c * ?cap + j mod ?cap < 2 * ?cap"
  proof -
    have "b * ?cap \<le> 1 * ?cap" "c * ?cap \<le> 1 * ?cap" using assms(4,5) by (intro mult_right_mono; simp)+
    moreover have "i mod ?cap < ?cap" "j mod ?cap < ?cap" using cap by simp_all
    ultimately show "b * ?cap + i mod ?cap < 2 * ?cap" "c * ?cap + j mod ?cap < 2 * ?cap" by linarith+
  qed
  have area: "nx_packet_data_start pk \<le> nx_packet_prepend_ptr pk" "nx_packet_prepend_ptr pk + 24 * ?cap \<le> nx_packet_data_end pk"
    "nx_packet_data_start qk \<le> nx_packet_prepend_ptr qk" "nx_packet_prepend_ptr qk + 24 * ?cap \<le> nx_packet_data_end qk"
    using assms(1) pk qk by (auto simp: sack_pages_def)
  have same: "?p = ?q"
  proof (rule ccontr)
    assume "?p \<noteq> ?q"
    then have "separate pk qk" using assms(1) pk qk nth_mem [OF pk(2)] nth_mem [OF qk(2)] unfolding sack_pages_def by blast
    then show False using slots_apart [OF _ area room] eq unfolding separate_def by blast
  qed
  then have page: "i div ?cap = j div ?cap" using dist pk(2) qk(2) by (simp add: nth_eq_iff_index_eq)
  have "b * ?cap + i mod ?cap = c * ?cap + j mod ?cap" using same pk(1) qk(1) eq by simp
  from radix [OF this] have "b = c" "i mod ?cap = j mod ?cap" using cap by simp_all
  moreover have "i = i div ?cap * ?cap + i mod ?cap" "j = j div ?cap * ?cap + j mod ?cap" by simp_all
  ultimately show ?thesis using page by metis
qed

abbreviation sack_ok :: "nx_mem \<times> nx_sack_socket \<Rightarrow> bool" where
  "sack_ok x \<equiv> (\<exists>ps. sack_pages (fst x) (snd x) ps)"

interpretation sack: slot_banks sack_ok "\<lambda>x. sack_hole (fst x) (snd x)" "\<lambda>x. nx_tcp_socket_sack_hole_capacity (snd x)"
proof unfold_locales
  fix x b i assume "sack_ok x" "i < nx_tcp_socket_sack_hole_capacity (snd x)"
  then show "\<exists>a. sack_hole (fst x) (snd x) b i = Some a" using sack_hole_address by fastforce
next
  fix x b c i j
  assume "sack_ok x" "b < 2" "c < 2" "i < nx_tcp_socket_sack_hole_capacity (snd x)" "j < nx_tcp_socket_sack_hole_capacity (snd x)"
    "sack_hole (fst x) (snd x) b i = sack_hole (fst x) (snd x) c j"
  then show "b = c \<and> i = j" using sack_hole_inj by blast
qed

end
