(* ===== verification/Nx_Sack_Range.thy ===== *)
theory Nx_Sack_Range imports Nx_Tcp_Base begin

text \<open>
  Ranges of sequence numbers as sets of 32-bit words. A range runs from its left to its right end on
  the circle of sequence numbers; counted from a base below both ends it is an interval of
  naturals. Lists of ranges in the order of their left ends are the meaning of the blocks and
  holes of the SACK scoreboard.
\<close>

section \<open>Ranges\<close>

definition seq_range :: "ulong \<Rightarrow> ulong \<Rightarrow> ulong set" where
  "seq_range l r = {w. seq_off l w < seq_off l r}"

lemma seq_off_less: "seq_off a b < 4294967296"
  unfolding seq_off_def by (rule ulong_less)

text \<open>Counted from a base, both ways.\<close>

lemma seq_off_back: "seq_off u w < seq_off u l \<Longrightarrow> seq_off l w = seq_off u w + 4294967296 - seq_off u l"
proof -
  assume lt: "seq_off u w < seq_off u l"
  then have "seq_off w l = seq_off u l - seq_off u w" by (intro seq_off_diff) simp
  moreover have "seq_off w l + seq_off l w = 4294967296"
  proof -
    have "l \<noteq> w" using lt by auto
    then have "4294967296 \<le> seq_off l w + seq_off w l" by (rule seq_off_both)
    moreover have "\<not> 4294967296 < seq_off l w + seq_off w l"
    proof
      assume "4294967296 < seq_off l w + seq_off w l"
      moreover have "unat (w - l) + unat (l - w) = 4294967296 + unat ((w - l) + (l - w))"
        using calculation unat_plus_if_size [of "w - l" "l - w"] by (simp add: seq_off_def word_size)
      ultimately show False by (simp add: seq_off_def)
    qed
    ultimately show ?thesis by simp
  qed
  ultimately show ?thesis using lt seq_off_less [of u l] by linarith
qed

lemma seq_range_off:
  assumes "seq_off u l \<le> seq_off u r"
  shows "w \<in> seq_range l r \<longleftrightarrow> seq_off u l \<le> seq_off u w \<and> seq_off u w < seq_off u r"
proof (cases "seq_off u l \<le> seq_off u w")
  case True
  then show ?thesis using assms seq_off_diff [of u l w] seq_off_diff [of u l r] by (auto simp: seq_range_def)
next
  case False
  then have "seq_off l w = seq_off u w + 4294967296 - seq_off u l" by (intro seq_off_back) simp
  moreover have "seq_off l r = seq_off u r - seq_off u l" using assms by (rule seq_off_diff)
  ultimately show ?thesis using False seq_off_less [of u r] by (auto simp: seq_range_def)
qed

lemma seq_range_refl [simp]: "seq_range l l = {}"
  by (simp add: seq_range_def)

text \<open>A range as the image of an interval; its size.\<close>

lemma seq_off_of_nat: "n < 4294967296 \<Longrightarrow> seq_off l (l + of_nat n) = n"
  by (simp add: seq_off_def unat_of_nat take_bit_eq_mod)

lemma seq_off_of: "l + of_nat (seq_off l w) = w"
  by (simp add: seq_off_def)

lemma bij_betw_seq_off: "bij_betw (seq_off u) (UNIV :: ulong set) {..< 4294967296}"
  unfolding bij_betw_def
proof
  show "inj (seq_off u)" by (rule injI) (simp add: seq_off_inj)
  show "range (seq_off u) = {..< 4294967296}"
    using seq_off_less seq_off_of_nat [of _ u] by (auto simp: image_iff) (metis)
qed

lemma finite_seq_set [simp]: "finite (A :: ulong set)"
  by (rule finite)

lemma card_seq_off: "card (seq_off u ` A) = card A"
  by (rule card_image) (auto simp: inj_on_def seq_off_inj)

lemma card_seq_range: "card (seq_range l r) = seq_off l r"
proof -
  have "seq_off l ` seq_range l r = {..< seq_off l r}"
    using seq_off_less [of l r] seq_off_of_nat [of _ l] by (auto simp: seq_range_def image_iff) (metis less_trans)
  then show ?thesis using card_seq_off [of l "seq_range l r"] by simp
qed

text \<open>The window of a sender: the data from a base on, below half of the numbers.\<close>

lemma seq_diff_less: "seq_off u a < 2147483648 \<Longrightarrow> seq_off u b < 2147483648 \<Longrightarrow>
    (seq_diff a b > 0 \<longleftrightarrow> seq_off u b < seq_off u a) \<and> (seq_diff a b \<le> 0 \<longleftrightarrow> seq_off u a \<le> seq_off u b) \<and>
    (seq_diff a b < 0 \<longleftrightarrow> seq_off u a < seq_off u b) \<and> (seq_diff a b \<ge> 0 \<longleftrightarrow> seq_off u b \<le> seq_off u a)"
  using seq_diff_off [of u a b] by auto

section \<open>Ordered lists of ranges\<close>

definition ranges_set :: "(ulong \<times> ulong) list \<Rightarrow> ulong set" where
  "ranges_set bs = (\<Union>b \<in> set bs. seq_range (fst b) (snd b))"

lemma ranges_set_simps [simp]:
  "ranges_set [] = {}" "ranges_set (b # bs) = seq_range (fst b) (snd b) \<union> ranges_set bs"
  "ranges_set (as @ bs) = ranges_set as \<union> ranges_set bs"
  by (auto simp: ranges_set_def)

text \<open>In the window, not empty, and one after the other.\<close>

definition ranges_ok :: "ulong \<Rightarrow> nat \<Rightarrow> nat \<Rightarrow> (ulong \<times> ulong) list \<Rightarrow> bool" where
  "ranges_ok u lo hi bs \<longleftrightarrow>
     (\<forall>b \<in> set bs. lo \<le> seq_off u (fst b) \<and> seq_off u (fst b) < seq_off u (snd b) \<and> seq_off u (snd b) \<le> hi) \<and>
     sorted_wrt (\<lambda>b c. seq_off u (snd b) \<le> seq_off u (fst c)) bs"

lemma ranges_ok_Nil [simp]: "ranges_ok u lo hi []"
  by (simp add: ranges_ok_def)

lemma ranges_ok_append: "ranges_ok u lo mid as \<Longrightarrow> ranges_ok u mid hi bs \<Longrightarrow> lo \<le> mid \<Longrightarrow> mid \<le> hi \<Longrightarrow> ranges_ok u lo hi (as @ bs)"
  by (fastforce simp: ranges_ok_def sorted_wrt_append)

lemma ranges_ok_Cons: "lo \<le> seq_off u l \<Longrightarrow> seq_off u l < seq_off u r \<Longrightarrow> seq_off u r \<le> hi \<Longrightarrow> ranges_ok u (seq_off u r) hi bs \<Longrightarrow>
    ranges_ok u lo hi ((l, r) # bs)"
  by (fastforce simp: ranges_ok_def)

lemma ranges_ok_mono: "ranges_ok u lo hi bs \<Longrightarrow> lo' \<le> lo \<Longrightarrow> hi \<le> hi' \<Longrightarrow> ranges_ok u lo' hi' bs"
  by (fastforce simp: ranges_ok_def)

lemma ranges_set_off:
  assumes "ranges_ok u lo hi bs"
  shows "w \<in> ranges_set bs \<longleftrightarrow> (\<exists>b \<in> set bs. seq_off u (fst b) \<le> seq_off u w \<and> seq_off u w < seq_off u (snd b))"
proof -
  have "w \<in> seq_range (fst b) (snd b) \<longleftrightarrow> seq_off u (fst b) \<le> seq_off u w \<and> seq_off u w < seq_off u (snd b)" if "b \<in> set bs" for b
    using that assms by (intro seq_range_off) (auto simp: ranges_ok_def)
  then show ?thesis by (auto simp: ranges_set_def)
qed

lemma ranges_set_between: "ranges_ok u lo hi bs \<Longrightarrow> w \<in> ranges_set bs \<Longrightarrow> lo \<le> seq_off u w \<and> seq_off u w < hi"
  by (fastforce simp: ranges_set_off ranges_ok_def)

text \<open>The size of an ordered list.\<close>

lemma card_ranges_set:
  assumes "ranges_ok u lo hi bs"
  shows "card (ranges_set bs) = (\<Sum>b \<leftarrow> bs. seq_off (fst b) (snd b))"
  using assms
proof (induction bs arbitrary: lo)
  case (Cons b bs)
  have b: "seq_off u (fst b) < seq_off u (snd b)" and bs: "ranges_ok u (seq_off u (snd b)) hi bs"
    using Cons.prems by (auto simp: ranges_ok_def)
  have "seq_range (fst b) (snd b) \<inter> ranges_set bs = {}"
    using ranges_set_between [OF bs] seq_range_off [of u "fst b" "snd b"] b by fastforce
  then have "card (ranges_set (b # bs)) = card (seq_range (fst b) (snd b)) + card (ranges_set bs)"
    by (simp add: card_Un_disjoint)
  then show ?case using Cons.IH [OF bs] by (simp add: card_seq_range)
qed simp

end
