(* ===== verification/Nx_Sack_Subtract.thy ===== *)
theory Nx_Sack_Subtract imports Nx_Sack_Recovery Nx_Sack_Range "HOL-Library.Multiset" begin

text \<open>
  The blocks that the scoreboard takes from the socket, and the subtraction of blocks from a hole, as
  functions on lists and as operations on sets of sequence numbers.
\<close>

section \<open>Blocks\<close>

text \<open>A block beyond the window \<open>w\<close> counts for nothing: it starts in front of everything and ends behind it, as the signed
  comparisons see it.\<close>

definition block_ok :: "ulong \<Rightarrow> nat \<Rightarrow> ulong \<times> ulong \<Rightarrow> bool" where
  "block_ok a w b \<longleftrightarrow> seq_off a (fst b) < 2147483648 \<and>
     (seq_off a (snd b) \<le> w \<longrightarrow> 0 < seq_off a (fst b) \<and> seq_off a (fst b) < seq_off a (snd b)) \<and>
     (w < seq_off a (snd b) \<longrightarrow> (\<forall>x. seq_off a x \<le> w \<longrightarrow> seq_diff (snd b) x < 0))"

definition block_cover :: "ulong \<Rightarrow> nat \<Rightarrow> ulong \<times> ulong \<Rightarrow> ulong set" where
  "block_cover a w b = (if seq_off a (snd b) \<le> w then seq_range (fst b) (snd b) else {})"

definition blocks_cover :: "ulong \<Rightarrow> nat \<Rightarrow> (ulong \<times> ulong) list \<Rightarrow> ulong set" where
  "blocks_cover a w bs = (\<Union>b \<in> set bs. block_cover a w b)"

definition blocks_ok :: "ulong \<Rightarrow> nat \<Rightarrow> (ulong \<times> ulong) list \<Rightarrow> bool" where
  "blocks_ok a w bs \<longleftrightarrow> (\<forall>b \<in> set bs. block_ok a w b) \<and> sorted_wrt (\<lambda>b c. seq_off a (fst b) \<le> seq_off a (fst c)) bs"

lemma blocks_cover_simps [simp]:
  "blocks_cover a w [] = {}" "blocks_cover a w (b # bs) = block_cover a w b \<union> blocks_cover a w bs"
  by (simp_all add: blocks_cover_def)

lemma blocks_ok_simps [simp]:
  "blocks_ok a w []"
  "blocks_ok a w (b # bs) \<longleftrightarrow> block_ok a w b \<and> (\<forall>c \<in> set bs. seq_off a (fst b) \<le> seq_off a (fst c)) \<and> blocks_ok a w bs"
  by (auto simp: blocks_ok_def)

lemma block_cover_off: "block_ok a w b \<Longrightarrow> x \<in> block_cover a w b \<longleftrightarrow>
    seq_off a (snd b) \<le> w \<and> seq_off a (fst b) \<le> seq_off a x \<and> seq_off a x < seq_off a (snd b)"
  using seq_range_off [of a "fst b" "snd b" x] by (auto simp: block_cover_def block_ok_def)

text \<open>The three comparisons of the clipping give such blocks.\<close>

lemma checked_block_ok:
  assumes "seq_diff left a > 0" "seq_diff right left > 0" "seq_diff e right \<ge> 0" "seq_off a e < 2147483648"
  shows "block_ok a (seq_off a e) (left, right)"
proof -
  have l: "0 < seq_off a left" "seq_off a left < 2147483648" and r: "0 < seq_off left right" "seq_off left right < 2147483648"
    and e: "seq_off right e < 2147483648"
    using assms by (simp_all add: seq_diff_pos seq_diff_nonneg)
  have far: "seq_diff right x < 0" if "seq_off a e < seq_off a right" "seq_off a x \<le> seq_off a e" for x
  proof -
    have "seq_off right e = seq_off a e + 4294967296 - seq_off a right" using that(1) by (rule seq_off_back)
    then have "2147483648 + seq_off a e < seq_off a right" using e seq_off_less [of a right] by linarith
    moreover have "seq_off x right = seq_off a right - seq_off a x" using that by (intro seq_off_diff) simp
    ultimately have "2147483648 \<le> seq_off x right" using that(2) by linarith
    then show ?thesis using seq_off_less [of x right] by (simp add: seq_diff_cases)
  qed
  have inside: "seq_off a left < seq_off a right" if "seq_off a right \<le> seq_off a e"
    using seq_off_add [of a left right] l r that by linarith
  show ?thesis using l far inside by (auto simp: block_ok_def)
qed

text \<open>The recorded blocks, clipped one by one.\<close>

definition sack_clipped :: "nx_sack_socket \<Rightarrow> (ulong \<times> ulong) list" where
  "sack_clipped s = List.map_filter (\<lambda>i. sack_block_clip s (nx_tcp_socket_sack_left s ! i) (nx_tcp_socket_sack_right s ! i))
     [0 ..< min (nx_tcp_socket_sack_block_count s) 4]"

text \<open>In the uncertain state only the data in front of a frontier is recorded, which lies in the window or behind it.\<close>

definition sack_frontier_ok :: "nx_sack_socket \<Rightarrow> bool" where
  "sack_frontier_ok s \<longleftrightarrow>
     (let a = nx_tcp_socket_sack_high_ack s; w = seq_off a (sack_data_end s); f = nx_tcp_socket_sack_uncertain_start s
      in w < 2147483648 \<and> (nx_sack_uncertain s \<longrightarrow> seq_off a f \<le> w \<or> 0 < seq_off f a \<and> seq_off f a + w < 2147483648))"

lemma frontier_behind:
  assumes "0 < seq_off f a" "seq_off f a + w < 2147483648" "seq_off a x \<le> w"
  shows "seq_diff f x < 0" "w < seq_off a f" "0 < seq_diff x f"
proof -
  have x: "seq_off f x = seq_off f a + seq_off a x" using assms by (intro seq_off_add) linarith
  then show pos: "0 < seq_diff x f" using assms by (simp add: seq_diff_pos)
  have "seq_off f f < seq_off f x" "seq_off f f < seq_off f a" using x assms(1) by simp_all
  then have "seq_off x f = 4294967296 - seq_off f x" "seq_off a f = 4294967296 - seq_off f a"
    using seq_off_back [of f f x] seq_off_back [of f f a] by simp_all
  then show "seq_diff f x < 0" "w < seq_off a f"
    using assms x seq_off_less [of f x] by (auto simp: seq_diff_cases)
qed

lemma sack_block_clip_ok:
  assumes "sack_block_clip s left right = Some b" "sack_frontier_ok s"
  shows "block_ok (nx_tcp_socket_sack_high_ack s) (seq_off (nx_tcp_socket_sack_high_ack s) (sack_data_end s)) b"
proof -
  let ?a = "nx_tcp_socket_sack_high_ack s" and ?f = "nx_tcp_socket_sack_uncertain_start s"
  let ?w = "seq_off ?a (sack_data_end s)"
  have w: "?w < 2147483648" using assms(2) by (simp add: sack_frontier_ok_def Let_def)
  obtain r where r: "seq_diff left ?a > 0" "seq_diff r left > 0" "seq_diff (sack_data_end s) r \<ge> 0"
    "if nx_sack_uncertain s then seq_diff left ?f < 0 \<and> b = (left, if seq_diff r ?f > 0 then ?f else r) else b = (left, r)"
    using assms(1) by (auto simp: sack_block_clip_def Let_def not_le not_less split: if_splits)
  have ok: "block_ok ?a ?w (left, r)" using checked_block_ok [OF r(1-3) w] .
  show ?thesis
  proof (cases "nx_sack_uncertain s \<and> seq_diff r ?f > 0")
    case False
    then show ?thesis using ok r(4) by (auto split: if_splits)
  next
    case True
    then have b: "b = (left, ?f)" "seq_diff left ?f < 0" using r(4) by auto
    have l: "0 < seq_off ?a left" "seq_off ?a left < 2147483648" using r(1) by (simp_all add: seq_diff_pos)
    show ?thesis
    proof (cases "seq_off ?a ?f \<le> ?w")
      case in_window: True
      then have "seq_off ?a left < seq_off ?a ?f" using seq_diff_less [of ?a left ?f] l b(2) w by simp
      then show ?thesis using l in_window by (simp add: block_ok_def b(1))
    next
      case False
      then have "0 < seq_off ?f ?a" "seq_off ?f ?a + ?w < 2147483648"
        using assms(2) True by (auto simp: sack_frontier_ok_def Let_def)
      note behind = frontier_behind [OF this]
      then show ?thesis using l False by (simp add: block_ok_def b(1))
    qed
  qed
qed

definition blocks_descend :: "ulong \<Rightarrow> (ulong \<times> ulong) list \<Rightarrow> bool" where
  "blocks_descend a bs \<longleftrightarrow> (\<forall>b \<in> set bs. seq_off a (fst b) < 2147483648) \<and> sorted_wrt (\<lambda>b c. seq_off a (fst c) \<le> seq_off a (fst b)) bs"

lemma sack_block_insert_ok:
  "blocks_descend a bs \<Longrightarrow> seq_off a (fst b) < 2147483648 \<Longrightarrow>
     blocks_descend a (sack_block_insert b bs) \<and> mset (sack_block_insert b bs) = add_mset b (mset bs)"
proof (induction bs)
  case (Cons c bs)
  have c: "seq_off a (fst c) < 2147483648" "\<forall>d \<in> set bs. seq_off a (fst d) \<le> seq_off a (fst c)" "blocks_descend a bs"
    using Cons.prems(1) by (auto simp: blocks_descend_def)
  note ih = Cons.IH [OF c(3) Cons.prems(2)]
  then have "set (sack_block_insert b bs) = insert b (set bs)" using set_mset_mset [of "sack_block_insert b bs"] by auto
  then show ?case using ih c Cons.prems seq_diff_less [OF c(1) Cons.prems(2)] by (fastforce simp: blocks_descend_def)
qed (simp add: blocks_descend_def)

lemma sack_blocks_ok:
  assumes "sack_frontier_ok s"
  shows "blocks_ok (nx_tcp_socket_sack_high_ack s) (seq_off (nx_tcp_socket_sack_high_ack s) (sack_data_end s)) (sack_blocks s) \<and>
    mset (sack_blocks s) = mset (sack_clipped s)"
proof -
  let ?a = "nx_tcp_socket_sack_high_ack s"
  let ?clip = "\<lambda>i. sack_block_clip s (nx_tcp_socket_sack_left s ! i) (nx_tcp_socket_sack_right s ! i)"
  let ?ins = "\<lambda>i blocks. case ?clip i of None \<Rightarrow> blocks | Some b \<Rightarrow> sack_block_insert b blocks"
  note clip = sack_block_clip_ok [OF _ assms]
  have fold: "blocks_descend ?a bs \<Longrightarrow> blocks_descend ?a (fold ?ins is bs) \<and>
      mset (fold ?ins is bs) = mset bs + mset (List.map_filter ?clip is)" for bs "is"
  proof (induction "is" arbitrary: bs)
    case (Cons i js)
    show ?case
    proof (cases "?clip i")
      case (Some b)
      then have "seq_off ?a (fst b) < 2147483648" using clip by (simp add: block_ok_def)
      then show ?thesis using Cons Some sack_block_insert_ok [OF Cons.prems] by (simp add: List.map_filter_simps)
    qed (use Cons in \<open>simp add: List.map_filter_simps\<close>)
  qed (simp add: List.map_filter_simps)
  define bs where "bs = fold ?ins [0 ..< min (nx_tcp_socket_sack_block_count s) 4] []"
  have "blocks_descend ?a bs \<and> mset bs = mset (sack_clipped s)"
    using fold [of "[]" "[0 ..< min (nx_tcp_socket_sack_block_count s) 4]"] by (simp add: bs_def sack_clipped_def blocks_descend_def)
  moreover have "sack_blocks s = rev bs" by (simp add: sack_blocks_def bs_def)
  moreover have "\<forall>b \<in> set (sack_clipped s). block_ok ?a (seq_off ?a (sack_data_end s)) b"
    using clip by (auto simp: sack_clipped_def List.map_filter_def)
  then have "\<forall>b \<in> set bs. block_ok ?a (seq_off ?a (sack_data_end s)) b" using calculation(1) mset_eq_setD by blast
  ultimately show ?thesis by (auto simp: blocks_ok_def blocks_descend_def sorted_wrt_rev)
qed

text \<open>The bytes that the recorded blocks report, said with distances.\<close>

definition sack_block_bytes :: "nx_sack_socket \<Rightarrow> ulong \<Rightarrow> ulong \<Rightarrow> ulong set" where
  "sack_block_bytes s left right =
     (let a = nx_tcp_socket_sack_high_ack s; e = sack_data_end s;
          right = (if right = e + 1 \<and> right = nx_tcp_socket_tx_sequence s then e else right)
      in if 0 < seq_off a left \<and> seq_off a left < seq_off a right \<and> seq_off a right \<le> seq_off a e
         then {y \<in> seq_range left right. nx_sack_uncertain s \<longrightarrow> seq_diff y (nx_tcp_socket_sack_uncertain_start s) < 0}
         else {})"

definition sack_option_bytes :: "nx_sack_socket \<Rightarrow> ulong set" where
  "sack_option_bytes s = (\<Union>i < min (nx_tcp_socket_sack_block_count s) 4.
     sack_block_bytes s (nx_tcp_socket_sack_left s ! i) (nx_tcp_socket_sack_right s ! i))"

lemma sack_block_bytes_clip:
  assumes "sack_frontier_ok s"
  defines "a \<equiv> nx_tcp_socket_sack_high_ack s"
  shows "sack_block_bytes s left right =
    (case sack_block_clip s left right of None \<Rightarrow> {} | Some b \<Rightarrow> block_cover a (seq_off a (sack_data_end s)) b)"
proof -
  let ?e = "sack_data_end s" and ?f = "nx_tcp_socket_sack_uncertain_start s"
  let ?w = "seq_off a ?e"
  define r where "r = (if right = ?e + 1 \<and> right = nx_tcp_socket_tx_sequence s then ?e else right)"
  have w: "?w < 2147483648" using assms(1) by (simp add: sack_frontier_ok_def Let_def a_def)
  have bytes: "sack_block_bytes s left right = (if 0 < seq_off a left \<and> seq_off a left < seq_off a r \<and> seq_off a r \<le> ?w
      then {y \<in> seq_range left r. nx_sack_uncertain s \<longrightarrow> seq_diff y ?f < 0} else {})"
    by (simp add: sack_block_bytes_def a_def r_def Let_def)
  have clip: "sack_block_clip s left right =
     (if seq_diff left a \<le> 0 \<or> seq_diff r left \<le> 0 \<or> seq_diff ?e r < 0 then None
      else if nx_sack_uncertain s then
        if seq_diff left ?f \<ge> 0 then None else if seq_diff r ?f > 0 then Some (left, ?f) else Some (left, r)
      else Some (left, r))"
    by (simp add: sack_block_clip_def a_def r_def Let_def)
  have front: "nx_sack_uncertain s \<longrightarrow> seq_off a ?f \<le> ?w \<or> 0 < seq_off ?f a \<and> seq_off ?f a + ?w < 2147483648"
    using assms(1) by (simp add: sack_frontier_ok_def Let_def a_def)
  show ?thesis
  proof (cases "0 < seq_off a left \<and> seq_off a left < seq_off a r \<and> seq_off a r \<le> ?w")
    case True
    have half: "seq_off a left < 2147483648" "seq_off a r < 2147483648" using True w by linarith+
    have pass: "\<not> (seq_diff left a \<le> 0 \<or> seq_diff r left \<le> 0 \<or> seq_diff ?e r < 0)"
      using seq_diff_less [of a left a] seq_diff_less [of a r left] seq_diff_less [of a ?e r] half w True by simp
    have range: "y \<in> seq_range left x \<longleftrightarrow> seq_off a left \<le> seq_off a y \<and> seq_off a y < seq_off a x" if "seq_off a left < seq_off a x" for x y
      using that by (intro seq_range_off) simp
    consider "\<not> nx_sack_uncertain s" | "nx_sack_uncertain s" "seq_off a ?f \<le> ?w"
      | "nx_sack_uncertain s" "0 < seq_off ?f a" "seq_off ?f a + ?w < 2147483648" using front by fastforce
    then show ?thesis
    proof cases
      case 1
      then show ?thesis using True pass by (simp add: bytes clip block_cover_def)
    next
      case 2
      have f: "seq_diff y ?f < 0 \<longleftrightarrow> seq_off a y < seq_off a ?f" "seq_diff y ?f \<ge> 0 \<longleftrightarrow> seq_off a ?f \<le> seq_off a y"
        "seq_diff y ?f > 0 \<longleftrightarrow> seq_off a ?f < seq_off a y" if "seq_off a y < 2147483648" for y
        using seq_diff_less [of a y ?f] that 2(2) w by auto
      note fl = f [OF half(1)] and fr = f [OF half(2)]
      have fy: "seq_diff y ?f < 0 \<longleftrightarrow> seq_off a y < seq_off a ?f" if "seq_off a y < seq_off a r" for y using f(1) [of y] that half(2) by simp
      show ?thesis
      proof (cases "seq_off a left < seq_off a ?f")
        case False
        then show ?thesis using True pass 2 fl fy range [of r] by (auto simp: bytes clip)
      next
        case before: True
        then show ?thesis using True pass 2 fl fr fy range [of r] range [of ?f] by (auto simp: bytes clip block_cover_def)
      qed
    next
      case 3
      have "0 < seq_diff y ?f" if "seq_off a y \<le> ?w" for y using frontier_behind [OF 3(2,3) that] by blast
      then have "\<not> seq_diff y ?f < 0" "\<not> seq_diff left ?f < 0" if "y \<in> seq_range left r" for y
        using range [of r y] True that half w by (smt (verit) less_imp_le_nat order_less_le_trans)+
      then show ?thesis using True pass 3(1) frontier_behind(3) [OF 3(2,3), of left] by (auto simp: bytes clip)
    qed
  next
    case False
    have "block_cover a ?w b = {}" if b: "sack_block_clip s left right = Some b" for b
    proof -
      have checks: "seq_diff left a > 0" "seq_diff r left > 0" "seq_diff ?e r \<ge> 0" using b by (auto simp: clip split: if_splits)
      have ok: "block_ok a ?w (left, r)" using checked_block_ok [OF checks w] .
      then have far: "w' < seq_off a r" if "w' = ?w" for w' using False that by (auto simp: block_ok_def)
      show ?thesis
      proof (cases "b = (left, r)")
        case True
        then show ?thesis using far by (simp add: block_cover_def)
      next
        case False
        then have u: "nx_sack_uncertain s" "b = (left, ?f)" "seq_diff r ?f > 0" using b by (auto simp: clip split: if_splits)
        then have "\<not> seq_off a ?f \<le> ?w" using ok far by (fastforce simp: block_ok_def)
        then show ?thesis using u(2) by (simp add: block_cover_def)
      qed
    qed
    then show ?thesis using False by (auto simp: bytes split: option.split)
  qed
qed

lemma sack_blocks_cover:
  assumes "sack_frontier_ok s"
  defines "a \<equiv> nx_tcp_socket_sack_high_ack s"
  shows "blocks_cover a (seq_off a (sack_data_end s)) (sack_blocks s) = sack_option_bytes s"
proof -
  let ?clip = "\<lambda>i. sack_block_clip s (nx_tcp_socket_sack_left s ! i) (nx_tcp_socket_sack_right s ! i)"
  let ?w = "seq_off a (sack_data_end s)" and ?n = "min (nx_tcp_socket_sack_block_count s) 4"
  have set: "set (sack_blocks s) = set (sack_clipped s)" using sack_blocks_ok [OF assms(1)] mset_eq_setD by blast
  have "set (List.map_filter g is) = {b. \<exists>i \<in> set is. g i = Some b}" for g :: "nat \<Rightarrow> (ulong \<times> ulong) option" and "is"
    by (induction "is") (auto simp: List.map_filter_simps split: option.splits)
  then have "set (sack_clipped s) = {b. \<exists>i < ?n. ?clip i = Some b}" by (auto simp: sack_clipped_def)
  then have "y \<in> blocks_cover a ?w (sack_blocks s) \<longleftrightarrow> (\<exists>i < ?n. \<exists>b. ?clip i = Some b \<and> y \<in> block_cover a ?w b)" for y
    unfolding blocks_cover_def set by auto
  moreover have option: "y \<in> (case x of None \<Rightarrow> {} | Some b \<Rightarrow> g b) \<longleftrightarrow> (\<exists>b. x = Some b \<and> y \<in> g b)" for y and x and g :: "ulong \<times> ulong \<Rightarrow> ulong set"
    by (cases x) simp_all
  have "y \<in> sack_option_bytes s \<longleftrightarrow> (\<exists>i < ?n. \<exists>b. ?clip i = Some b \<and> y \<in> block_cover a ?w b)" for y
    unfolding sack_option_bytes_def a_def sack_block_bytes_clip [OF assms(1)] UN_iff option by blast
  ultimately show ?thesis by blast
qed

section \<open>Subtraction\<close>

definition hole_range :: "nx_sack_hole \<Rightarrow> ulong \<times> ulong" where
  "hole_range h = (sack_hole_left h, sack_hole_right h)"

abbreviation holes_ranges :: "nx_sack_hole list \<Rightarrow> (ulong \<times> ulong) list" where
  "holes_ranges hs \<equiv> map hole_range hs"

definition append_list :: "ulong \<Rightarrow> ulong \<Rightarrow> ulong \<Rightarrow> nx_sack_hole list" where
  "append_list left right rxmit = sack_scratch_append left right rxmit []"

fun subtract_list :: "ulong \<Rightarrow> ulong \<Rightarrow> ulong \<Rightarrow> (ulong \<times> ulong) list \<Rightarrow> nx_sack_hole list" where
  "subtract_list left right rxmit [] = append_list left right rxmit"
| "subtract_list left right rxmit (b # blocks) =
     (if \<not> seq_diff right left > 0 then append_list left right rxmit
      else if seq_diff (snd b) left \<le> 0 then subtract_list left right rxmit blocks
      else if seq_diff (fst b) right \<ge> 0 then append_list left right rxmit
      else if seq_diff (fst b) left > 0 then append_list left (fst b) rxmit @ subtract_list (snd b) right rxmit blocks
      else subtract_list (snd b) right rxmit blocks)"

lemma append_list_empty: "\<not> 0 < seq_diff r l \<Longrightarrow> append_list l r x = []"
  by (simp add: append_list_def sack_scratch_append_def)

lemma subtract_list_empty: "\<not> 0 < seq_diff r l \<Longrightarrow> subtract_list l r x bs = []"
  by (cases bs) (simp_all add: append_list_empty)

lemma append_list_range: "0 < seq_diff r l \<Longrightarrow> holes_ranges (append_list l r x) = [(l, r)]"
  by (simp add: append_list_def sack_scratch_append_def hole_range_def)

text \<open>Within the window the subtraction is the difference of sets.\<close>

lemma block_ahead:
  assumes "block_ok a w b" "seq_off a l \<le> w" "w < 2147483648" "0 < seq_diff (snd b) l"
  shows "seq_off a (snd b) \<le> w \<and> seq_off a (fst b) < seq_off a (snd b) \<and> seq_off a l < seq_off a (snd b)"
proof -
  have inside: "seq_off a (snd b) \<le> w" using assms by (fastforce simp: block_ok_def)
  then show ?thesis using assms seq_diff_less [of a "snd b" l] by (simp add: block_ok_def)
qed

lemma block_behind:
  assumes "block_ok a w b" "seq_off a l \<le> w" "w < 2147483648" "\<not> 0 < seq_diff (snd b) l"
  shows "x \<in> block_cover a w b \<Longrightarrow> seq_off a x < seq_off a l"
  using assms seq_diff_less [of a "snd b" l] block_cover_off [OF assms(1), of x] by fastforce

lemma blocks_cover_after:
  assumes "blocks_ok a w bs" "\<forall>b \<in> set bs. n \<le> seq_off a (fst b)" "x \<in> blocks_cover a w bs"
  shows "n \<le> seq_off a x"
  using assms block_cover_off [of a w _ x] by (fastforce simp: blocks_cover_def blocks_ok_def)

lemma subtract_list_ok:
  assumes "blocks_ok a w bs" "seq_off a l \<le> w" "seq_off a r \<le> w" "w < 2147483648"
  shows "ranges_ok a (seq_off a l) (seq_off a r) (holes_ranges (subtract_list l r x bs)) \<and>
    (\<forall>y. y \<in> ranges_set (holes_ranges (subtract_list l r x bs)) \<longleftrightarrow>
       seq_off a l \<le> seq_off a y \<and> seq_off a y < seq_off a r \<and> y \<notin> blocks_cover a w bs)"
  using assms(1-3)
proof (induction l r x bs rule: subtract_list.induct)
  case (1 l r x)
  have l: "seq_off a l < 2147483648" and r: "seq_off a r < 2147483648" using 1 assms(4) by linarith+
  note lr = seq_diff_less [OF r l]
  show ?case
  proof (cases "0 < seq_diff r l")
    case True
    then have "seq_off a l < seq_off a r" using lr by simp
    then show ?thesis using True seq_range_off [of a l r] by (simp add: append_list_range ranges_ok_def)
  next
    case False
    then have "seq_off a r \<le> seq_off a l" using lr by simp
    then show ?thesis using False by (simp add: append_list_empty)
  qed
next
  case (2 l r x b bs)
  have b: "block_ok a w b" "\<forall>c \<in> set bs. seq_off a (fst b) \<le> seq_off a (fst c)" "blocks_ok a w bs" using "2.prems"(1) by simp_all
  have l: "seq_off a l < 2147483648" and r: "seq_off a r < 2147483648" and f: "seq_off a (fst b) < 2147483648"
    using "2.prems"(2,3) assms(4) b(1) by (simp_all add: block_ok_def)
  note lr = seq_diff_less [OF r l] and fr = seq_diff_less [OF f r] and fl = seq_diff_less [OF f l]
  show ?case
  proof (cases "0 < seq_diff r l")
    case False
    then have "seq_off a r \<le> seq_off a l" using lr by simp
    then show ?thesis using False by (simp add: append_list_empty)
  next
    case True
    then have less: "seq_off a l < seq_off a r" using lr by simp
    show ?thesis
    proof (cases "0 < seq_diff (snd b) l")
      case False
      then have step: "subtract_list l r x (b # bs) = subtract_list l r x bs" using True by simp
      have "y \<notin> block_cover a w b" if "seq_off a l \<le> seq_off a y" for y
        using block_behind [OF b(1) "2.prems"(2) assms(4) False, of y] that by fastforce
      then show ?thesis using "2.IH"(1) [OF _ _ b(3) "2.prems"(2,3)] True False unfolding step by auto
    next
      case ahead: True
      note in_b = block_ahead [OF b(1) "2.prems"(2) assms(4) ahead]
      have cover: "y \<in> block_cover a w b \<longleftrightarrow> seq_off a (fst b) \<le> seq_off a y \<and> seq_off a y < seq_off a (snd b)" for y
        using block_cover_off [OF b(1)] in_b by simp
      show ?thesis
      proof (cases "0 \<le> seq_diff (fst b) r")
        case True
        then have beyond: "seq_off a r \<le> seq_off a (fst b)" using fr by simp
        have "y \<notin> blocks_cover a w (b # bs)" if "seq_off a y < seq_off a r" for y
          using blocks_cover_after [OF "2.prems"(1), of "seq_off a (fst b)" y] b(2) that beyond by fastforce
        then show ?thesis using True ahead \<open>0 < seq_diff r l\<close> less seq_range_off [of a l r]
          by (auto simp: append_list_range ranges_ok_def)
      next
        case before: False
        have ih: "ranges_ok a (seq_off a (snd b)) (seq_off a r) (holes_ranges (subtract_list (snd b) r x bs))"
          "y \<in> ranges_set (holes_ranges (subtract_list (snd b) r x bs)) \<longleftrightarrow>
             seq_off a (snd b) \<le> seq_off a y \<and> seq_off a y < seq_off a r \<and> y \<notin> blocks_cover a w bs" for y
        proof -
          have "ranges_ok a (seq_off a (snd b)) (seq_off a r) (holes_ranges (subtract_list (snd b) r x bs)) \<and>
            (\<forall>y. y \<in> ranges_set (holes_ranges (subtract_list (snd b) r x bs)) \<longleftrightarrow>
               seq_off a (snd b) \<le> seq_off a y \<and> seq_off a y < seq_off a r \<and> y \<notin> blocks_cover a w bs)"
            using "2.IH"(2,3) True ahead before b(3) in_b "2.prems"(3) by (cases "0 < seq_diff (fst b) l") auto
          then show "ranges_ok a (seq_off a (snd b)) (seq_off a r) (holes_ranges (subtract_list (snd b) r x bs))"
            "y \<in> ranges_set (holes_ranges (subtract_list (snd b) r x bs)) \<longleftrightarrow>
             seq_off a (snd b) \<le> seq_off a y \<and> seq_off a y < seq_off a r \<and> y \<notin> blocks_cover a w bs" by blast+
        qed
        have rest: "n \<le> seq_off a y" if "y \<in> blocks_cover a w bs" "n \<le> seq_off a (fst b)" for y n
          using blocks_cover_after [OF b(3), of n y] b(2) that by (auto intro: le_trans)
        show ?thesis
        proof (cases "0 < seq_diff (fst b) l")
          case True
          then have gap: "seq_off a l < seq_off a (fst b)" using fl by simp
          have step: "holes_ranges (subtract_list l r x (b # bs)) = (l, fst b) # holes_ranges (subtract_list (snd b) r x bs)"
            using True ahead before \<open>0 < seq_diff r l\<close> by (simp add: append_list_range)
          have ok: "ranges_ok a (seq_off a l) (seq_off a r) ((l, fst b) # holes_ranges (subtract_list (snd b) r x bs))"
            using ih(1) gap in_b before fr by (intro ranges_ok_Cons ranges_ok_mono [OF ih(1)]) auto
          moreover have "y \<in> seq_range l (fst b) \<longleftrightarrow> seq_off a l \<le> seq_off a y \<and> seq_off a y < seq_off a (fst b)" for y
            using gap by (intro seq_range_off) simp
          ultimately show ?thesis unfolding step using ih(2) gap in_b rest [OF _ order_refl] cover before fr
            by fastforce
        next
          case False
          then have "seq_off a (fst b) \<le> seq_off a l" using fl by simp
          moreover have step: "subtract_list l r x (b # bs) = subtract_list (snd b) r x bs"
            using False ahead before \<open>0 < seq_diff r l\<close> by simp
          ultimately show ?thesis unfolding step using ih ranges_ok_mono [OF ih(1)] in_b cover
            by (auto simp: not_less)
        qed
      qed
    qed
  qed
qed

end
