(* ===== verification/Nx_Sack_Rebuild.thy ===== *)
theory Nx_Sack_Rebuild imports Nx_Sack_Slots Nx_Sack_Subtract begin

text \<open>
  The rebuilding of the inactive bank computes the list of holes that the list functions give, and
  leaves the active bank as it was; it fails exactly when that list does not fit.
\<close>

section \<open>Writing the inactive bank\<close>

abbreviation sack_holds :: "nx_mem \<Rightarrow> nx_sack_socket \<Rightarrow> sack_slots \<Rightarrow> nat \<Rightarrow> nx_sack_hole list \<Rightarrow> bool" where
  "sack_holds m s \<equiv> sack.holds (m, s)"

definition sack_written ::
    "nx_mem \<Rightarrow> nx_sack_socket \<Rightarrow> nat \<Rightarrow> nx_sack_hole list \<Rightarrow> sack_slots \<times> nat \<Rightarrow> nx_sack_hole list \<Rightarrow> bool" where
  "sack_written m s b active x L \<longleftrightarrow>
     sack_holds m s (fst x) (1 - b) active \<and>
     (if length L \<le> nx_tcp_socket_sack_hole_capacity s then snd x = length L \<and> sack_holds m s (fst x) b L
      else snd x = nx_tcp_socket_sack_hole_capacity s + 1)"

lemma sack_written_fits: "sack_written m s b active x L \<Longrightarrow>
    nx_tcp_socket_sack_hole_capacity s < snd x \<longleftrightarrow> nx_tcp_socket_sack_hole_capacity s < length L"
  by (auto simp: sack_written_def split: if_splits)

lemma sack_written_overflow: "sack_written m s b active x L \<Longrightarrow> nx_tcp_socket_sack_hole_capacity s < length L \<Longrightarrow>
    sack_written m s b active x (L @ M)"
  by (auto simp: sack_written_def split: if_splits)

lemma sack_append_written:
  assumes ok: "sack_pages m s ps" and b: "b < 2" and x: "sack_written m s b active x L"
    and fits: "length L \<le> nx_tcp_socket_sack_hole_capacity s"
  shows "\<exists>y. sack_append m s b (nx_tcp_socket_sack_hole_capacity s) left right rxmit x = Some y \<and>
    sack_written m s b active y (L @ append_list left right rxmit)"
proof -
  obtain hs count where hs: "x = (hs, count)" by fastforce
  have count: "count = length L" "sack_holds m s hs b L" "sack_holds m s hs (1 - b) active"
    using x fits by (auto simp: sack_written_def hs)
  have ok': "sack_ok (m, s)" using ok by auto
  show ?thesis
  proof (cases "0 < seq_diff right left")
    case False
    then show ?thesis using x by (simp add: append_list_empty sack_append_def hs)
  next
    case True
    define h where "h = \<lparr>sack_hole_left = left, sack_hole_right = right, sack_hole_rxmit = sack_rxmit_clamp left right rxmit\<rparr>"
    have app: "append_list left right rxmit = [h]" using True by (simp add: append_list_def sack_scratch_append_def h_def)
    show ?thesis
    proof (cases "count = nx_tcp_socket_sack_hole_capacity s")
      case full: True
      then show ?thesis using True count by (auto simp: sack_append_def hs app sack_written_def)
    next
      case False
      then have less: "length L < nx_tcp_socket_sack_hole_capacity s" using fits count by simp
      then obtain a where a: "sack_hole m s b (length L) = Some a" using sack.slot_exists [OF ok' b, of "length L"] by auto
      have "sack_holds m s (hs(a \<mapsto> h)) b (L @ [h])"
        using sack.holds_snoc [OF ok' b _ _ count(2), of a h] a less by simp
      moreover have "sack_holds m s (hs(a \<mapsto> h)) (1 - b) active"
        using b a less by (intro sack.holds_write_other [OF ok' b _ _ _ _ count(3), of "length L"]) (auto, presburger)
      ultimately show ?thesis using True False less a count(1) by (simp add: sack_append_def hs app sack_written_def flip: h_def)
    qed
  qed
qed

lemma sack_subtract_written:
  assumes ok: "sack_pages m s ps" and b: "b < 2" and x: "sack_written m s b active x L"
    and fits: "length L \<le> nx_tcp_socket_sack_hole_capacity s"
  shows "\<exists>y. sack_subtract m s b (nx_tcp_socket_sack_hole_capacity s) left right rxmit blocks x = Some y \<and>
    sack_written m s b active y (L @ subtract_list left right rxmit blocks)"
  using x fits
proof (induction blocks arbitrary: left x L)
  case Nil
  then show ?case using sack_append_written [OF ok b] by simp
next
  case (Cons c blocks)
  note app = sack_append_written [OF ok b Cons.prems]
  consider "\<not> 0 < seq_diff right left" | "0 < seq_diff right left" "seq_diff (snd c) left \<le> 0"
    | "0 < seq_diff right left" "\<not> seq_diff (snd c) left \<le> 0" "0 \<le> seq_diff (fst c) right"
    | "0 < seq_diff right left" "\<not> seq_diff (snd c) left \<le> 0" "\<not> 0 \<le> seq_diff (fst c) right" "\<not> 0 < seq_diff (fst c) left"
    | "0 < seq_diff right left" "\<not> seq_diff (snd c) left \<le> 0" "\<not> 0 \<le> seq_diff (fst c) right" "0 < seq_diff (fst c) left"
    by linarith
  then show ?case
  proof cases
    case 5
    obtain y where y: "sack_append m s b (nx_tcp_socket_sack_hole_capacity s) left (fst c) rxmit x = Some y"
      "sack_written m s b active y (L @ append_list left (fst c) rxmit)" using app by blast
    show ?thesis
    proof (cases "nx_tcp_socket_sack_hole_capacity s < length (L @ append_list left (fst c) rxmit)")
      case True
      then show ?thesis using 5 y sack_written_fits [OF y(2)] sack_written_overflow [OF y(2) True, of "subtract_list (snd c) right rxmit blocks"]
        by simp
    next
      case False
      then show ?thesis using 5 y(1) sack_written_fits [OF y(2)] Cons.IH [OF y(2), of "snd c"] by simp
    qed
  qed (use app Cons.IH [OF Cons.prems] in simp_all)
qed

section \<open>All holes\<close>

definition subtract_hole :: "ulong \<Rightarrow> (ulong \<times> ulong) list \<Rightarrow> nx_sack_hole \<Rightarrow> nx_sack_hole list" where
  "subtract_hole ack blocks h =
     subtract_list (if seq_diff ack (sack_hole_left h) > 0 then ack else sack_hole_left h) (sack_hole_right h) (sack_hole_rxmit h) blocks"

definition rebuild_list :: "ulong \<Rightarrow> (ulong \<times> ulong) list \<Rightarrow> ulong \<Rightarrow> bool \<Rightarrow> ulong \<Rightarrow> nx_sack_hole list \<Rightarrow> nx_sack_hole list" where
  "rebuild_list ack blocks fack discard old_fack holes =
     (if discard then subtract_list ack fack ack blocks
      else concat (map (subtract_hole ack blocks) holes) @
        (let old = (if seq_diff ack old_fack > 0 then ack else old_fack) in subtract_list old fack old blocks))"

lemma sack_rebuild_holes_written:
  assumes ok: "sack_pages m s ps" and b: "b < 2" and x: "sack_written m s (1 - b) active x L"
    and fits: "length L \<le> nx_tcp_socket_sack_hole_capacity s" and "\<forall>i \<in> set is. i < length active"
  shows "\<exists>y. sack_rebuild_holes m s b (nx_tcp_socket_sack_hole_capacity s) blocks is x = Some y \<and>
    sack_written m s (1 - b) active y
      (L @ concat (map (\<lambda>i. subtract_hole (nx_tcp_socket_sack_high_ack s) blocks (active ! i)) is))"
  using x fits assms(5)
proof (induction "is" arbitrary: x L)
  case (Cons i js)
  let ?h = "active ! i"
  let ?sub = "subtract_hole (nx_tcp_socket_sack_high_ack s) blocks ?h"
  have b': "1 - b < 2" "1 - (1 - b) = b" using b by auto
  have "sack_holds m s (fst x) b active" using Cons.prems(1) b' by (simp add: sack_written_def)
  then obtain a where a: "sack_hole m s b i = Some a" "fst x a = Some ?h"
    using sack.holds_nth [of "(m, s)" "fst x" b active i] Cons.prems(3) by auto
  obtain y where y: "sack_subtract m s (1 - b) (nx_tcp_socket_sack_hole_capacity s)
      (if seq_diff (nx_tcp_socket_sack_high_ack s) (sack_hole_left ?h) > 0 then nx_tcp_socket_sack_high_ack s else sack_hole_left ?h)
      (sack_hole_right ?h) (sack_hole_rxmit ?h) blocks x = Some y" "sack_written m s (1 - b) active y (L @ ?sub)"
    using sack_subtract_written [OF ok b'(1) Cons.prems(1,2)] unfolding subtract_hole_def by blast
  note step = a y(1) sack_written_fits [OF y(2)]
  show ?case
  proof (cases "nx_tcp_socket_sack_hole_capacity s < length (L @ ?sub)")
    case True
    then show ?thesis using step sack_written_overflow [OF y(2) True] by (simp add: Let_def)
  next
    case False
    then show ?thesis using step Cons.IH [OF y(2)] Cons.prems(3) by (simp add: Let_def)
  qed
qed simp

lemma sack_hole_update [simp]:
  "sack_hole m (s\<lparr>nx_tcp_socket_sack_hole_count := n\<rparr>) = sack_hole m s"
  "sack_hole m (s\<lparr>nx_tcp_socket_sack_fack := f\<rparr>) = sack_hole m s"
  "sack_hole m (s\<lparr>nx_sack_bank := b\<rparr>) = sack_hole m s"
  by (simp_all add: sack_hole_def fun_eq_iff)

text \<open>The active bank with its holes.\<close>

definition sack_board :: "nx_mem \<Rightarrow> sack_slots \<Rightarrow> nx_sack_socket \<Rightarrow> nx_sack_hole list \<Rightarrow> bool" where
  "sack_board m hs s holes \<longleftrightarrow> (\<exists>ps. sack_pages m s ps) \<and> nx_sack_bank s < 2 \<and>
     nx_tcp_socket_sack_hole_count s = length holes \<and> sack_holds m s hs (nx_sack_bank s) holes"

lemma sack_rebuild_refines:
  assumes "sack_board m hs s holes"
    and L_def: "L = rebuild_list (nx_tcp_socket_sack_high_ack s) blocks fack discard (nx_tcp_socket_sack_fack s) holes"
  shows "\<exists>hs'. (if length L \<le> nx_tcp_socket_sack_hole_capacity s
     then \<exists>s'. sack_rebuild m blocks fack discard hs s = Some (True, hs', s') \<and> sack_board m hs' s' L \<and>
       s' = s\<lparr>nx_tcp_socket_sack_hole_count := length L, nx_tcp_socket_sack_fack := fack, nx_sack_bank := 1 - nx_sack_bank s\<rparr>
     else sack_rebuild m blocks fack discard hs s = Some (False, hs', s) \<and> sack_board m hs' s holes)"
proof -
  let ?b = "nx_sack_bank s" and ?cap = "nx_tcp_socket_sack_hole_capacity s" and ?ack = "nx_tcp_socket_sack_high_ack s"
  obtain ps where ok: "sack_pages m s ps" and b: "?b < 2" and count: "nx_tcp_socket_sack_hole_count s = length holes"
    and holes: "sack_holds m s hs ?b holes" using assms(1) by (auto simp: sack_board_def)
  have b': "1 - ?b < 2" "1 - (1 - ?b) = ?b" using b by auto
  have start: "sack_written m s (1 - ?b) holes (hs, 0) []"
    using holes b' by (simp add: sack_written_def sack.holds_Nil)
  define old where "old = (if seq_diff ?ack (nx_tcp_socket_sack_fack s) > 0 then ?ack else nx_tcp_socket_sack_fack s)"
  have "\<exists>x. (if discard then sack_subtract m s (1 - ?b) ?cap ?ack fack ?ack blocks (hs, 0)
           else do {
             x \<leftarrow> sack_rebuild_holes m s ?b ?cap blocks [0 ..< nx_tcp_socket_sack_hole_count s] (hs, 0);
             if ?cap < snd x then Some x else sack_subtract m s (1 - ?b) ?cap old fack old blocks x
           }) = Some x \<and> sack_written m s (1 - ?b) holes x L"
  proof (cases discard)
    case True
    then show ?thesis using sack_subtract_written [OF ok b'(1) start] by (simp add: L_def rebuild_list_def)
  next
    case False
    let ?M = "concat (map (subtract_hole ?ack blocks) holes)"
    have "map (\<lambda>i. subtract_hole ?ack blocks (holes ! i)) [0 ..< length holes] = map (subtract_hole ?ack blocks) holes"
      by (rule nth_equalityI) simp_all
    then obtain x where x: "sack_rebuild_holes m s ?b ?cap blocks [0 ..< length holes] (hs, 0) = Some x"
      "sack_written m s (1 - ?b) holes x ?M"
      using sack_rebuild_holes_written [OF ok b start, of "[0 ..< length holes]" blocks] by auto
    have L: "L = ?M @ subtract_list old fack old blocks" using False by (simp add: L_def rebuild_list_def old_def Let_def)
    show ?thesis
    proof (cases "?cap < length ?M")
      case True
      then show ?thesis using False x count sack_written_fits [OF x(2)] sack_written_overflow [OF x(2) True] L by simp
    next
      case fits: False
      then show ?thesis using False x count sack_written_fits [OF x(2)] sack_subtract_written [OF ok b'(1) x(2)] L by simp
    qed
  qed
  then obtain x where x: "(if discard then sack_subtract m s (1 - ?b) ?cap ?ack fack ?ack blocks (hs, 0)
           else do {
             x \<leftarrow> sack_rebuild_holes m s ?b ?cap blocks [0 ..< nx_tcp_socket_sack_hole_count s] (hs, 0);
             if ?cap < snd x then Some x else sack_subtract m s (1 - ?b) ?cap old fack old blocks x
           }) = Some x" "sack_written m s (1 - ?b) holes x L" by blast
  have run: "sack_rebuild m blocks fack discard hs s = (if ?cap < snd x then Some (False, fst x, s)
     else Some (True, fst x, s\<lparr>nx_tcp_socket_sack_hole_count := snd x, nx_tcp_socket_sack_fack := fack, nx_sack_bank := 1 - ?b\<rparr>))"
    unfolding sack_rebuild_def Let_def old_def [symmetric] x(1) by simp
  show ?thesis
  proof (cases "length L \<le> ?cap")
    case True
    then have "snd x = length L" "sack_holds m s (fst x) (1 - ?b) L" using x(2) by (auto simp: sack_written_def)
    moreover have "sack_pages m (s\<lparr>nx_tcp_socket_sack_hole_count := length L, nx_tcp_socket_sack_fack := fack, nx_sack_bank := 1 - ?b\<rparr>) ps"
      using ok by (simp add: sack_pages_def)
    ultimately show ?thesis using True run b'(1) by (intro exI [of _ "fst x"]) (auto simp: sack_board_def sack.holds_def)
  next
    case False
    then have "?cap < snd x" "sack_holds m s (fst x) ?b holes" using x(2) b' by (auto simp: sack_written_def)
    then show ?thesis using False run ok b count by (intro exI [of _ "fst x"]) (auto simp: sack_board_def)
  qed
qed

end
