(* ===== verification/Nx_Sack_Evidence.thy ===== *)
theory Nx_Sack_Evidence imports Nx_Sack_Rebuild begin

text \<open>
  What the scoreboard means: the set of the sequence numbers between the acknowledgment and the
  highest reported byte that lie in no hole. An update removes what the acknowledgment covers
  and adds what the blocks report.
\<close>

section \<open>The meaning of a list of holes\<close>

text \<open>The mark of what was sent again lies in its hole.\<close>

definition hole_marked :: "nx_sack_hole \<Rightarrow> bool" where
  "hole_marked h \<longleftrightarrow> seq_off (sack_hole_left h) (sack_hole_rxmit h) \<le> seq_off (sack_hole_left h) (sack_hole_right h)"

definition holes_ok :: "ulong \<Rightarrow> ulong \<Rightarrow> nx_sack_hole list \<Rightarrow> bool" where
  "holes_ok ack fack holes \<longleftrightarrow> ranges_ok ack 0 (seq_off ack fack) (holes_ranges holes) \<and> (\<forall>h \<in> set holes. hole_marked h)"

lemma holes_ok_ranges: "holes_ok ack fack holes \<Longrightarrow> ranges_ok ack 0 (seq_off ack fack) (holes_ranges holes)"
  by (simp add: holes_ok_def)

lemma sack_rxmit_clamp_marked:
  assumes "0 < seq_diff r l"
  shows "seq_off l (sack_rxmit_clamp l r x) \<le> seq_off l r"
proof -
  have r: "seq_off l r < 2147483648" using assms by (simp add: seq_diff_pos)
  show ?thesis
  proof (cases "seq_diff x l < 0")
    case True
    then show ?thesis using assms by (simp add: sack_rxmit_clamp_def)
  next
    case False
    then have x: "seq_off l x < 2147483648" using seq_diff_nonneg [of x l] by simp
    then show ?thesis using False seq_diff_less [of l x r] r by (simp add: sack_rxmit_clamp_def)
  qed
qed

lemma append_list_marked: "h \<in> set (append_list l r x) \<Longrightarrow> hole_marked h"
  by (auto simp: append_list_def sack_scratch_append_def hole_marked_def sack_rxmit_clamp_marked not_le split: if_splits)

lemma subtract_list_marked: "h \<in> set (subtract_list l r x bs) \<Longrightarrow> hole_marked h"
  by (induction l r x bs rule: subtract_list.induct) (auto simp: append_list_marked split: if_splits)

lemma rebuild_list_marked: "h \<in> set (rebuild_list a bs fack discard old holes) \<Longrightarrow> hole_marked h"
  by (auto simp: rebuild_list_def Let_def subtract_hole_def subtract_list_marked split: if_splits)

definition sack_evidence :: "ulong \<Rightarrow> ulong \<Rightarrow> nx_sack_hole list \<Rightarrow> ulong set" where
  "sack_evidence ack fack holes = seq_range ack fack - ranges_set (holes_ranges holes)"

lemma sack_evidence_off: "y \<in> sack_evidence ack fack holes \<longleftrightarrow> seq_off ack y < seq_off ack fack \<and> y \<notin> ranges_set (holes_ranges holes)"
  by (simp add: sack_evidence_def seq_range_def)

lemma hole_range_simps [simp]: "fst (hole_range h) = sack_hole_left h" "snd (hole_range h) = sack_hole_right h"
  by (simp_all add: hole_range_def)

text \<open>A change of the base.\<close>

lemma seq_off_rebase:
  assumes "seq_off u a < 2147483648" "seq_off u x < 2147483648"
  shows "seq_off u a \<le> seq_off u x \<Longrightarrow> seq_off a x = seq_off u x - seq_off u a"
    and "seq_off u x < seq_off u a \<Longrightarrow> 2147483648 \<le> seq_off a x"
  using assms seq_off_diff [of u a x] seq_off_back [of u x a] by auto

text \<open>The points of the window in front of a base.\<close>

lemma seq_off_forward: "seq_off a y + seq_off u a < 4294967296 \<Longrightarrow> seq_off u y = seq_off u a + seq_off a y"
  using seq_off_add [of u a y] by simp

section \<open>One hole\<close>

lemma subtract_hole_ok:
  assumes W: "W < 2147483648" "seq_off u a \<le> W" and h: "seq_off u (sack_hole_left h) < seq_off u (sack_hole_right h)"
      "seq_off u (sack_hole_right h) \<le> W"
    and bs: "blocks_ok a (W - seq_off u a) bs"
  shows "ranges_ok a (seq_off u (sack_hole_left h) - seq_off u a) (seq_off u (sack_hole_right h) - seq_off u a)
      (holes_ranges (subtract_hole a bs h)) \<and>
    (\<forall>y. y \<in> ranges_set (holes_ranges (subtract_hole a bs h)) \<longleftrightarrow>
       seq_off u a \<le> seq_off u y \<and> y \<in> seq_range (sack_hole_left h) (sack_hole_right h) \<and> y \<notin> blocks_cover a (W - seq_off u a) bs)"
proof -
  let ?l = "sack_hole_left h" and ?r = "sack_hole_right h" and ?w = "W - seq_off u a"
  let ?L = "if seq_diff a ?l > 0 then a else ?l"
  have half: "seq_off u a < 2147483648" "seq_off u ?l < 2147483648" "seq_off u ?r < 2147483648" using W h by linarith+
  have al: "seq_diff a ?l > 0 \<longleftrightarrow> seq_off u ?l < seq_off u a" using seq_diff_less [OF half(1,2)] by simp
  have range: "y \<in> seq_range ?l ?r \<longleftrightarrow> seq_off u ?l \<le> seq_off u y \<and> seq_off u y < seq_off u ?r" for y
    using seq_range_off [of u ?l ?r y] h by simp
  show ?thesis
  proof (cases "seq_off u a < seq_off u ?r")
    case False
    then have "seq_off u ?l < seq_off u a" using h by linarith
    moreover have "\<not> 0 < seq_diff ?r a" using seq_diff_less [OF half(3,1)] False by simp
    ultimately have "subtract_hole a bs h = []" using al by (simp add: subtract_hole_def subtract_list_empty)
    then show ?thesis using False range by auto
  next
    case True
    then have r: "seq_off a ?r = seq_off u ?r - seq_off u a" using seq_off_rebase [OF half(1,3)] by simp
    have L: "seq_off a ?L = seq_off u ?l - seq_off u a" using al seq_off_rebase(1) [OF half(1,2)] by auto
    have small: "seq_off a ?L \<le> ?w" "seq_off a ?r \<le> ?w" "?w < 2147483648" using L r h W by linarith+
    note sub = subtract_list_ok [OF bs small, of "sack_hole_rxmit h", folded subtract_hole_def]
    have "seq_off a ?L \<le> seq_off a y \<and> seq_off a y < seq_off a ?r \<longleftrightarrow>
        seq_off u a \<le> seq_off u y \<and> seq_off u ?l \<le> seq_off u y \<and> seq_off u y < seq_off u ?r" for y
    proof
      assume y: "seq_off a ?L \<le> seq_off a y \<and> seq_off a y < seq_off a ?r"
      then have "seq_off u y = seq_off u a + seq_off a y" using r half by (intro seq_off_forward) linarith
      then show "seq_off u a \<le> seq_off u y \<and> seq_off u ?l \<le> seq_off u y \<and> seq_off u y < seq_off u ?r"
        using y L r True by linarith
    next
      assume y: "seq_off u a \<le> seq_off u y \<and> seq_off u ?l \<le> seq_off u y \<and> seq_off u y < seq_off u ?r"
      then have "seq_off a y = seq_off u y - seq_off u a" using half by (intro seq_off_rebase) linarith+
      then show "seq_off a ?L \<le> seq_off a y \<and> seq_off a y < seq_off a ?r" using y L r True by linarith
    qed
    then show ?thesis using sub range unfolding L [symmetric] r [symmetric] by blast
  qed
qed

text \<open>All holes.\<close>

lemma subtract_holes_ok:
  assumes W: "W < 2147483648" "seq_off u a \<le> W" and bs: "blocks_ok a (W - seq_off u a) bs"
    and hs: "ranges_ok u lo hi (holes_ranges holes)" "lo \<le> hi" "hi \<le> W"
  shows "ranges_ok a (lo - seq_off u a) (hi - seq_off u a) (holes_ranges (concat (map (subtract_hole a bs) holes))) \<and>
    (\<forall>y. y \<in> ranges_set (holes_ranges (concat (map (subtract_hole a bs) holes))) \<longleftrightarrow>
       seq_off u a \<le> seq_off u y \<and> y \<in> ranges_set (holes_ranges holes) \<and> y \<notin> blocks_cover a (W - seq_off u a) bs)"
  using hs(1,2)
proof (induction holes arbitrary: lo)
  case (Cons h holes)
  let ?l = "seq_off u (sack_hole_left h)" and ?r = "seq_off u (sack_hole_right h)"
  have h: "lo \<le> ?l" "?l < ?r" "?r \<le> hi" and rest: "ranges_ok u ?r hi (holes_ranges holes)"
    using Cons.prems by (auto simp: ranges_ok_def)
  have "?r \<le> W" using h hs(3) by simp
  note one = subtract_hole_ok [OF W h(2) this bs] and ih = Cons.IH [OF rest h(3)]
  have "ranges_ok a (lo - seq_off u a) (?r - seq_off u a) (holes_ranges (subtract_hole a bs h))"
    by (rule ranges_ok_mono [OF conjunct1 [OF one]]) (use h in linarith)+
  then have "ranges_ok a (lo - seq_off u a) (hi - seq_off u a) (holes_ranges (subtract_hole a bs h) @ holes_ranges (concat (map (subtract_hole a bs) holes)))"
    by (rule ranges_ok_append [OF _ conjunct1 [OF ih]]) (use h in linarith)+
  then show ?case using conjunct2 [OF one] conjunct2 [OF ih] by (simp add: disj_imp) blast
qed simp

section \<open>An update\<close>

lemma rebuild_list_ok:
  assumes W: "W < 2147483648" "seq_off u a \<le> W" and bs: "blocks_ok a (W - seq_off u a) bs"
    and holes: "holes_ok u old holes" "seq_off u old \<le> W"
    and fack: "seq_off u old - seq_off u a \<le> seq_off a fack" "seq_off a fack \<le> W - seq_off u a"
    and high: "\<And>y. y \<in> blocks_cover a (W - seq_off u a) bs \<Longrightarrow> seq_off a y < seq_off a fack"
  shows "holes_ok a fack (rebuild_list a bs fack discard old holes)"
    and "sack_evidence a fack (rebuild_list a bs fack discard old holes) =
      (if discard then {} else sack_evidence u old holes - seq_range u a) \<union> blocks_cover a (W - seq_off u a) bs"
proof -
  let ?w = "W - seq_off u a" and ?L = "rebuild_list a bs fack discard old holes"
  define start where "start = (if seq_diff a old > 0 then a else old)"
  have half: "seq_off u a < 2147483648" "seq_off u old < 2147483648" "?w < 2147483648" using W holes(2) by linarith+
  have start: "seq_off a start = seq_off u old - seq_off u a"
    using seq_diff_less [OF half(1,2)] seq_off_rebase(1) [OF half(1,2)] by (auto simp: start_def)
  have "ranges_ok a 0 (seq_off a fack) (holes_ranges ?L) \<and> (\<forall>y. y \<in> ranges_set (holes_ranges ?L) \<longleftrightarrow>
      seq_off a y < seq_off a fack \<and> y \<notin> blocks_cover a ?w bs \<and> (discard \<or> y \<notin> sack_evidence u old holes))"
  proof (cases discard)
    case True
    then show ?thesis using subtract_list_ok [OF bs _ fack(2) half(3), of a a] by (simp add: rebuild_list_def)
  next
    case False
    let ?M = "concat (map (subtract_hole a bs) holes)"
    have L: "?L = ?M @ subtract_list start fack start bs" using False by (simp add: rebuild_list_def start_def Let_def)
    have M: "ranges_ok a 0 (seq_off a start) (holes_ranges ?M)"
      "y \<in> ranges_set (holes_ranges ?M) \<longleftrightarrow> seq_off u a \<le> seq_off u y \<and> y \<in> ranges_set (holes_ranges holes) \<and> y \<notin> blocks_cover a ?w bs" for y
      using subtract_holes_ok [OF W bs holes(1) [THEN holes_ok_ranges] _ holes(2)] start by auto
    have "seq_off a start \<le> ?w" using fack start by linarith
    note sub = subtract_list_ok [OF bs this fack(2) half(3), of start]
    have ok: "ranges_ok a 0 (seq_off a fack) (holes_ranges ?L)"
      unfolding L map_append using M(1) sub fack(1) start by (intro ranges_ok_append [of a 0 "seq_off a start"]) auto
    have in_holes: "seq_off u y < seq_off u old" if "y \<in> ranges_set (holes_ranges holes)" for y
      using that ranges_set_between [OF holes(1) [THEN holes_ok_ranges]] by blast
    have key: "seq_off u a \<le> seq_off u y \<and> y \<in> ranges_set (holes_ranges holes) \<or>
        seq_off a start \<le> seq_off a y \<and> seq_off a y < seq_off a fack \<longleftrightarrow>
        seq_off a y < seq_off a fack \<and> \<not> (seq_off u y < seq_off u old \<and> y \<notin> ranges_set (holes_ranges holes))" for y
    proof (cases "seq_off u a \<le> seq_off u y")
      case True
      then have "seq_off a y = seq_off u y - seq_off u a" by (rule seq_off_diff)
      then show ?thesis using True start in_holes [of y] fack(1) by (cases "y \<in> ranges_set (holes_ranges holes)") auto
    next
      case False
      then have "seq_off a y = seq_off u y + 4294967296 - seq_off u a" by (intro seq_off_back) simp
      then have "\<not> seq_off a y < seq_off a fack" using fack(2) half by linarith
      then show ?thesis using False by simp
    qed
    have "y \<in> ranges_set (holes_ranges ?L) \<longleftrightarrow>
        seq_off a y < seq_off a fack \<and> y \<notin> blocks_cover a ?w bs \<and> y \<notin> sack_evidence u old holes" for y
      using M(2) [of y] sub key [of y] unfolding L sack_evidence_off by auto
    then show ?thesis using ok False by blast
  qed
  then have ok: "ranges_ok a 0 (seq_off a fack) (holes_ranges ?L)"
    and set: "\<And>y. y \<in> ranges_set (holes_ranges ?L) \<longleftrightarrow>
      seq_off a y < seq_off a fack \<and> y \<notin> blocks_cover a ?w bs \<and> (discard \<or> y \<notin> sack_evidence u old holes)" by blast+
  show "holes_ok a fack ?L" using ok rebuild_list_marked by (auto simp: holes_ok_def)
  have front: "y \<in> sack_evidence u old holes \<and> seq_off a y < seq_off a fack \<longleftrightarrow> y \<in> sack_evidence u old holes - seq_range u a" for y
  proof (cases "seq_off u a \<le> seq_off u y")
    case True
    then have "seq_off a y = seq_off u y - seq_off u a" by (rule seq_off_diff)
    then show ?thesis using True fack(1) by (auto simp: sack_evidence_off seq_range_def)
  next
    case False
    then have "seq_off a y = seq_off u y + 4294967296 - seq_off u a" by (intro seq_off_back) simp
    then have "\<not> seq_off a y < seq_off a fack" using fack(2) half by linarith
    then show ?thesis using False by (auto simp: seq_range_def)
  qed
  show "sack_evidence a fack ?L = (if discard then {} else sack_evidence u old holes - seq_range u a) \<union> blocks_cover a ?w bs"
  proof (rule set_eqI)
    fix y
    have "y \<in> sack_evidence a fack ?L \<longleftrightarrow> seq_off a y < seq_off a fack \<and>
        (y \<in> blocks_cover a ?w bs \<or> \<not> discard \<and> y \<in> sack_evidence u old holes)"
      unfolding sack_evidence_off [of _ a fack] set by blast
    then show "y \<in> sack_evidence a fack ?L \<longleftrightarrow>
        y \<in> (if discard then {} else sack_evidence u old holes - seq_range u a) \<union> blocks_cover a ?w bs"
      using front [of y] high [of y] by (cases discard) auto
  qed
qed

end
