(* ===== verification/Nx_Sack_Lost.thy ===== *)
theory Nx_Sack_Lost imports Nx_Sack_Recovery Nx_Sack_Evidence begin

text \<open>
  The loss rule of RFC 6675 and the walk that computes it, first with offsets from the
  acknowledgment: a byte is lost when more than twice the segment size of bytes above it are
  reported, or when three separate runs above it are.
\<close>

section \<open>The rule with offsets\<close>

definition off_above :: "nat set \<Rightarrow> nat \<Rightarrow> nat" where
  "off_above Z c = card {z \<in> Z. c \<le> z}"

definition off_runs :: "nat set \<Rightarrow> nat \<Rightarrow> nat" where
  "off_runs Z c = card {z \<in> Z. c \<le> z \<and> (z = 0 \<or> z - 1 \<notin> Z)}"

definition off_lost :: "nat \<Rightarrow> nat set \<Rightarrow> nat \<Rightarrow> bool" where
  "off_lost T Z c \<longleftrightarrow> T < off_above Z c \<or> 3 \<le> off_runs Z c"

lemma off_lost_mono: "finite Z \<Longrightarrow> c \<le> d \<Longrightarrow> off_lost T Z d \<Longrightarrow> off_lost T Z c"
proof -
  assume Z: "finite Z" and cd: "c \<le> d" and lost: "off_lost T Z d"
  have "{z \<in> Z. d \<le> z} \<subseteq> {z \<in> Z. c \<le> z}"
    "{z \<in> Z. d \<le> z \<and> (z = 0 \<or> z - 1 \<notin> Z)} \<subseteq> {z \<in> Z. c \<le> z \<and> (z = 0 \<or> z - 1 \<notin> Z)}" using cd by auto
  then have "off_above Z d \<le> off_above Z c" "off_runs Z d \<le> off_runs Z c"
    unfolding off_above_def off_runs_def using Z by (auto intro!: card_mono)
  then show ?thesis using lost unfolding off_lost_def by linarith
qed

text \<open>Below a run: a hole from \<open>l\<close> to \<open>r\<close> and a run from \<open>r\<close> to \<open>c\<close>.\<close>

lemma off_below:
  assumes "finite Z" "l < r" "r \<le> c" "{l ..< r} \<inter> Z = {}" "{r ..< c} \<subseteq> Z" "c \<notin> Z"
  shows "l \<le> y \<Longrightarrow> y \<le> r \<Longrightarrow> off_above Z y = off_above Z c + (c - r)"
    and "l \<le> y \<Longrightarrow> y \<le> r \<Longrightarrow> off_runs Z y = off_runs Z c + (if r < c then 1 else 0)"
proof -
  assume y: "l \<le> y" "y \<le> r"
  have gap: "x \<notin> Z" if "l \<le> x" "x < r" for x using assms(4) that by (simp add: disjoint_iff)
  have run: "x \<in> Z" if "r \<le> x" "x < c" for x using assms(5) that by auto
  have "{z \<in> Z. y \<le> z} = {z \<in> Z. c \<le> z} \<union> {r ..< c}" using y gap run assms(3) by (auto simp: not_less)
  moreover have "{z \<in> Z. c \<le> z} \<inter> {r ..< c} = {}" by auto
  ultimately show "off_above Z y = off_above Z c + (c - r)" using assms(1) by (simp add: off_above_def card_Un_disjoint)
  have up: "r \<le> z" if "z \<in> Z" "y \<le> z" for z using gap [of z] that y by (cases "z < r") auto
  have start: "r - 1 \<notin> Z" using gap assms(2) by simp
  have inside: "z - 1 \<in> Z" if "r < z" "z < c" for z using run that by simp
  show "off_runs Z y = off_runs Z c + (if r < c then 1 else 0)"
  proof (cases "r < c")
    case True
    have "{z \<in> Z. y \<le> z \<and> (z = 0 \<or> z - 1 \<notin> Z)} = insert r {z \<in> Z. c \<le> z \<and> (z = 0 \<or> z - 1 \<notin> Z)}"
    proof (rule set_eqI, rule iffI)
      fix z assume z: "z \<in> {z \<in> Z. y \<le> z \<and> (z = 0 \<or> z - 1 \<notin> Z)}"
      then have "r \<le> z" using up by blast
      then show "z \<in> insert r {z \<in> Z. c \<le> z \<and> (z = 0 \<or> z - 1 \<notin> Z)}"
        using z inside [of z] by (cases "z = r"; cases "c \<le> z") auto
    next
      fix z assume "z \<in> insert r {z \<in> Z. c \<le> z \<and> (z = 0 \<or> z - 1 \<notin> Z)}"
      then show "z \<in> {z \<in> Z. y \<le> z \<and> (z = 0 \<or> z - 1 \<notin> Z)}" using run [of r] start True y assms(3) by auto
    qed
    moreover have "r \<notin> {z \<in> Z. c \<le> z \<and> (z = 0 \<or> z - 1 \<notin> Z)}" using True by simp
    ultimately show ?thesis using True assms(1) by (simp add: off_runs_def)
  next
    case False
    then have "{z \<in> Z. y \<le> z \<and> (z = 0 \<or> z - 1 \<notin> Z)} = {z \<in> Z. c \<le> z \<and> (z = 0 \<or> z - 1 \<notin> Z)}"
      using y up assms(3) by fastforce
    then show ?thesis using False by (simp add: off_runs_def)
  qed
qed

section \<open>The walk with offsets\<close>

definition off_step :: "nat \<Rightarrow> nat \<times> nat \<Rightarrow> nat \<times> nat \<times> nat \<times> nat \<Rightarrow> nat \<times> nat \<times> nat \<times> nat" where
  "off_step T hole x = (case (hole, x) of ((l, r), (edge, cursor, bytes, ranges)) \<Rightarrow>
     let gap = cursor - r
     in if gap \<noteq> 0 then
          let edge = (if bytes \<le> T \<and> T - bytes < gap then cursor - (T - bytes) else edge);
              edge = (if ranges + 1 = 3 \<and> edge < r then r else edge)
          in (edge, l, bytes + gap, ranges + 1)
        else (edge, l, bytes, ranges))"

text \<open>The holes from a cursor down, and what lies between them is reported.\<close>

fun off_holes :: "nat set \<Rightarrow> nat \<Rightarrow> (nat \<times> nat) list \<Rightarrow> bool" where
  "off_holes Z c [] \<longleftrightarrow> {0 ..< c} \<subseteq> Z"
| "off_holes Z c ((l, r) # hs) \<longleftrightarrow> l < r \<and> r \<le> c \<and> {l ..< r} \<inter> Z = {} \<and> {r ..< c} \<subseteq> Z \<and> off_holes Z l hs"

text \<open>Every byte in front of the edge is lost.\<close>

definition off_sound :: "nat \<Rightarrow> nat set \<Rightarrow> nat \<Rightarrow> nat \<Rightarrow> bool" where
  "off_sound T Z edge c \<longleftrightarrow> (0 < edge \<longrightarrow> off_lost T Z c) \<and> (\<forall>y. y \<notin> Z \<longrightarrow> c \<le> y \<longrightarrow> y < edge \<longrightarrow> off_lost T Z y)"

definition off_complete :: "nat \<Rightarrow> nat set \<Rightarrow> nat \<Rightarrow> nat \<Rightarrow> bool" where
  "off_complete T Z edge c \<longleftrightarrow> (off_lost T Z c \<longrightarrow> c \<le> edge) \<and> (\<forall>y. y \<notin> Z \<longrightarrow> c \<le> y \<longrightarrow> off_lost T Z y \<longrightarrow> y < edge)"

text \<open>The rule of the three runs never comes before the rule of the bytes.\<close>

definition off_full :: "nat \<Rightarrow> nat set \<Rightarrow> bool" where
  "off_full T Z \<longleftrightarrow> off_above Z 0 \<le> T \<or> (\<forall>c. c \<notin> Z \<longrightarrow> 3 \<le> off_runs Z c \<longrightarrow> T < off_above Z c)"

lemma off_step_ok:
  assumes "finite Z" "l < r" "r \<le> c" "{l ..< r} \<inter> Z = {}" "{r ..< c} \<subseteq> Z" "c \<notin> Z"
    and "off_step T (l, r) (edge, c, off_above Z c, off_runs Z c) = (edge', c', bytes', ranges')"
  shows "c' = l \<and> bytes' = off_above Z l \<and> ranges' = off_runs Z l"
    and "off_sound T Z edge c \<Longrightarrow> off_sound T Z edge' l"
    and "off_full T Z \<Longrightarrow> off_complete T Z edge c \<Longrightarrow> off_complete T Z edge' l"
proof -
  note below = off_below [OF assms(1-6)]
  have l: "off_above Z l = off_above Z c + (c - r)" "off_runs Z l = off_runs Z c + (if r < c then 1 else 0)"
    using below [of l] assms(2) by simp_all
  have lost: "off_lost T Z y \<longleftrightarrow> off_lost T Z l" if "l \<le> y" "y < r" for y
    using below [of y] that l by (simp add: off_lost_def)
  have cases: "y < r \<or> c \<le> y" if "y \<notin> Z" for y using assms(5) that by (meson atLeastLessThan_iff not_less subset_iff)
  have step: "edge' = (let e = (if off_above Z c \<le> T \<and> T < off_above Z l then c - (T - off_above Z c) else edge)
      in if off_runs Z c < 3 \<and> off_runs Z l = 3 \<and> e < r then r else e)"
    using assms(3,7) l by (auto simp: off_step_def Let_def split: if_splits)
  show "c' = l \<and> bytes' = off_above Z l \<and> ranges' = off_runs Z l"
    using assms(3,7) l by (auto simp: off_step_def Let_def split: if_splits)
  show "off_sound T Z edge' l" if sound: "off_sound T Z edge c"
  proof -
    have down: "off_lost T Z c \<Longrightarrow> off_lost T Z l" using off_lost_mono [OF assms(1), of l c] assms(2,3) by simp
    have new: "edge' \<noteq> edge \<Longrightarrow> edge' \<le> c \<and> off_lost T Z l"
      using step assms(3) by (auto simp: Let_def off_lost_def split: if_splits)
    have "off_lost T Z y" if y: "y \<notin> Z" "l \<le> y" "y < edge'" for y
    proof (cases "edge' = edge")
      case True
      then show ?thesis using y cases [OF y(1)] sound lost [of y] down by (auto simp: off_sound_def)
    next
      case False
      then show ?thesis using new y cases [OF y(1)] lost [of y] by auto
    qed
    moreover have "off_lost T Z l" if "0 < edge'" using new sound down that by (cases "edge' = edge") (auto simp: off_sound_def)
    ultimately show ?thesis by (simp add: off_sound_def)
  qed
  show "off_complete T Z edge' l" if full: "off_full T Z" and comp: "off_complete T Z edge c"
  proof -
    have total: "off_above Z l \<le> off_above Z 0" unfolding off_above_def using assms(1) by (intro card_mono) auto
    have keep: "edge \<le> edge' \<and> c \<le> edge" if "off_lost T Z c"
    proof -
      have "\<not> (off_above Z c \<le> T \<and> T < off_above Z l)" using that full assms(6) total by (auto simp: off_full_def off_lost_def)
      then show ?thesis using step comp that by (auto simp: Let_def off_complete_def)
    qed
    have reach: "r \<le> edge'" if "off_lost T Z l"
    proof (cases "off_lost T Z c")
      case True
      then show ?thesis using keep assms(3) by simp
    next
      case False
      then show ?thesis using step that l by (auto simp: Let_def off_lost_def split: if_splits)
    qed
    have "y < edge'" if y: "y \<notin> Z" "l \<le> y" "off_lost T Z y" for y
    proof (cases "y < r")
      case True
      then show ?thesis using reach lost [OF y(2) True] y(3) by simp
    next
      case False
      then have cy: "c \<le> y" using cases [OF y(1)] by simp
      then have "off_lost T Z c" using off_lost_mono [OF assms(1) cy y(3)] by simp
      then show ?thesis using keep comp y cy unfolding off_complete_def by (meson order_less_le_trans)
    qed
    then show ?thesis using reach assms(2) by (auto simp: off_complete_def)
  qed
qed

lemma off_walk:
  assumes "finite Z" "off_holes Z c hs" "c \<notin> Z"
    and "fold (off_step T) hs (edge, c, off_above Z c, off_runs Z c) = (edge', c', bytes', ranges')"
  shows "off_sound T Z edge c \<Longrightarrow> off_sound T Z edge' 0"
    and "off_full T Z \<Longrightarrow> off_complete T Z edge c \<Longrightarrow> y \<notin> Z \<Longrightarrow> off_lost T Z y \<Longrightarrow> y < edge'"
    and "edge \<le> c \<Longrightarrow> edge' \<le> c"
proof -
  have main: "(off_sound T Z edge c \<longrightarrow> off_sound T Z edge' 0) \<and>
      (off_full T Z \<longrightarrow> off_complete T Z edge c \<longrightarrow> (\<forall>y. y \<notin> Z \<longrightarrow> off_lost T Z y \<longrightarrow> y < edge')) \<and>
      (\<forall>m. c \<le> m \<longrightarrow> edge \<le> m \<longrightarrow> edge' \<le> m)"
    using assms(2-4)
  proof (induction hs arbitrary: c edge)
    case Nil
    then have e: "edge' = edge" and top: "{0 ..< c} \<subseteq> Z" by auto
    have "c \<le> y" if "y \<notin> Z" for y using top that by (meson atLeastLessThan_iff not_less subset_iff zero_le)
    moreover have "off_lost T Z 0" if "off_lost T Z c" using off_lost_mono [OF assms(1) _ that] by simp
    ultimately show ?case unfolding e off_sound_def off_complete_def by blast
  next
    case (Cons h hs)
    obtain l r where h: "h = (l, r)" by fastforce
    have lr: "l < r" "r \<le> c" "{l ..< r} \<inter> Z = {}" "{r ..< c} \<subseteq> Z" "off_holes Z l hs" using Cons.prems(1) h by auto
    obtain e1 c1 b1 r1 where s: "off_step T (l, r) (edge, c, off_above Z c, off_runs Z c) = (e1, c1, b1, r1)" by (metis prod_cases4)
    note st = off_step_ok [OF assms(1) lr(1-4) Cons.prems(2) s]
    have "l \<notin> Z" using lr(1,3) by (simp add: disjoint_iff)
    moreover have "fold (off_step T) hs (e1, l, off_above Z l, off_runs Z l) = (edge', c', bytes', ranges')"
      using Cons.prems(3) s st(1) h by simp
    ultimately have ih: "off_sound T Z e1 l \<longrightarrow> off_sound T Z edge' 0"
      "off_full T Z \<longrightarrow> off_complete T Z e1 l \<longrightarrow> (\<forall>y. y \<notin> Z \<longrightarrow> off_lost T Z y \<longrightarrow> y < edge')"
      "\<forall>m. l \<le> m \<longrightarrow> e1 \<le> m \<longrightarrow> edge' \<le> m" using Cons.IH [OF lr(5)] by blast+
    have "edge' \<le> m" if m: "c \<le> m" "edge \<le> m" for m
    proof -
      have "e1 \<le> m"
        using s m lr(2) by (auto simp: off_step_def Let_def split: if_splits)
      then show ?thesis using ih(3) m lr(1,2) by simp
    qed
    then show ?case using ih st(2,3) by blast
  qed
  then show "off_sound T Z edge c \<Longrightarrow> off_sound T Z edge' 0"
    "off_full T Z \<Longrightarrow> off_complete T Z edge c \<Longrightarrow> y \<notin> Z \<Longrightarrow> off_lost T Z y \<Longrightarrow> y < edge'" "edge \<le> c \<Longrightarrow> edge' \<le> c" by blast+
qed

end
