(* ===== verification/Nx_Sack_Grow.thy ===== *)
theory Nx_Sack_Grow imports Nx_Sack_Rebuild Nx_Pool_Inv begin

text \<open>
  The growth of the scoreboard: another control packet of the pool is hooked to the chain. The slots
  that were there keep their addresses. The retry loop ends, because the chain has at most
  \<open>NX_SACK_PAGES_MAX\<close> packets.
\<close>

section \<open>Where the pages come from\<close>

definition sack_source :: "nx_mem \<Rightarrow> nx_sack_socket \<Rightarrow> nat list \<Rightarrow> (nat \<Rightarrow> nat list) \<Rightarrow> bool" where
  "sack_source m s ps F \<longleftrightarrow> pools_inv m F \<and> payloads_separate m \<and>
     (\<exists>P pool. nx_pools m P = Some pool \<and>
        2 * SIZEOF_NX_SACK_HOLE * nx_tcp_socket_sack_page_capacity s \<le> nx_packet_pool_payload_size pool \<and>
        (\<forall>p \<in> set ps. \<exists>pk. nx_packets m p = Some pk \<and> nx_packet_pool_owner pk = P \<and>
           nx_packet_tcp_queue_next pk = NX_PACKET_ALLOCATED \<and> nx_packet_next pk = NX_NULL))"

lemma nx_sack_last_page_eq:
  "linked nx_packet_queue_next pks page (qs @ [p]) \<Longrightarrow> nx_sack_last_page pks page n = Some (p, n + length qs)"
proof (induction qs arbitrary: page n)
  case Nil
  then show ?case by (subst nx_sack_last_page.simps) auto
next
  case (Cons q qs)
  obtain pk where pk: "page = q" "pks q = Some pk" "linked nx_packet_queue_next pks (nx_packet_queue_next pk) (qs @ [p])"
    using Cons.prems by auto
  have "nx_packet_queue_next pk \<noteq> NX_NULL" using pk(3) by (cases qs) auto
  then show ?case using pk Cons.IH [OF pk(3), of "n + 1"] by (subst nx_sack_last_page.simps) simp
qed

lemma payloads_separate_put:
  assumes "payloads_separate m" "nx_packets m a = Some pk" "nx_packet_data_start pk' = nx_packet_data_start pk"
    "nx_packet_data_end pk' = nx_packet_data_end pk"
  shows "payloads_separate (put_packet a pk' m)"
  unfolding payloads_separate_def
proof (intro allI impI)
  fix p q x y
  assume pq: "nx_packets (put_packet a pk' m) p = Some x" "nx_packets (put_packet a pk' m) q = Some y" "p \<noteq> q"
  obtain x' where x': "nx_packets m p = Some x'" "nx_packet_data_start x = nx_packet_data_start x'" "nx_packet_data_end x = nx_packet_data_end x'"
    using pq(1) assms(2-4) by (cases "p = a") auto
  obtain y' where y': "nx_packets m q = Some y'" "nx_packet_data_start y = nx_packet_data_start y'" "nx_packet_data_end y = nx_packet_data_end y'"
    using pq(2) assms(2-4) by (cases "q = a") auto
  have "separate x' y'" using assms(1) x'(1) y'(1) pq(3) by (auto simp: payloads_separate_def)
  then show "separate x y" using x' y' by (simp add: separate_def)
qed

text \<open>A chain whose packets keep their areas is still a scoreboard.\<close>

section \<open>Growth\<close>

definition sack_grown :: "nx_sack_socket \<Rightarrow> nx_sack_socket" where
  "sack_grown s = s\<lparr>nx_tcp_socket_sack_hole_capacity :=
     nx_tcp_socket_sack_hole_capacity s + nx_tcp_socket_sack_page_capacity s\<rparr>"

lemma queue_grow:
  assumes q: "queue m p (qs @ [l])" "distinct (qs @ [l])" and a: "a \<notin> set (qs @ [l])" "a \<noteq> NX_NULL"
    and l: "nx_packets m l = Some lk" and same: "\<And>x. x \<noteq> a \<Longrightarrow> nx_packets m1 x = nx_packets m x"
    and ak: "nx_packets m1 a = Some ak" "nx_packet_queue_next ak = NX_NULL"
  shows "queue (put_packet l (lk\<lparr>nx_packet_queue_next := a\<rparr>) m1) p (qs @ [l, a])"
proof -
  have "linked nx_packet_queue_next (nx_packets m1) p (qs @ [l]) \<longleftrightarrow> queue m p (qs @ [l])"
    by (rule linked_cong) (use same a(1) in metis)
  then have "queue m1 p (qs @ [l])" using q(1) by simp
  moreover have "nx_packets m1 l = Some lk" using a l same by auto
  ultimately show ?thesis
    using linked_append_link [of nx_packet_queue_next "nx_packets m1" p qs l lk "lk\<lparr>nx_packet_queue_next := a\<rparr>" a "[a]"] q(2) a ak
    by auto
qed

lemma sack_grow_result:
  assumes pages: "sack_pages m s ps" "ps \<noteq> []" and source: "sack_source m s ps F"
  shows "sack_grow S m s = Some (False, m, s) \<or>
    (\<exists>m' a F'. sack_grow S m s = Some (True, m', sack_grown s) \<and> sack_pages m' (sack_grown s) (ps @ [a]) \<and>
       sack_source m' (sack_grown s) (ps @ [a]) F' \<and> dom (nx_pools m') = dom (nx_pools m) \<and> length ps < NX_SACK_PAGES_MAX \<and>
       (\<forall>b. \<forall>i < nx_tcp_socket_sack_hole_capacity s. sack_hole m' (sack_grown s) b i = sack_hole m s b i))"
proof -
  obtain P pool where inv: "pools_inv m F" "payloads_separate m" "nx_pools m P = Some pool"
    and cap: "24 * nx_tcp_socket_sack_page_capacity s \<le> nx_packet_pool_payload_size pool"
    and own: "\<forall>p \<in> set ps. \<exists>pk. nx_packets m p = Some pk \<and> nx_packet_pool_owner pk = P \<and> nx_packet_tcp_queue_next pk = NX_PACKET_ALLOCATED \<and> nx_packet_next pk = NX_NULL"
    using source by (auto simp: sack_source_def)
  obtain qs l where ps: "ps = qs @ [l]" using pages(2) by (metis append_butlast_last_id)
  have q: "queue m (nx_tcp_socket_sack_scoreboard s) (qs @ [l])" "distinct (qs @ [l])" using pages(1) ps by (auto simp: sack_pages_def)
  have "nx_tcp_socket_sack_scoreboard s \<in> set ps" using q(1) ps by (cases qs) auto
  then obtain hk where hk: "nx_packets m (nx_tcp_socket_sack_scoreboard s) = Some hk" "nx_packet_pool_owner hk = P" using own by blast
  obtain lk where lk: "nx_packets m l = Some lk" "nx_packet_pool_owner lk = P" "nx_packet_tcp_queue_next lk = NX_PACKET_ALLOCATED" "nx_packet_next lk = NX_NULL"
    using own ps by auto
  let ?reserve = "if nx_packet_pool_total pool div 8 < 4 then 4 else nx_packet_pool_total pool div 8"
  let ?limit = "if 16 < nx_packet_pool_total pool div 32 then 16 else nx_packet_pool_total pool div 32"
  have last: "nx_sack_last_page (nx_packets m) (nx_tcp_socket_sack_scoreboard s) 1 = Some (l, length ps)"
    using nx_sack_last_page_eq [OF q(1), of 1] ps by simp
  note run = sack_grow_def [of S m s]
  show ?thesis
  proof (cases "?limit \<le> length ps \<or> nx_packet_pool_available pool \<le> ?reserve")
    case True
    then have "sack_grow S m s = Some (False, m, s)" unfolding run Let_def using hk inv(3) last by auto
    then show ?thesis by simp
  next
    case False
    have "0 < nx_packet_pool_available pool" using False by (auto split: if_splits)
    then obtain a fs where F: "F P = a # fs"
      using pools_invD [OF inv(1,3)] inv(3) by (cases "F P") (auto elim!: pool_invE simp: free_list_ok_def)
    obtain pk where pk: "nx_packets m a = Some pk" "nx_packet_pool_owner pk = P" "a \<noteq> NX_NULL" "nx_packet_tcp_queue_next pk = NX_PACKET_FREE"
      "slot_ok (nx_packet_pool_payload_size pool) pk"
      "nx_packet_allocate S P 0 0 NX_NO_WAIT m = Some (NX_SUCCESS, a, taken P pool 0 a pk m)"
      "pools_inv (taken P pool 0 a pk m) (F(P := fs))"
      using nx_packet_allocate_success [OF inv(1,3) F, of 0] by (metis le0)
    let ?m1 = "taken P pool 0 a pk m" and ?lk = "lk\<lparr>nx_packet_queue_next := a\<rparr>"
    let ?m' = "put_packet l ?lk ?m1"
    have new: "a \<notin> set ps" using own pk(1,4) by force
    then have l1: "nx_packets ?m1 l = Some lk" "l \<noteq> a" using lk ps by (auto simp: taken_def)
    have pks: "nx_packets ?m' = (nx_packets m)(a \<mapsto> alloc_header 0 pk, l \<mapsto> ?lk)" by (simp add: taken_def)
    have limit: "length ps < 16" using False by (auto split: if_splits)
    have "sack_grow S m s = Some (True, ?m', sack_grown s)"
      unfolding run Let_def using hk inv(3) last False pk(6) l1(1) by (simp add: sack_grown_def)
    moreover have "dom (nx_pools ?m') = dom (nx_pools m)" using inv(3) by (auto simp: taken_def)
    moreover have queue: "queue ?m' (nx_tcp_socket_sack_scoreboard s) (ps @ [a])"
      using queue_grow [OF q _ pk(3) lk(1), of ?m1 "alloc_header 0 pk"] new ps by (simp add: taken_def alloc_header_def)
    have sep: "payloads_separate ?m'"
    proof -
      have "payloads_separate (put_packet l ?lk (put_packet a (alloc_header 0 pk) m))"
        using inv(2) pk(1) lk(1) l1(2) by (intro payloads_separate_put [of _ l lk] payloads_separate_put [of _ a pk]) auto
      moreover have "nx_packets ?m' = nx_packets (put_packet l ?lk (put_packet a (alloc_header 0 pk) m))" by (simp add: taken_def)
      ultimately show ?thesis unfolding payloads_separate_def by metis
    qed
    moreover have pages': "sack_pages ?m' (sack_grown s) (ps @ [a])"
    proof -
      have old: "\<forall>p \<in> set ps. \<forall>x. nx_packets m p = Some x \<longrightarrow> nx_packet_data_start x \<le> nx_packet_prepend_ptr x \<and>
        nx_packet_prepend_ptr x + 24 * nx_tcp_socket_sack_page_capacity s \<le> nx_packet_data_end x"
        and base: "0 < nx_tcp_socket_sack_page_capacity s"
          "nx_tcp_socket_sack_hole_capacity s = nx_tcp_socket_sack_page_capacity s * length ps"
        using pages(1) by (auto simp: sack_pages_def)
      have room: "nx_packet_data_start x \<le> nx_packet_prepend_ptr x \<and>
          nx_packet_prepend_ptr x + 24 * nx_tcp_socket_sack_page_capacity s \<le> nx_packet_data_end x"
        if x: "p \<in> set (ps @ [a])" "nx_packets ?m' p = Some x" for p x
      proof (cases "p = a")
        case True
        then have "x = alloc_header 0 pk" using x(2) l1(2) by (simp add: taken_def)
        then show ?thesis using pk(5) cap by (simp add: slot_ok_def)
      next
        case pa: False
        then have p: "p \<in> set ps" using x(1) by simp
        show ?thesis
        proof (cases "p = l")
          case True
          then have "x = ?lk" using x(2) by (simp add: taken_def)
          then show ?thesis using old p lk(1) True by simp
        next
          case False
          then have "nx_packets m p = Some x" using pa x(2) by (simp add: taken_def)
          then show ?thesis using old p by blast
        qed
      qed
      have apart: "separate x y" if "p \<noteq> r" "nx_packets ?m' p = Some x" "nx_packets ?m' r = Some y" for p r x y
        using sep that unfolding payloads_separate_def by blast
      show ?thesis unfolding sack_pages_def using queue pages(1) new base room apart
        by (auto simp: sack_grown_def sack_pages_def simp del: put_packet_simps)
    qed
    moreover have "sack_source ?m' (sack_grown s) (ps @ [a]) (F(P := fs))"
    proof -
      let ?pool = "pool\<lparr>nx_packet_pool_available := nx_packet_pool_available pool - 1,
          nx_packet_pool_available_list := nx_packet_queue_next pk\<rparr>"
      have inv': "pools_inv ?m' (F(P := fs))" using pk(7) l1(1) lk(3) by (intro pools_inv_put_live) auto
      have mem: "\<exists>x. nx_packets ?m' p = Some x \<and> nx_packet_pool_owner x = P \<and> nx_packet_tcp_queue_next x = NX_PACKET_ALLOCATED \<and> nx_packet_next x = NX_NULL"
        if "p \<in> set (ps @ [a])" for p
        using that own lk pk l1(2) by (auto simp: taken_def)
      have pool: "nx_pools ?m' P = Some ?pool" by (simp add: taken_def)
      have "2 * 12 * nx_tcp_socket_sack_page_capacity (sack_grown s) \<le> nx_packet_pool_payload_size ?pool"
        using cap by (simp add: sack_grown_def)
      then show ?thesis unfolding sack_source_def using inv' sep pool mem by blast
    qed
    moreover have "sack_hole ?m' (sack_grown s) b i = sack_hole m s b i" if i: "i < nx_tcp_socket_sack_hole_capacity s" for b i
    proof -
      let ?cap = "nx_tcp_socket_sack_page_capacity s"
      have eq: "nx_tcp_socket_sack_page_capacity (sack_grown s) = ?cap" by (simp add: sack_grown_def)
      have "i < nx_tcp_socket_sack_hole_capacity (sack_grown s)" using i by (simp add: sack_grown_def)
      from sack_hole_address [OF pages' this, of b] obtain x where x: "nx_packets ?m' ((ps @ [a]) ! (i div ?cap)) = Some x"
        "sack_hole ?m' (sack_grown s) b i = Some (nx_packet_prepend_ptr x + 12 * (b * ?cap + i mod ?cap))" unfolding eq by blast
      obtain y where y: "nx_packets m (ps ! (i div ?cap)) = Some y" "i div ?cap < length ps"
        "sack_hole m s b i = Some (nx_packet_prepend_ptr y + 12 * (b * ?cap + i mod ?cap))"
        using sack_hole_address [OF pages(1) i, of b] by blast
      have "ps ! (i div ?cap) \<noteq> a" using new y(2) by auto
      then have "nx_packet_prepend_ptr x = nx_packet_prepend_ptr y"
        using x(1) y(1,2) lk(1) by (auto simp: taken_def nth_append split: if_splits)
      then show ?thesis using x(2) y(3) by simp
    qed
    ultimately show ?thesis using limit by blast
  qed
qed

end
