(* ===== verification/Nx_Sack_Update.thy ===== *)
theory Nx_Sack_Update imports Nx_Sack_Grow Nx_Sack_Evidence begin

text \<open>
  An update of the scoreboard: the retries return, and the new holes are those of the list function, or,
  when no more control packets are to be had, those without the new blocks.
\<close>

section \<open>The retries\<close>

definition sack_live :: "nx_mem \<Rightarrow> sack_slots \<Rightarrow> nx_sack_socket \<Rightarrow> nx_sack_hole list \<Rightarrow> bool" where
  "sack_live m hs s holes \<longleftrightarrow> sack_board m hs s holes \<and>
     (\<exists>ps F. sack_pages m s ps \<and> ps \<noteq> [] \<and> sack_source m s ps F)"

lemma sack_source_cong:
  "nx_tcp_socket_sack_page_capacity s' = nx_tcp_socket_sack_page_capacity s \<Longrightarrow> sack_source m s' ps F \<longleftrightarrow> sack_source m s ps F"
  by (simp add: sack_source_def)

lemma sack_pages_cong:
  "nx_tcp_socket_sack_page_capacity s' = nx_tcp_socket_sack_page_capacity s \<Longrightarrow>
   nx_tcp_socket_sack_hole_capacity s' = nx_tcp_socket_sack_hole_capacity s \<Longrightarrow>
   nx_tcp_socket_sack_scoreboard s' = nx_tcp_socket_sack_scoreboard s \<Longrightarrow> sack_pages m s' ps \<longleftrightarrow> sack_pages m s ps"
  by (simp add: sack_pages_def)

lemma sack_hole_cong:
  "nx_tcp_socket_sack_page_capacity s' = nx_tcp_socket_sack_page_capacity s \<Longrightarrow>
   nx_tcp_socket_sack_scoreboard s' = nx_tcp_socket_sack_scoreboard s \<Longrightarrow> sack_hole m s' b i = sack_hole m s b i"
  by (simp add: sack_hole_def)

text \<open>Only the fields of the scoreboard matter.\<close>

lemma sack_board_cong:
  assumes "nx_tcp_socket_sack_page_capacity s' = nx_tcp_socket_sack_page_capacity s"
    "nx_tcp_socket_sack_hole_capacity s' = nx_tcp_socket_sack_hole_capacity s"
    "nx_tcp_socket_sack_scoreboard s' = nx_tcp_socket_sack_scoreboard s"
    "nx_tcp_socket_sack_hole_count s' = nx_tcp_socket_sack_hole_count s" "nx_sack_bank s' = nx_sack_bank s"
  shows "sack_board m hs s' holes \<longleftrightarrow> sack_board m hs s holes"
proof -
  have "sack_pages m s' = sack_pages m s" using sack_pages_cong [OF assms(1-3)] by (intro ext)
  then show ?thesis unfolding sack_board_def sack.holds_def using assms sack_hole_cong [OF assms(1,3)] by simp
qed

lemma sack_live_cong:
  assumes "nx_tcp_socket_sack_page_capacity s' = nx_tcp_socket_sack_page_capacity s"
    "nx_tcp_socket_sack_hole_capacity s' = nx_tcp_socket_sack_hole_capacity s"
    "nx_tcp_socket_sack_scoreboard s' = nx_tcp_socket_sack_scoreboard s"
    "nx_tcp_socket_sack_hole_count s' = nx_tcp_socket_sack_hole_count s" "nx_sack_bank s' = nx_sack_bank s"
  shows "sack_live m hs s' holes \<longleftrightarrow> sack_live m hs s holes"
  unfolding sack_live_def using sack_board_cong [OF assms] sack_pages_cong [OF assms(1-3)] sack_source_cong [OF assms(1)] by simp

lemma sack_board_grown:
  assumes "sack_board m hs s holes" "sack_pages m' (sack_grown s) ps'"
    and "\<And>b i. i < nx_tcp_socket_sack_hole_capacity s \<Longrightarrow> sack_hole m' (sack_grown s) b i = sack_hole m s b i"
  shows "sack_board m' hs (sack_grown s) holes"
proof -
  have "length holes \<le> nx_tcp_socket_sack_hole_capacity s" using assms(1) by (auto simp: sack_board_def sack.holds_def)
  then show ?thesis using assms by (auto simp: sack_board_def sack.holds_def sack_grown_def)
qed

lemma sack_retry_result:
  assumes "sack_live m hs s holes"
    and L: "L = rebuild_list (nx_tcp_socket_sack_high_ack s) blocks fack discard (nx_tcp_socket_sack_fack s) holes"
  shows "\<exists>r m' hs' s' c. sack_retry S blocks fack discard m hs s = Some (r, m', hs', s') \<and> dom (nx_pools m') = dom (nx_pools m) \<and>
    (if r then s' = s\<lparr>nx_tcp_socket_sack_hole_capacity := c, nx_tcp_socket_sack_hole_count := length L,
        nx_tcp_socket_sack_fack := fack, nx_sack_bank := 1 - nx_sack_bank s\<rparr> \<and> sack_live m' hs' s' L
     else nx_tcp_socket_sack_hole_capacity s < length L \<and> s' = s\<lparr>nx_tcp_socket_sack_hole_capacity := c\<rparr> \<and> sack_live m' hs' s' holes)"
proof -
  have main: "sack_board m hs s holes \<Longrightarrow> sack_pages m s ps \<Longrightarrow> ps \<noteq> [] \<Longrightarrow> sack_source m s ps F \<Longrightarrow>
     L = rebuild_list (nx_tcp_socket_sack_high_ack s) blocks fack discard (nx_tcp_socket_sack_fack s) holes \<Longrightarrow>
     \<exists>r m' hs' s' c. sack_retry S blocks fack discard m hs s = Some (r, m', hs', s') \<and> dom (nx_pools m') = dom (nx_pools m) \<and>
      (if r then s' = s\<lparr>nx_tcp_socket_sack_hole_capacity := c, nx_tcp_socket_sack_hole_count := length L,
          nx_tcp_socket_sack_fack := fack, nx_sack_bank := 1 - nx_sack_bank s\<rparr> \<and> sack_live m' hs' s' L
       else nx_tcp_socket_sack_hole_capacity s < length L \<and> s' = s\<lparr>nx_tcp_socket_sack_hole_capacity := c\<rparr> \<and> sack_live m' hs' s' holes)" for ps F
  proof (induction "16 - length ps" arbitrary: m hs s ps F rule: less_induct)
    case less
    note retry = sack_retry.simps [of S blocks fack discard m hs s]
    obtain hs1 where re: "if length L \<le> nx_tcp_socket_sack_hole_capacity s
      then \<exists>s'. sack_rebuild m blocks fack discard hs s = Some (True, hs1, s') \<and> sack_board m hs1 s' L \<and>
        s' = s\<lparr>nx_tcp_socket_sack_hole_count := length L, nx_tcp_socket_sack_fack := fack, nx_sack_bank := 1 - nx_sack_bank s\<rparr>
      else sack_rebuild m blocks fack discard hs s = Some (False, hs1, s) \<and> sack_board m hs1 s holes"
      using sack_rebuild_refines [OF less.prems(1,5)] by blast
    show ?case
    proof (cases "length L \<le> nx_tcp_socket_sack_hole_capacity s")
      case True
      define s' where "s' = s\<lparr>nx_tcp_socket_sack_hole_count := length L, nx_tcp_socket_sack_fack := fack, nx_sack_bank := 1 - nx_sack_bank s\<rparr>"
      have s': "sack_rebuild m blocks fack discard hs s = Some (True, hs1, s')" "sack_board m hs1 s' L"
        using re True by (auto simp: s'_def)
      have "sack_pages m s' ps" "sack_source m s' ps F"
        using less.prems(2,4) by (auto simp: s'_def sack_pages_def sack_source_def)
      then have "sack_live m hs1 s' L" using s'(2) less.prems(3) by (auto simp: sack_live_def)
      moreover have "s' = s\<lparr>nx_tcp_socket_sack_hole_capacity := nx_tcp_socket_sack_hole_capacity s, nx_tcp_socket_sack_hole_count := length L,
          nx_tcp_socket_sack_fack := fack, nx_sack_bank := 1 - nx_sack_bank s\<rparr>" by (simp add: s'_def)
      moreover have "sack_retry S blocks fack discard m hs s = Some (True, m, hs1, s')" using retry s'(1) by simp
      ultimately show ?thesis by (metis (no_types))
    next
      case False
      then have no: "sack_rebuild m blocks fack discard hs s = Some (False, hs1, s)" "sack_board m hs1 s holes" using re by auto
      consider "sack_grow S m s = Some (False, m, s)"
        | m' a F' where "sack_grow S m s = Some (True, m', sack_grown s)" "sack_pages m' (sack_grown s) (ps @ [a])"
          "sack_source m' (sack_grown s) (ps @ [a]) F'" "length ps < 16" "dom (nx_pools m') = dom (nx_pools m)"
          "\<And>b i. i < nx_tcp_socket_sack_hole_capacity s \<Longrightarrow> sack_hole m' (sack_grown s) b i = sack_hole m s b i"
        using sack_grow_result [OF less.prems(2-4), of S] by blast
      then show ?thesis
      proof cases
        case 1
        then have "sack_retry S blocks fack discard m hs s = Some (False, m, hs1, s)" using retry no by simp
        moreover have "sack_live m hs1 s holes" using no(2) less.prems(2-4) by (auto simp: sack_live_def)
        moreover have "s = s\<lparr>nx_tcp_socket_sack_hole_capacity := nx_tcp_socket_sack_hole_capacity s\<rparr>" by simp
        moreover have "nx_tcp_socket_sack_hole_capacity s < length L" using False by simp
        ultimately show ?thesis by (metis (no_types))
      next
        case 2
        have same: "nx_tcp_socket_sack_high_ack (sack_grown s) = nx_tcp_socket_sack_high_ack s"
          "nx_tcp_socket_sack_fack (sack_grown s) = nx_tcp_socket_sack_fack s" "nx_sack_bank (sack_grown s) = nx_sack_bank s"
          "(sack_grown s)\<lparr>nx_tcp_socket_sack_hole_capacity := c\<rparr> = s\<lparr>nx_tcp_socket_sack_hole_capacity := c\<rparr>" for c
          by (simp_all add: sack_grown_def)
        have board: "sack_board m' hs1 (sack_grown s) holes" by (rule sack_board_grown [OF no(2) 2(2)]) (rule 2(6))
        have shorter: "16 - length (ps @ [a]) < 16 - length ps" and some: "ps @ [a] \<noteq> []" using 2(4) by simp_all
        note ih = less.hyps [OF shorter board 2(2) some 2(3), unfolded same, OF less.prems(5)]
        then obtain r m2 hs2 s2 c where r: "sack_retry S blocks fack discard m' hs1 (sack_grown s) = Some (r, m2, hs2, s2)" "dom (nx_pools m2) = dom (nx_pools m)"
          "if r then s2 = s\<lparr>nx_tcp_socket_sack_hole_capacity := c, nx_tcp_socket_sack_hole_count := length L,
              nx_tcp_socket_sack_fack := fack, nx_sack_bank := 1 - nx_sack_bank s\<rparr> \<and> sack_live m2 hs2 s2 L
           else nx_tcp_socket_sack_hole_capacity (sack_grown s) < length L \<and>
             s2 = s\<lparr>nx_tcp_socket_sack_hole_capacity := c\<rparr> \<and> sack_live m2 hs2 s2 holes" using 2(5) by (metis (no_types))
        have run: "sack_retry S blocks fack discard m hs s = Some (r, m2, hs2, s2)" using retry no(1) 2(1) r(1) by simp
        have long: "nx_tcp_socket_sack_hole_capacity s < length L" using False by simp
        show ?thesis
        proof (cases r)
          case True
          then show ?thesis using run r(2,3) by (metis (full_types))
        next
          case False
          then show ?thesis using run r(2,3) long by (metis (full_types))
        qed
      qed
    qed
  qed
  obtain ps F where "sack_board m hs s holes" "sack_pages m s ps" "ps \<noteq> []" "sack_source m s ps F"
    using assms(1) unfolding sack_live_def by blast
  then show ?thesis by (rule main) (rule L)
qed

section \<open>The highest reported byte\<close>

lemma fack_fold:
  assumes "w < 2147483648" "blocks_ok a w bs" "seq_off a x \<le> w"
  defines "f \<equiv> fold (\<lambda>b fack. if seq_diff (snd b) fack > 0 then snd b else fack) bs x"
  shows "seq_off a x \<le> seq_off a f \<and> seq_off a f \<le> w \<and> (\<forall>y \<in> blocks_cover a w bs. seq_off a y < seq_off a f)"
  using assms(2,3) unfolding f_def
proof (induction bs arbitrary: x)
  case (Cons b bs)
  have b: "block_ok a w b" "blocks_ok a w bs" using Cons.prems(1) by simp_all
  let ?x = "if seq_diff (snd b) x > 0 then snd b else x"
  have step: "seq_off a x \<le> seq_off a ?x \<and> seq_off a ?x \<le> w \<and> (seq_off a (snd b) \<le> w \<longrightarrow> seq_off a (snd b) \<le> seq_off a ?x)"
  proof (cases "seq_off a (snd b) \<le> w")
    case True
    then show ?thesis using seq_diff_less [of a "snd b" x] assms(1) Cons.prems(2) by auto
  next
    case False
    then have "seq_diff (snd b) x < 0" using b(1) Cons.prems(2) by (simp add: block_ok_def)
    then show ?thesis using False Cons.prems(2) by simp
  qed
  have cover: "seq_off a y < seq_off a ?x" if "y \<in> block_cover a w b" for y
    using that step block_cover_off [OF b(1), of y] by (auto simp del: if_split)
  have "seq_off a ?x \<le> w" using step by blast
  note ih = Cons.IH [OF b(2) this]
  show ?case unfolding fold_simps comp_def blocks_cover_simps using ih step cover by (meson UnE le_trans less_le_trans)
qed simp

lemma sack_new_fack_ok:
  assumes "W < 2147483648" "seq_off u (nx_tcp_socket_sack_high_ack s) \<le> W" "seq_off u (nx_tcp_socket_sack_fack s) \<le> W"
    and "blocks_ok (nx_tcp_socket_sack_high_ack s) (W - seq_off u (nx_tcp_socket_sack_high_ack s)) bs"
  shows "seq_off u (nx_tcp_socket_sack_fack s) - seq_off u (nx_tcp_socket_sack_high_ack s) \<le> seq_off (nx_tcp_socket_sack_high_ack s) (sack_new_fack bs s) \<and>
    seq_off (nx_tcp_socket_sack_high_ack s) (sack_new_fack bs s) \<le> W - seq_off u (nx_tcp_socket_sack_high_ack s) \<and>
    (\<forall>y \<in> blocks_cover (nx_tcp_socket_sack_high_ack s) (W - seq_off u (nx_tcp_socket_sack_high_ack s)) bs.
       seq_off (nx_tcp_socket_sack_high_ack s) y < seq_off (nx_tcp_socket_sack_high_ack s) (sack_new_fack bs s))"
proof -
  let ?a = "nx_tcp_socket_sack_high_ack s" and ?f = "nx_tcp_socket_sack_fack s"
  have half: "seq_off u ?a < 2147483648" "seq_off u ?f < 2147483648" using assms by linarith+
  let ?x = "if seq_diff ?a ?f > 0 then ?a else ?f"
  have x: "seq_off ?a ?x = seq_off u ?f - seq_off u ?a"
    using seq_diff_less [OF half] seq_off_rebase(1) [OF half] by auto
  then have le: "seq_off ?a ?x \<le> W - seq_off u ?a" using assms(3) by simp
  have "W - seq_off u ?a < 2147483648" using assms(1) by simp
  from fack_fold [OF this assms(4) le] show ?thesis unfolding x by (simp add: sack_new_fack_def Let_def)
qed

section \<open>Reading the board\<close>

lemma sack_read_nth:
  assumes "sack_board m hs s holes" "\<forall>i \<in> set is. i < length holes"
  shows "sack_read_holes m hs s (nx_sack_bank s) is = Some (map (\<lambda>i. holes ! i) is)"
  using assms(2)
proof (induction "is")
  case (Cons i js)
  obtain a where "sack_hole m s (nx_sack_bank s) i = Some a" "hs a = Some (holes ! i)"
    using assms(1) Cons.prems by (auto simp: sack_board_def dest!: sack.holds_nth)
  then show ?case using Cons by simp
qed simp

lemma sack_read_board: "sack_board m hs s holes \<Longrightarrow>
    sack_read_holes m hs s (nx_sack_bank s) [0 ..< nx_tcp_socket_sack_hole_count s] = Some holes"
  using sack_read_nth [of m hs s holes "[0 ..< length holes]"] by (simp add: sack_board_def map_nth)

lemma of_nat_seq_off: "of_nat (seq_off l r) = r - l"
  by (simp add: seq_off_def)

lemma sack_reported_ok:
  assumes "holes_ok a fack holes"
  shows "sack_reported a fack holes = of_nat (card (sack_evidence a fack holes))"
proof -
  have "fold (\<lambda>h sacked. sacked - (sack_hole_right h - sack_hole_left h)) hs x =
      x - of_nat (\<Sum>b \<leftarrow> holes_ranges hs. seq_off (fst b) (snd b))" for hs and x :: ulong
    by (induction hs arbitrary: x) (simp_all add: of_nat_seq_off diff_diff_eq)
  then have "sack_reported a fack holes = of_nat (seq_off a fack) - of_nat (card (ranges_set (holes_ranges holes)))"
    using card_ranges_set [OF assms [THEN holes_ok_ranges]] by (simp add: sack_reported_def of_nat_seq_off)
  moreover have sub: "ranges_set (holes_ranges holes) \<subseteq> seq_range a fack"
    using ranges_set_between [OF assms [THEN holes_ok_ranges]] by (auto simp: seq_range_def)
  then have "card (sack_evidence a fack holes) = seq_off a fack - card (ranges_set (holes_ranges holes))"
    by (simp add: sack_evidence_def card_Diff_subset card_seq_range)
  moreover have "card (ranges_set (holes_ranges holes)) \<le> seq_off a fack"
    using card_mono [OF _ sub] by (simp add: card_seq_range)
  ultimately show ?thesis by (simp add: of_nat_diff)
qed

section \<open>An update\<close>

lemma length_append_list: "length (append_list l r x) \<le> 1"
  by (simp add: append_list_def sack_scratch_append_def)

lemma length_rebuild_nothing:
  assumes "cap \<noteq> 0" "length holes \<le> cap" "discard \<or> fack = (if seq_diff ack old > 0 then ack else old)"
  shows "length (rebuild_list ack [] fack discard old holes) \<le> cap"
proof (cases discard)
  case True
  then show ?thesis using length_append_list [of ack fack ack] assms(1) by (simp add: rebuild_list_def)
next
  case False
  have one: "length (subtract_hole ack [] h) \<le> 1" for h by (simp add: subtract_hole_def length_append_list del: One_nat_def)
  have "length (concat (map (subtract_hole ack []) hs)) \<le> length hs" for hs
  proof (induction hs)
    case (Cons h hs)
    then show ?case using one [of h] by simp
  qed simp
  moreover have "append_list fack fack fack = []" by (rule append_list_empty) (simp add: seq_diff_pos)
  ultimately show ?thesis using False assms(2,3) le_trans [of "length (concat (map (subtract_hole ack []) holes))" "length holes" cap]
    by (simp add: rebuild_list_def Let_def)
qed

text \<open>The fields that an update leaves alone.\<close>

definition sack_rest :: "nx_sack_socket \<Rightarrow> nx_sack_socket" where
  "sack_rest s = s\<lparr>nx_tcp_socket_sack_hole_capacity := 0, nx_tcp_socket_sack_hole_count := 0, nx_tcp_socket_sack_fack := 0,
     nx_sack_bank := 0, nx_sack_uncertain := False, nx_tcp_socket_sack_uncertain_start := 0, nx_tcp_socket_sack_uncertain_end := 0\<rparr>"

lemma sack_new_fack_nothing:
  "sack_new_fack [] s = (if seq_diff (nx_tcp_socket_sack_high_ack s) (nx_tcp_socket_sack_fack s) > 0 then nx_tcp_socket_sack_high_ack s
     else nx_tcp_socket_sack_fack s)"
  by (simp add: sack_new_fack_def Let_def)

text \<open>Blocks that report nothing change nothing, so a list that does not fit has a block that reports something.\<close>

lemma far_blocks:
  assumes "blocks_ok a w bs" "blocks_cover a w bs = {}" "b \<in> set bs" "seq_off a x \<le> w"
  shows "seq_diff (snd b) x < 0"
proof -
  have b: "block_ok a w b" using assms(1,3) by (simp add: blocks_ok_def)
  have "block_cover a w b = {}" using assms(2,3) by (auto simp: blocks_cover_def)
  then have "w < seq_off a (snd b)" using block_cover_off [OF b, of "fst b"] b by (auto simp: block_ok_def not_le)
  then show ?thesis using b assms(4) by (simp add: block_ok_def)
qed

lemma subtract_list_far: "(\<And>b. b \<in> set bs \<Longrightarrow> seq_diff (snd b) l < 0) \<Longrightarrow> subtract_list l r x bs = append_list l r x"
proof (induction bs)
  case (Cons b bs)
  have "seq_diff (snd b) l \<le> 0" using Cons.prems [of b] by simp
  then show ?case using Cons by simp
qed simp

lemma fack_fold_far: "(\<And>b. b \<in> set bs \<Longrightarrow> seq_diff (snd b) x < 0) \<Longrightarrow>
    fold (\<lambda>b fack. if seq_diff (snd b) fack > 0 then snd b else fack) bs x = x"
proof (induction bs)
  case (Cons b bs)
  have "\<not> 0 < seq_diff (snd b) x" using Cons.prems [of b] by simp
  then show ?case using Cons by simp
qed simp

lemma rebuild_list_far:
  assumes W: "W < 2147483648" "seq_off u a \<le> W" and bs: "blocks_ok a (W - seq_off u a) bs" "blocks_cover a (W - seq_off u a) bs = {}"
    and holes: "holes_ok u old holes" "seq_off u old \<le> W"
  shows "rebuild_list a bs fack discard old holes = rebuild_list a [] fack discard old holes"
proof -
  have half: "seq_off u a < 2147483648" using W by simp
  have start: "seq_off a (if seq_diff a x > 0 then a else x) \<le> W - seq_off u a" if "seq_off u x \<le> W" for x
  proof -
    have "seq_off u x < 2147483648" using that W by simp
    then show ?thesis using seq_diff_less [OF half] seq_off_rebase(1) [OF half] that by auto
  qed
  note far = far_blocks [OF bs]
  have sub: "subtract_list l r x bs = append_list l r x" if "seq_off a l \<le> W - seq_off u a" for l r x
    using far that by (intro subtract_list_far) blast
  have "subtract_hole a bs h = subtract_hole a [] h" if "h \<in> set holes" for h
  proof -
    have "seq_off u (sack_hole_left h) \<le> W" using that holes by (fastforce simp: holes_ok_def ranges_ok_def)
    then show ?thesis unfolding subtract_hole_def using sub [OF start] by simp
  qed
  then have same: "map (subtract_hole a bs) holes = map (subtract_hole a []) holes" by simp
  show ?thesis using sub [OF start [OF holes(2)]] sub [of a] by (simp add: rebuild_list_def Let_def same)
qed

text \<open>After the advance of the acknowledgment: \<open>u\<close> is the base of the old holes.\<close>

lemma sack_update_result:
  fixes s :: nx_sack_socket
  defines "a \<equiv> nx_tcp_socket_sack_high_ack s"
  assumes live: "sack_live m hs s holes" and scoreboard: "nx_tcp_socket_sack_scoreboard s \<noteq> NX_NULL"
    and front: "sack_frontier_ok s"
    and W: "W < 2147483648" "seq_off u a \<le> W" "seq_off a (sack_data_end s) = W - seq_off u a"
    and old: "holes_ok u (nx_tcp_socket_sack_fack s) holes" "seq_off u (nx_tcp_socket_sack_fack s) \<le> W"
  shows "\<exists>m' hs' s' holes' dropped. sack_update S (sack_blocks s) discard m hs s =
      Some (of_nat (card (sack_evidence a (nx_tcp_socket_sack_fack s') holes')), m', hs', s') \<and>
    dom (nx_pools m') = dom (nx_pools m) \<and> sack_live m' hs' s' holes' \<and> holes_ok a (nx_tcp_socket_sack_fack s') holes' \<and>
    seq_off a (nx_tcp_socket_sack_fack s') \<le> W - seq_off u a \<and>
    sack_evidence a (nx_tcp_socket_sack_fack s') holes' =
      (if discard then {} else sack_evidence u (nx_tcp_socket_sack_fack s) holes - seq_range u a) \<union>
      (if dropped then {} else sack_option_bytes s) \<and>
    (if dropped then sack_option_bytes s \<noteq> {} \<and> nx_sack_uncertain s' \<and> nx_tcp_socket_sack_uncertain_end s' = sack_data_end s \<and>
       nx_tcp_socket_sack_uncertain_start s' =
         (if nx_sack_uncertain s then nx_tcp_socket_sack_uncertain_start s else nx_tcp_socket_sack_fack s)
     else nx_sack_uncertain s' = nx_sack_uncertain s \<and> nx_tcp_socket_sack_uncertain_end s' = nx_tcp_socket_sack_uncertain_end s \<and>
       nx_tcp_socket_sack_uncertain_start s' = nx_tcp_socket_sack_uncertain_start s) \<and>
    sack_rest s' = sack_rest s"
proof -
  let ?w = "W - seq_off u a" and ?f = "nx_tcp_socket_sack_fack s" and ?bs = "sack_blocks s"
  have small: "?w < 2147483648" using W(1) by simp
  have bs: "blocks_ok a ?w ?bs"
    using sack_blocks_ok [OF front] unfolding a_def [symmetric] W(3) by blast
  have bytes: "blocks_cover a ?w ?bs = sack_option_bytes s"
    using sack_blocks_cover [OF front] unfolding a_def [symmetric] W(3) .
  note fack = sack_new_fack_ok [where s = s, folded a_def, OF W(1,2) old(2)]
  define f where "f = sack_new_fack ?bs s"
  define L where "L = rebuild_list a ?bs f discard ?f holes"
  note list_ok = rebuild_list_ok [OF W(1,2) _ old]
  have high: "y \<in> blocks_cover a ?w ?bs \<Longrightarrow> seq_off a y < seq_off a f" for y using fack [OF bs] by (simp add: f_def)
  have f: "seq_off u ?f - seq_off u a \<le> seq_off a f" "seq_off a f \<le> ?w" using fack [OF bs] by (simp_all add: f_def)
  note L_ok = list_ok [OF bs f high, of discard, folded L_def]
  obtain r m' hs' s' c where retry: "sack_retry S ?bs f discard m hs s = Some (r, m', hs', s')"
    and pools: "dom (nx_pools m') = dom (nx_pools m)"
    and res: "if r then s' = s\<lparr>nx_tcp_socket_sack_hole_capacity := c, nx_tcp_socket_sack_hole_count := length L,
        nx_tcp_socket_sack_fack := f, nx_sack_bank := 1 - nx_sack_bank s\<rparr> \<and> sack_live m' hs' s' L
     else nx_tcp_socket_sack_hole_capacity s < length L \<and> s' = s\<lparr>nx_tcp_socket_sack_hole_capacity := c\<rparr> \<and> sack_live m' hs' s' holes"
    using sack_retry_result [OF live, where L = L and blocks = ?bs and fack = f and discard = discard and S = S] L_def a_def by blast
  show ?thesis
  proof (cases r)
    case True
    then have s': "nx_tcp_socket_sack_fack s' = f" "nx_tcp_socket_sack_high_ack s' = a" "sack_live m' hs' s' L"
      "sack_rest s' = sack_rest s" "nx_sack_uncertain s' = nx_sack_uncertain s"
      "nx_tcp_socket_sack_uncertain_end s' = nx_tcp_socket_sack_uncertain_end s"
      "nx_tcp_socket_sack_uncertain_start s' = nx_tcp_socket_sack_uncertain_start s"
      using res by (auto simp: a_def sack_rest_def)
    then have "sack_read_holes m' hs' s' (nx_sack_bank s') [0 ..< nx_tcp_socket_sack_hole_count s'] = Some L"
      by (intro sack_read_board) (simp add: sack_live_def)
    then have "sack_update S ?bs discard m hs s = Some (of_nat (card (sack_evidence a f L)), m', hs', s')"
      using scoreboard retry True sack_reported_ok [OF L_ok(1)] s'(1,2) by (simp add: sack_update_def f_def)
    then show ?thesis using s' L_ok f(2) bytes pools
      by (intro exI [of _ m'] exI [of _ hs'] exI [of _ s'] exI [of _ L] exI [of _ False]) simp
  next
    case False
    define start where "start = (if nx_sack_uncertain s' then nx_tcp_socket_sack_uncertain_start s' else nx_tcp_socket_sack_fack s')"
    define s2 where "s2 = s'\<lparr>nx_tcp_socket_sack_uncertain_start := start, nx_sack_uncertain := True,
                         nx_tcp_socket_sack_uncertain_end := sack_data_end s'\<rparr>"
    have s': "s' = s\<lparr>nx_tcp_socket_sack_hole_capacity := c\<rparr>" "sack_live m' hs' s' holes"
      and long: "nx_tcp_socket_sack_hole_capacity s < length L" using res False by auto
    have same_end: "sack_data_end s' = sack_data_end s" by (simp add: s'(1) sack_data_end_def)
    have s2: "nx_tcp_socket_sack_fack s2 = ?f" "nx_tcp_socket_sack_high_ack s2 = a" using s'(1) by (simp_all add: s2_def a_def)
    have live2: "sack_live m' hs' s2 holes" using s'(2) by (subst sack_live_cong [of s2 s']) (simp_all add: s2_def)
    define g where "g = sack_new_fack [] s2"
    define M where "M = rebuild_list a [] g discard ?f holes"
    have g: "g = (if seq_diff a ?f > 0 then a else ?f)" by (simp add: g_def sack_new_fack_nothing s2)
    have "blocks_ok a ?w []" by simp
    from fack [OF this] have g': "seq_off u ?f - seq_off u a \<le> seq_off a g" "seq_off a g \<le> ?w"
      unfolding g sack_new_fack_nothing a_def by simp_all
    note M_ok = list_ok [OF _ g', of "[]" discard, folded M_def, simplified]
    obtain ps F where ps: "sack_board m' hs' s2 holes" "sack_pages m' s2 ps" "ps \<noteq> []" "sack_source m' s2 ps F"
      using live2 by (auto simp: sack_live_def)
    have "nx_tcp_socket_sack_hole_capacity s2 \<noteq> 0" using ps(2,3) by (auto simp: sack_pages_def)
    moreover have "length holes \<le> nx_tcp_socket_sack_hole_capacity s2" using ps(1) by (auto simp: sack_board_def sack.holds_def)
    ultimately have fits: "length M \<le> nx_tcp_socket_sack_hole_capacity s2"
      unfolding M_def g by (intro length_rebuild_nothing) simp_all
    have reports: "sack_option_bytes s \<noteq> {}"
    proof
      assume none: "sack_option_bytes s = {}"
      then have cover: "blocks_cover a ?w ?bs = {}" using bytes by simp
      have "seq_off a g \<le> ?w" by (rule g'(2))
      then have "f = g" unfolding f_def g sack_new_fack_def Let_def a_def [symmetric]
        using far_blocks [OF bs cover] by (intro fack_fold_far) (simp add: g)
      then have "L = M" using rebuild_list_far [OF W(1,2) bs cover old] by (simp add: L_def M_def)
      have "length holes \<le> nx_tcp_socket_sack_hole_capacity s" "nx_tcp_socket_sack_hole_capacity s \<noteq> 0"
        using live by (auto simp: sack_live_def sack_board_def sack.holds_def sack_pages_def)
      then have "length M \<le> nx_tcp_socket_sack_hole_capacity s" unfolding M_def g by (intro length_rebuild_nothing) simp_all
      then show False using long \<open>L = M\<close> by simp
    qed
    define s3 where "s3 = s2\<lparr>nx_tcp_socket_sack_hole_count := length M, nx_tcp_socket_sack_fack := g, nx_sack_bank := 1 - nx_sack_bank s2\<rparr>"
    obtain hs3 where hs3: "sack_rebuild m' [] g discard hs' s2 = Some (True, hs3, s3)" "sack_board m' hs3 s3 M"
      using sack_rebuild_refines [OF ps(1), of M "[]" g discard] fits by (auto simp: M_def s2 s3_def)
    have live3: "sack_live m' hs3 s3 M"
      using hs3(2) ps(2-4) unfolding sack_live_def
      by (auto simp: s3_def sack_pages_def sack_source_def intro!: exI [of _ ps] exI [of _ F])
    have "sack_read_holes m' hs3 s3 (nx_sack_bank s3) [0 ..< nx_tcp_socket_sack_hole_count s3] = Some M"
      using hs3(2) by (rule sack_read_board)
    moreover have s3: "nx_tcp_socket_sack_fack s3 = g" "nx_tcp_socket_sack_high_ack s3 = a" "nx_sack_uncertain s3"
      "sack_rest s3 = sack_rest s" "nx_tcp_socket_sack_uncertain_end s3 = sack_data_end s"
      "nx_tcp_socket_sack_uncertain_start s3 =
         (if nx_sack_uncertain s then nx_tcp_socket_sack_uncertain_start s else nx_tcp_socket_sack_fack s)"
      using s'(1) same_end by (simp_all add: s3_def s2_def a_def sack_rest_def start_def)
    ultimately have "sack_update S ?bs discard m hs s = Some (of_nat (card (sack_evidence a g M)), m', hs3, s3)"
      using scoreboard retry False hs3(1) sack_reported_ok [OF M_ok(1)]
      by (simp add: sack_update_def Let_def flip: f_def start_def s2_def g_def)
    then show ?thesis using s3 M_ok live3 g'(2) reports pools
      by (intro exI [of _ m'] exI [of _ hs3] exI [of _ s3] exI [of _ M] exI [of _ True]) simp
  qed
qed

end
