(* ===== verification/Nx_Sack_Ack.thy ===== *)
theory Nx_Sack_Ack imports Nx_Sack_Update Nx_Pool_Client begin

text \<open>
  The state of the loss recovery between calls, and the processing of an acknowledgment: it returns, keeps
  the invariant, and updates the set of the reported bytes as its specification says.
\<close>

section \<open>The invariant\<close>

text \<open>The window is at most \<open>2 ^ 30\<close>, the limit of RFC 7323.\<close>

definition sack_shows :: "nx_mem \<Rightarrow> sack_slots \<Rightarrow> nx_sack_socket \<Rightarrow> ulong set \<Rightarrow> bool" where
  "sack_shows m hs s E \<longleftrightarrow>
     (if nx_tcp_socket_sack_scoreboard s = NX_NULL then E = {}
      else \<exists>holes. sack_live m hs s holes \<and>
        holes_ok (nx_tcp_socket_sack_high_ack s) (nx_tcp_socket_sack_fack s) holes \<and>
        seq_off (nx_tcp_socket_sack_high_ack s) (nx_tcp_socket_sack_fack s) \<le> seq_off (nx_tcp_socket_sack_high_ack s) (sack_data_end s) \<and>
        E = sack_evidence (nx_tcp_socket_sack_high_ack s) (nx_tcp_socket_sack_fack s) holes)"

definition sack_memory :: "nx_mem \<Rightarrow> nx_sack_socket \<Rightarrow> bool" where
  "sack_memory m s \<longleftrightarrow> (\<exists>F. pools_inv m F) \<and> payloads_separate m \<and>
     (nx_ip_default_packet_pool s \<noteq> NX_NULL \<longrightarrow> nx_ip_default_packet_pool s \<in> dom (nx_pools m))"

definition sack_uncertain_ok :: "nx_sack_socket \<Rightarrow> bool" where
  "sack_uncertain_ok s \<longleftrightarrow> (nx_sack_uncertain s \<longrightarrow>
     seq_off (nx_tcp_socket_sack_uncertain_start s) (nx_tcp_socket_sack_uncertain_end s) \<le> 0x40000000 \<and>
     0 < seq_off (nx_tcp_socket_sack_high_ack s) (nx_tcp_socket_sack_uncertain_end s) \<and>
     seq_off (nx_tcp_socket_sack_high_ack s) (nx_tcp_socket_sack_uncertain_end s) \<le> seq_off (nx_tcp_socket_sack_high_ack s) (sack_data_end s))"

definition sack_inv :: "nx_mem \<Rightarrow> sack_slots \<Rightarrow> nx_sack_socket \<Rightarrow> ulong set \<Rightarrow> bool" where
  "sack_inv m hs s E \<longleftrightarrow> nx_sack_initialized s \<and> nx_sack_bank s < 2 \<and>
     seq_off (nx_tcp_socket_sack_high_ack s) (sack_data_end s) \<le> 0x40000000 \<and>
     sack_shows m hs s E \<and> sack_memory m s \<and> sack_uncertain_ok s \<and>
     (nx_sack_alloc_failed s \<longrightarrow> nx_tcp_socket_sack_scoreboard s = NX_NULL) \<and>
     (\<not> nx_sack_alloc_failed s \<longrightarrow> card E \<le> unat (nx_tcp_socket_sack_delivery_bank s) \<and>
        unat (nx_tcp_socket_sack_delivery_bank s) \<le> seq_off (nx_tcp_socket_sack_high_ack s) (sack_data_end s))"

text \<open>The frontier of the uncertain state, seen from the acknowledgment.\<close>

lemma sack_uncertain_frontier:
  assumes "sack_uncertain_ok s" "seq_off (nx_tcp_socket_sack_high_ack s) (sack_data_end s) \<le> 0x40000000"
  shows "sack_frontier_ok s"
proof -
  let ?a = "nx_tcp_socket_sack_high_ack s" and ?f = "nx_tcp_socket_sack_uncertain_start s" and ?e = "nx_tcp_socket_sack_uncertain_end s"
  have "seq_off ?a ?f \<le> seq_off ?a (sack_data_end s) \<or> 0 < seq_off ?f ?a \<and> seq_off ?f ?a + seq_off ?a (sack_data_end s) < 2147483648"
    if u: "nx_sack_uncertain s"
  proof -
    have ue: "seq_off ?f ?e \<le> 0x40000000" "0 < seq_off ?a ?e" "seq_off ?a ?e \<le> seq_off ?a (sack_data_end s)"
      using assms(1) u by (auto simp: sack_uncertain_ok_def)
    show ?thesis
    proof (cases "seq_off ?f ?e < seq_off ?f ?a")
      case True
      then have "seq_off ?a ?e = seq_off ?f ?e + 4294967296 - seq_off ?f ?a" by (rule seq_off_back)
      then have far: "3221225472 \<le> seq_off ?f ?a" using ue assms(2) by linarith
      have "seq_off ?f ?f < seq_off ?f ?a" using True by simp
      then have "seq_off ?a ?f = seq_off ?f ?f + 4294967296 - seq_off ?f ?a" by (rule seq_off_back)
      then have "seq_off ?a ?f \<le> seq_off ?a ?e" using \<open>seq_off ?a ?e = _\<close> by simp
      then show ?thesis using ue(3) by linarith
    next
      case False
      then have "seq_off ?a ?e = seq_off ?f ?e - seq_off ?f ?a" by (intro seq_off_diff) simp
      then have "seq_off ?f ?a < 0x40000000" using ue by linarith
      then show ?thesis using assms(2) seq_off_inj [of ?f ?a ?f] by (cases "?a = ?f") auto
    qed
  qed
  then show ?thesis using assms(2) by (simp add: sack_frontier_ok_def Let_def)
qed

section \<open>The advance\<close>

lemma seq_off_self_less: "seq_off u x < 2147483648 \<Longrightarrow> 0 < seq_diff x u \<longleftrightarrow> 0 < seq_off u x"
  by (simp add: seq_diff_pos)

text \<open>The acknowledgment that counts: never beyond the data, never behind the last one.\<close>

definition sack_new_ack :: "nx_sack_socket \<Rightarrow> ulong \<Rightarrow> ulong" where
  "sack_new_ack s ack =
     (let ack = (if seq_diff ack (sack_data_end s) > 0 then sack_data_end s else ack)
      in if seq_diff ack (nx_tcp_socket_sack_high_ack s) > 0 then ack else nx_tcp_socket_sack_high_ack s)"

lemma sack_new_ack_range:
  assumes "seq_off (nx_tcp_socket_sack_high_ack s) (sack_data_end s) < 2147483648"
  shows "seq_off (nx_tcp_socket_sack_high_ack s) (sack_new_ack s ack) \<le> seq_off (nx_tcp_socket_sack_high_ack s) (sack_data_end s)"
    and "seq_off (nx_tcp_socket_sack_high_ack s) ack \<le> seq_off (nx_tcp_socket_sack_high_ack s) (sack_data_end s) \<Longrightarrow> sack_new_ack s ack = ack"
proof -
  let ?u = "nx_tcp_socket_sack_high_ack s" and ?e = "sack_data_end s"
  have le: "seq_off ?u x \<le> seq_off ?u ?e" if "0 < seq_diff x ?u" "\<not> 0 < seq_diff x ?e" for x
  proof -
    have "seq_off ?u x < 2147483648" using that(1) by (simp add: seq_diff_pos)
    then show ?thesis using seq_diff_less [of ?u x ?e] assms that(2) by auto
  qed
  have "\<not> 0 < seq_diff ?e ?e" by (simp add: seq_diff_pos)
  then show "seq_off ?u (sack_new_ack s ack) \<le> seq_off ?u ?e" using le [of ack] le [of ?e] by (simp add: sack_new_ack_def Let_def)
  assume ack: "seq_off ?u ack \<le> seq_off ?u ?e"
  then have "\<not> 0 < seq_diff ack ?e" using seq_diff_less [of ?u ack ?e] assms by auto
  moreover have "0 < seq_diff ack ?u \<longleftrightarrow> ack \<noteq> ?u"
    using ack assms seq_off_inj [of ?u ack ?u] by (auto simp: seq_diff_pos)
  ultimately show "sack_new_ack s ack = ack" by (auto simp: sack_new_ack_def)
qed

text \<open>The evidence is discarded exactly when the acknowledgment ends in front of a reported byte.\<close>

lemma sack_advance_result:
  assumes board: "sack_shows m hs s E" and W: "seq_off (nx_tcp_socket_sack_high_ack s) (sack_data_end s) < 2147483648"
    and a_def: "a = sack_new_ack s ack"
  shows "sack_advance m hs (if seq_diff ack (sack_data_end s) > 0 then sack_data_end s else ack) s =
    Some (a - nx_tcp_socket_sack_high_ack s, a \<noteq> nx_tcp_socket_sack_high_ack s \<and> a \<in> E, s\<lparr>nx_tcp_socket_sack_high_ack := a\<rparr>)"
proof -
  let ?u = "nx_tcp_socket_sack_high_ack s" and ?e = "sack_data_end s" and ?f = "nx_tcp_socket_sack_fack s"
  define k where "k = (if seq_diff ack ?e > 0 then ?e else ack)"
  have a: "a = (if seq_diff k ?u > 0 then k else ?u)" by (simp add: a_def sack_new_ack_def k_def Let_def)
  show ?thesis
  proof (cases "0 < seq_diff k ?u")
    case False
    then show ?thesis by (simp add: sack_advance_def a k_def [symmetric])
  next
    case True
    then have ak: "a = k" and ne: "a \<noteq> ?u" by (auto simp: a seq_diff_pos)
    have le: "seq_off ?u k \<le> seq_off ?u ?e" using sack_new_ack_range(1) [OF W, of ack] ak by (simp add: a_def)
    then have k: "seq_off ?u k < 2147483648" using W by simp
    show ?thesis
    proof (cases "nx_tcp_socket_sack_scoreboard s = NX_NULL")
      case None: True
      then have "E = {}" using board by (simp add: sack_shows_def)
      then show ?thesis using True None ak ne by (simp add: sack_advance_def flip: k_def)
    next
      case has: False
      then obtain holes where holes: "sack_live m hs s holes" "holes_ok ?u ?f holes" "seq_off ?u ?f \<le> seq_off ?u ?e"
        "E = sack_evidence ?u ?f holes" using board by (auto simp: sack_shows_def)
      have f: "seq_off ?u ?f < 2147483648" using holes(3) W by simp
      have fk: "seq_diff ?f k > 0 \<longleftrightarrow> seq_off ?u k < seq_off ?u ?f" using seq_diff_less [OF f k] by simp
      have one: "seq_diff k (sack_hole_left h) \<ge> 0 \<and> seq_diff (sack_hole_right h) k > 0 \<longleftrightarrow>
          seq_off ?u (sack_hole_left h) \<le> seq_off ?u k \<and> seq_off ?u k < seq_off ?u (sack_hole_right h)" if "h \<in> set holes" for h
      proof -
        have "seq_off ?u (sack_hole_left h) < seq_off ?u (sack_hole_right h)" "seq_off ?u (sack_hole_right h) \<le> seq_off ?u ?f"
          using that holes(2) by (auto simp: holes_ok_def ranges_ok_def)
        then have "seq_off ?u (sack_hole_left h) < 2147483648" "seq_off ?u (sack_hole_right h) < 2147483648" using f by linarith+
        then show ?thesis using seq_diff_less [OF k] seq_diff_less [OF _ k] by auto
      qed
      have "list_ex (\<lambda>h. seq_diff k (sack_hole_left h) \<ge> 0 \<and> seq_diff (sack_hole_right h) k > 0) holes \<longleftrightarrow>
          k \<in> ranges_set (holes_ranges holes)"
        unfolding ranges_set_off [OF holes(2) [THEN holes_ok_ranges]] list_ex_iff using one by auto
      moreover have "sack_read_holes m hs s (nx_sack_bank s) [0 ..< nx_tcp_socket_sack_hole_count s] = Some holes"
        using holes(1) by (intro sack_read_board) (simp add: sack_live_def)
      ultimately show ?thesis using True has ak ne holes(4) fk
        by (simp add: sack_advance_def sack_evidence_off flip: k_def)
    qed
  qed
qed

section \<open>The first control page\<close>

lemma payloads_separate_taken:
  assumes "payloads_separate m" "nx_packets m a = Some pk"
  shows "payloads_separate (taken P pool n a pk m)"
proof -
  have "payloads_separate (put_packet a (alloc_header n pk) m)" using assms by (intro payloads_separate_put) auto
  then show ?thesis by (simp add: payloads_separate_def taken_def)
qed

lemma payloads_separate_freed:
  assumes "payloads_separate m" "nx_packets m a = Some pk"
  shows "payloads_separate (freed P pool a pk m)"
proof -
  have "payloads_separate (put_packet a (pk\<lparr>nx_packet_tcp_queue_next := NX_PACKET_FREE,
                      nx_packet_queue_next := nx_packet_pool_available_list pool\<rparr>) m)"
    using assms by (intro payloads_separate_put) auto
  then show ?thesis by (simp add: payloads_separate_def freed_def)
qed

definition sack_opened :: "nat \<Rightarrow> nat \<Rightarrow> nx_sack_socket \<Rightarrow> nx_sack_socket" where
  "sack_opened p cap s = s\<lparr>nx_tcp_socket_sack_scoreboard := p, nx_tcp_socket_sack_page_capacity := cap,
     nx_tcp_socket_sack_hole_capacity := cap, nx_tcp_socket_sack_hole_count := 0,
     nx_tcp_socket_sack_fack := nx_tcp_socket_sack_high_ack s\<rparr>"

text \<open>A packet that was just taken can be released.\<close>

lemma taken_released:
  assumes inv: "pools_inv m F" "nx_pools m P = Some pool" "F P = a # fs"
    and pk: "nx_packets m a = Some pk" "nx_packet_pool_owner pk = P" "a \<noteq> NX_NULL"
    and inv': "pools_inv (taken P pool 0 a pk m) (F(P := fs))"
  shows "\<exists>m' F'. nx_packet_release a (taken P pool 0 a pk m) = Some (NX_SUCCESS, m') \<and> pools_inv m' F' \<and>
    dom (nx_pools m') = dom (nx_pools m) \<and> (payloads_separate m \<longrightarrow> payloads_separate m')"
proof -
  let ?m1 = "taken P pool 0 a pk m" and ?pk = "alloc_header 0 pk"
  let ?pool = "pool\<lparr>nx_packet_pool_available := nx_packet_pool_available pool - 1,
                    nx_packet_pool_available_list := nx_packet_queue_next pk\<rparr>"
  have "free_list_ok m P pool (a # fs)" "waiting_ok m P pool"
    using pools_invD [OF inv(1,2)] inv(2,3) by (auto elim!: pool_invE)
  then have nobody: "nx_packet_pool_suspension_list ?pool = []" by (auto simp: free_list_ok_def waiting_ok_def)
  have p: "nx_pools ?m1 P = Some ?pool" and k: "nx_packets ?m1 a = Some ?pk" by (simp_all add: taken_def)
  note rel = nx_packet_release_single [OF inv' p k _ pk(3) _ _ nobody]
  have own: "nx_packet_pool_owner ?pk = P" using pk(2) by simp
  have "payloads_separate (freed P ?pool a ?pk ?m1)" if "payloads_separate m"
    using payloads_separate_freed [OF payloads_separate_taken [OF that pk(1)] k] .
  moreover have "dom (nx_pools (freed P ?pool a ?pk ?m1)) = dom (nx_pools m)" using inv(2) by (auto simp: freed_def taken_def)
  moreover have "nx_packet_release a ?m1 = Some (NX_SUCCESS, freed P ?pool a ?pk ?m1)" by (rule rel(1)) (use own in simp_all)
  moreover have "pools_inv (freed P ?pool a ?pk ?m1) ((F(P := fs))(P := a # (F(P := fs)) P))" by (rule rel(2)) (use own in simp_all)
  ultimately show ?thesis by blast
qed

lemma sack_open_result:
  assumes mem: "sack_memory m s" and bank: "nx_sack_bank s < 2"
  shows "\<exists>m' s'. sack_open S m blocks s = Some (m', s') \<and> sack_memory m' s' \<and>
    (if nx_tcp_socket_sack_scoreboard s \<noteq> NX_NULL \<or> blocks = [] \<or> nx_sack_alloc_failed s then m' = m \<and> s' = s
     else s' = s\<lparr>nx_sack_alloc_failed := True\<rparr> \<or>
       (\<exists>p cap. p \<noteq> NX_NULL \<and> s' = sack_opened p cap s \<and> sack_live m' hs s' []))"
proof (cases "nx_tcp_socket_sack_scoreboard s \<noteq> NX_NULL \<or> blocks = [] \<or> nx_sack_alloc_failed s")
  case True
  then show ?thesis using mem by (auto simp: sack_open_def)
next
  case False
  then have go: "nx_tcp_socket_sack_scoreboard s = NX_NULL" "blocks \<noteq> []" "\<not> nx_sack_alloc_failed s" by auto
  obtain F where inv: "pools_inv m F" "payloads_separate m" using mem by (auto simp: sack_memory_def)
  let ?P = "nx_ip_default_packet_pool s"
  let ?failed = "s\<lparr>nx_sack_alloc_failed := True\<rparr>"
  have failed: ?thesis if "sack_open S m blocks s = Some (m', ?failed)" "pools_inv m' F'" "payloads_separate m'"
      "dom (nx_pools m') = dom (nx_pools m)" for m' F'
    using that False mem by (auto simp: sack_memory_def)
  show ?thesis
  proof (cases "?P = NX_NULL")
    case True
    then have "sack_open S m blocks s = Some (m, ?failed)" using go by (simp add: sack_open_def)
    then show ?thesis using failed inv by blast
  next
    case pool: False
    then obtain pool where P: "nx_pools m ?P = Some pool" using mem by (auto simp: sack_memory_def)
    show ?thesis
    proof (cases "F ?P")
      case Nil
      note empty = nx_packet_allocate_empty [OF inv(1) P Nil le0]
      have "sack_open S m blocks s = Some (refused ?P pool m, ?failed)" using go pool empty(1) by (simp add: sack_open_def)
      moreover have "payloads_separate (refused ?P pool m)" using inv(2) by (simp add: payloads_separate_def refused_def)
      moreover have "dom (nx_pools (refused ?P pool m)) = dom (nx_pools m)" using P by (auto simp: refused_def)
      ultimately show ?thesis using failed empty(2) by blast
    next
      case (Cons a fs)
      obtain pk where pk: "nx_packets m a = Some pk" "nx_packet_pool_owner pk = ?P" "a \<noteq> NX_NULL"
        "slot_ok (nx_packet_pool_payload_size pool) pk"
        "nx_packet_allocate S ?P NX_NULL 0 NX_NO_WAIT m = Some (NX_SUCCESS, a, taken ?P pool 0 a pk m)"
        "pools_inv (taken ?P pool 0 a pk m) (F(?P := fs))"
        using nx_packet_allocate_success [OF inv(1) P Cons, of 0] by (metis le0)
      let ?m1 = "taken ?P pool 0 a pk m"
      have k: "nx_packets ?m1 a = Some (alloc_header 0 pk)" by (simp add: taken_def)
      have room: "nx_packet_data_end (alloc_header 0 pk) - nx_packet_prepend_ptr (alloc_header 0 pk) = nx_packet_pool_payload_size pool"
        using pk(4) by (simp add: slot_ok_def)
      define n where "n = nx_packet_pool_payload_size pool div 24"
      define cap where "cap = (if 64 < n then 64 else n)"
      show ?thesis
      proof (cases "2 \<le> n")
        case False
        obtain m' F' where m': "nx_packet_release a ?m1 = Some (NX_SUCCESS, m')" "pools_inv m' F'"
          "dom (nx_pools m') = dom (nx_pools m)" "payloads_separate m'"
          using taken_released [OF inv(1) P Cons pk(1-3,6)] inv(2) by blast
        have "sack_open S m blocks s = Some (m', ?failed)"
          using go pool pk(5) k room False m'(1) by (simp add: sack_open_def n_def)
        then show ?thesis using failed m' by blast
      next
        case True
        let ?s = "sack_opened a cap s"
        have run: "sack_open S m blocks s = Some (?m1, ?s)"
          using go pool pk(3,5) k room True by (simp add: sack_open_def sack_opened_def n_def [symmetric] cap_def Let_def)
        have cap: "0 < cap" "24 * cap \<le> nx_packet_pool_payload_size pool" using True by (auto simp: cap_def n_def)
        have sep: "payloads_separate ?m1" using payloads_separate_taken inv(2) pk(1) by blast
        have pages: "sack_pages ?m1 ?s [a]"
          using k cap pk(3,4) by (simp add: sack_pages_def sack_opened_def slot_ok_def alloc_header_def)
        have source: "sack_source ?m1 ?s [a] (F(?P := fs))"
          unfolding sack_source_def using pk(2,6) sep k cap
          by (intro conjI exI [of _ ?P] exI [of _ "pool\<lparr>nx_packet_pool_available := nx_packet_pool_available pool - 1,
            nx_packet_pool_available_list := nx_packet_queue_next pk\<rparr>"]) (simp_all add: sack_opened_def taken_def)
        have "sack_board ?m1 hs ?s []"
          unfolding sack_board_def using pages bank by (auto simp: sack_opened_def sack.holds_Nil)
        then have live: "sack_live ?m1 hs ?s []" unfolding sack_live_def using pages source by blast
        have "?P \<in> dom (nx_pools ?m1)" by (simp add: taken_def)
        then have "sack_memory ?m1 ?s" using pk(6) sep by (auto simp: sack_memory_def sack_opened_def)
        then show ?thesis using run live pk(3) False by auto
      qed
    qed
  qed
qed

section \<open>Lost retransmissions\<close>

lemma sack_live_ranges:
  assumes "sack_live m hs s holes"
  shows "sack_read_holes m hs s (nx_sack_bank s) [0 ..< nx_tcp_socket_sack_hole_count s] = Some holes"
  using assms by (intro sack_read_board) (simp add: sack_live_def)

text \<open>A change of the retransmission mark of a hole.\<close>

lemma sack_live_mark:
  assumes "sack_live m hs s holes" "i < length holes"
  obtains a where "sack_hole m s (nx_sack_bank s) i = Some a" "hs a = Some (holes ! i)"
    "\<And>h. sack_live m (hs(a \<mapsto> h)) s (holes[i := h])"
proof -
  have board: "sack_board m hs s holes" using assms(1) by (simp add: sack_live_def)
  then have ok: "sack_ok (m, s)" "nx_sack_bank s < 2" "sack_holds m s hs (nx_sack_bank s) holes" by (auto simp: sack_board_def)
  obtain a where a: "sack_hole m s (nx_sack_bank s) i = Some a" "hs a = Some (holes ! i)"
    using sack.holds_nth [OF ok(3) assms(2)] by auto
  have "sack_holds m s (hs(a \<mapsto> h)) (nx_sack_bank s) (holes[i := h])" for h
    using sack.holds_update [OF ok(1,2) _ assms(2) ok(3), of a h] a by simp
  then have "sack_board m (hs(a \<mapsto> h)) s (holes[i := h])" for h using board by (simp add: sack_board_def)
  then show ?thesis using that a assms(1) unfolding sack_live_def by blast
qed

lemma holes_ranges_mark: "i < length holes \<Longrightarrow> hole_range h = hole_range (holes ! i) \<Longrightarrow>
    holes_ranges (holes[i := h]) = holes_ranges holes"
  using list_update_id [of "holes_ranges holes" i] by (simp add: map_update)

lemma sack_lost_holes_result:
  assumes "sack_live m hs s holes" "\<forall>i \<in> set is. i < length holes" "\<forall>h \<in> set holes. hole_marked h"
  shows "\<exists>hs' holes' x. sack_lost_holes m is (hs, s) = Some (hs', s\<lparr>nx_tcp_socket_tx_high_rxt := x\<rparr>) \<and>
    sack_live m hs' (s\<lparr>nx_tcp_socket_tx_high_rxt := x\<rparr>) holes' \<and> holes_ranges holes' = holes_ranges holes \<and>
    (\<forall>h \<in> set holes'. hole_marked h)"
  using assms
proof (induction "is" arbitrary: hs s holes)
  case Nil
  then show ?case by (intro exI [of _ hs] exI [of _ holes] exI [of _ "nx_tcp_socket_tx_high_rxt s"]) simp
next
  case (Cons i js)
  have i: "i < length holes" using Cons.prems(2) by simp
  obtain a where a: "sack_hole m s (nx_sack_bank s) i = Some a" "hs a = Some (holes ! i)"
    "\<And>h. sack_live m (hs(a \<mapsto> h)) s (holes[i := h])" using sack_live_mark [OF Cons.prems(1) i] by blast
  let ?h = "holes ! i"
  let ?h' = "?h\<lparr>sack_hole_rxmit := sack_hole_left ?h\<rparr>"
  show ?case
  proof (cases "seq_diff (sack_hole_rxmit ?h) (sack_hole_left ?h) > 0")
    case False
    then show ?thesis using a(1,2) Cons.IH [OF Cons.prems(1) _ Cons.prems(3)] Cons.prems(2) by simp
  next
    case True
    define s' where "s' = (if seq_diff (nx_tcp_socket_tx_high_rxt s) (sack_hole_left ?h) > 0
        then s\<lparr>nx_tcp_socket_tx_high_rxt := sack_hole_left ?h\<rparr> else s)"
    have live: "sack_live m (hs(a \<mapsto> ?h')) s' (holes[i := ?h'])"
      using a(3) [of ?h'] by (subst sack_live_cong [of s' s]) (simp_all add: s'_def)
    have all: "\<forall>j \<in> set js. j < length (holes[i := ?h'])" using Cons.prems(2) by simp
    have "hole_marked ?h'" by (simp add: hole_marked_def)
    then have marked: "\<forall>h \<in> set (holes[i := ?h']). hole_marked h"
      using Cons.prems(3) set_update_subset_insert [of holes i ?h'] by blast
    from Cons.IH [OF live all marked] obtain hs2 holes2 x where
      "sack_lost_holes m js (hs(a \<mapsto> ?h'), s') = Some (hs2, s'\<lparr>nx_tcp_socket_tx_high_rxt := x\<rparr>)"
      "sack_live m hs2 (s'\<lparr>nx_tcp_socket_tx_high_rxt := x\<rparr>) holes2" "holes_ranges holes2 = holes_ranges (holes[i := ?h'])"
      "\<forall>h \<in> set holes2. hole_marked h" by blast
    moreover have "s'\<lparr>nx_tcp_socket_tx_high_rxt := x\<rparr> = s\<lparr>nx_tcp_socket_tx_high_rxt := x\<rparr>" by (simp add: s'_def)
    moreover have "holes_ranges (holes[i := ?h']) = holes_ranges holes" using i by (intro holes_ranges_mark) (simp_all add: hole_range_def)
    moreover have "sack_lost_holes m (i # js) (hs, s) = sack_lost_holes m js (hs(a \<mapsto> ?h'), s')"
      using a(1,2) True by (simp add: s'_def)
    ultimately show ?thesis by (metis (no_types))
  qed
qed

end
