(* ===== verification/Nx_Sack_Inv.thy ===== *)
theory Nx_Sack_Inv imports Nx_Sack_Ack begin

text \<open>
  The processing of an acknowledgment as a whole: it always returns, keeps the invariant, takes the bytes of the
  recorded blocks into the evidence and credits every delivered byte once.
\<close>

section \<open>The fields of the invariant\<close>

definition sack_same :: "nx_sack_socket \<Rightarrow> nx_sack_socket \<Rightarrow> bool" where
  "sack_same s s' \<longleftrightarrow>
     nx_sack_initialized s' = nx_sack_initialized s \<and> nx_sack_bank s' = nx_sack_bank s \<and>
     nx_tcp_socket_sack_high_ack s' = nx_tcp_socket_sack_high_ack s \<and> nx_tcp_socket_sack_fack s' = nx_tcp_socket_sack_fack s \<and>
     sack_data_end s' = sack_data_end s \<and> nx_tcp_socket_sack_scoreboard s' = nx_tcp_socket_sack_scoreboard s \<and>
     nx_tcp_socket_sack_page_capacity s' = nx_tcp_socket_sack_page_capacity s \<and>
     nx_tcp_socket_sack_hole_capacity s' = nx_tcp_socket_sack_hole_capacity s \<and>
     nx_tcp_socket_sack_hole_count s' = nx_tcp_socket_sack_hole_count s \<and>
     nx_ip_default_packet_pool s' = nx_ip_default_packet_pool s \<and> nx_sack_uncertain s' = nx_sack_uncertain s \<and>
     nx_tcp_socket_sack_uncertain_start s' = nx_tcp_socket_sack_uncertain_start s \<and>
     nx_tcp_socket_sack_uncertain_end s' = nx_tcp_socket_sack_uncertain_end s \<and>
     nx_sack_alloc_failed s' = nx_sack_alloc_failed s \<and>
     nx_tcp_socket_sack_delivery_bank s' = nx_tcp_socket_sack_delivery_bank s \<and>
     nx_tcp_socket_sack_left s' = nx_tcp_socket_sack_left s \<and> nx_tcp_socket_sack_right s' = nx_tcp_socket_sack_right s \<and>
     nx_tcp_socket_sack_block_count s' = nx_tcp_socket_sack_block_count s \<and>
     nx_tcp_socket_tx_sequence s' = nx_tcp_socket_tx_sequence s"

lemma sack_blocks_cong:
  assumes "nx_tcp_socket_sack_high_ack s' = nx_tcp_socket_sack_high_ack s" "sack_data_end s' = sack_data_end s"
    "nx_tcp_socket_tx_sequence s' = nx_tcp_socket_tx_sequence s" "nx_sack_uncertain s' = nx_sack_uncertain s"
    "nx_tcp_socket_sack_uncertain_start s' = nx_tcp_socket_sack_uncertain_start s"
    "nx_tcp_socket_sack_left s' = nx_tcp_socket_sack_left s" "nx_tcp_socket_sack_right s' = nx_tcp_socket_sack_right s"
    "nx_tcp_socket_sack_block_count s' = nx_tcp_socket_sack_block_count s"
  shows "sack_blocks s' = sack_blocks s" "sack_option_bytes s' = sack_option_bytes s" "sack_frontier_ok s' = sack_frontier_ok s"
proof -
  have "sack_block_clip s' = sack_block_clip s" "sack_block_bytes s' = sack_block_bytes s"
    using assms by (intro ext; simp add: sack_block_clip_def sack_block_bytes_def Let_def cong: if_cong)+
  then show "sack_blocks s' = sack_blocks s" "sack_option_bytes s' = sack_option_bytes s" "sack_frontier_ok s' = sack_frontier_ok s"
    using assms by (simp_all add: sack_blocks_def sack_option_bytes_def sack_frontier_ok_def)
qed

lemma sack_same_blocks:
  assumes "sack_same s s'"
  shows "sack_blocks s' = sack_blocks s" "sack_option_bytes s' = sack_option_bytes s" "sack_frontier_ok s' = sack_frontier_ok s"
  by (rule sack_blocks_cong; use assms in \<open>simp add: sack_same_def\<close>)+

lemma sack_same_live: "sack_same s s' \<Longrightarrow> sack_live m hs s' holes \<longleftrightarrow> sack_live m hs s holes"
  by (rule sack_live_cong) (simp_all add: sack_same_def)

lemma sack_same_shows: "sack_same s s' \<Longrightarrow> sack_shows m hs s' E \<longleftrightarrow> sack_shows m hs s E"
  using sack_same_live [of s s' m hs] by (simp add: sack_shows_def sack_same_def)

lemma sack_same_inv: "sack_same s s' \<Longrightarrow> sack_inv m hs s' E \<longleftrightarrow> sack_inv m hs s E"
  using sack_same_shows [of s s' m hs E] by (simp add: sack_inv_def sack_same_def sack_memory_def sack_uncertain_ok_def)

text \<open>The view is always there.\<close>

lemma sack_view_shows:
  assumes "sack_shows m hs s E"
  obtains v where "sack_view m hs s = Some v"
    "nx_tcp_socket_sack_scoreboard s \<noteq> NX_NULL \<Longrightarrow> holes_ok (nx_tcp_socket_sack_high_ack s) (nx_tcp_socket_sack_fack s) (fst v) \<and>
       E = sack_evidence (nx_tcp_socket_sack_high_ack s) (nx_tcp_socket_sack_fack s) (fst v) \<and> snd v = nx_tcp_socket_sack_fack s"
proof (cases "nx_tcp_socket_sack_scoreboard s = NX_NULL")
  case True
  then show ?thesis using that by (simp add: sack_view_def)
next
  case False
  then obtain holes where h: "sack_live m hs s holes" "holes_ok (nx_tcp_socket_sack_high_ack s) (nx_tcp_socket_sack_fack s) holes"
    "E = sack_evidence (nx_tcp_socket_sack_high_ack s) (nx_tcp_socket_sack_fack s) holes" using assms by (auto simp: sack_shows_def)
  show ?thesis using that [of "(holes, nx_tcp_socket_sack_fack s)"] False h sack_live_ranges [OF h(1)] by (simp add: sack_view_def)
qed

lemma sack_prr_credit_result:
  assumes "sack_shows m hs s E"
  shows "\<exists>s'. sack_prr_credit m hs s = Some s' \<and> sack_same s s' \<and>
    nx_tcp_socket_sack_delivered_data s' = nx_tcp_socket_sack_delivered_data s"
proof -
  obtain v where "sack_view m hs s = Some v" using sack_view_shows [OF assms] by blast
  then show ?thesis
    by (cases v) (simp add: sack_prr_credit_def nx_tcp_sack_recovery_pipe_def Let_def sack_same_def sack_data_end_def)
qed

lemma sack_lost_retransmit_result:
  assumes "sack_inv m hs s E" "nx_tcp_socket_sack_scoreboard s \<noteq> NX_NULL"
  shows "\<exists>hs' s'. sack_lost_retransmit m hs s = Some (hs', s') \<and> sack_inv m hs' s' E \<and> sack_same s s' \<and>
    nx_tcp_socket_sack_delivered_data s' = nx_tcp_socket_sack_delivered_data s"
proof (cases "seq_diff (nx_tcp_socket_sack_fack s) (nx_tcp_socket_sack_rxt_mark s) < sint (nx_tcp_socket_connect_mss s)")
  case True
  then show ?thesis using assms(1) by (simp add: sack_lost_retransmit_def sack_same_def)
next
  case False
  have shows': "sack_shows m hs s E" using assms(1) by (simp add: sack_inv_def)
  then obtain holes where h: "sack_live m hs s holes" "holes_ok (nx_tcp_socket_sack_high_ack s) (nx_tcp_socket_sack_fack s) holes"
    "seq_off (nx_tcp_socket_sack_high_ack s) (nx_tcp_socket_sack_fack s) \<le> seq_off (nx_tcp_socket_sack_high_ack s) (sack_data_end s)"
    "E = sack_evidence (nx_tcp_socket_sack_high_ack s) (nx_tcp_socket_sack_fack s) holes" using assms(2) by (auto simp: sack_shows_def)
  have "nx_tcp_socket_sack_hole_count s = length holes" using h(1) by (simp add: sack_live_def sack_board_def)
  then obtain hs' holes' x where r: "sack_lost_retransmit m hs s = Some (hs', s\<lparr>nx_tcp_socket_tx_high_rxt := x\<rparr>)"
    "sack_live m hs' (s\<lparr>nx_tcp_socket_tx_high_rxt := x\<rparr>) holes'" "holes_ranges holes' = holes_ranges holes"
    "\<forall>h \<in> set holes'. hole_marked h"
    using sack_lost_holes_result [OF h(1), of "[0 ..< nx_tcp_socket_sack_hole_count s]"] False h(2)
    by (auto simp: sack_lost_retransmit_def holes_ok_def)
  define s' where "s' = s\<lparr>nx_tcp_socket_tx_high_rxt := x\<rparr>"
  have same: "sack_same s s'" "nx_tcp_socket_sack_delivered_data s' = nx_tcp_socket_sack_delivered_data s"
    by (simp_all add: s'_def sack_same_def sack_data_end_def)
  have live: "sack_live m hs' s holes'" using r(2) sack_same_live [OF same(1)] by (simp add: s'_def)
  have "holes_ok (nx_tcp_socket_sack_high_ack s) (nx_tcp_socket_sack_fack s) holes'"
    "E = sack_evidence (nx_tcp_socket_sack_high_ack s) (nx_tcp_socket_sack_fack s) holes'"
    using h(2,4) r(3,4) by (simp_all add: holes_ok_def sack_evidence_def)
  then have "sack_shows m hs' s E" using assms(2) live h(3) by (auto simp: sack_shows_def)
  then have "sack_inv m hs' s E" using assms(1) by (simp add: sack_inv_def)
  then show ?thesis using r(1) same sack_same_inv [OF same(1)] by (intro exI [of _ hs'] exI [of _ s']) (simp add: s'_def)
qed

section \<open>Delivery\<close>

lemma sack_deliver_result:
  assumes "unat advance + unat sacked < 4294967296"
    and s'_def: "s' = sack_deliver advance sacked s"
  shows "unat (nx_tcp_socket_sack_delivered_data s') + unat (nx_tcp_socket_sack_delivery_bank s) =
      unat advance + unat (nx_tcp_socket_sack_delivery_bank s')"
    and "unat (nx_tcp_socket_sack_delivery_bank s') =
      max (unat sacked) (unat (nx_tcp_socket_sack_delivery_bank s) - unat advance)"
proof -
  define b where "b = nx_tcp_socket_sack_delivery_bank s"
  have sum: "unat (advance + sacked) = unat advance + unat sacked" using assms(1) by (rule unat_plus_ulong)
  have del: "unat (if b < advance + sacked then advance + sacked - b else 0) = unat advance + unat sacked - unat b"
    using sum unat_minus_ulong [of b "advance + sacked"] by (simp add: word_less_nat_alt)
  have bank: "unat (if advance < b then b - advance else 0) = unat b - unat advance"
    using unat_minus_ulong [of advance b] by (simp add: word_less_nat_alt)
  have new: "unat (nx_tcp_socket_sack_delivery_bank s') = max (unat sacked) (unat b - unat advance)"
    using bank by (auto simp: s'_def sack_deliver_def Let_def word_less_nat_alt b_def [symmetric])
  have "unat (nx_tcp_socket_sack_delivered_data s') = unat advance + unat sacked - unat b"
    using del by (simp add: s'_def sack_deliver_def Let_def flip: b_def)
  then show "unat (nx_tcp_socket_sack_delivered_data s') + unat (nx_tcp_socket_sack_delivery_bank s) =
      unat advance + unat (nx_tcp_socket_sack_delivery_bank s')" using new by (simp flip: b_def)
  show "unat (nx_tcp_socket_sack_delivery_bank s') =
      max (unat sacked) (unat (nx_tcp_socket_sack_delivery_bank s) - unat advance)" using new by (simp flip: b_def)
qed

section \<open>The acknowledgment\<close>

text \<open>The socket when the blocks are recorded: the acknowledgment has advanced, which may end the uncertain state.\<close>

definition sack_at :: "nx_sack_socket \<Rightarrow> ulong \<Rightarrow> nx_sack_socket" where
  "sack_at s a = s\<lparr>nx_tcp_socket_sack_high_ack := a,
     nx_sack_uncertain := (nx_sack_uncertain s \<and> seq_diff a (nx_tcp_socket_sack_uncertain_end s) < 0)\<rparr>"

lemma sack_at_simps [simp]:
  "nx_tcp_socket_sack_high_ack (sack_at s a) = a" "sack_data_end (sack_at s a) = sack_data_end s"
  "nx_tcp_socket_sack_scoreboard (sack_at s a) = nx_tcp_socket_sack_scoreboard s"
  "nx_tcp_socket_sack_fack (sack_at s a) = nx_tcp_socket_sack_fack s" "nx_sack_bank (sack_at s a) = nx_sack_bank s"
  "nx_sack_alloc_failed (sack_at s a) = nx_sack_alloc_failed s" "nx_sack_initialized (sack_at s a) = nx_sack_initialized s"
  "nx_tcp_socket_sack_delivery_bank (sack_at s a) = nx_tcp_socket_sack_delivery_bank s"
  "nx_ip_default_packet_pool (sack_at s a) = nx_ip_default_packet_pool s"
  by (simp_all add: sack_at_def sack_data_end_def)

lemma sack_progress_same: "sack_same (sack_at s a) (sack_progress d (s\<lparr>nx_tcp_socket_sack_high_ack := a\<rparr>))"
  by (simp add: sack_progress_def sack_at_def sack_same_def sack_data_end_def Let_def not_le cong: if_cong) blast

lemma sack_at_uncertain:
  assumes "sack_uncertain_ok s" "seq_off (nx_tcp_socket_sack_high_ack s) (sack_data_end s) \<le> 0x40000000"
    and "seq_off (nx_tcp_socket_sack_high_ack s) a \<le> seq_off (nx_tcp_socket_sack_high_ack s) (sack_data_end s)"
  shows "sack_uncertain_ok (sack_at s a)"
proof -
  let ?u = "nx_tcp_socket_sack_high_ack s" and ?e = "sack_data_end s" and ?x = "nx_tcp_socket_sack_uncertain_end s"
  have e: "sack_data_end (sack_at s a) = ?e" by simp
  have "0 < seq_off a ?x \<and> seq_off a ?x \<le> seq_off a ?e" if "nx_sack_uncertain s" "seq_diff a ?x < 0"
  proof -
    have x: "0 < seq_off ?u ?x" "seq_off ?u ?x \<le> seq_off ?u ?e" using assms(1) that(1) by (auto simp: sack_uncertain_ok_def)
    then have "seq_off ?u a < seq_off ?u ?x" using seq_diff_less [of ?u a ?x] assms(2,3) that(2) by auto
    then show ?thesis using seq_off_diff [of ?u a ?x] seq_off_diff [of ?u a ?e] x assms(3) by auto
  qed
  then show ?thesis using assms(1) unfolding sack_uncertain_ok_def e by (auto simp: sack_at_def)
qed

lemma sack_at_frontier:
  assumes "sack_uncertain_ok s" "seq_off (nx_tcp_socket_sack_high_ack s) (sack_data_end s) \<le> 0x40000000"
    and "seq_off (nx_tcp_socket_sack_high_ack s) a \<le> seq_off (nx_tcp_socket_sack_high_ack s) (sack_data_end s)"
  shows "sack_frontier_ok (sack_at s a)"
proof -
  have "seq_off a (sack_data_end s) \<le> 0x40000000" using seq_off_diff [OF assms(3)] assms(2) by simp
  then show ?thesis
    using sack_uncertain_frontier [OF sack_at_uncertain [OF assms]] by simp
qed

text \<open>The recorded blocks after the first page may have been opened.\<close>

lemma sack_same_opened: "sack_blocks (sack_opened p c s) = sack_blocks s" "sack_option_bytes (sack_opened p c s) = sack_option_bytes s"
    "sack_frontier_ok (sack_opened p c s) = sack_frontier_ok s" "sack_data_end (sack_opened p c s) = sack_data_end s"
proof -
  show e: "sack_data_end (sack_opened p c s) = sack_data_end s" by (simp add: sack_opened_def sack_data_end_def)
  note cong = sack_blocks_cong [of "sack_opened p c s" s, OF _ e]
  show "sack_blocks (sack_opened p c s) = sack_blocks s" by (rule cong) (simp_all add: sack_opened_def)
  show "sack_option_bytes (sack_opened p c s) = sack_option_bytes s" by (rule cong) (simp_all add: sack_opened_def)
  show "sack_frontier_ok (sack_opened p c s) = sack_frontier_ok s" by (rule cong) (simp_all add: sack_opened_def)
qed

text \<open>What an update leaves alone.\<close>

lemma sack_rest_fields:
  assumes "sack_rest s' = sack_rest s"
  shows "nx_sack_initialized s' = nx_sack_initialized s" "nx_tcp_socket_sack_high_ack s' = nx_tcp_socket_sack_high_ack s"
    "nx_tcp_socket_sack_scoreboard s' = nx_tcp_socket_sack_scoreboard s" "sack_data_end s' = sack_data_end s"
    "nx_ip_default_packet_pool s' = nx_ip_default_packet_pool s" "nx_sack_alloc_failed s' = nx_sack_alloc_failed s"
    "nx_tcp_socket_sack_delivery_bank s' = nx_tcp_socket_sack_delivery_bank s"
proof -
  note eq = arg_cong [OF assms]
  show "nx_sack_initialized s' = nx_sack_initialized s" "nx_tcp_socket_sack_high_ack s' = nx_tcp_socket_sack_high_ack s"
    "nx_tcp_socket_sack_scoreboard s' = nx_tcp_socket_sack_scoreboard s"
    "nx_ip_default_packet_pool s' = nx_ip_default_packet_pool s" "nx_sack_alloc_failed s' = nx_sack_alloc_failed s"
    "nx_tcp_socket_sack_delivery_bank s' = nx_tcp_socket_sack_delivery_bank s"
    using eq [of nx_sack_initialized] eq [of nx_tcp_socket_sack_high_ack] eq [of nx_tcp_socket_sack_scoreboard]
      eq [of nx_ip_default_packet_pool] eq [of nx_sack_alloc_failed] eq [of nx_tcp_socket_sack_delivery_bank]
    by (simp_all add: sack_rest_def)
  have "sack_data_end (sack_rest t) = sack_data_end t" for t by (simp add: sack_rest_def sack_data_end_def)
  then show "sack_data_end s' = sack_data_end s" using eq [of sack_data_end] by simp
qed

text \<open>The update of an open scoreboard, from the invariant before the acknowledgment.\<close>

definition sack_taken :: "nx_sack_socket \<Rightarrow> ulong set \<Rightarrow> ulong \<Rightarrow> bool \<Rightarrow> ulong set" where
  "sack_taken s E a dropped =
     (if a \<noteq> nx_tcp_socket_sack_high_ack s \<and> a \<in> E then {} else E - seq_range (nx_tcp_socket_sack_high_ack s) a) \<union>
     (if dropped then {} else sack_option_bytes (sack_at s a))"

lemma sack_live_memory: "sack_live m hs s holes \<Longrightarrow> (\<exists>F. pools_inv m F) \<and> payloads_separate m"
  by (auto simp: sack_live_def sack_source_def)

lemma sack_evidence_card: "holes_ok a f holes \<Longrightarrow> card (sack_evidence a f holes) \<le> seq_off a f"
  using card_mono [of "seq_range a f" "sack_evidence a f holes"] by (auto simp: sack_evidence_def card_seq_range)

lemma sack_board_update:
  assumes live: "sack_live m hs s holes" and board: "nx_tcp_socket_sack_scoreboard s \<noteq> NX_NULL" and front: "sack_frontier_ok s"
    and W: "W < 2147483648" "seq_off u (nx_tcp_socket_sack_high_ack s) \<le> W"
      "seq_off (nx_tcp_socket_sack_high_ack s) (sack_data_end s) = W - seq_off u (nx_tcp_socket_sack_high_ack s)"
    and old: "holes_ok u (nx_tcp_socket_sack_fack s) holes" "seq_off u (nx_tcp_socket_sack_fack s) \<le> W"
    and unc: "sack_uncertain_ok s" "W - seq_off u (nx_tcp_socket_sack_high_ack s) \<le> 0x40000000"
    and fack_uncertain: "seq_off (nx_tcp_socket_sack_fack s) (sack_data_end s) \<le> 0x40000000"
  shows "\<exists>m' hs' s' E' dropped. sack_update S (sack_blocks s) discard m hs s = Some (of_nat (card E'), m', hs', s') \<and>
    sack_shows m' hs' s' E' \<and> card E' \<le> W - seq_off u (nx_tcp_socket_sack_high_ack s) \<and> nx_sack_bank s' < 2 \<and>
    sack_rest s' = sack_rest s \<and> dom (nx_pools m') = dom (nx_pools m) \<and> (\<exists>F. pools_inv m' F) \<and> payloads_separate m' \<and>
    E' = (if discard then {} else sack_evidence u (nx_tcp_socket_sack_fack s) holes - seq_range u (nx_tcp_socket_sack_high_ack s)) \<union>
      (if dropped then {} else sack_option_bytes s) \<and> (dropped \<longrightarrow> nx_sack_uncertain s') \<and> sack_uncertain_ok s'"
proof -
  let ?a = "nx_tcp_socket_sack_high_ack s"
  obtain m' hs' s' holes' dropped where up: "sack_update S (sack_blocks s) discard m hs s =
      Some (of_nat (card (sack_evidence ?a (nx_tcp_socket_sack_fack s') holes')), m', hs', s')"
    "dom (nx_pools m') = dom (nx_pools m)" "sack_live m' hs' s' holes'" "holes_ok ?a (nx_tcp_socket_sack_fack s') holes'"
    "seq_off ?a (nx_tcp_socket_sack_fack s') \<le> W - seq_off u ?a"
    "sack_evidence ?a (nx_tcp_socket_sack_fack s') holes' =
      (if discard then {} else sack_evidence u (nx_tcp_socket_sack_fack s) holes - seq_range u ?a) \<union>
      (if dropped then {} else sack_option_bytes s)"
    "if dropped then sack_option_bytes s \<noteq> {} \<and> nx_sack_uncertain s' \<and> nx_tcp_socket_sack_uncertain_end s' = sack_data_end s \<and>
       nx_tcp_socket_sack_uncertain_start s' =
         (if nx_sack_uncertain s then nx_tcp_socket_sack_uncertain_start s else nx_tcp_socket_sack_fack s)
     else nx_sack_uncertain s' = nx_sack_uncertain s \<and> nx_tcp_socket_sack_uncertain_end s' = nx_tcp_socket_sack_uncertain_end s \<and>
       nx_tcp_socket_sack_uncertain_start s' = nx_tcp_socket_sack_uncertain_start s"
    "sack_rest s' = sack_rest s"
    using sack_update_result [OF live board front W old, of S discard] by blast
  note rest = sack_rest_fields [OF up(8)]
  let ?E = "sack_evidence ?a (nx_tcp_socket_sack_fack s') holes'"
  have "sack_shows m' hs' s' ?E" using up(3-5) board rest W(3) by (auto simp: sack_shows_def)
  moreover have "card ?E \<le> W - seq_off u ?a" using sack_evidence_card [OF up(4)] up(5) by simp
  moreover have "nx_sack_bank s' < 2" using up(3) by (simp add: sack_live_def sack_board_def)
  moreover have "sack_uncertain_ok s'"
  proof (cases dropped)
    case False
    then show ?thesis using unc(1) up(7) rest by (simp add: sack_uncertain_ok_def)
  next
    case True
    let ?e = "sack_data_end s" and ?f = "nx_tcp_socket_sack_uncertain_start s"
    have d: "sack_option_bytes s \<noteq> {}" "nx_sack_uncertain s'" "nx_tcp_socket_sack_uncertain_end s' = ?e"
      "nx_tcp_socket_sack_uncertain_start s' = (if nx_sack_uncertain s then ?f else nx_tcp_socket_sack_fack s)"
      using up(7) True by auto
    then obtain left right y where y: "y \<in> sack_block_bytes s left right" unfolding sack_option_bytes_def by blast
    then have unc_y: "nx_sack_uncertain s \<longrightarrow> seq_diff y ?f < 0" and "y \<in> seq_range left (if right = ?e + 1 \<and> right = nx_tcp_socket_tx_sequence s then ?e else right)"
      and bl: "0 < seq_off ?a left" "seq_off ?a left < seq_off ?a (if right = ?e + 1 \<and> right = nx_tcp_socket_tx_sequence s then ?e else right)"
        "seq_off ?a (if right = ?e + 1 \<and> right = nx_tcp_socket_tx_sequence s then ?e else right) \<le> seq_off ?a ?e"
      by (auto simp: sack_block_bytes_def Let_def split: if_splits)
    then have window: "seq_off ?a y < seq_off ?a ?e" using seq_range_off [of ?a left _ y] by fastforce
    have "seq_off ?f ?e \<le> 0x40000000" if u: "nx_sack_uncertain s"
    proof -
      have "seq_off ?a ?f \<le> seq_off ?a ?e \<or> 0 < seq_off ?f ?a \<and> seq_off ?f ?a + seq_off ?a ?e < 2147483648"
        using front u by (simp add: sack_frontier_ok_def Let_def)
      moreover have "\<not> (0 < seq_off ?f ?a \<and> seq_off ?f ?a + seq_off ?a ?e < 2147483648)"
        using frontier_behind(3) [of ?f ?a "seq_off ?a ?e" y] unc_y u window by fastforce
      ultimately have "seq_off ?f ?e = seq_off ?a ?e - seq_off ?a ?f" by (intro seq_off_diff) blast
      then show ?thesis using W(3) unc(2) by simp
    qed
    then show ?thesis using d rest window W(3) unc(2) fack_uncertain by (auto simp: sack_uncertain_ok_def)
  qed
  ultimately show ?thesis using up(1,2,6,7,8) sack_live_memory [OF up(3)]
    by (intro exI [of _ m'] exI [of _ hs'] exI [of _ s'] exI [of _ ?E] exI [of _ dropped]) simp
qed

text \<open>The three cases of the scoreboard: there before, opened now, or missing.\<close>

lemma sack_update_inv:
  assumes inv: "sack_inv m hs s E"
  defines "u \<equiv> nx_tcp_socket_sack_high_ack s"
  assumes a: "seq_off u a \<le> seq_off u (sack_data_end s)"
    and t: "sack_same (sack_at s a) t"
  defines "discard \<equiv> a \<noteq> u \<and> a \<in> E"
  shows "\<exists>m1 s1 n m' hs' s' E' dropped. sack_open S m (sack_blocks t) t = Some (m1, s1) \<and>
    sack_update S (sack_blocks t) discard m1 hs s1 = Some (n, m', hs', s') \<and>
    sack_shows m' hs' s' E' \<and> sack_memory m' s' \<and> sack_uncertain_ok s' \<and> nx_sack_bank s' < 2 \<and> nx_sack_initialized s' \<and>
    nx_tcp_socket_sack_high_ack s' = a \<and> sack_data_end s' = sack_data_end s \<and>
    nx_tcp_socket_sack_delivery_bank s' = nx_tcp_socket_sack_delivery_bank s \<and>
    (nx_sack_alloc_failed s' \<longrightarrow> nx_tcp_socket_sack_scoreboard s' = NX_NULL) \<and>
    (\<not> nx_sack_alloc_failed s' \<longrightarrow> n = of_nat (card E') \<and> card E' \<le> seq_off a (sack_data_end s) \<and> \<not> nx_sack_alloc_failed s) \<and>
    (if nx_sack_alloc_failed s' then E' = {} else E' = sack_taken s E a dropped \<and> (dropped \<longrightarrow> nx_sack_uncertain s'))"
proof -
  let ?e = "sack_data_end s" and ?sb = "nx_tcp_socket_sack_scoreboard s"
  have i: "nx_sack_initialized s" "nx_sack_bank s < 2" "seq_off u ?e \<le> 0x40000000" "sack_shows m hs s E" "sack_memory m s"
    "sack_uncertain_ok s" "nx_sack_alloc_failed s \<longrightarrow> ?sb = NX_NULL"
    using inv by (auto simp: sack_inv_def u_def)
  have t_fields: "nx_tcp_socket_sack_high_ack t = a" "sack_data_end t = ?e" "nx_tcp_socket_sack_scoreboard t = ?sb"
    "nx_tcp_socket_sack_fack t = nx_tcp_socket_sack_fack s" "nx_sack_bank t = nx_sack_bank s" "nx_sack_initialized t"
    "nx_sack_alloc_failed t = nx_sack_alloc_failed s" "nx_tcp_socket_sack_delivery_bank t = nx_tcp_socket_sack_delivery_bank s"
    "nx_ip_default_packet_pool t = nx_ip_default_packet_pool s"
    using t i(1) by (simp_all add: sack_same_def)
  have w: "seq_off a ?e = seq_off u ?e - seq_off u a" using a by (rule seq_off_diff)
  have small: "seq_off u ?e < 2147483648" "seq_off a ?e \<le> 0x40000000" using i(3) w by linarith+
  have unc: "sack_uncertain_ok t"
    using sack_at_uncertain [OF i(6) i(3) [unfolded u_def] a [unfolded u_def]] t by (simp add: sack_same_def sack_uncertain_ok_def)
  have front: "sack_frontier_ok t"
    using sack_at_frontier [OF i(6) i(3) [unfolded u_def] a [unfolded u_def]] sack_same_blocks(3) [OF t] by simp
  have bytes: "sack_option_bytes t = sack_option_bytes (sack_at s a)" by (rule sack_same_blocks(2) [OF t])
  have mem: "sack_memory m t" using i(5) t_fields by (simp add: sack_memory_def)
  obtain m1 s1 where o: "sack_open S m (sack_blocks t) t = Some (m1, s1)" "sack_memory m1 s1"
    "if ?sb \<noteq> NX_NULL \<or> sack_blocks t = [] \<or> nx_sack_alloc_failed s then m1 = m \<and> s1 = t
     else s1 = t\<lparr>nx_sack_alloc_failed := True\<rparr> \<or> (\<exists>p cap. p \<noteq> NX_NULL \<and> s1 = sack_opened p cap t \<and> sack_live m1 hs s1 [])"
    using sack_open_result [OF mem, of S "sack_blocks t" hs] t_fields i(2) by auto
  consider (there) "?sb \<noteq> NX_NULL"
    | (failed) "?sb = NX_NULL" "nx_sack_alloc_failed s1" "s1 = t \<or> s1 = t\<lparr>nx_sack_alloc_failed := True\<rparr>"
    | (empty) "?sb = NX_NULL" "\<not> nx_sack_alloc_failed s" "sack_blocks t = []" "s1 = t" "m1 = m"
    | (opened) p cap where "?sb = NX_NULL" "p \<noteq> NX_NULL" "s1 = sack_opened p cap t" "sack_live m1 hs s1 []" "\<not> nx_sack_alloc_failed s"
  proof (cases "?sb \<noteq> NX_NULL \<or> sack_blocks t = [] \<or> nx_sack_alloc_failed s")
    case True
    then have same: "m1 = m" "s1 = t" using o(3) by simp_all
    consider "?sb \<noteq> NX_NULL" | "?sb = NX_NULL" "nx_sack_alloc_failed s" | "?sb = NX_NULL" "\<not> nx_sack_alloc_failed s" "sack_blocks t = []"
      using True by blast
    then show thesis using there failed empty same t_fields(7) by cases simp_all
  next
    case False
    then have no: "?sb = NX_NULL" "\<not> nx_sack_alloc_failed s" by blast+
    have "s1 = t\<lparr>nx_sack_alloc_failed := True\<rparr> \<or> (\<exists>p cap. p \<noteq> NX_NULL \<and> s1 = sack_opened p cap t \<and> sack_live m1 hs s1 [])"
      using o(3) unfolding if_not_P [OF False] .
    then consider "s1 = t\<lparr>nx_sack_alloc_failed := True\<rparr>" | p cap where "p \<noteq> NX_NULL" "s1 = sack_opened p cap t" "sack_live m1 hs s1 []" by blast
    then show thesis
    proof cases
      case 1
      then have "nx_sack_alloc_failed s1" by simp
      then show thesis by (rule failed [OF no(1) _ disjI2 [OF 1]])
    next
      case 2
      then show thesis by (rule opened [OF no(1) _ _ _ no(2)])
    qed
  qed
  then show ?thesis
  proof cases
    case there
    then obtain holes where h: "sack_live m hs s holes" "holes_ok u (nx_tcp_socket_sack_fack s) holes"
      "seq_off u (nx_tcp_socket_sack_fack s) \<le> seq_off u ?e" "E = sack_evidence u (nx_tcp_socket_sack_fack s) holes"
      using i(4) by (auto simp: sack_shows_def u_def)
    have s1: "s1 = t" "m1 = m" using o(3) there by auto
    have live: "sack_live m hs t holes"
      using h(1) sack_same_live [OF t, of m hs holes] sack_live_cong [of "sack_at s a" s m hs holes] by (simp add: sack_at_def)
    have fe: "seq_off (nx_tcp_socket_sack_fack s) ?e \<le> 0x40000000" using seq_off_diff [OF h(3)] i(3) by simp
    have prem: "nx_tcp_socket_sack_scoreboard t \<noteq> NX_NULL" "seq_off u (nx_tcp_socket_sack_high_ack t) \<le> seq_off u ?e"
      "seq_off (nx_tcp_socket_sack_high_ack t) (sack_data_end t) = seq_off u ?e - seq_off u (nx_tcp_socket_sack_high_ack t)"
      "holes_ok u (nx_tcp_socket_sack_fack t) holes" "seq_off u (nx_tcp_socket_sack_fack t) \<le> seq_off u ?e"
      "seq_off u ?e - seq_off u (nx_tcp_socket_sack_high_ack t) \<le> 0x40000000"
      "seq_off (nx_tcp_socket_sack_fack t) (sack_data_end t) \<le> 0x40000000"
      using there a w h(2,3) small(2) fe unfolding t_fields(1-4) by simp_all
    obtain m' hs' s' E' dropped where up: "sack_update S (sack_blocks t) discard m hs t = Some (of_nat (card E'), m', hs', s')"
      "sack_shows m' hs' s' E'" "card E' \<le> seq_off u ?e - seq_off u a" "nx_sack_bank s' < 2" "sack_rest s' = sack_rest t"
      "dom (nx_pools m') = dom (nx_pools m)" "\<exists>F. pools_inv m' F" "payloads_separate m'"
      "E' = (if discard then {} else E - seq_range u a) \<union> (if dropped then {} else sack_option_bytes t)"
      "dropped \<longrightarrow> nx_sack_uncertain s'" "sack_uncertain_ok s'"
      using sack_board_update [OF live prem(1) front small(1) prem(2-5) unc prem(6,7), of S discard] unfolding t_fields(1-4) h(4) [symmetric] by blast
    note rest = sack_rest_fields [OF up(5)]
    have "sack_memory m' s'" using up(6-8) rest mem by (simp add: sack_memory_def)
    moreover have "E' = sack_taken s E a dropped" using up(9) by (simp add: sack_taken_def discard_def u_def bytes)
    ultimately show ?thesis using o(1) s1 up(1-4,10,11) rest t_fields w there i(7)
      by (intro exI [of _ m1] exI [of _ s1] exI [of _ "of_nat (card E')"] exI [of _ m'] exI [of _ hs'] exI [of _ s'] exI [of _ E'] exI [of _ dropped]) auto
  next
    case failed
    then have "sack_update S (sack_blocks t) discard m1 hs s1 = Some (fold (\<lambda>b sacked. sacked + (snd b - fst b)) (sack_blocks t) 0, m1, hs, s1)"
      using t_fields by (auto simp: sack_update_def)
    moreover have "sack_shows m1 hs s1 {}" "nx_tcp_socket_sack_scoreboard s1 = NX_NULL" using failed t_fields by (auto simp: sack_shows_def)
    moreover have "sack_uncertain_ok s1" using failed(3) unc by (auto simp: sack_uncertain_ok_def sack_data_end_def)
    moreover have "sack_data_end s1 = ?e" using failed(3) t_fields(2) by (auto simp: sack_data_end_def)
    ultimately show ?thesis using o(1,2) failed t_fields i(2)
      by (intro exI [of _ m1] exI [of _ s1] exI [of _ "fold (\<lambda>b sacked. sacked + (snd b - fst b)) (sack_blocks t) 0"] exI [of _ m1]
        exI [of _ hs] exI [of _ s1] exI [of _ "{}"] exI [of _ False]) auto
  next
    case empty
    have "E = {}" using i(4) empty(1) by (simp add: sack_shows_def)
    moreover have "sack_option_bytes (sack_at s a) = {}" using sack_blocks_cover [OF front] empty(3) bytes by simp
    ultimately have "sack_taken s E a False = {}" by (simp add: sack_taken_def)
    moreover have "sack_update S (sack_blocks t) discard m1 hs s1 = Some (0, m1, hs, s1)"
      using empty t_fields by (simp add: sack_update_def)
    moreover have "sack_shows m1 hs s1 {}" using empty t_fields by (simp add: sack_shows_def)
    ultimately show ?thesis using o(1,2) empty t_fields i(2) unc
      by (intro exI [of _ m1] exI [of _ s1] exI [of _ 0] exI [of _ m1] exI [of _ hs] exI [of _ s1] exI [of _ "{}"] exI [of _ False]) auto
  next
    case opened
    have E: "E = {}" using i(4) opened(1) by (simp add: sack_shows_def)
    have s1: "nx_tcp_socket_sack_high_ack s1 = a" "nx_tcp_socket_sack_fack s1 = a" "nx_tcp_socket_sack_scoreboard s1 \<noteq> NX_NULL"
      "sack_blocks s1 = sack_blocks t" "sack_option_bytes s1 = sack_option_bytes t" "sack_frontier_ok s1" "sack_data_end s1 = ?e"
      "nx_sack_initialized s1" "nx_sack_alloc_failed s1 = nx_sack_alloc_failed s"
      "nx_tcp_socket_sack_delivery_bank s1 = nx_tcp_socket_sack_delivery_bank s" "nx_ip_default_packet_pool s1 = nx_ip_default_packet_pool t"
      using opened(2,3) t_fields front by (simp_all add: sack_same_opened) (simp_all add: sack_opened_def)
    have unc1: "sack_uncertain_ok s1"
      using unc unfolding sack_uncertain_ok_def s1(7) t_fields(2) by (simp add: opened(3) sack_opened_def)
    have none: "holes_ok a a []" "sack_evidence a a [] = {}" by (simp_all add: holes_ok_def sack_evidence_def)
    have wide: "seq_off a ?e < 2147483648" using small(2) by simp
    have prem: "seq_off a (nx_tcp_socket_sack_high_ack s1) \<le> seq_off a ?e"
      "seq_off (nx_tcp_socket_sack_high_ack s1) (sack_data_end s1) = seq_off a ?e - seq_off a (nx_tcp_socket_sack_high_ack s1)"
      "holes_ok a (nx_tcp_socket_sack_fack s1) []" "seq_off a (nx_tcp_socket_sack_fack s1) \<le> seq_off a ?e"
      "seq_off a ?e - seq_off a (nx_tcp_socket_sack_high_ack s1) \<le> 0x40000000"
      "seq_off (nx_tcp_socket_sack_fack s1) (sack_data_end s1) \<le> 0x40000000"
      using small(2) none(1) unfolding s1(1,2,7) by simp_all
    obtain m' hs' s' E' dropped where up: "sack_update S (sack_blocks t) discard m1 hs s1 = Some (of_nat (card E'), m', hs', s')"
      "sack_shows m' hs' s' E'" "card E' \<le> seq_off a ?e" "nx_sack_bank s' < 2" "sack_rest s' = sack_rest s1"
      "dom (nx_pools m') = dom (nx_pools m1)" "\<exists>F. pools_inv m' F" "payloads_separate m'"
      "E' = (if discard then {} else {} - seq_range a a) \<union> (if dropped then {} else sack_option_bytes s1)"
      "dropped \<longrightarrow> nx_sack_uncertain s'" "sack_uncertain_ok s'"
      using sack_board_update [OF opened(4) s1(3,6) wide prem(1-4) unc1 prem(5,6), of S discard] unfolding s1(1,2,4) none(2) seq_off_self diff_zero by blast
    note rest = sack_rest_fields [OF up(5)]
    have "sack_memory m' s'" using up(6-8) rest o(2) by (simp add: sack_memory_def)
    moreover have "E' = sack_taken s E a dropped" using up(9) by (simp add: sack_taken_def E bytes s1)
    ultimately show ?thesis using o(1) s1 up(1-4,10,11) rest opened(5)
      by (intro exI [of _ m1] exI [of _ s1] exI [of _ "of_nat (card E')"] exI [of _ m'] exI [of _ hs'] exI [of _ s'] exI [of _ E'] exI [of _ dropped]) auto
  qed
qed

lemma sack_deliver_fields:
  "sack_shows m hs (sack_deliver d n s) E \<longleftrightarrow> sack_shows m hs s E" "sack_memory m (sack_deliver d n s) \<longleftrightarrow> sack_memory m s"
  "sack_uncertain_ok (sack_deliver d n s) \<longleftrightarrow> sack_uncertain_ok s" "nx_sack_bank (sack_deliver d n s) = nx_sack_bank s"
  "nx_sack_initialized (sack_deliver d n s) = nx_sack_initialized s" "nx_sack_uncertain (sack_deliver d n s) = nx_sack_uncertain s"
  "nx_tcp_socket_sack_high_ack (sack_deliver d n s) = nx_tcp_socket_sack_high_ack s"
  "sack_data_end (sack_deliver d n s) = sack_data_end s" "nx_sack_alloc_failed (sack_deliver d n s) = nx_sack_alloc_failed s"
  "nx_tcp_socket_sack_scoreboard (sack_deliver d n s) = nx_tcp_socket_sack_scoreboard s"
proof -
  define t where "t = sack_deliver d n s"
  show e: "sack_data_end (sack_deliver d n s) = sack_data_end s" by (simp add: sack_deliver_def Let_def sack_data_end_def)
  have "sack_live m hs t holes \<longleftrightarrow> sack_live m hs s holes" for holes
    by (rule sack_live_cong) (simp_all add: t_def sack_deliver_def Let_def)
  then show "sack_shows m hs (sack_deliver d n s) E \<longleftrightarrow> sack_shows m hs s E"
    unfolding sack_shows_def t_def [symmetric] e [folded t_def] by (simp add: t_def sack_deliver_def Let_def)
  show "sack_uncertain_ok (sack_deliver d n s) \<longleftrightarrow> sack_uncertain_ok s"
    unfolding sack_uncertain_ok_def e by (simp add: sack_deliver_def Let_def)
qed (simp_all add: sack_deliver_def Let_def sack_memory_def)

text \<open>The last two stages only set retransmission marks and the credit.\<close>

definition sack_finish :: "nx_mem \<Rightarrow> sack_slots \<Rightarrow> nx_sack_socket \<Rightarrow> (sack_slots \<times> nx_sack_socket) option" where
  "sack_finish m hs s = do {
     (hs6, s6) \<leftarrow> (if sack_recovery_active s \<and> nx_tcp_socket_sack_scoreboard s \<noteq> NX_NULL
                 then sack_lost_retransmit m hs s else Some (hs, s));
     s7 \<leftarrow> (if sack_recovery_active s6 \<and> nx_tcp_socket_sack_delivered_data s6 \<noteq> 0
          then sack_prr_credit m hs6 (s6\<lparr>nx_tcp_socket_prr_delivered :=
                 nx_tcp_socket_prr_delivered s6 + nx_tcp_socket_sack_delivered_data s6\<rparr>)
          else Some s6);
     Some (hs6, s7)
   }"

lemma bind_tail: "Option.bind x (\<lambda>(h, y). Option.bind (f h y) (\<lambda>z. Some (m, h, z))) =
    map_option (Pair m) (Option.bind x (\<lambda>(h, y). Option.bind (f h y) (\<lambda>z. Some (h, z))))"
proof (cases x)
  case (Some p)
  then show ?thesis by (cases p; cases "f (fst p) (snd p)") simp_all
qed simp

lemma sack_same_trans: "sack_same s t \<Longrightarrow> sack_same t r \<Longrightarrow> sack_same s r"
  by (simp add: sack_same_def)

lemma sack_finish_result:
  assumes "sack_inv m hs s E"
  shows "\<exists>hs' s'. sack_finish m hs s = Some (hs', s') \<and> sack_inv m hs' s' E \<and> sack_same s s' \<and>
    nx_tcp_socket_sack_delivered_data s' = nx_tcp_socket_sack_delivered_data s"
proof -
  have refl: "sack_same s s" by (simp add: sack_same_def)
  obtain hs6 s6 where s6: "(if sack_recovery_active s \<and> nx_tcp_socket_sack_scoreboard s \<noteq> NX_NULL
                 then sack_lost_retransmit m hs s else Some (hs, s)) = Some (hs6, s6)"
    "sack_inv m hs6 s6 E" "sack_same s s6" "nx_tcp_socket_sack_delivered_data s6 = nx_tcp_socket_sack_delivered_data s"
  proof (cases "sack_recovery_active s \<and> nx_tcp_socket_sack_scoreboard s \<noteq> NX_NULL")
    case True
    then show ?thesis using sack_lost_retransmit_result [OF assms] that by auto
  next
    case False
    then show ?thesis using assms refl by (intro that [of hs s]) (simp_all only: if_False)
  qed
  let ?t = "s6\<lparr>nx_tcp_socket_prr_delivered := nx_tcp_socket_prr_delivered s6 + nx_tcp_socket_sack_delivered_data s6\<rparr>"
  have t: "sack_same s6 ?t" "nx_tcp_socket_sack_delivered_data ?t = nx_tcp_socket_sack_delivered_data s6"
    by (simp_all add: sack_same_def sack_data_end_def)
  have "sack_shows m hs6 ?t E" using sack_same_shows [OF t(1)] s6(2) by (simp add: sack_inv_def)
  then obtain s7 where s7: "sack_prr_credit m hs6 ?t = Some s7" "sack_same ?t s7"
    "nx_tcp_socket_sack_delivered_data s7 = nx_tcp_socket_sack_delivered_data ?t" using sack_prr_credit_result by blast
  have all: "sack_same s s7" using sack_same_trans [OF s6(3) sack_same_trans [OF t(1) s7(2)]] .
  show ?thesis
  proof (cases "sack_recovery_active s6 \<and> nx_tcp_socket_sack_delivered_data s6 \<noteq> 0")
    case True
    then have "sack_finish m hs s = Some (hs6, s7)" unfolding sack_finish_def s6(1) using s7(1) by simp
    moreover have "sack_inv m hs6 s7 E" using sack_same_inv [OF sack_same_trans [OF t(1) s7(2)]] s6(2) by simp
    ultimately show ?thesis using all s7(3) t(2) s6(4) by auto
  next
    case False
    then have "sack_finish m hs s = Some (hs6, s6)" unfolding sack_finish_def s6(1) by auto
    then show ?thesis using s6 by auto
  qed
qed

lemma nx_tcp_sack_recovery_ack_inv:
  assumes inv: "sack_inv m hs s E"
  defines "u \<equiv> nx_tcp_socket_sack_high_ack s"
  assumes a: "a = sack_new_ack s ack"
  shows "\<exists>m' hs' s' E' dropped. nx_tcp_sack_recovery_ack S ack m hs s = Some (m', hs', s') \<and> sack_inv m' hs' s' E' \<and>
    nx_tcp_socket_sack_high_ack s' = a \<and> sack_data_end s' = sack_data_end s \<and>
    (if nx_sack_alloc_failed s' then E' = {}
     else E' = sack_taken s E a dropped \<and> (dropped \<longrightarrow> nx_sack_uncertain s') \<and>
       unat (nx_tcp_socket_sack_delivered_data s') + unat (nx_tcp_socket_sack_delivery_bank s) =
         seq_off u a + unat (nx_tcp_socket_sack_delivery_bank s'))"
proof -
  let ?e = "sack_data_end s"
  have i: "nx_sack_initialized s" "seq_off u ?e \<le> 0x40000000" "sack_shows m hs s E"
    "\<not> nx_sack_alloc_failed s \<longrightarrow> unat (nx_tcp_socket_sack_delivery_bank s) \<le> seq_off u ?e"
    using inv by (auto simp: sack_inv_def u_def)
  have W: "seq_off u ?e < 2147483648" using i(2) by simp
  have le: "seq_off u a \<le> seq_off u ?e" using sack_new_ack_range(1) [of s ack] W by (simp add: u_def a)
  have w: "seq_off a ?e = seq_off u ?e - seq_off u a" using le by (rule seq_off_diff)
  define discard where "discard = (a \<noteq> u \<and> a \<in> E)"
  define t where "t = sack_progress (a - u) (s\<lparr>nx_tcp_socket_sack_high_ack := a\<rparr>)"
  have adv: "sack_advance m hs (if seq_diff ack ?e > 0 then ?e else ack) s = Some (a - u, discard, s\<lparr>nx_tcp_socket_sack_high_ack := a\<rparr>)"
    using sack_advance_result [OF i(3) W [unfolded u_def] a] by (simp add: discard_def u_def)
  have same: "sack_same (sack_at s a) t" by (simp add: t_def sack_progress_same)
  obtain m1 s1 n m' hs' s' E' dropped where up: "sack_open S m (sack_blocks t) t = Some (m1, s1)"
    "sack_update S (sack_blocks t) discard m1 hs s1 = Some (n, m', hs', s')"
    "sack_shows m' hs' s' E'" "sack_memory m' s'" "sack_uncertain_ok s'" "nx_sack_bank s' < 2" "nx_sack_initialized s'"
    "nx_tcp_socket_sack_high_ack s' = a" "sack_data_end s' = ?e"
    "nx_tcp_socket_sack_delivery_bank s' = nx_tcp_socket_sack_delivery_bank s"
    "nx_sack_alloc_failed s' \<longrightarrow> nx_tcp_socket_sack_scoreboard s' = NX_NULL"
    "\<not> nx_sack_alloc_failed s' \<longrightarrow> n = of_nat (card E') \<and> card E' \<le> seq_off a ?e \<and> \<not> nx_sack_alloc_failed s"
    "if nx_sack_alloc_failed s' then E' = {} else E' = sack_taken s E a dropped \<and> (dropped \<longrightarrow> nx_sack_uncertain s')"
    using sack_update_inv [OF inv le [unfolded u_def] same, of S] unfolding discard_def u_def by blast
  define s5 where "s5 = sack_deliver (a - u) n s'"
  have del: "unat (nx_tcp_socket_sack_delivered_data s5) + unat (nx_tcp_socket_sack_delivery_bank s) =
      seq_off u a + unat (nx_tcp_socket_sack_delivery_bank s5) \<and>
      card E' \<le> unat (nx_tcp_socket_sack_delivery_bank s5) \<and> unat (nx_tcp_socket_sack_delivery_bank s5) \<le> seq_off a ?e"
    if ok: "\<not> nx_sack_alloc_failed s'"
  proof -
    have n: "unat n = card E'" "card E' \<le> seq_off a ?e" using up(12) ok w W by (auto simp: unat_of_nat take_bit_eq_mod)
    have d: "unat (a - u) = seq_off u a" by (simp add: seq_off_def)
    have "unat (a - u) + unat n < 4294967296" using n d w le W by linarith
    note res = sack_deliver_result [OF this s5_def]
    have "unat (nx_tcp_socket_sack_delivery_bank s) \<le> seq_off u ?e" using up(12) ok i(4) by blast
    then show ?thesis using res n d w le up(10) by auto
  qed
  have "sack_inv m' hs' s5 E'"
    using up del unfolding sack_inv_def s5_def sack_deliver_fields by (simp add: w i(2) diff_le_mono2 le_trans [OF diff_le_self i(2)])
  from sack_finish_result [OF this] obtain hs7 s7 where fin: "sack_finish m' hs' s5 = Some (hs7, s7)" "sack_inv m' hs7 s7 E'" "sack_same s5 s7"
    "nx_tcp_socket_sack_delivered_data s7 = nx_tcp_socket_sack_delivered_data s5" by blast
  have "nx_tcp_sack_recovery_ack S ack m hs s = Some (m', hs7, s7)"
    using fin(1) unfolding nx_tcp_sack_recovery_ack_def sack_initialize_def if_P [OF i(1)] Let_def adv
    by (simp only: t_def [symmetric] u_def [symmetric] up(1,2) s5_def [symmetric] bind.bind_lunit prod.case bind_tail
        sack_finish_def [symmetric] option.map)
  moreover have "nx_tcp_socket_sack_high_ack s7 = a" "sack_data_end s7 = ?e" "nx_sack_alloc_failed s7 = nx_sack_alloc_failed s'"
    "nx_sack_uncertain s7 = nx_sack_uncertain s'" "nx_tcp_socket_sack_delivery_bank s7 = nx_tcp_socket_sack_delivery_bank s5"
    using fin(3) up(8,9) by (simp_all add: sack_same_def s5_def sack_deliver_fields)
  ultimately show ?thesis using fin(2,4) up(13) del
    by (intro exI [of _ m'] exI [of _ hs7] exI [of _ s7] exI [of _ E'] exI [of _ dropped]) auto
qed

end
