(* ===== verification/Nx_Sack_Pipe.thy ===== *)
theory Nx_Sack_Pipe imports Nx_Sack_Lost Nx_Sack_Inv begin

text \<open>
  The estimate of the data in flight against \<open>SetPipe\<close> of RFC 6675: every byte that is not reported counts
  once if it is not lost, and once if it was sent again.
\<close>

section \<open>The rule of the RFC\<close>

definition sack_is_lost :: "ulong \<Rightarrow> ulong \<Rightarrow> ulong set \<Rightarrow> ulong \<Rightarrow> bool" where
  "sack_is_lost mss u E y \<longleftrightarrow>
     2 * unat mss < card {z \<in> E. seq_off u y < seq_off u z} \<or>
     3 \<le> card {z \<in> E. seq_off u y < seq_off u z \<and> z - 1 \<notin> E}"

definition sack_set_pipe :: "ulong \<Rightarrow> ulong \<Rightarrow> ulong \<Rightarrow> ulong set \<Rightarrow> ulong \<Rightarrow> nat" where
  "sack_set_pipe mss u e E high_rxt =
     card {y \<in> seq_range u e - E. \<not> sack_is_lost mss u E y} + card {y \<in> seq_range u e - E. seq_diff high_rxt y > 0}"

text \<open>The three-run rule applies to no byte that the rule of the bytes does not cover.\<close>

definition sack_full_runs :: "ulong \<Rightarrow> ulong \<Rightarrow> ulong \<Rightarrow> ulong set \<Rightarrow> bool" where
  "sack_full_runs mss u e E \<longleftrightarrow> card E \<le> 2 * unat mss \<or>
     (\<forall>y \<in> seq_range u e - E. 3 \<le> card {z \<in> E. seq_off u y < seq_off u z \<and> z - 1 \<notin> E} \<longrightarrow>
        2 * unat mss < card {z \<in> E. seq_off u y < seq_off u z})"

section \<open>With offsets\<close>

lemma card_off_image: "card {n \<in> seq_off u ` E. P n} = card {z \<in> E. P (seq_off u z)}"
proof -
  have "{n \<in> seq_off u ` E. P n} = seq_off u ` {z \<in> E. P (seq_off u z)}" by auto
  then show ?thesis using card_seq_off by simp
qed

lemma seq_off_pred: "0 < seq_off u z \<Longrightarrow> seq_off u (z - 1) = seq_off u z - 1"
proof -
  assume "0 < seq_off u z"
  then have "unat (1 :: ulong) \<le> unat (z - u)" by (simp add: seq_off_def)
  from unat_minus_ulong [OF this] show ?thesis by (simp add: seq_off_def algebra_simps)
qed

lemma off_counts:
  assumes "y \<notin> E"
  shows "off_above (seq_off u ` E) (seq_off u y) = card {z \<in> E. seq_off u y < seq_off u z}"
    and "off_runs (seq_off u ` E) (seq_off u y) = card {z \<in> E. seq_off u y < seq_off u z \<and> z - 1 \<notin> E}"
proof -
  have le: "seq_off u y \<le> seq_off u z \<longleftrightarrow> seq_off u y < seq_off u z" if "z \<in> E" for z
    using that assms seq_off_inj [of u y z] by (auto simp: le_less)
  then show "off_above (seq_off u ` E) (seq_off u y) = card {z \<in> E. seq_off u y < seq_off u z}"
    unfolding off_above_def card_off_image by (intro arg_cong [of _ _ card]) auto
  have "inj (seq_off u)" by (rule injI) (simp add: seq_off_inj)
  then have mem: "seq_off u x \<in> seq_off u ` E \<longleftrightarrow> x \<in> E" for x by (rule inj_image_mem_iff)
  have "seq_off u y \<le> seq_off u z \<and> (seq_off u z = 0 \<or> seq_off u z - 1 \<notin> seq_off u ` E) \<longleftrightarrow>
      seq_off u y < seq_off u z \<and> z - 1 \<notin> E" if "z \<in> E" for z
    using le [OF that] mem [of "z - 1"] seq_off_pred [of u z] by (cases "0 < seq_off u z") auto
  then show "off_runs (seq_off u ` E) (seq_off u y) = card {z \<in> E. seq_off u y < seq_off u z \<and> z - 1 \<notin> E}"
    unfolding off_runs_def card_off_image by (intro arg_cong [of _ _ card]) blast
qed

lemma off_lost_word: "y \<notin> E \<Longrightarrow> off_lost (2 * unat mss) (seq_off u ` E) (seq_off u y) \<longleftrightarrow> sack_is_lost mss u E y"
  by (simp add: off_lost_def sack_is_lost_def off_counts)

text \<open>One step of the walk.\<close>

lemma seq_off_back_by: "unat x \<le> seq_off u c \<Longrightarrow> seq_off u (c - x) = seq_off u c - unat x"
  using unat_minus_ulong [of x "c - u"] by (simp add: seq_off_def algebra_simps)

definition off_hole :: "ulong \<Rightarrow> nx_sack_hole \<Rightarrow> nat \<times> nat" where
  "off_hole u h = (seq_off u (sack_hole_left h), seq_off u (sack_hole_right h))"

lemma off_holes_hole [simp]: "off_holes Z c (off_hole u h # hs) \<longleftrightarrow>
    seq_off u (sack_hole_left h) < seq_off u (sack_hole_right h) \<and> seq_off u (sack_hole_right h) \<le> c \<and>
    {seq_off u (sack_hole_left h) ..< seq_off u (sack_hole_right h)} \<inter> Z = {} \<and>
    {seq_off u (sack_hole_right h) ..< c} \<subseteq> Z \<and> off_holes Z (seq_off u (sack_hole_left h)) hs"
  by (simp add: off_hole_def)

definition off_state :: "ulong \<Rightarrow> ulong \<times> ulong \<times> ulong \<times> nat \<Rightarrow> nat \<times> nat \<times> nat \<times> nat" where
  "off_state u x = (case x of (edge, cursor, bytes, ranges) \<Rightarrow> (seq_off u edge, seq_off u cursor, unat bytes, ranges))"

definition off_small :: "ulong \<Rightarrow> nat \<Rightarrow> ulong \<times> ulong \<times> ulong \<times> nat \<Rightarrow> bool" where
  "off_small u F x \<longleftrightarrow> (case x of (edge, cursor, bytes, ranges) \<Rightarrow>
     seq_off u edge \<le> F \<and> unat bytes + seq_off u cursor \<le> F)"

lemma sack_lost_step_off:
  assumes "off_small u F x" "F < 2147483648" "seq_off u (sack_hole_left h) < seq_off u (sack_hole_right h)"
    and "seq_off u (sack_hole_right h) \<le> fst (snd (off_state u x))"
  shows "off_state u (sack_lost_step T h x) = off_step (unat T) (off_hole u h) (off_state u x) \<and> off_small u F (sack_lost_step T h x)"
proof -
  obtain edge cursor bytes ranges where x: "x = (edge, cursor, bytes, ranges)" by (metis prod_cases4)
  let ?l = "seq_off u (sack_hole_left h)" and ?r = "seq_off u (sack_hole_right h)" and ?c = "seq_off u cursor"
  define gap where "gap = cursor - sack_hole_right h"
  have b: "seq_off u edge \<le> F" "unat bytes + ?c \<le> F" "?r \<le> ?c" using assms(1,4) by (auto simp: x off_small_def off_state_def)
  have g: "unat gap = ?c - ?r" using seq_off_diff [OF b(3)] by (simp add: gap_def seq_off_def)
  have nz: "gap \<noteq> 0 \<longleftrightarrow> ?c - ?r \<noteq> 0" using g unat_eq_0 [of gap] by metis
  have sum: "unat (bytes + gap) = unat bytes + (?c - ?r)" using g b(2) assms(2) by (subst unat_plus_ulong) auto
  define e1 where "e1 = (if bytes \<le> T \<and> T - bytes < gap then cursor - (T - bytes) else edge)"
  have e1: "seq_off u e1 = (if unat bytes \<le> unat T \<and> unat T - unat bytes < ?c - ?r then ?c - (unat T - unat bytes) else seq_off u edge)"
    using unat_minus_ulong [of bytes T] g seq_off_back_by [of "T - bytes" u cursor]
    by (auto simp: e1_def word_less_nat_alt word_le_nat_alt)
  have e1_le: "seq_off u e1 \<le> F" using e1 b by auto
  have half: "?r < 2147483648" "seq_off u e1 < 2147483648" using b e1_le assms(2) by linarith+
  define e2 where "e2 = (if ranges + 1 = 3 \<and> seq_diff (sack_hole_right h) e1 > 0 then sack_hole_right h else e1)"
  have e2: "seq_off u e2 = (if ranges + 1 = 3 \<and> seq_off u e1 < ?r then ?r else seq_off u e1)"
    using seq_diff_less [OF half] by (auto simp: e2_def)
  have step: "sack_lost_step T h x = (if gap \<noteq> 0 then (e2, sack_hole_left h, bytes + gap, ranges + 1) else (edge, sack_hole_left h, bytes, ranges))"
    by (simp add: x sack_lost_step_def Let_def gap_def e1_def e2_def)
  have abs: "off_step (unat T) (off_hole u h) (off_state u x) =
      (if ?c - ?r \<noteq> 0 then (seq_off u e2, ?l, unat bytes + (?c - ?r), ranges + 1) else (seq_off u edge, ?l, unat bytes, ranges))"
    unfolding off_step_def off_hole_def off_state_def x prod.case Let_def e2 e1 by simp
  have conc: "off_state u (sack_lost_step T h x) =
      (if ?c - ?r \<noteq> 0 then (seq_off u e2, ?l, unat bytes + (?c - ?r), ranges + 1) else (seq_off u edge, ?l, unat bytes, ranges))"
    unfolding step nz using sum by (simp add: off_state_def)
  have "seq_off u e2 \<le> F" using e2 e1_le b by auto
  moreover have "unat bytes + (?c - ?r) + ?l \<le> F" "unat bytes + ?l \<le> F" using b assms(3) by linarith+
  ultimately have "off_small u F (sack_lost_step T h x)"
  proof (cases "?c - ?r \<noteq> 0")
    case True
    show ?thesis unfolding step nz if_P [OF True] off_small_def prod.case sum
      using \<open>seq_off u e2 \<le> F\<close> \<open>unat bytes + (?c - ?r) + ?l \<le> F\<close> by blast
  next
    case False
    show ?thesis unfolding step nz if_not_P [OF False] off_small_def prod.case using b(1) \<open>unat bytes + ?l \<le> F\<close> by blast
  qed
  then show ?thesis using abs conc by simp
qed

text \<open>The walk.\<close>

lemma sack_lost_fold_off:
  assumes "off_small u F x" "F < 2147483648" "off_holes Z (fst (snd (off_state u x))) (map (off_hole u) hs)"
  shows "off_state u (fold (sack_lost_step T) hs x) = fold (off_step (unat T)) (map (off_hole u) hs) (off_state u x)"
  using assms(1,3)
proof (induction hs arbitrary: x)
  case (Cons h hs)
  have h: "seq_off u (sack_hole_left h) < seq_off u (sack_hole_right h)" "seq_off u (sack_hole_right h) \<le> fst (snd (off_state u x))"
    "off_holes Z (seq_off u (sack_hole_left h)) (map (off_hole u) hs)" using Cons.prems(2) by simp_all
  note step = sack_lost_step_off [OF Cons.prems(1) assms(2) h(1,2), of T]
  have "fst (snd (off_state u (sack_lost_step T h x))) = seq_off u (sack_hole_left h)"
    by (cases x) (simp add: sack_lost_step_def off_state_def Let_def)
  then show ?case using step Cons.IH [of "sack_lost_step T h x"] h(3) by simp
qed simp

lemma off_holes_rev:
  assumes "ranges_ok u 0 c (holes_ranges hs)"
    and "\<And>y. seq_off u y < c \<Longrightarrow> seq_off u y \<in> Z \<longleftrightarrow> y \<notin> ranges_set (holes_ranges hs)" and "c < 4294967296"
  shows "off_holes Z c (map (off_hole u) (rev hs))"
  using assms
proof (induction hs arbitrary: c rule: rev_induct)
  case Nil
  have "n \<in> Z" if "n < c" for n using Nil(2) [of "u + of_nat n"] Nil(3) that by (simp add: seq_off_of_nat)
  then show ?case by auto
next
  case (snoc h hs)
  let ?l = "seq_off u (sack_hole_left h)" and ?r = "seq_off u (sack_hole_right h)"
  have h: "?l < ?r" "?r \<le> c" and rest: "ranges_ok u 0 ?l (holes_ranges hs)"
    using snoc.prems(1) by (auto simp: ranges_ok_def sorted_wrt_append)
  have mem: "y \<in> ranges_set (holes_ranges (hs @ [h])) \<longleftrightarrow> y \<in> ranges_set (holes_ranges hs) \<or> ?l \<le> seq_off u y \<and> seq_off u y < ?r" for y
    using seq_range_off [of u "sack_hole_left h" "sack_hole_right h" y] h(1) by auto
  have below: "y \<in> ranges_set (holes_ranges hs) \<Longrightarrow> seq_off u y < ?l" for y using ranges_set_between [OF rest] by blast
  have Z: "n \<in> Z \<longleftrightarrow> u + of_nat n \<notin> ranges_set (holes_ranges (hs @ [h]))" if "n < c" for n
    using snoc.prems(2) [of "u + of_nat n"] snoc.prems(3) that by (simp add: seq_off_of_nat)
  have "n \<notin> Z" if "?l \<le> n" "n < ?r" for n
    using Z [of n] mem [of "u + of_nat n"] that h(2) snoc.prems(3) by (simp add: seq_off_of_nat)
  moreover have "n \<in> Z" if "?r \<le> n" "n < c" for n
    using Z [of n] mem [of "u + of_nat n"] below [of "u + of_nat n"] that h(1) snoc.prems(3) by (auto simp: seq_off_of_nat)
  moreover have "off_holes Z ?l (map (off_hole u) (rev hs))"
  proof (rule snoc.IH [OF rest])
    show "seq_off u y \<in> Z \<longleftrightarrow> y \<notin> ranges_set (holes_ranges hs)" if "seq_off u y < ?l" for y
      using snoc.prems(2) [of y] mem [of y] that h by auto
  qed (use h snoc.prems(3) in simp)
  ultimately show ?case using h by auto
qed

text \<open>The edge.\<close>

lemma sack_lost_edge_ok:
  fixes s :: nx_sack_socket and holes :: "nx_sack_hole list"
  defines "u \<equiv> nx_tcp_socket_sack_high_ack s" and "mss \<equiv> nx_tcp_socket_connect_mss s"
  assumes ok: "holes_ok u fack holes" and F: "seq_off u fack < 2147483648" and mss: "unat mss < 2147483648"
  defines "E \<equiv> sack_evidence u fack holes" and "edge \<equiv> sack_lost_edge s holes fack"
  shows "seq_off u edge \<le> seq_off u fack"
    and "y \<notin> E \<Longrightarrow> seq_off u y < seq_off u edge \<Longrightarrow> sack_is_lost mss u E y"
    and "seq_off u fack \<le> seq_off u e \<Longrightarrow> sack_full_runs mss u e E \<Longrightarrow> y \<notin> E \<Longrightarrow> sack_is_lost mss u E y \<Longrightarrow> seq_off u y < seq_off u edge"
proof -
  let ?F = "seq_off u fack" and ?T = "2 * mss" and ?Z = "seq_off u ` E"
  have T: "unat ?T = 2 * unat mss" using mss unat_times_ulong [of 2 mss] by simp
  have Z: "n \<in> ?Z \<Longrightarrow> n < ?F" for n by (auto simp: E_def sack_evidence_off)
  have "inj (seq_off u)" by (rule injI) (simp add: seq_off_inj)
  then have mem: "seq_off u x \<in> ?Z \<longleftrightarrow> x \<in> E" for x by (rule inj_image_mem_iff)
  have vanish: "off_above ?Z c = 0" "off_runs ?Z c = 0" "\<not> off_lost (2 * unat mss) ?Z c" if "?F \<le> c" for c
  proof -
    have "\<not> c \<le> z" if "z \<in> ?Z" for z using Z [OF that] \<open>?F \<le> c\<close> by linarith
    then have none: "{z \<in> ?Z. c \<le> z} = {}" by blast
    then have starts: "{z \<in> ?Z. c \<le> z \<and> (z = 0 \<or> z - 1 \<notin> ?Z)} = {}" by blast
    then show "off_above ?Z c = 0" "off_runs ?Z c = 0" "\<not> off_lost (2 * unat mss) ?Z c"
      unfolding off_lost_def off_above_def off_runs_def none starts by simp_all
  qed
  define x where "x = (u, fack, 0 :: ulong, 0 :: nat)"
  have x: "off_state u x = (0, ?F, off_above ?Z ?F, off_runs ?Z ?F)" unfolding vanish(1,2) [OF order_refl] by (simp add: x_def off_state_def)
  have small: "off_small u ?F x" by (simp add: x_def off_small_def)
  have holes: "off_holes ?Z ?F (map (off_hole u) (rev holes))"
    using F mem by (intro off_holes_rev [OF ok [THEN holes_ok_ranges]]) (auto simp: E_def sack_evidence_off)
  then have holes': "off_holes ?Z (fst (snd (off_state u x))) (map (off_hole u) (rev holes))" using x by simp
  obtain e' c' b' r' where fin: "fold (sack_lost_step ?T) (rev holes) x = (e', c', b', r')" by (metis prod_cases4)
  have edge: "edge = e'" using fin by (simp add: edge_def sack_lost_edge_def x_def u_def mss_def)
  have walk: "fold (off_step (2 * unat mss)) (map (off_hole u) (rev holes)) (0, ?F, off_above ?Z ?F, off_runs ?Z ?F) =
      (seq_off u e', seq_off u c', unat b', r')"
    using sack_lost_fold_off [OF small F holes', of ?T] unfolding fin T x by (simp add: off_state_def)
  have top: "?F \<notin> ?Z" using Z by blast
  have fin_Z: "finite ?Z" by simp
  note res = off_walk [OF fin_Z holes top walk]
  show "seq_off u edge \<le> ?F" using res(3) edge by simp
  have "off_sound (2 * unat mss) ?Z 0 ?F" by (simp add: off_sound_def)
  then have sound: "off_sound (2 * unat mss) ?Z (seq_off u e') 0" by (rule res(1))
  show "sack_is_lost mss u E y" if "y \<notin> E" "seq_off u y < seq_off u edge"
  proof -
    have "seq_off u y \<notin> ?Z" using mem that(1) by blast
    then have "off_lost (2 * unat mss) ?Z (seq_off u y)" using sound that(2) unfolding off_sound_def edge by blast
    then show ?thesis using off_lost_word [OF that(1)] by simp
  qed
  show "seq_off u y < seq_off u edge" if le: "?F \<le> seq_off u e" and runs: "sack_full_runs mss u e E" and y: "y \<notin> E" "sack_is_lost mss u E y"
  proof -
    have full: "off_full (2 * unat mss) ?Z"
    proof (cases "card E \<le> 2 * unat mss")
      case True
      then show ?thesis using card_off_image [of u E "\<lambda>_. True"] by (simp add: off_full_def off_above_def)
    next
      case False
      have "2 * unat mss < off_above ?Z c" if c: "c \<notin> ?Z" "3 \<le> off_runs ?Z c" for c
      proof -
        have cF: "c < ?F" using c(2) vanish(2) [of c] by (cases "?F \<le> c") auto
        define w where "w = u + of_nat c"
        have w: "seq_off u w = c" using cF F by (simp add: w_def seq_off_of_nat)
        have "w \<notin> E" using c(1) mem [of w] w by simp
        moreover have "w \<in> seq_range u e" using cF le w by (simp add: seq_range_def)
        ultimately show ?thesis using runs False c(2) off_counts [of w E u] w unfolding sack_full_runs_def by auto
      qed
      then show ?thesis by (simp add: off_full_def)
    qed
    have comp: "off_complete (2 * unat mss) ?Z 0 ?F" using vanish(3) by (auto simp: off_complete_def)
    have "seq_off u y \<notin> ?Z" "off_lost (2 * unat mss) ?Z (seq_off u y)" using mem y off_lost_word [OF y(1)] by auto
    then show ?thesis using res(2) [OF full comp] edge by blast
  qed
qed

section \<open>The estimate\<close>

text \<open>Where a number at the window or behind it counts from.\<close>

definition seq_near :: "ulong \<Rightarrow> nat \<Rightarrow> ulong \<Rightarrow> bool" where
  "seq_near u w x \<longleftrightarrow> seq_off u x \<le> w \<or> 0 < seq_off x u \<and> seq_off x u + w < 2147483648"

definition seq_front :: "ulong \<Rightarrow> nat \<Rightarrow> ulong \<Rightarrow> nat" where
  "seq_front u w x = (if seq_off u x \<le> w then seq_off u x else 0)"

lemma seq_near_less:
  assumes "seq_near u w x" "w < 2147483648" "seq_off u y \<le> w"
  shows "seq_diff x y > 0 \<longleftrightarrow> seq_off u y < seq_front u w x"
proof (cases "seq_off u x \<le> w")
  case True
  then show ?thesis using seq_diff_less [of u x y] assms by (simp add: seq_front_def)
next
  case False
  then have "seq_diff x y < 0" using assms frontier_behind(1) [of x u w y] by (auto simp: seq_near_def)
  then show ?thesis using False by (simp add: seq_front_def)
qed

lemma card_range_from: "card {y \<in> seq_range l r. n \<le> seq_off u y} = seq_off u r - max n (seq_off u l)"
  if lr: "seq_off u l < seq_off u r"
proof -
  have "{y \<in> seq_range l r. n \<le> seq_off u y} = {y. max n (seq_off u l) \<le> seq_off u y \<and> seq_off u y < seq_off u r}"
    using seq_range_off [of u l r] lr by auto
  moreover have "seq_off u ` {y. max n (seq_off u l) \<le> seq_off u y \<and> seq_off u y < seq_off u r} = {max n (seq_off u l) ..< seq_off u r}"
  proof -
    have "k \<in> seq_off u ` {y. max n (seq_off u l) \<le> seq_off u y \<and> seq_off u y < seq_off u r}"
      if "max n (seq_off u l) \<le> k" "k < seq_off u r" for k
      using that seq_off_less [of u r] seq_off_of_nat [of k u] by (intro image_eqI [of _ _ "u + of_nat k"]) auto
    then show ?thesis by auto
  qed
  ultimately show ?thesis using card_seq_off [of u "{y \<in> seq_range l r. n \<le> seq_off u y}"] by simp
qed

lemma card_range_to: "card {y \<in> seq_range l r. seq_off u y < n} = min n (seq_off u r) - seq_off u l"
  if lr: "seq_off u l < seq_off u r"
proof -
  let ?A = "{y \<in> seq_range l r. n \<le> seq_off u y}" and ?B = "{y \<in> seq_range l r. seq_off u y < n}"
  have split: "seq_range l r = ?A \<union> ?B" by (auto simp: not_less)
  have "card (?A \<union> ?B) = card ?A + card ?B" by (intro card_Un_disjoint) auto
  then have "card (seq_range l r) = card ?A + card ?B" unfolding split [symmetric] .
  moreover have "card (seq_range l r) = seq_off u r - seq_off u l" using seq_off_diff [of u l r] lr by (simp add: card_seq_range)
  ultimately show ?thesis using card_range_from [OF lr, of n] lr by linarith
qed

lemma sack_hole_pipe_ok:
  assumes "seq_off u (sack_hole_left h) < seq_off u (sack_hole_right h)" "seq_off u (sack_hole_right h) \<le> w" "w < 2147483648"
    and "seq_off u edge \<le> w" "seq_near u w hr"
  shows "sack_hole_pipe edge hr h = of_nat (card {y \<in> seq_range (sack_hole_left h) (sack_hole_right h). \<not> seq_off u y < seq_off u edge} +
    card {y \<in> seq_range (sack_hole_left h) (sack_hole_right h). seq_diff hr y > 0})"
proof -
  let ?l = "sack_hole_left h" and ?r = "sack_hole_right h"
  let ?L = "seq_off u ?l" and ?R = "seq_off u ?r" and ?E = "seq_off u edge" and ?H = "seq_front u w hr"
  have half: "?L < 2147483648" "?R < 2147483648" "?E < 2147483648" using assms by linarith+
  have diff: "x - y = of_nat (seq_off u x - seq_off u y)" if "seq_off u y \<le> seq_off u x" for x y
    using seq_off_diff [OF that] of_nat_seq_off [of y x] by simp
  define a where "a = (if seq_diff edge ?l > 0 then edge else ?l)"
  have a: "seq_off u a = max ?E ?L" using seq_diff_less [OF half(3,1)] by (auto simp: a_def)
  have "seq_off u a < 2147483648" using a half by simp
  from seq_diff_less [OF half(2) this] have ra: "seq_diff ?r a > 0 \<longleftrightarrow> max ?E ?L < ?R" using a by simp
  have first: "(if seq_diff ?r a > 0 then ?r - a else 0) = of_nat (?R - max ?E ?L)"
    using diff [of a ?r] a ra by (cases "max ?E ?L < ?R") auto
  have near: "seq_diff hr y > 0 \<longleftrightarrow> seq_off u y < ?H" if "seq_off u y \<le> w" for y using seq_near_less [OF assms(5,3) that] .
  define b where "b = (if seq_diff hr ?r > 0 then ?r else hr)"
  have second: "(if seq_diff b ?l > 0 then b - ?l else 0) = of_nat (min ?H ?R - ?L)"
  proof (cases "seq_diff hr ?r > 0")
    case True
    then show ?thesis using near [of ?r] assms(1,2) seq_diff_less [OF half(2,1)] diff [of ?l ?r] by (simp add: b_def)
  next
    case False
    then have le: "?H \<le> ?R" using near [of ?r] assms(2) by simp
    show ?thesis
    proof (cases "?L < ?H")
      case True
      then have "seq_off u hr = ?H" by (auto simp: seq_front_def split: if_splits)
      then show ?thesis using False True near [of ?l] assms(1,2) diff [of ?l hr] le by (simp add: b_def)
    next
      case ge: False
      then show ?thesis using False near [of ?l] assms(1,2) le by (simp add: b_def)
    qed
  qed
  have "seq_off u y \<le> w" if "y \<in> seq_range ?l ?r" for y using seq_range_off [of u ?l ?r y] assms(1,2) that by simp
  then have hr: "{y \<in> seq_range ?l ?r. seq_diff hr y > 0} = {y \<in> seq_range ?l ?r. seq_off u y < ?H}" using near by blast
  have "sack_hole_pipe edge hr h = (if seq_diff ?r a > 0 then ?r - a else 0) + (if seq_diff b ?l > 0 then b - ?l else 0)"
    by (simp add: sack_hole_pipe_def Let_def a_def b_def)
  also have "\<dots> = of_nat ((?R - max ?E ?L) + (min ?H ?R - ?L))" unfolding first second by simp
  finally show ?thesis unfolding hr not_less card_range_from [OF assms(1)] card_range_to [OF assms(1)] .
qed

text \<open>The sum over the holes.\<close>

lemma sack_holes_pipe_ok:
  assumes "ranges_ok u lo w (holes_ranges holes)" "w < 2147483648" "seq_off u edge \<le> w" "seq_near u w hr"
  shows "fold (\<lambda>hole pipe. pipe + sack_hole_pipe edge hr hole) holes x =
    x + of_nat (card {y \<in> ranges_set (holes_ranges holes). \<not> seq_off u y < seq_off u edge} +
      card {y \<in> ranges_set (holes_ranges holes). seq_diff hr y > 0})"
  using assms(1)
proof (induction holes arbitrary: lo x)
  case (Cons h holes)
  let ?l = "sack_hole_left h" and ?r = "sack_hole_right h"
  have h: "seq_off u ?l < seq_off u ?r" "seq_off u ?r \<le> w" and rest: "ranges_ok u (seq_off u ?r) w (holes_ranges holes)"
    using Cons.prems by (auto simp: ranges_ok_def)
  have "seq_range ?l ?r \<inter> ranges_set (holes_ranges holes) = {}"
    using ranges_set_between [OF rest] seq_range_off [of u ?l ?r] h by fastforce
  then have split: "card {y \<in> ranges_set (holes_ranges (h # holes)). P y} =
      card {y \<in> seq_range ?l ?r. P y} + card {y \<in> ranges_set (holes_ranges holes). P y}" for P
  proof -
    have "{y \<in> ranges_set (holes_ranges (h # holes)). P y} = {y \<in> seq_range ?l ?r. P y} \<union> {y \<in> ranges_set (holes_ranges holes). P y}" by auto
    then show ?thesis using \<open>seq_range ?l ?r \<inter> ranges_set (holes_ranges holes) = {}\<close> by (simp only:) (subst card_Un_disjoint, auto)
  qed
  show ?case unfolding fold_simps Cons.IH [OF rest] split sack_hole_pipe_ok [OF h assms(2-4)] by simp
qed simp

lemma nx_tcp_sack_recovery_pipe_eq:
  fixes s :: nx_sack_socket
  defines "u \<equiv> nx_tcp_socket_sack_high_ack s" and "hr \<equiv> nx_tcp_socket_tx_high_rxt s"
  assumes inv: "sack_inv m hs s E" and board: "nx_tcp_socket_sack_scoreboard s \<noteq> NX_NULL"
    and near: "seq_near u (seq_off u (sack_data_end s)) hr"
  shows "\<exists>holes. holes_ok u (nx_tcp_socket_sack_fack s) holes \<and> E = sack_evidence u (nx_tcp_socket_sack_fack s) holes \<and>
    seq_off u (nx_tcp_socket_sack_fack s) \<le> seq_off u (sack_data_end s) \<and>
    (\<forall>edge. edge = sack_pipe_edge s (sack_lost_edge s holes (nx_tcp_socket_sack_fack s)) \<longrightarrow>
      seq_off u edge \<le> seq_off u (nx_tcp_socket_sack_fack s) \<longrightarrow>
      nx_tcp_sack_recovery_pipe m hs s = Some (of_nat (card {y \<in> seq_range u (sack_data_end s) - E. \<not> seq_off u y < seq_off u edge} +
        card {y \<in> seq_range u (sack_data_end s) - E. seq_diff hr y > 0}), s\<lparr>nx_tcp_socket_sack_lost_edge := edge\<rparr>))"
proof -
  let ?e = "sack_data_end s" and ?f = "nx_tcp_socket_sack_fack s"
  have "sack_shows m hs s E" "seq_off u ?e \<le> 0x40000000" using inv by (auto simp: sack_inv_def u_def)
  then obtain holes where h: "sack_live m hs s holes" "holes_ok u ?f holes" "seq_off u ?f \<le> seq_off u ?e" "E = sack_evidence u ?f holes"
    using board by (auto simp: sack_shows_def u_def)
  have W: "seq_off u ?e < 2147483648" using \<open>seq_off u ?e \<le> 0x40000000\<close> by simp
  have view: "sack_view m hs s = Some (holes, ?f)" using sack_live_ranges [OF h(1)] board by (simp add: sack_view_def)
  have holes: "ranges_ok u 0 (seq_off u ?e) (holes_ranges holes)" using h(3) by (intro ranges_ok_mono [OF h(2) [THEN holes_ok_ranges]]) simp_all
  let ?R = "ranges_set (holes_ranges holes)"
  have below: "y \<in> ?R \<Longrightarrow> seq_off u y < seq_off u ?f" for y using ranges_set_between [OF h(2) [THEN holes_ok_ranges]] by blast
  have data: "y \<in> seq_range u ?e - E \<longleftrightarrow> y \<in> ?R \<or> seq_off u ?f \<le> seq_off u y \<and> seq_off u y < seq_off u ?e" for y
    using h(3) below [of y] unfolding h(4) by (auto simp: sack_evidence_off seq_range_def)
  have parts: "card {y \<in> seq_range u ?e - E. P y} = card {y \<in> ?R. P y} + card {y \<in> seq_range ?f ?e. P y}" for P
  proof -
    have top: "y \<in> seq_range ?f ?e \<longleftrightarrow> seq_off u ?f \<le> seq_off u y \<and> seq_off u y < seq_off u ?e" for y using h(3) by (rule seq_range_off)
    have "{y \<in> seq_range u ?e - E. P y} = {y \<in> ?R. P y} \<union> {y \<in> seq_range ?f ?e. P y}" using data top by blast
    moreover have "{y \<in> ?R. P y} \<inter> {y \<in> seq_range ?f ?e. P y} = {}" using below top by fastforce
    ultimately show ?thesis by (simp add: card_Un_disjoint)
  qed
  have "nx_tcp_sack_recovery_pipe m hs s = Some (of_nat (card {y \<in> seq_range u ?e - E. \<not> seq_off u y < seq_off u edge} +
        card {y \<in> seq_range u ?e - E. seq_diff hr y > 0}), s\<lparr>nx_tcp_socket_sack_lost_edge := edge\<rparr>)"
    if edge: "edge = sack_pipe_edge s (sack_lost_edge s holes ?f)" "seq_off u edge \<le> seq_off u ?f" for edge
  proof -
    have e: "seq_off u edge \<le> seq_off u ?e" using edge(2) h(3) by simp
    have top: "y \<in> seq_range ?f ?e \<longleftrightarrow> seq_off u ?f \<le> seq_off u y \<and> seq_off u y < seq_off u ?e" for y using h(3) by (rule seq_range_off)
    have "\<not> seq_off u y < seq_off u edge" if "y \<in> seq_range ?f ?e" for y using top [THEN iffD1, OF that] edge(2) by linarith
    then have "{y \<in> seq_range ?f ?e. \<not> seq_off u y < seq_off u edge} = seq_range ?f ?e" by blast
    then have one: "of_nat (card {y \<in> seq_range ?f ?e. \<not> seq_off u y < seq_off u edge}) = ?e - ?f"
      by (simp add: card_seq_range of_nat_seq_off)
    let ?H = "seq_front u (seq_off u ?e) hr"
    have near': "seq_diff hr y > 0 \<longleftrightarrow> seq_off u y < ?H" if "seq_off u y \<le> seq_off u ?e" for y using seq_near_less [OF near W that] .
    have "seq_diff hr y > 0 \<longleftrightarrow> seq_off u y < ?H" if "y \<in> seq_range ?f ?e" for y
      using near' top [THEN iffD1, OF that] by (simp add: less_imp_le)
    then have "{y \<in> seq_range ?f ?e. seq_diff hr y > 0} = {y \<in> seq_range ?f ?e. seq_off u y < ?H}" by blast
    moreover have "?H \<le> seq_off u ?e" by (simp add: seq_front_def)
    ultimately have "card {y \<in> seq_range ?f ?e. seq_diff hr y > 0} = ?H - seq_off u ?f"
      using card_range_to [of u ?f ?e ?H] h(3) by (cases "seq_off u ?f < seq_off u ?e") (auto simp: seq_off_inj)
    moreover have "(if seq_diff hr ?f > 0 then hr - ?f else 0) = of_nat (?H - seq_off u ?f)"
    proof (cases "seq_off u ?f < ?H")
      case True
      then have hf: "?H = seq_off u hr" "seq_off u ?f < seq_off u hr" by (auto simp: seq_front_def split: if_splits)
      then show ?thesis using True near' [OF h(3)] seq_off_diff [of u ?f hr] of_nat_seq_off [of ?f hr] by simp
    next
      case False
      then show ?thesis using near' [OF h(3)] by simp
    qed
    ultimately have two: "of_nat (card {y \<in> seq_range ?f ?e. seq_diff hr y > 0}) = (if seq_diff hr ?f > 0 then hr - ?f else 0)" by simp
    have sum: "fold (\<lambda>hole pipe. pipe + sack_hole_pipe edge hr hole) holes x = x + of_nat (card {y \<in> ?R. \<not> seq_off u y < seq_off u edge} +
        card {y \<in> ?R. seq_diff hr y > 0})" for x
      by (rule sack_holes_pipe_ok [OF holes W e near])
    have run: "nx_tcp_sack_recovery_pipe m hs s = Some ((?e - ?f) + (if seq_diff hr ?f > 0 then hr - ?f else 0) +
        of_nat (card {y \<in> ?R. \<not> seq_off u y < seq_off u edge} + card {y \<in> ?R. seq_diff hr y > 0}),
        s\<lparr>nx_tcp_socket_sack_lost_edge := edge\<rparr>)"
      using view sum unfolding nx_tcp_sack_recovery_pipe_def edge(1) [symmetric] hr_def [symmetric] Let_def by (simp flip: edge(1))
    show ?thesis unfolding run parts by (simp add: one two)
  qed
  then show ?thesis using h by blast
qed

text \<open>The uncertain state only lowers the edge.\<close>

lemma sack_pipe_edge_le:
  fixes s :: nx_sack_socket
  defines "u \<equiv> nx_tcp_socket_sack_high_ack s"
  assumes "sack_frontier_ok s" "seq_off u edge \<le> seq_off u (sack_data_end s)"
  shows "seq_off u (sack_pipe_edge s edge) \<le> seq_off u edge"
proof (cases "nx_sack_uncertain s \<and> seq_diff edge (nx_tcp_socket_sack_uncertain_start s) > 0")
  case True
  let ?f = "nx_tcp_socket_sack_uncertain_start s" and ?w = "seq_off u (sack_data_end s)"
  have w: "?w < 2147483648" and front: "seq_off u ?f \<le> ?w \<or> 0 < seq_off ?f u \<and> seq_off ?f u + ?w < 2147483648"
    using assms(2) True by (auto simp: sack_frontier_ok_def Let_def u_def)
  show ?thesis
  proof (cases "seq_off u ?f \<le> ?w")
    case True
    then have "seq_off u ?f < seq_off u edge"
      using \<open>nx_sack_uncertain s \<and> _\<close> seq_diff_less [of u edge ?f] assms(3) w by simp
    moreover have "\<not> seq_diff u ?f > 0" using True w seq_diff_less [of u u ?f] by simp
    ultimately show ?thesis using \<open>nx_sack_uncertain s \<and> _\<close> by (simp add: sack_pipe_edge_def Let_def u_def [symmetric])
  next
    case False
    then have "seq_diff u ?f > 0" using front by (auto simp: seq_diff_pos)
    then show ?thesis using \<open>nx_sack_uncertain s \<and> _\<close> by (simp add: sack_pipe_edge_def Let_def u_def [symmetric])
  qed
qed (auto simp: sack_pipe_edge_def)

lemma sack_pipe_edge_certain: "\<not> nx_sack_uncertain s \<Longrightarrow> sack_pipe_edge s edge = edge"
  by (simp add: sack_pipe_edge_def)

section \<open>The estimate against the RFC\<close>

lemma card_data_le: "card {y \<in> seq_range u e - E. P y} \<le> seq_off u e"
proof -
  have "card {y \<in> seq_range u e - E. P y} \<le> card (seq_range u e)" by (rule card_mono) auto
  then show ?thesis by (simp add: card_seq_range)
qed

lemma unat_ulong_of_nat: "n < 4294967296 \<Longrightarrow> unat (of_nat n :: ulong) = n"
  by (simp add: unat_of_nat take_bit_nat_eq_self)

lemma sack_pipe_result:
  fixes s :: nx_sack_socket
  defines "u \<equiv> nx_tcp_socket_sack_high_ack s" and "hr \<equiv> nx_tcp_socket_tx_high_rxt s" and "e \<equiv> sack_data_end s"
    and "mss \<equiv> nx_tcp_socket_connect_mss s"
  assumes inv: "sack_inv m hs s E" and board: "nx_tcp_socket_sack_scoreboard s \<noteq> NX_NULL"
    and near: "seq_near u (seq_off u e) hr" and mss: "unat mss < 2147483648"
  shows "\<exists>pipe edge. nx_tcp_sack_recovery_pipe m hs s = Some (pipe, s\<lparr>nx_tcp_socket_sack_lost_edge := edge\<rparr>) \<and>
    seq_off u edge \<le> seq_off u (nx_tcp_socket_sack_fack s) \<and>
    (\<forall>y. y \<notin> E \<longrightarrow> seq_off u y < seq_off u edge \<longrightarrow> sack_is_lost mss u E y) \<and>
    sack_set_pipe mss u e E hr \<le> unat pipe \<and>
    (\<not> nx_sack_uncertain s \<and> sack_full_runs mss u e E \<longrightarrow> unat pipe = sack_set_pipe mss u e E hr)"
proof -
  let ?f = "nx_tcp_socket_sack_fack s"
  obtain holes where h: "holes_ok u ?f holes" "E = sack_evidence u ?f holes" "seq_off u ?f \<le> seq_off u e"
    and run: "\<And>edge. edge = sack_pipe_edge s (sack_lost_edge s holes ?f) \<Longrightarrow> seq_off u edge \<le> seq_off u ?f \<Longrightarrow>
      nx_tcp_sack_recovery_pipe m hs s = Some (of_nat (card {y \<in> seq_range u e - E. \<not> seq_off u y < seq_off u edge} +
        card {y \<in> seq_range u e - E. seq_diff hr y > 0}), s\<lparr>nx_tcp_socket_sack_lost_edge := edge\<rparr>)"
    using nx_tcp_sack_recovery_pipe_eq [OF inv board near [unfolded u_def hr_def e_def], folded u_def hr_def e_def]
    by (elim exE conjE) (rule that, assumption, assumption, assumption, blast)
  have small: "seq_off u e \<le> 0x40000000" "sack_uncertain_ok s" using inv by (auto simp: sack_inv_def u_def e_def)
  define lost where "lost = sack_lost_edge s holes ?f"
  define edge where "edge = sack_pipe_edge s lost"
  have F: "seq_off u ?f < 2147483648" using h(3) small by simp
  note rule = sack_lost_edge_ok [OF h(1) [unfolded u_def] F [unfolded u_def] mss [unfolded mss_def],
      folded u_def mss_def, folded h(2) lost_def]
  have "sack_frontier_ok s" using small by (intro sack_uncertain_frontier) (simp_all add: u_def e_def)
  moreover have "seq_off u lost \<le> seq_off u e" using rule(1) h(3) by simp
  ultimately have low: "seq_off u edge \<le> seq_off u lost" unfolding edge_def u_def e_def by (rule sack_pipe_edge_le)
  let ?A = "{y \<in> seq_range u e - E. \<not> seq_off u y < seq_off u edge}" and ?B = "{y \<in> seq_range u e - E. seq_diff hr y > 0}"
    and ?N = "{y \<in> seq_range u e - E. \<not> sack_is_lost mss u E y}"
  have sound: "y \<notin> E \<Longrightarrow> seq_off u y < seq_off u edge \<Longrightarrow> sack_is_lost mss u E y" for y
    using rule(2) [of y] low by simp
  have "card ?A + card ?B \<le> seq_off u e + seq_off u e" by (intro add_mono card_data_le)
  then have "card ?A + card ?B < 4294967296" using small(1) by linarith
  then have fit: "unat (of_nat (card ?A + card ?B) :: ulong) = card ?A + card ?B" by (rule unat_ulong_of_nat)
  have "?N \<subseteq> ?A" using sound by blast
  then have le: "card ?N \<le> card ?A" by (intro card_mono) simp_all
  have eq: "card ?A = card ?N" if "\<not> nx_sack_uncertain s" "sack_full_runs mss u e E"
  proof -
    have "edge = lost" using that(1) by (simp add: edge_def sack_pipe_edge_certain)
    then have "?A = ?N" using sound rule(3) [OF h(3) that(2)] by blast
    then show ?thesis by simp
  qed
  have below: "seq_off u edge \<le> seq_off u ?f" using low rule(1) by simp
  define pipe :: ulong where "pipe = of_nat (card ?A + card ?B)"
  have pipe: "unat pipe = card ?A + card ?B" unfolding pipe_def by (rule fit)
  have "nx_tcp_sack_recovery_pipe m hs s = Some (pipe, s\<lparr>nx_tcp_socket_sack_lost_edge := edge\<rparr>)"
    unfolding pipe_def by (rule run [OF edge_def [unfolded lost_def] below])
  moreover have "sack_set_pipe mss u e E hr \<le> unat pipe" unfolding pipe sack_set_pipe_def by (rule add_right_mono [OF le])
  moreover have "unat pipe = sack_set_pipe mss u e E hr" if "\<not> nx_sack_uncertain s" "sack_full_runs mss u e E"
    unfolding pipe sack_set_pipe_def eq [OF that] ..
  ultimately show ?thesis using below sound by blast
qed

end
