(* ===== verification/Nx_Sack_Send.thy ===== *)
theory Nx_Sack_Send imports Nx_Sack_Recovery begin

text \<open>
  The sending side of the loss recovery (common/src/nx_tcp_sack_recovery.c): its start, the choice of
  the next range to send, the accounting of what was sent, its end, and the reset.
\<close>

section \<open>Start and end\<close>

definition nx_tcp_sack_recovery_begin ::
    "(nat \<Rightarrow> nx_mem \<Rightarrow> nx_mem) \<Rightarrow> nx_mem \<Rightarrow> sack_slots \<Rightarrow> nx_sack_socket \<Rightarrow> (nx_mem \<times> sack_slots \<times> nx_sack_socket) option" where
  "nx_tcp_sack_recovery_begin system_suspend m hs s = do {
     (m, hs, s) \<leftarrow> (if nx_sack_initialized s then Some (m, hs, s)
                  else nx_tcp_sack_recovery_ack system_suspend (sack_data_end s - nx_tcp_socket_tx_outstanding_bytes s) m hs s);
     let fs = sack_data_end s - nx_tcp_socket_sack_high_ack s;
     if fs = 0 then Some (m, hs, s)
     else do {
       let threshold = (if fs div 2 < 2 * nx_tcp_socket_connect_mss s then 2 * nx_tcp_socket_connect_mss s else fs div 2);
       s \<leftarrow> sack_prr_credit m hs (s\<lparr>
              nx_tcp_socket_tx_slow_start_threshold := threshold,
              nx_tcp_socket_tx_window_congestion := threshold,
              nx_tcp_socket_fast_recovery := True,
              nx_tcp_socket_tx_sequence_recover := sack_data_end s - 1,
              nx_tcp_socket_tx_high_rxt := nx_tcp_socket_sack_high_ack s,
              nx_tcp_socket_sack_rescue_rxt := nx_tcp_socket_sack_high_ack s,
              nx_tcp_socket_sack_rxt_mark := sack_data_end s,
              nx_tcp_socket_prr_recover_fs := fs,
              nx_tcp_socket_prr_delivered := nx_tcp_socket_sack_delivered_data s,
              nx_tcp_socket_prr_out := 0,
              nx_tcp_socket_sack_cursor := nx_tcp_socket_transmit_sent_head s,
              nx_tcp_socket_tx_rto_next := 0,
              nx_tcp_socket_tx_rto_end := 0\<rparr>);
       Some (m, hs, if nx_tcp_socket_prr_credit s < nx_tcp_socket_connect_mss s
                    then s\<lparr>nx_tcp_socket_prr_credit := nx_tcp_socket_connect_mss s\<rparr> else s)
     }
   }"

definition nx_tcp_sack_recovery_end :: "nx_sack_socket \<Rightarrow> nx_sack_socket" where
  "nx_tcp_sack_recovery_end s =
     s\<lparr>nx_tcp_socket_prr_recover_fs := 0, nx_tcp_socket_prr_credit := 0, nx_tcp_socket_sack_cursor := NX_NULL\<rparr>"

section \<open>The next range\<close>

text \<open>What is still to be sent of a hole, below a limit.\<close>

definition sack_hole_next :: "nx_sack_socket \<Rightarrow> ulong \<Rightarrow> nx_sack_hole \<Rightarrow> (ulong \<times> ulong) option" where
  "sack_hole_next s limit h =
     (let left = (if seq_diff (nx_tcp_socket_tx_high_rxt s) (sack_hole_rxmit h) > 0 then nx_tcp_socket_tx_high_rxt s
                  else sack_hole_rxmit h)
      in if seq_diff limit left > 0 then Some (left, limit) else None)"

definition sack_next_lost :: "nx_sack_socket \<Rightarrow> nx_sack_hole \<Rightarrow> (ulong \<times> ulong) option" where
  "sack_next_lost s h =
     sack_hole_next s
       (if seq_diff (sack_hole_right h) (nx_tcp_socket_sack_lost_edge s) > 0 then nx_tcp_socket_sack_lost_edge s
        else sack_hole_right h) h"

definition sack_first :: "('a \<Rightarrow> 'b option) \<Rightarrow> 'a list \<Rightarrow> 'b option" where
  "sack_first f xs = (case find (\<lambda>x. f x \<noteq> None) xs of None \<Rightarrow> None | Some x \<Rightarrow> f x)"

datatype sack_next = Sack_none | Sack_range ulong ulong | Sack_rescue ulong ulong

definition nx_tcp_sack_recovery_next :: "nx_mem \<Rightarrow> sack_slots \<Rightarrow> nx_sack_socket \<Rightarrow> sack_next option" where
  "nx_tcp_sack_recovery_next m hs s = do {
     (holes, fack) \<leftarrow> sack_view m hs s;
     let ack = nx_tcp_socket_sack_high_ack s;
     let data_end = sack_data_end s;
     let mss = nx_tcp_socket_connect_mss s;
     Some (case sack_first (sack_next_lost s) holes of
         Some (left, limit) \<Rightarrow> Sack_range left limit
       | None \<Rightarrow>
         if nx_tcp_socket_prr_out s = 0 then Sack_range ack data_end
         else if nx_sack_uncertain s \<and> seq_diff ack (nx_tcp_socket_sack_uncertain_start s) \<ge> 0 \<and>
                 seq_diff ack (nx_tcp_socket_tx_high_rxt s) \<ge> 0 \<and> seq_diff data_end ack > 0
         then Sack_range ack (if mss < data_end - ack then ack + mss else data_end)
         else if nx_tcp_socket_transmit_suspension_list s \<noteq> NX_NULL \<and> \<not> nx_tcp_socket_tx_queue_stopped s \<and>
                 nx_tcp_socket_tx_outstanding_bytes s < nx_tcp_socket_tx_window_advertised s \<and>
                 nx_tcp_socket_transmit_sent_count s < nx_tcp_socket_transmit_queue_maximum s
         then Sack_none
         else
           case (if mss \<le> nx_tcp_socket_prr_credit s then sack_first (\<lambda>h. sack_hole_next s (sack_hole_right h) h) holes else None) of
             Some (left, limit) \<Rightarrow> Sack_range left limit
           | None \<Rightarrow>
             if nx_sack_ack_jump s \<and> seq_diff ack (nx_tcp_socket_sack_rescue_rxt s) \<ge> 0 \<and>
                seq_diff ack (nx_tcp_socket_tx_high_rxt s) \<ge> 0 \<and>
                data_end - ack \<noteq> 0 \<and> data_end - ack \<le> mss \<and> seq_diff data_end fack > 0
             then Sack_rescue (data_end - 1) data_end
             else Sack_none)
   }"

section \<open>What was sent\<close>

primrec sack_sent_holes :: "nx_mem \<Rightarrow> nx_sack_socket \<Rightarrow> ulong \<Rightarrow> ulong \<Rightarrow> nat list \<Rightarrow> sack_slots \<Rightarrow> sack_slots option" where
  "sack_sent_holes m s begin_seq end_seq [] hs = Some hs"
| "sack_sent_holes m s begin_seq end_seq (i # rest) hs = do {
     a \<leftarrow> sack_hole m s (nx_sack_bank s) i;
     h \<leftarrow> hs a;
     sack_sent_holes m s begin_seq end_seq rest
       (if seq_diff begin_seq (sack_hole_rxmit h) \<le> 0 \<and> seq_diff end_seq (sack_hole_left h) > 0 \<and>
           seq_diff (sack_hole_right h) begin_seq > 0 \<and> seq_diff end_seq (sack_hole_rxmit h) > 0
        then hs(a \<mapsto> h\<lparr>sack_hole_rxmit := if seq_diff end_seq (sack_hole_right h) > 0 then sack_hole_right h else end_seq\<rparr>)
        else hs)
   }"

definition nx_tcp_sack_recovery_sent ::
    "ulong \<Rightarrow> ulong \<Rightarrow> bool \<Rightarrow> nx_mem \<Rightarrow> sack_slots \<Rightarrow> nx_sack_socket \<Rightarrow> (sack_slots \<times> nx_sack_socket) option" where
  "nx_tcp_sack_recovery_sent seq bytes rescue m hs s = do {
     let end_seq = seq + bytes;
     let s = (if rescue then s\<lparr>nx_tcp_socket_sack_rescue_rxt := nx_tcp_socket_tx_sequence_recover s + 1\<rparr>
              else if nx_tcp_socket_prr_out s = 0 then s\<lparr>nx_tcp_socket_sack_rescue_rxt := end_seq\<rparr> else s);
     let s = s\<lparr>nx_tcp_socket_prr_out := nx_tcp_socket_prr_out s + bytes,
               nx_tcp_socket_prr_credit := (if bytes < nx_tcp_socket_prr_credit s then nx_tcp_socket_prr_credit s - bytes else 0)\<rparr>;
     let s = (if \<not> rescue \<and> seq_diff end_seq (nx_tcp_socket_tx_high_rxt s) > 0
              then s\<lparr>nx_tcp_socket_tx_high_rxt := end_seq\<rparr> else s);
     let s = (if \<not> rescue then s\<lparr>nx_tcp_socket_sack_rxt_mark := sack_data_end s\<rparr> else s);
     hs \<leftarrow> (if \<not> rescue \<and> nx_tcp_socket_sack_scoreboard s \<noteq> NX_NULL
           then sack_sent_holes m s seq end_seq [0 ..< nx_tcp_socket_sack_hole_count s] hs else Some hs);
     Some (hs, s)
   }"

section \<open>Reset\<close>

partial_function (option) sack_release_pages :: "nat \<Rightarrow> nx_mem \<Rightarrow> nx_mem option" where
  "sack_release_pages packet m =
     (if packet = NX_NULL then Some m
      else do {
        pk \<leftarrow> nx_packets m packet;
        (_, m1) \<leftarrow> nx_packet_release packet (put_packet packet (pk\<lparr>nx_packet_queue_next := NX_NULL\<rparr>) m);
        sack_release_pages (nx_packet_queue_next pk) m1
      })"

definition nx_tcp_sack_recovery_reset :: "nx_mem \<Rightarrow> nx_sack_socket \<Rightarrow> (nx_mem \<times> nx_sack_socket) option" where
  "nx_tcp_sack_recovery_reset m s = do {
     let packet = nx_tcp_socket_sack_scoreboard s;
     let s = nx_tcp_sack_recovery_end (s\<lparr>
           nx_tcp_socket_sack_scoreboard := NX_NULL, nx_tcp_socket_sack_hole_count := 0,
           nx_tcp_socket_sack_hole_capacity := 0, nx_tcp_socket_sack_page_capacity := 0,
           nx_tcp_socket_sack_uncertain_start := 0, nx_tcp_socket_sack_uncertain_end := 0,
           nx_sack_bank := 0, nx_sack_initialized := False, nx_sack_alloc_failed := False,
           nx_sack_ack_jump := False, nx_sack_uncertain := False,
           nx_tcp_socket_sack_delivery_bank := 0, nx_tcp_socket_sack_delivered_data := 0\<rparr>);
     m1 \<leftarrow> sack_release_pages packet m;
     Some (m1, s)
   }"

end
