(* ===== verification/Nx_Sack_Next.thy ===== *)
theory Nx_Sack_Next imports Nx_Sack_Pipe Nx_Sack_Send begin

text \<open>
  What the loss recovery sends again: the range that is chosen next holds no byte that was reported and none
  that was sent again, and the accounting of what was sent keeps the scoreboard.
\<close>

section \<open>The choice\<close>

lemma sack_first_Some: "sack_first f xs = Some y \<Longrightarrow> \<exists>x \<in> set xs. f x = Some y"
  by (auto simp: sack_first_def find_Some_iff split: option.splits)

lemma hole_mark_off:
  assumes "hole_marked h" "seq_off u (sack_hole_left h) < seq_off u (sack_hole_right h)"
  shows "seq_off u (sack_hole_left h) \<le> seq_off u (sack_hole_rxmit h) \<and> seq_off u (sack_hole_rxmit h) \<le> seq_off u (sack_hole_right h)"
proof -
  have r: "seq_off (sack_hole_left h) (sack_hole_right h) = seq_off u (sack_hole_right h) - seq_off u (sack_hole_left h)"
    using assms(2) by (intro seq_off_diff) simp
  then have "seq_off u (sack_hole_left h) + seq_off (sack_hole_left h) (sack_hole_rxmit h) \<le> seq_off u (sack_hole_right h)"
    using assms by (simp add: hole_marked_def)
  moreover have "seq_off u (sack_hole_right h) < 4294967296" by (rule seq_off_less)
  ultimately show ?thesis using seq_off_forward [of "sack_hole_left h" "sack_hole_rxmit h" u] by linarith
qed

lemma sack_hole_next_ok:
  fixes s :: nx_sack_socket
  defines "hr \<equiv> nx_tcp_socket_tx_high_rxt s"
  assumes h: "hole_marked h" "seq_off u (sack_hole_left h) < seq_off u (sack_hole_right h)" "seq_off u (sack_hole_right h) \<le> w"
    and w: "w < 2147483648" and near: "seq_near u w hr" and limit: "seq_off u limit \<le> seq_off u (sack_hole_right h)"
    and some: "sack_hole_next s limit h = Some (l, r)"
  shows "r = limit \<and> seq_off u l < seq_off u r \<and> seq_off u (sack_hole_left h) \<le> seq_off u l \<and>
    (\<forall>y. seq_off u l \<le> seq_off u y \<longrightarrow> seq_off u y \<le> w \<longrightarrow> \<not> seq_diff hr y > 0)"
proof -
  let ?x = "sack_hole_rxmit h"
  have x: "seq_off u (sack_hole_left h) \<le> seq_off u ?x" "seq_off u ?x \<le> w" using hole_mark_off [OF h(1,2)] h(3) by simp_all
  note less = seq_near_less [OF near w]
  have lr: "l = (if seq_diff hr ?x > 0 then hr else ?x)" "r = limit" "seq_diff limit l > 0"
    using some by (auto simp: sack_hole_next_def Let_def hr_def split: if_splits)
  have l: "seq_off u ?x \<le> seq_off u l \<and> seq_off u l \<le> w \<and> seq_front u w hr \<le> seq_off u l"
  proof (cases "seq_diff hr ?x > 0")
    case True
    then have "seq_off u ?x < seq_front u w hr" using less [OF x(2)] by simp
    then show ?thesis using True lr(1) by (auto simp: seq_front_def split: if_splits)
  next
    case False
    then show ?thesis using less [OF x(2)] x(2) lr(1) by simp
  qed
  have "seq_off u l < seq_off u r" using lr(2,3) l limit h(3) w seq_diff_less [of u limit l] by simp
  moreover have "\<not> seq_diff hr y > 0" if "seq_off u l \<le> seq_off u y" "seq_off u y \<le> w" for y
    using less [OF that(2)] that(1) l by simp
  ultimately show ?thesis using lr(2) x(1) l by simp
qed

definition sack_next_ok :: "nx_sack_socket \<Rightarrow> ulong set \<Rightarrow> sack_next \<Rightarrow> bool" where
  "sack_next_ok s E x \<longleftrightarrow>
     (case x of
        Sack_none \<Rightarrow> True
      | Sack_range l r \<Rightarrow> seq_range l r \<noteq> {} \<and>
          (\<forall>y \<in> seq_range l r. y \<in> seq_range (nx_tcp_socket_sack_high_ack s) (sack_data_end s) - E \<and>
             \<not> seq_diff (nx_tcp_socket_tx_high_rxt s) y > 0 \<and>
             (seq_off (nx_tcp_socket_sack_high_ack s) y < seq_off (nx_tcp_socket_sack_high_ack s) (nx_tcp_socket_sack_lost_edge s) \<or>
              nx_tcp_socket_connect_mss s \<le> nx_tcp_socket_prr_credit s))
      | Sack_rescue l r \<Rightarrow> seq_range l r \<noteq> {} \<and> seq_range l r \<subseteq> seq_range (nx_tcp_socket_sack_high_ack s) (sack_data_end s) - E)"

lemma sack_hole_range_ok:
  fixes s :: nx_sack_socket
  defines "u \<equiv> nx_tcp_socket_sack_high_ack s" and "e \<equiv> sack_data_end s"
  assumes ok: "holes_ok u fack holes" "seq_off u fack \<le> seq_off u e" and w: "seq_off u e < 2147483648"
    and near: "seq_near u (seq_off u e) (nx_tcp_socket_tx_high_rxt s)"
    and h: "h \<in> set holes" and limit: "seq_off u limit \<le> seq_off u (sack_hole_right h)"
    and some: "sack_hole_next s limit h = Some (l, r)"
    and edge: "seq_off u limit \<le> seq_off u (nx_tcp_socket_sack_lost_edge s) \<or> nx_tcp_socket_connect_mss s \<le> nx_tcp_socket_prr_credit s"
  shows "sack_next_ok s (sack_evidence u fack holes) (Sack_range l r)"
proof -
  have ranges: "ranges_ok u 0 (seq_off u fack) (holes_ranges holes)" using ok(1) by (rule holes_ok_ranges)
  have b: "seq_off u (sack_hole_left h) < seq_off u (sack_hole_right h)" "seq_off u (sack_hole_right h) \<le> seq_off u e"
    "hole_marked h"
    using ranges h ok by (auto simp: ranges_ok_def holes_ok_def)
  note one = sack_hole_next_ok [OF b(3,1,2) w near limit some]
  then have lr: "seq_off u l < seq_off u r" "r = limit" "seq_off u (sack_hole_left h) \<le> seq_off u l" by blast+
  have range: "y \<in> seq_range l r \<longleftrightarrow> seq_off u l \<le> seq_off u y \<and> seq_off u y < seq_off u r" for y
    using lr(1) by (intro seq_range_off) simp
  have y: "y \<in> seq_range u e - sack_evidence u fack holes \<and> \<not> seq_diff (nx_tcp_socket_tx_high_rxt s) y > 0 \<and>
      (seq_off u y < seq_off u (nx_tcp_socket_sack_lost_edge s) \<or> nx_tcp_socket_connect_mss s \<le> nx_tcp_socket_prr_credit s)"
    if "y \<in> seq_range l r" for y
  proof -
    have off: "seq_off u l \<le> seq_off u y" "seq_off u y < seq_off u limit" using that range lr(2) by simp_all
    then have "\<exists>b \<in> set (holes_ranges holes). seq_off u (fst b) \<le> seq_off u y \<and> seq_off u y < seq_off u (snd b)"
      using h lr(3) limit by (intro bexI [of _ "hole_range h"]) auto
    then have "y \<in> ranges_set (holes_ranges holes)" using ranges_set_off [OF ranges] by blast
    then have "y \<notin> sack_evidence u fack holes" by (simp add: sack_evidence_off)
    moreover have "seq_off u y < seq_off u e" using off limit b(2) by linarith
    moreover have "\<not> seq_diff (nx_tcp_socket_tx_high_rxt s) y > 0" using one off(1) \<open>seq_off u y < seq_off u e\<close> by simp
    moreover have "seq_off u y < seq_off u (nx_tcp_socket_sack_lost_edge s) \<or> nx_tcp_socket_connect_mss s \<le> nx_tcp_socket_prr_credit s"
      using off(2) edge by auto
    ultimately show ?thesis by (simp add: seq_range_def)
  qed
  have "l \<in> seq_range l r" using range lr(1) by simp
  then show ?thesis using y unfolding sack_next_ok_def u_def e_def by auto
qed

text \<open>The tail that a rescue sends.\<close>

lemma sack_rescue_ok:
  fixes s :: nx_sack_socket
  defines "u \<equiv> nx_tcp_socket_sack_high_ack s" and "e \<equiv> sack_data_end s"
  assumes F: "seq_off u fack \<le> seq_off u e" and w: "seq_off u e < 2147483648" and diff: "seq_diff e fack > 0"
  shows "sack_next_ok s (sack_evidence u fack holes) (Sack_rescue (e - 1) e)"
proof -
  have less: "seq_off u fack < seq_off u e" using diff F w seq_diff_less [of u e fack] by simp
  have pred: "seq_off u (e - 1) = seq_off u e - 1" using less by (intro seq_off_pred) simp
  have range: "y \<in> seq_range (e - 1) e \<longleftrightarrow> seq_off u (e - 1) \<le> seq_off u y \<and> seq_off u y < seq_off u e" for y
    using pred by (intro seq_range_off) simp
  have "e - 1 \<in> seq_range (e - 1) e" using range less pred by simp
  moreover have "y \<in> seq_range u e - sack_evidence u fack holes" if "y \<in> seq_range (e - 1) e" for y
  proof -
    have "seq_off u fack \<le> seq_off u y" "seq_off u y < seq_off u e"
      using range [THEN iffD1, OF that] less pred by linarith+
    then show ?thesis by (simp add: sack_evidence_off seq_range_def)
  qed
  ultimately show ?thesis unfolding sack_next_ok_def u_def e_def by auto
qed

lemma sack_next_result:
  fixes s :: nx_sack_socket
  defines "u \<equiv> nx_tcp_socket_sack_high_ack s"
  assumes inv: "sack_inv m hs s E" and board: "nx_tcp_socket_sack_scoreboard s \<noteq> NX_NULL"
    and near: "seq_near u (seq_off u (sack_data_end s)) (nx_tcp_socket_tx_high_rxt s)"
    and edge: "seq_off u (nx_tcp_socket_sack_lost_edge s) \<le> seq_off u (nx_tcp_socket_sack_fack s)"
    and out: "nx_tcp_socket_prr_out s \<noteq> 0" and certain: "\<not> nx_sack_uncertain s"
  shows "\<exists>x. nx_tcp_sack_recovery_next m hs s = Some x \<and> sack_next_ok s E x"
proof -
  let ?e = "sack_data_end s" and ?f = "nx_tcp_socket_sack_fack s"
  have "sack_shows m hs s E" "seq_off u ?e \<le> 0x40000000" using inv by (auto simp: sack_inv_def u_def)
  then obtain holes where h: "sack_live m hs s holes" "holes_ok u ?f holes" "seq_off u ?f \<le> seq_off u ?e" "E = sack_evidence u ?f holes"
    using board by (auto simp: sack_shows_def u_def)
  have W: "seq_off u ?e < 2147483648" using \<open>seq_off u ?e \<le> 0x40000000\<close> by simp
  have view: "sack_view m hs s = Some (holes, ?f)" using sack_live_ranges [OF h(1)] board by (simp add: sack_view_def)
  note range_ok = sack_hole_range_ok [OF h(2,3) [unfolded u_def] W [unfolded u_def] near [unfolded u_def], folded u_def, folded h(4)]
  have below: "seq_off u (sack_hole_right k) \<le> seq_off u ?f" if "k \<in> set holes" for k
    using that holes_ok_ranges [OF h(2)] by (auto simp: ranges_ok_def)
  show ?thesis
  proof (cases "sack_first (sack_next_lost s) holes")
    case (Some lr)
    obtain l r where lr: "lr = (l, r)" by (cases lr)
    then obtain k where k: "k \<in> set holes" "sack_next_lost s k = Some (l, r)" using sack_first_Some Some by fastforce
    define limit where "limit = (if seq_diff (sack_hole_right k) (nx_tcp_socket_sack_lost_edge s) > 0
      then nx_tcp_socket_sack_lost_edge s else sack_hole_right k)"
    have "seq_off u (sack_hole_right k) < 2147483648" "seq_off u (nx_tcp_socket_sack_lost_edge s) < 2147483648"
      using below [OF k(1)] edge h(3) W by simp_all
    then have "seq_off u limit \<le> seq_off u (sack_hole_right k) \<and> seq_off u limit \<le> seq_off u (nx_tcp_socket_sack_lost_edge s)"
      using seq_diff_less [of u "sack_hole_right k" "nx_tcp_socket_sack_lost_edge s"]
        \<open>seq_off u (sack_hole_right k) < 2147483648\<close> \<open>seq_off u (nx_tcp_socket_sack_lost_edge s) < 2147483648\<close>
      by (simp add: limit_def)
    then have "sack_next_ok s E (Sack_range l r)"
      using k(2) unfolding sack_next_lost_def limit_def [symmetric] by (intro range_ok [OF k(1)]) auto
    then show ?thesis using view Some lr by (simp add: nx_tcp_sack_recovery_next_def)
  next
    case None
    let ?third = "if nx_tcp_socket_connect_mss s \<le> nx_tcp_socket_prr_credit s
      then sack_first (\<lambda>k. sack_hole_next s (sack_hole_right k) k) holes else None"
    have third: "sack_next_ok s E (Sack_range l r)" if "?third = Some (l, r)" for l r
    proof -
      from that obtain k where k: "k \<in> set holes" "sack_hole_next s (sack_hole_right k) k = Some (l, r)"
        and credit: "nx_tcp_socket_connect_mss s \<le> nx_tcp_socket_prr_credit s"
        using sack_first_Some by (fastforce split: if_splits)
      then show ?thesis by (intro range_ok [OF k(1) order_refl k(2)]) simp
    qed
    have rescue: "sack_next_ok s E (Sack_rescue (?e - 1) ?e)" if "seq_diff ?e ?f > 0"
      using sack_rescue_ok [OF h(3) [unfolded u_def] W [unfolded u_def] that] unfolding h(4) u_def .
    have none: "sack_next_ok s E Sack_none" by (simp add: sack_next_ok_def)
    show ?thesis
    proof (cases ?third)
      case (Some lr)
      then show ?thesis using view None out certain third none by (cases lr) (auto simp: nx_tcp_sack_recovery_next_def Let_def)
    next
      case third_none: None
      show ?thesis using view None third_none out certain rescue none by (simp add: nx_tcp_sack_recovery_next_def Let_def)
    qed
  qed
qed

section \<open>The accounting\<close>

lemma sack_mark_sent:
  assumes "seq_diff b (sack_hole_left h) > 0"
  shows "hole_marked (h\<lparr>sack_hole_rxmit := if seq_diff b (sack_hole_right h) > 0 then sack_hole_right h else b\<rparr>)"
proof (cases "seq_diff b (sack_hole_right h) > 0")
  case False
  have b: "seq_off (sack_hole_left h) b < 2147483648" using assms by (simp add: seq_diff_pos)
  have "seq_off (sack_hole_left h) b \<le> seq_off (sack_hole_left h) (sack_hole_right h)"
  proof (cases "seq_off (sack_hole_left h) (sack_hole_right h) < 2147483648")
    case True
    then show ?thesis using False b seq_diff_less [of "sack_hole_left h" b "sack_hole_right h"] by simp
  qed (use b in simp)
  then show ?thesis using False by (simp add: hole_marked_def)
qed (simp add: hole_marked_def)

lemma sack_sent_holes_result:
  assumes "sack_live m hs s holes" "\<forall>i \<in> set is. i < length holes" "\<forall>h \<in> set holes. hole_marked h"
  shows "\<exists>hs' holes'. sack_sent_holes m s a b is hs = Some hs' \<and> sack_live m hs' s holes' \<and>
    holes_ranges holes' = holes_ranges holes \<and> (\<forall>h \<in> set holes'. hole_marked h)"
  using assms
proof (induction "is" arbitrary: hs holes)
  case (Cons i js)
  have i: "i < length holes" using Cons.prems(2) by simp
  obtain p where p: "sack_hole m s (nx_sack_bank s) i = Some p" "hs p = Some (holes ! i)"
    "\<And>h. sack_live m (hs(p \<mapsto> h)) s (holes[i := h])" using sack_live_mark [OF Cons.prems(1) i] by blast
  let ?h = "holes ! i"
  let ?h' = "?h\<lparr>sack_hole_rxmit := if seq_diff b (sack_hole_right ?h) > 0 then sack_hole_right ?h else b\<rparr>"
  let ?C = "seq_diff a (sack_hole_rxmit ?h) \<le> 0 \<and> seq_diff b (sack_hole_left ?h) > 0 \<and>
    seq_diff (sack_hole_right ?h) a > 0 \<and> seq_diff b (sack_hole_rxmit ?h) > 0"
  show ?case
  proof (cases ?C)
    case False
    then show ?thesis using p(1,2) Cons.IH [OF Cons.prems(1) _ Cons.prems(3)] Cons.prems(2) by auto
  next
    case True
    have all: "\<forall>j \<in> set js. j < length (holes[i := ?h'])" using Cons.prems(2) by simp
    have "hole_marked ?h'" 
      using True by (intro sack_mark_sent) simp
    then have marked: "\<forall>h \<in> set (holes[i := ?h']). hole_marked h"
      using Cons.prems(3) set_update_subset_insert [of holes i ?h'] by blast
    from Cons.IH [OF p(3) all marked] obtain hs2 holes2 where
      "sack_sent_holes m s a b js (hs(p \<mapsto> ?h')) = Some hs2" "sack_live m hs2 s holes2"
      "holes_ranges holes2 = holes_ranges (holes[i := ?h'])" "\<forall>h \<in> set holes2. hole_marked h" by blast
    moreover have "holes_ranges (holes[i := ?h']) = holes_ranges holes" using i by (intro holes_ranges_mark) (simp_all add: hole_range_def)
    moreover have "sack_sent_holes m s a b (i # js) hs = sack_sent_holes m s a b js (hs(p \<mapsto> ?h'))"
      using p(1,2) True by simp
    ultimately show ?thesis by (metis (no_types))
  qed
qed auto

lemma sack_sent_result:
  assumes inv: "sack_inv m hs s E"
  shows "\<exists>hs' s'. nx_tcp_sack_recovery_sent seq bytes rescue m hs s = Some (hs', s') \<and> sack_inv m hs' s' E \<and> sack_same s s' \<and>
    nx_tcp_socket_prr_out s' = nx_tcp_socket_prr_out s + bytes"
proof -
  define t where "t = (let s = (if rescue then s\<lparr>nx_tcp_socket_sack_rescue_rxt := nx_tcp_socket_tx_sequence_recover s + 1\<rparr>
              else if nx_tcp_socket_prr_out s = 0 then s\<lparr>nx_tcp_socket_sack_rescue_rxt := seq + bytes\<rparr> else s);
         s = s\<lparr>nx_tcp_socket_prr_out := nx_tcp_socket_prr_out s + bytes,
               nx_tcp_socket_prr_credit := (if bytes < nx_tcp_socket_prr_credit s then nx_tcp_socket_prr_credit s - bytes else 0)\<rparr>;
         s = (if \<not> rescue \<and> seq_diff (seq + bytes) (nx_tcp_socket_tx_high_rxt s) > 0
              then s\<lparr>nx_tcp_socket_tx_high_rxt := seq + bytes\<rparr> else s)
     in if \<not> rescue then s\<lparr>nx_tcp_socket_sack_rxt_mark := sack_data_end s\<rparr> else s)"
  have same: "sack_same s t" "nx_tcp_socket_prr_out t = nx_tcp_socket_prr_out s + bytes"
    by (simp_all add: t_def Let_def sack_same_def sack_data_end_def)
  have run: "nx_tcp_sack_recovery_sent seq bytes rescue m hs s =
      map_option (\<lambda>hs. (hs, t)) (if \<not> rescue \<and> nx_tcp_socket_sack_scoreboard t \<noteq> NX_NULL
        then sack_sent_holes m t seq (seq + bytes) [0 ..< nx_tcp_socket_sack_hole_count t] hs else Some hs)"
    unfolding nx_tcp_sack_recovery_sent_def t_def Let_def by (simp split: option.splits bind_splits)
  have inv': "sack_inv m hs t E" using inv sack_same_inv [OF same(1)] by simp
  show ?thesis
  proof (cases "\<not> rescue \<and> nx_tcp_socket_sack_scoreboard t \<noteq> NX_NULL")
    case False
    then show ?thesis using run same inv' by auto
  next
    case True
    have shown: "sack_shows m hs t E" using inv' by (simp add: sack_inv_def)
    let ?u = "nx_tcp_socket_sack_high_ack t" and ?f = "nx_tcp_socket_sack_fack t"
    obtain holes where h: "sack_live m hs t holes" "holes_ok ?u ?f holes" "seq_off ?u ?f \<le> seq_off ?u (sack_data_end t)"
      "E = sack_evidence ?u ?f holes" using shown True by (auto simp: sack_shows_def)
    have n: "nx_tcp_socket_sack_hole_count t = length holes" using h(1) by (simp add: sack_live_def sack_board_def)
    obtain hs' holes' where r: "sack_sent_holes m t seq (seq + bytes) [0 ..< nx_tcp_socket_sack_hole_count t] hs = Some hs'"
      "sack_live m hs' t holes'" "holes_ranges holes' = holes_ranges holes" "\<forall>h \<in> set holes'. hole_marked h"
      using sack_sent_holes_result [OF h(1), of "[0 ..< nx_tcp_socket_sack_hole_count t]" seq "seq + bytes"] n h(2)
      by (auto simp: holes_ok_def)
    have "holes_ok ?u ?f holes'" "E = sack_evidence ?u ?f holes'"
      using h(2,4) r(3,4) by (simp_all add: holes_ok_def sack_evidence_def)
    then have "sack_shows m hs' t E" using r(2) h(3) True by (auto simp: sack_shows_def)
    then have "sack_inv m hs' t E" using inv' by (simp add: sack_inv_def)
    then show ?thesis using run r(1) True same by simp
  qed
qed

end
