(* ===== verification/Nx_Sack_Demo.thy ===== *)
theory Nx_Sack_Demo imports Nx_Sack_Next Nx_Pool_Demo begin

text \<open>
  A concrete scoreboard on which the properties of the loss recovery are evaluated: 10000 bytes are
  unacknowledged from 1000 on, and the peer reported 2000 to 5000 and 6000 to 8000. The control page
  is a packet of a pool with two packets of 96 bytes.
\<close>

section \<open>A control page\<close>

definition page_header :: "nat \<Rightarrow> nat \<Rightarrow> nx_packet" where
  "page_header a next_free = blank_packet\<lparr>nx_packet_pool_owner := 16, nx_packet_queue_next := next_free,
     nx_packet_tcp_queue_next := NX_PACKET_FREE,
     nx_packet_data_start := a + 60, nx_packet_data_end := a + 156\<rparr>"

definition page_mem0 :: nx_mem where
  "page_mem0 = empty_mem\<lparr>
     nx_packets := [1000 \<mapsto> page_header 1000 1156, 1156 \<mapsto> page_header 1156 0],
     nx_pools := [16 \<mapsto> created_pool 7 96 1000 400]\<rparr>"

lemma page_sizes [simp]:
  "nx_pool_rounded_start 1000 = 1000" "nx_pool_rounded_size 1000 400 = 400"
  "pool_stride 96 = 156" "pool_count 96 1000 400 = 2" "created_addresses 96 1000 400 = [1000, 1156]"
  by (simp_all add: nx_pool_rounded_start_def nx_pool_rounded_size_def nx_align_up_def pool_stride_def
      pool_count_def created_addresses_def pool_addresses_def upt_rec)

lemma page_area: "pool_area 16 96 1000 400 empty_mem"
  by (simp add: pool_area_def empty_mem_def pool_packets_def)

lemma page_headers [simp]:
  "created_header (\<lambda>a. blank_packet) 16 96 1000 400 1000 = page_header 1000 1156"
  "created_header (\<lambda>a. blank_packet) 16 96 1000 400 1156 = page_header 1156 0"
  by (simp_all add: created_header_def nx_pool_header_def page_header_def blank_packet_def)

definition page_mem :: nx_mem where
  "page_mem = taken 16 (created_pool 7 96 1000 400) 0 1000 (page_header 1000 1156) page_mem0"

lemma page_mem_inv: "pools_inv page_mem ((\<lambda>P. []) (16 := [1156]))"
proof -
  have "pools_inv page_mem0 ((\<lambda>P. []) (16 := created_addresses 96 1000 400))"
    by (rule created_inv [OF demo_start(1) page_area, of _ 7 "\<lambda>a. blank_packet"])
      (simp_all add: page_mem0_def empty_mem_def)
  then have "pools_inv page_mem (((\<lambda>P. []) (16 := created_addresses 96 1000 400)) (16 := [1156]))"
    unfolding page_mem_def by (rule taken_inv) (simp_all add: page_mem0_def created_pool_def)
  then show ?thesis by simp
qed

lemma page_mem_separate: "payloads_separate page_mem"
proof -
  have "payloads_separate page_mem0"
    by (rule created_separate [OF demo_start(2) page_area, of _ "\<lambda>a. blank_packet"])
      (simp_all add: page_mem0_def empty_mem_def)
  then show ?thesis
    unfolding page_mem_def by (rule payloads_separate_taken) (simp_all add: page_mem0_def)
qed

lemma page_packet: "nx_packets page_mem 1000 = Some (alloc_header 0 (page_header 1000 1156))"
  by (simp add: page_mem_def taken_def)

lemma page_fields [simp]:
  "nx_packet_data_start (page_header a n) = a + 60" "nx_packet_data_end (page_header a n) = a + 156"
  "nx_packet_pool_owner (page_header a n) = 16"
  by (simp_all add: page_header_def)

section \<open>The socket\<close>

definition demo_holes :: "nx_sack_hole list" where
  "demo_holes =
     [\<lparr>sack_hole_left = 1000, sack_hole_right = 2000, sack_hole_rxmit = 1500\<rparr>,
      \<lparr>sack_hole_left = 5000, sack_hole_right = 6000, sack_hole_rxmit = 5000\<rparr>]"

definition demo_slots :: sack_slots where
  "demo_slots = [1060 \<mapsto> demo_holes ! 0, 1072 \<mapsto> demo_holes ! 1]"

definition fresh_sack :: nx_sack_socket where
  "fresh_sack = \<lparr>nx_tcp_socket_state = NX_TCP_ESTABLISHED, nx_tcp_socket_fin_acked = False,
     nx_tcp_socket_rx_sequence = 77, nx_tcp_socket_tx_sequence = 11000, nx_tcp_socket_tx_outstanding_bytes = 10000,
     nx_tcp_socket_receive_queue_head = 0, nx_tcp_socket_receive_queue_tail = 0,
     nx_tcp_socket_timestamp_enabled = False, nx_tcp_socket_sack_permitted = True,
     nx_tcp_socket_sack_block_count = 0, nx_tcp_socket_sack_recent_sequence = 0, nx_tcp_socket_dsack_left = 0,
     nx_tcp_socket_dsack_right = 0, nx_tcp_socket_sack_left = [0, 0, 0, 0], nx_tcp_socket_sack_right = [0, 0, 0, 0],
     nx_tcp_socket_connect_mss = 1000, nx_tcp_socket_fast_recovery = False, nx_tcp_socket_timeout = 100,
     nx_tcp_socket_timeout_rate = 100, nx_tcp_socket_timeout_retries = 0, nx_tcp_socket_stall_ticks = 0,
     nx_tcp_socket_tx_slow_start_threshold = 5000, nx_tcp_socket_tx_window_congestion = 10000,
     nx_tcp_socket_tx_window_advertised = 20000, nx_tcp_socket_tx_sequence_recover = 1000,
     nx_tcp_socket_tx_high_rxt = 1000, nx_tcp_socket_tx_rto_next = 0, nx_tcp_socket_tx_rto_end = 0,
     nx_tcp_socket_transmit_sent_head = 0, nx_tcp_socket_transmit_sent_count = 10,
     nx_tcp_socket_transmit_queue_maximum = 20, nx_tcp_socket_transmit_suspension_list = 0,
     nx_tcp_socket_sack_scoreboard = 0, nx_tcp_socket_sack_cursor = 0, nx_tcp_socket_sack_high_ack = 0,
     nx_tcp_socket_sack_fack = 0, nx_tcp_socket_sack_lost_edge = 0, nx_tcp_socket_prr_recover_fs = 0,
     nx_tcp_socket_prr_delivered = 0, nx_tcp_socket_prr_out = 0, nx_tcp_socket_prr_credit = 0,
     nx_tcp_socket_sack_rescue_rxt = 0, nx_tcp_socket_sack_rxt_mark = 0, nx_tcp_socket_sack_delivery_bank = 0,
     nx_tcp_socket_sack_delivered_data = 0, nx_tcp_socket_sack_uncertain_start = 0,
     nx_tcp_socket_sack_uncertain_end = 0, nx_tcp_socket_sack_hole_count = 0, nx_tcp_socket_sack_hole_capacity = 0,
     nx_tcp_socket_sack_page_capacity = 0, nx_sack_bank = 0, nx_sack_initialized = False, nx_sack_alloc_failed = False,
     nx_sack_ack_jump = False, nx_sack_uncertain = False, nx_ip_default_packet_pool = 16,
     nx_tcp_socket_tx_queue_stopped = False\<rparr>"

definition demo_sack :: nx_sack_socket where
  "demo_sack = fresh_sack\<lparr>nx_sack_initialized := True, nx_tcp_socket_sack_scoreboard := 1000,
     nx_tcp_socket_sack_page_capacity := 4, nx_tcp_socket_sack_hole_capacity := 4, nx_tcp_socket_sack_hole_count := 2,
     nx_tcp_socket_sack_high_ack := 1000, nx_tcp_socket_sack_fack := 8000, nx_tcp_socket_sack_delivery_bank := 5000,
     nx_tcp_socket_fast_recovery := True, nx_tcp_socket_prr_recover_fs := 10000, nx_tcp_socket_prr_out := 500,
     nx_tcp_socket_prr_delivered := 5000, nx_tcp_socket_tx_high_rxt := 1500, nx_tcp_socket_sack_lost_edge := 5000\<rparr>"

definition demo_evidence :: "ulong set" where
  "demo_evidence = sack_evidence 1000 8000 demo_holes"

lemma demo_sack_end: "sack_data_end demo_sack = 11000" "sack_data_end fresh_sack = 11000"
  by (simp_all add: sack_data_end_def demo_sack_def fresh_sack_def)

lemma demo_offs [simp]:
  "seq_off (1000 :: ulong) 2000 = 1000" "seq_off (1000 :: ulong) 5000 = 4000" "seq_off (1000 :: ulong) 6000 = 5000"
  "seq_off (1000 :: ulong) 8000 = 7000" "seq_off (1000 :: ulong) 11000 = 10000" "seq_off (1000 :: ulong) 1500 = 500"
  "seq_off (1000 :: ulong) 1000 = 0" "seq_off (5000 :: ulong) 6000 = 1000"
  by (simp_all add: seq_off_def)

lemma demo_holes_ok: "holes_ok 1000 8000 demo_holes"
  by (simp add: holes_ok_def demo_holes_def ranges_ok_def hole_marked_def hole_range_def)

lemma demo_pages: "sack_pages page_mem demo_sack [1000]"
  by (simp add: sack_pages_def demo_sack_def page_packet) (simp add: alloc_header_def nx_packet_init_def)

lemma demo_live: "sack_live page_mem demo_slots demo_sack demo_holes"
proof -
  have slots: "sack_hole page_mem demo_sack 0 0 = Some 1060" "sack_hole page_mem demo_sack 0 (Suc 0) = Some 1072"
    by (simp_all add: sack_hole_def nx_sack_page.simps demo_sack_def page_packet)
  have "sack_board page_mem demo_slots demo_sack demo_holes"
    using demo_pages slots
    by (auto simp: sack_board_def sack.holds_def demo_sack_def fresh_sack_def demo_holes_def demo_slots_def less_Suc_eq numeral_2_eq_2)
  moreover have "sack_source page_mem demo_sack [1000] ((\<lambda>P. []) (16 := [1156]))"
    using page_mem_inv page_mem_separate
    by (simp add: sack_source_def page_packet demo_sack_def)
      (simp add: page_mem_def taken_def created_pool_def alloc_header_def nx_packet_init_def)
  ultimately show ?thesis using demo_pages unfolding sack_live_def by blast
qed

lemma demo_evidence_card: "card demo_evidence \<le> 5000"
proof -
  have "demo_evidence \<subseteq> seq_range 2000 5000 \<union> seq_range 6000 8000"
    unfolding demo_evidence_def sack_evidence_def demo_holes_def
    by (auto simp: ranges_set_def hole_range_def seq_range_off [of 1000])
  then have "card demo_evidence \<le> card (seq_range (2000 :: ulong) 5000 \<union> seq_range 6000 8000)" by (rule card_mono [rotated]) simp
  also have "\<dots> \<le> card (seq_range (2000 :: ulong) 5000) + card (seq_range (6000 :: ulong) 8000)" by (rule card_Un_le)
  finally show ?thesis by (simp add: card_seq_range seq_off_def)
qed

lemma demo_sack_inv: "sack_inv page_mem demo_slots demo_sack demo_evidence"
proof -
  have "sack_shows page_mem demo_slots demo_sack demo_evidence"
    using demo_live demo_holes_ok demo_sack_end unfolding sack_shows_def demo_evidence_def
    by (auto simp: demo_sack_def fresh_sack_def)
  moreover have "sack_memory page_mem demo_sack"
    unfolding sack_memory_def using page_mem_inv page_mem_separate
    by (auto simp: demo_sack_def fresh_sack_def page_mem_def page_mem0_def taken_def)
  ultimately show ?thesis using demo_sack_end demo_evidence_card unfolding sack_inv_def
    by (simp add: sack_uncertain_ok_def) (simp add: demo_sack_def fresh_sack_def)
qed

end
