(* ===== verification/Nx_Sack_Steps.thy ===== *)
theory Nx_Sack_Steps imports Nx_Sack_Next begin

text \<open>
  The loss recovery over time: the handlers in any order the socket calls them, with the data that the
  application sends and the options that the peer sends in between. Beside the state the
  relation counts what the peer has reported, acknowledged and been credited for.
\<close>

section \<open>The steps\<close>

record sack_world =
  sack_world_mem :: nx_mem
  sack_world_slots :: sack_slots
  sack_world_socket :: nx_sack_socket
  sack_world_reported :: "ulong set"
  sack_world_acked :: nat
  sack_world_credited :: nat
  sack_world_failed :: bool

text \<open>The state that the first acknowledgment sets up, see \<open>nx_tcp_sack_recovery_ack_initializes\<close> below.\<close>

definition sack_world_start :: "sack_world \<Rightarrow> bool" where
  "sack_world_start w \<longleftrightarrow> (\<exists>s. sack_world_socket w = sack_initialize s \<and> \<not> nx_sack_initialized s \<and>
     nx_tcp_socket_sack_scoreboard s = NX_NULL \<and> nx_tcp_socket_tx_outstanding_bytes s \<le> 0x40000000 \<and>
     sack_memory (sack_world_mem w) s) \<and>
     sack_world_reported w = {} \<and> sack_world_acked w = 0 \<and> sack_world_credited w = 0 \<and> \<not> sack_world_failed w"

text \<open>The last option of the peer, as \<open>_nx_tcp_sack_option_get\<close> records it.\<close>

definition sack_recorded :: "ulong list \<Rightarrow> ulong list \<Rightarrow> nat \<Rightarrow> nx_sack_socket \<Rightarrow> nx_sack_socket" where
  "sack_recorded ls rs n s =
     s\<lparr>nx_tcp_socket_sack_left := ls, nx_tcp_socket_sack_right := rs, nx_tcp_socket_sack_block_count := n\<rparr>"

inductive sack_step :: "(nat \<Rightarrow> nx_mem \<Rightarrow> nx_mem) \<Rightarrow> sack_world \<Rightarrow> sack_world \<Rightarrow> bool" for S where
  step_ack:
    "\<lbrakk>s = sack_recorded ls rs n (sack_world_socket w); a = sack_new_ack s ack;
      nx_tcp_sack_recovery_ack S ack (sack_world_mem w) (sack_world_slots w) s = Some (m', hs', s')\<rbrakk> \<Longrightarrow>
     sack_step S w (w\<lparr>sack_world_mem := m', sack_world_slots := hs', sack_world_socket := s',
       sack_world_reported := (sack_world_reported w - seq_range (nx_tcp_socket_sack_high_ack s) a) \<union> sack_option_bytes (sack_at s a),
       sack_world_acked := sack_world_acked w + seq_off (nx_tcp_socket_sack_high_ack s) a,
       sack_world_credited := sack_world_credited w + unat (nx_tcp_socket_sack_delivered_data s'),
       sack_world_failed := (sack_world_failed w \<or> nx_sack_alloc_failed s')\<rparr>)"
| step_data:
    "\<lbrakk>s = sack_world_socket w; nx_tcp_socket_state s \<in> {NX_TCP_ESTABLISHED, NX_TCP_CLOSE_WAIT};
      seq_off (nx_tcp_socket_sack_high_ack s) (sack_data_end s) + unat n \<le> 0x40000000\<rbrakk> \<Longrightarrow>
     sack_step S w (w\<lparr>sack_world_socket := s\<lparr>nx_tcp_socket_tx_sequence := nx_tcp_socket_tx_sequence s + n,
       nx_tcp_socket_tx_outstanding_bytes := nx_tcp_socket_tx_outstanding_bytes s + n\<rparr>\<rparr>)"
| step_begin:
    "nx_tcp_sack_recovery_begin S (sack_world_mem w) (sack_world_slots w) (sack_world_socket w) = Some (m', hs', s') \<Longrightarrow>
     sack_step S w (w\<lparr>sack_world_mem := m', sack_world_slots := hs', sack_world_socket := s'\<rparr>)"
| step_sent:
    "nx_tcp_sack_recovery_sent seq bytes rescue (sack_world_mem w) (sack_world_slots w) (sack_world_socket w) = Some (hs', s') \<Longrightarrow>
     sack_step S w (w\<lparr>sack_world_slots := hs', sack_world_socket := s'\<rparr>)"
| step_end:
    "sack_step S w (w\<lparr>sack_world_socket := nx_tcp_sack_recovery_end (sack_world_socket w)\<rparr>)"

inductive sack_reach :: "(nat \<Rightarrow> nx_mem \<Rightarrow> nx_mem) \<Rightarrow> sack_world \<Rightarrow> bool" for S where
  reach_start: "sack_world_start w \<Longrightarrow> sack_reach S w"
| reach_step: "sack_reach S w \<Longrightarrow> sack_step S w w' \<Longrightarrow> sack_reach S w'"

section \<open>The start\<close>

lemma sack_initialize_end [simp]: "sack_data_end (sack_initialize s) = sack_data_end s"
  by (simp add: sack_initialize_def sack_data_end_def Let_def)

lemma sack_initialize_twice [simp]: "sack_initialize (sack_initialize s) = sack_initialize s"
  by (simp add: sack_initialize_def Let_def)

lemma nx_tcp_sack_recovery_ack_initializes:
  "nx_tcp_sack_recovery_ack S ack m hs s = nx_tcp_sack_recovery_ack S ack m hs (sack_initialize s)"
  unfolding nx_tcp_sack_recovery_ack_def by simp

lemma sack_inv_initialize:
  assumes "\<not> nx_sack_initialized s" "nx_tcp_socket_sack_scoreboard s = NX_NULL"
    "nx_tcp_socket_tx_outstanding_bytes s \<le> 0x40000000" "sack_memory m s"
  shows "sack_inv m hs (sack_initialize s) {}" and "\<not> nx_sack_alloc_failed (sack_initialize s)"
    and "nx_tcp_socket_sack_delivery_bank (sack_initialize s) = 0"
proof -
  let ?u = "sack_data_end s - nx_tcp_socket_tx_outstanding_bytes s" and ?t = "sack_initialize s"
  have t: "nx_tcp_socket_sack_high_ack ?t = ?u" "nx_sack_initialized ?t" "nx_sack_bank ?t = 0" "\<not> nx_sack_alloc_failed ?t"
    "nx_tcp_socket_sack_delivery_bank ?t = 0" "\<not> nx_sack_uncertain ?t" "nx_tcp_socket_sack_scoreboard ?t = NX_NULL"
    "nx_ip_default_packet_pool ?t = nx_ip_default_packet_pool s"
    using assms(1,2) by (simp_all add: sack_initialize_def Let_def)
  have "seq_off ?u (sack_data_end s) \<le> 0x40000000" using assms(3) by (simp add: seq_off_def word_le_nat_alt)
  then show "sack_inv m hs ?t {}"
    using t assms(4) by (simp add: sack_inv_def sack_shows_def sack_memory_def sack_uncertain_ok_def)
  show "\<not> nx_sack_alloc_failed ?t" "nx_tcp_socket_sack_delivery_bank ?t = 0" by (fact t)+
qed

section \<open>Single steps\<close>

text \<open>More data at the end.\<close>

lemma sack_inv_extend:
  assumes inv: "sack_inv m hs s E"
    and e: "seq_off (nx_tcp_socket_sack_high_ack s) (sack_data_end s) \<le> seq_off (nx_tcp_socket_sack_high_ack s) (sack_data_end s')"
      "seq_off (nx_tcp_socket_sack_high_ack s) (sack_data_end s') \<le> 0x40000000"
    and s': "s' = s\<lparr>nx_tcp_socket_tx_sequence := x, nx_tcp_socket_tx_outstanding_bytes := y\<rparr>"
  shows "sack_inv m hs s' E"
proof -
  have live: "sack_live m hs s' holes \<longleftrightarrow> sack_live m hs s holes" for holes by (rule sack_live_cong) (simp_all add: s')
  have shown: "sack_shows m hs s E" using inv by (simp add: sack_inv_def)
  have f: "nx_tcp_socket_sack_high_ack s' = nx_tcp_socket_sack_high_ack s" "nx_tcp_socket_sack_fack s' = nx_tcp_socket_sack_fack s"
    "nx_tcp_socket_sack_scoreboard s' = nx_tcp_socket_sack_scoreboard s" "nx_sack_initialized s' = nx_sack_initialized s"
    "nx_sack_bank s' = nx_sack_bank s" "nx_sack_uncertain s' = nx_sack_uncertain s" "nx_sack_alloc_failed s' = nx_sack_alloc_failed s"
    "nx_tcp_socket_sack_uncertain_start s' = nx_tcp_socket_sack_uncertain_start s"
    "nx_tcp_socket_sack_uncertain_end s' = nx_tcp_socket_sack_uncertain_end s"
    "nx_tcp_socket_sack_delivery_bank s' = nx_tcp_socket_sack_delivery_bank s"
    "nx_ip_default_packet_pool s' = nx_ip_default_packet_pool s" by (simp_all add: s')
  have "sack_shows m hs s' E"
  proof (cases "nx_tcp_socket_sack_scoreboard s = NX_NULL")
    case True
    then show ?thesis using shown by (simp add: sack_shows_def f)
  next
    case False
    then obtain holes where "sack_live m hs s holes" "holes_ok (nx_tcp_socket_sack_high_ack s) (nx_tcp_socket_sack_fack s) holes"
      "seq_off (nx_tcp_socket_sack_high_ack s) (nx_tcp_socket_sack_fack s) \<le> seq_off (nx_tcp_socket_sack_high_ack s) (sack_data_end s)"
      "E = sack_evidence (nx_tcp_socket_sack_high_ack s) (nx_tcp_socket_sack_fack s) holes"
      using shown by (auto simp: sack_shows_def)
    then show ?thesis using False live [of holes] e(1) unfolding sack_shows_def f by auto
  qed
  then show ?thesis using inv e by (auto simp: sack_inv_def sack_memory_def sack_uncertain_ok_def f)
qed

lemma sack_begin_result:
  assumes inv: "sack_inv m hs s E"
  shows "\<exists>s'. nx_tcp_sack_recovery_begin S m hs s = Some (m, hs, s') \<and> sack_same s s'"
proof -
  have init: "nx_sack_initialized s" using inv by (simp add: sack_inv_def)
  define fs where "fs = sack_data_end s - nx_tcp_socket_sack_high_ack s"
  show ?thesis
  proof (cases "fs = 0")
    case True
    then show ?thesis using init by (simp add: nx_tcp_sack_recovery_begin_def fs_def sack_same_def)
  next
    case False
    define threshold where "threshold = (if fs div 2 < 2 * nx_tcp_socket_connect_mss s then 2 * nx_tcp_socket_connect_mss s else fs div 2)"
    define t where "t = s\<lparr>
              nx_tcp_socket_tx_slow_start_threshold := threshold,
              nx_tcp_socket_tx_window_congestion := threshold,
              nx_tcp_socket_fast_recovery := True,
              nx_tcp_socket_tx_sequence_recover := sack_data_end s - 1,
              nx_tcp_socket_tx_high_rxt := nx_tcp_socket_sack_high_ack s,
              nx_tcp_socket_sack_rescue_rxt := nx_tcp_socket_sack_high_ack s,
              nx_tcp_socket_sack_rxt_mark := sack_data_end s,
              nx_tcp_socket_prr_recover_fs := fs,
              nx_tcp_socket_prr_delivered := nx_tcp_socket_sack_delivered_data s,
              nx_tcp_socket_prr_out := 0,
              nx_tcp_socket_sack_cursor := nx_tcp_socket_transmit_sent_head s,
              nx_tcp_socket_tx_rto_next := 0,
              nx_tcp_socket_tx_rto_end := 0\<rparr>"
    have same: "sack_same s t" by (simp add: t_def sack_same_def sack_data_end_def)
    have "sack_shows m hs t E" using inv sack_same_shows [OF same] by (simp add: sack_inv_def)
    then obtain s1 where s1: "sack_prr_credit m hs t = Some s1" "sack_same t s1" using sack_prr_credit_result by blast
    define s2 where "s2 = (if nx_tcp_socket_prr_credit s1 < nx_tcp_socket_connect_mss s1
                    then s1\<lparr>nx_tcp_socket_prr_credit := nx_tcp_socket_connect_mss s1\<rparr> else s1)"
    have "sack_same s1 s2" by (simp add: s2_def sack_same_def sack_data_end_def)
    then have "sack_same s s2" using same s1(2) unfolding sack_same_def by simp
    moreover have "nx_tcp_sack_recovery_begin S m hs s = Some (m, hs, s2)"
      unfolding nx_tcp_sack_recovery_begin_def
      by (simp only: init if_True Option.bind.simps prod.case Let_def False [unfolded fs_def] if_False
          s1(1) [unfolded t_def threshold_def fs_def] s2_def)
    ultimately show ?thesis by blast
  qed
qed

lemma sack_end_same: "sack_same s (nx_tcp_sack_recovery_end s)"
  by (simp add: nx_tcp_sack_recovery_end_def sack_same_def sack_data_end_def)

lemma sack_next_total:
  assumes "sack_inv m hs s E"
  shows "\<exists>x. nx_tcp_sack_recovery_next m hs s = Some x"
proof -
  have "sack_shows m hs s E" using assms by (simp add: sack_inv_def)
  then obtain v where "sack_view m hs s = Some v" using sack_view_shows by blast
  then show ?thesis by (cases v) (simp add: nx_tcp_sack_recovery_next_def Let_def)
qed

section \<open>Any history\<close>

definition sack_world_ok :: "sack_world \<Rightarrow> bool" where
  "sack_world_ok w \<longleftrightarrow> (\<exists>E. sack_inv (sack_world_mem w) (sack_world_slots w) (sack_world_socket w) E \<and>
     E \<subseteq> sack_world_reported w \<and>
     (\<not> sack_world_failed w \<longrightarrow> \<not> nx_sack_alloc_failed (sack_world_socket w) \<and>
        sack_world_credited w = sack_world_acked w + unat (nx_tcp_socket_sack_delivery_bank (sack_world_socket w))))"

lemma sack_world_start_ok: "sack_world_start w \<Longrightarrow> sack_world_ok w"
  unfolding sack_world_start_def sack_world_ok_def
  by (elim exE conjE) (rule exI [of _ "{}"], simp add: sack_inv_initialize)

lemma sack_recorded_inv: "sack_inv m hs (sack_recorded ls rs n s) E \<longleftrightarrow> sack_inv m hs s E"
proof -
  let ?t = "sack_recorded ls rs n s"
  have live: "sack_live m hs ?t holes \<longleftrightarrow> sack_live m hs s holes" for holes by (rule sack_live_cong) (simp_all add: sack_recorded_def)
  have f: "nx_tcp_socket_sack_high_ack ?t = nx_tcp_socket_sack_high_ack s" "nx_tcp_socket_sack_fack ?t = nx_tcp_socket_sack_fack s"
    "nx_tcp_socket_sack_scoreboard ?t = nx_tcp_socket_sack_scoreboard s" "nx_sack_initialized ?t = nx_sack_initialized s"
    "nx_sack_bank ?t = nx_sack_bank s" "nx_sack_uncertain ?t = nx_sack_uncertain s" "nx_sack_alloc_failed ?t = nx_sack_alloc_failed s"
    "nx_tcp_socket_sack_uncertain_start ?t = nx_tcp_socket_sack_uncertain_start s"
    "nx_tcp_socket_sack_uncertain_end ?t = nx_tcp_socket_sack_uncertain_end s"
    "nx_tcp_socket_sack_delivery_bank ?t = nx_tcp_socket_sack_delivery_bank s"
    "nx_ip_default_packet_pool ?t = nx_ip_default_packet_pool s" "sack_data_end ?t = sack_data_end s"
    by (simp_all add: sack_recorded_def sack_data_end_def)
  show ?thesis unfolding sack_inv_def sack_shows_def sack_memory_def sack_uncertain_ok_def f live ..
qed

lemma sack_taken_reported:
  assumes "E \<subseteq> X"
  shows "sack_taken s E a dropped \<subseteq> (X - seq_range (nx_tcp_socket_sack_high_ack s) a) \<union> sack_option_bytes (sack_at s a)"
  using assms by (auto simp: sack_taken_def)

text \<open>What an acknowledgment does, with the previous credit in front.\<close>

lemma sack_ack_world:
  assumes ok: "sack_world_ok w" and s: "s = sack_recorded ls rs n (sack_world_socket w)" and a: "a = sack_new_ack s ack"
    and run: "nx_tcp_sack_recovery_ack S ack (sack_world_mem w) (sack_world_slots w) s = Some (m', hs', s')"
  shows "sack_world_ok (w\<lparr>sack_world_mem := m', sack_world_slots := hs', sack_world_socket := s',
       sack_world_reported := (sack_world_reported w - seq_range (nx_tcp_socket_sack_high_ack s) a) \<union> sack_option_bytes (sack_at s a),
       sack_world_acked := sack_world_acked w + seq_off (nx_tcp_socket_sack_high_ack s) a,
       sack_world_credited := sack_world_credited w + unat (nx_tcp_socket_sack_delivered_data s'),
       sack_world_failed := (sack_world_failed w \<or> nx_sack_alloc_failed s')\<rparr>)"
proof -
  obtain E where E: "sack_inv (sack_world_mem w) (sack_world_slots w) (sack_world_socket w) E" "E \<subseteq> sack_world_reported w"
    "\<not> sack_world_failed w \<Longrightarrow>
        sack_world_credited w = sack_world_acked w + unat (nx_tcp_socket_sack_delivery_bank (sack_world_socket w))"
    using ok by (auto simp: sack_world_ok_def)
  have inv: "sack_inv (sack_world_mem w) (sack_world_slots w) s E" using E(1) by (simp add: s sack_recorded_inv)
  have bank: "nx_tcp_socket_sack_delivery_bank s = nx_tcp_socket_sack_delivery_bank (sack_world_socket w)"
    by (simp add: s sack_recorded_def)
  obtain E' dropped where E': "sack_inv m' hs' s' E'"
    "if nx_sack_alloc_failed s' then E' = {}
     else E' = sack_taken s E a dropped \<and> (dropped \<longrightarrow> nx_sack_uncertain s') \<and>
       unat (nx_tcp_socket_sack_delivered_data s') + unat (nx_tcp_socket_sack_delivery_bank s) =
         seq_off (nx_tcp_socket_sack_high_ack s) a + unat (nx_tcp_socket_sack_delivery_bank s')"
    using nx_tcp_sack_recovery_ack_inv [OF inv a, of S] run by auto
  have "E' \<subseteq> (sack_world_reported w - seq_range (nx_tcp_socket_sack_high_ack s) a) \<union> sack_option_bytes (sack_at s a)"
    using E'(2) sack_taken_reported [OF E(2)] by (auto split: if_splits)
  moreover have "sack_world_credited w + unat (nx_tcp_socket_sack_delivered_data s') =
      sack_world_acked w + seq_off (nx_tcp_socket_sack_high_ack s) a + unat (nx_tcp_socket_sack_delivery_bank s')"
    if "\<not> sack_world_failed w" "\<not> nx_sack_alloc_failed s'"
    using E'(2) E(3) that bank by simp
  ultimately show ?thesis using E'(1) unfolding sack_world_ok_def by (intro exI [of _ E']) simp
qed

lemma sack_world_same:
  assumes "sack_world_ok w"
    and "\<And>E. sack_inv (sack_world_mem w) (sack_world_slots w) (sack_world_socket w) E \<Longrightarrow> sack_inv m' hs' s' E"
    and "nx_tcp_socket_sack_delivery_bank s' = nx_tcp_socket_sack_delivery_bank (sack_world_socket w)"
    and "nx_sack_alloc_failed s' = nx_sack_alloc_failed (sack_world_socket w)"
  shows "sack_world_ok (w\<lparr>sack_world_mem := m', sack_world_slots := hs', sack_world_socket := s'\<rparr>)"
  using assms by (auto simp: sack_world_ok_def)

lemma sack_step_ok:
  assumes "sack_step S w w'" "sack_world_ok w"
  shows "sack_world_ok w'"
proof -
  obtain E where inv: "sack_inv (sack_world_mem w) (sack_world_slots w) (sack_world_socket w) E"
    using assms(2) by (auto simp: sack_world_ok_def)
  show ?thesis
    using assms(1)
  proof (cases rule: sack_step.cases)
    case (step_ack s ls rs n a ack m' hs' s')
    then show ?thesis using sack_ack_world [OF assms(2) step_ack(2-4)] by simp
  next
    case (step_data s n)
    let ?s' = "s\<lparr>nx_tcp_socket_tx_sequence := nx_tcp_socket_tx_sequence s + n,
       nx_tcp_socket_tx_outstanding_bytes := nx_tcp_socket_tx_outstanding_bytes s + n\<rparr>"
    have e: "sack_data_end s = nx_tcp_socket_tx_sequence s" "sack_data_end ?s' = nx_tcp_socket_tx_sequence s + n"
      using step_data(3) by (auto simp: sack_data_end_def)
    have "seq_off (nx_tcp_socket_sack_high_ack s) (nx_tcp_socket_tx_sequence s + n) =
        seq_off (nx_tcp_socket_sack_high_ack s) (nx_tcp_socket_tx_sequence s) + unat n"
      using step_data(4) seq_off_add [of "nx_tcp_socket_sack_high_ack s" "nx_tcp_socket_tx_sequence s" "nx_tcp_socket_tx_sequence s + n"]
      unfolding e by (simp add: seq_off_def)
    then have "sack_inv m hs ?s' F" if "sack_inv m hs s F" for m hs F
      using step_data(4) unfolding e by (intro sack_inv_extend [OF that _ _ refl]) (simp_all add: e)
    then show ?thesis using sack_world_same [OF assms(2), of "sack_world_mem w" "sack_world_slots w" ?s'] step_data(1,2) by simp
  next
    case (step_begin m' hs' s')
    obtain t where t: "m' = sack_world_mem w" "hs' = sack_world_slots w" "s' = t" "sack_same (sack_world_socket w) t"
      using sack_begin_result [OF inv, of S] step_begin(2) by auto
    show ?thesis unfolding step_begin(1) t(1-3)
      by (rule sack_world_same [OF assms(2)]) (use sack_same_inv [OF t(4)] t(4) in \<open>simp_all add: sack_same_def\<close>)
  next
    case (step_sent seq bytes rescue hs' s')
    have "sack_inv (sack_world_mem w) hs' s' F \<and> sack_same (sack_world_socket w) s'"
      if "sack_inv (sack_world_mem w) (sack_world_slots w) (sack_world_socket w) F" for F
      using sack_sent_result [OF that, of seq bytes rescue] step_sent(2) by auto
    then show ?thesis using sack_world_same [OF assms(2), of "sack_world_mem w" hs' s'] inv step_sent(1) by (auto simp: sack_same_def)
  next
    case step_end
    show ?thesis unfolding step_end
      using sack_world_same [OF assms(2), of "sack_world_mem w" "sack_world_slots w" "nx_tcp_sack_recovery_end (sack_world_socket w)"]
        sack_same_inv [OF sack_end_same [of "sack_world_socket w"]] by (simp add: nx_tcp_sack_recovery_end_def)
  qed
qed

lemma sack_reach_ok: "sack_reach S w \<Longrightarrow> sack_world_ok w"
  by (induction rule: sack_reach.induct) (auto intro: sack_world_start_ok sack_step_ok)

end
