(* ===== verification/Nx_Sack_Reset.thy ===== *)
theory Nx_Sack_Reset imports Nx_Sack_Next begin

text \<open>
  The reset of the loss recovery: every control page goes back to its pool.
\<close>

lemma sack_release_pages_result:
  assumes "pools_inv m F" "queue m p ps" "distinct ps" "P \<in> dom (nx_pools m)"
    and "\<forall>a \<in> set ps. \<exists>pk. nx_packets m a = Some pk \<and> nx_packet_pool_owner pk = P \<and>
      nx_packet_tcp_queue_next pk = NX_PACKET_ALLOCATED \<and> nx_packet_next pk = NX_NULL"
  shows "\<exists>m' F'. sack_release_pages p m = Some m' \<and> pools_inv m' F' \<and> (\<forall>b. b \<notin> set ps \<longrightarrow> nx_packets m' b = nx_packets m b) \<and>
    dom (nx_pools m') = dom (nx_pools m) \<and> ((\<forall>Q. idle m Q) \<longrightarrow> F' = F(P := rev ps @ F P))"
  using assms
proof (induction ps arbitrary: p m F)
  case Nil
  then show ?case by (intro exI [of _ m] exI [of _ F]) (simp add: sack_release_pages.simps)
next
  case (Cons a ps)
  obtain pk where p: "p = a" "a \<noteq> NX_NULL" and pk: "nx_packets m a = Some pk" "nx_packet_pool_owner pk = P"
    "nx_packet_tcp_queue_next pk = NX_PACKET_ALLOCATED" "nx_packet_next pk = NX_NULL"
    and rest: "queue m (nx_packet_queue_next pk) ps"
    using Cons.prems(2,5) by auto
  let ?m1 = "put_packet a (pk\<lparr>nx_packet_queue_next := NX_NULL\<rparr>) m"
  have inv1: "pools_inv ?m1 F" using Cons.prems(1) pk by (intro pools_inv_put_live) auto
  have al: "\<And>b. b \<in> set [a] \<Longrightarrow> allocated ?m1 b" using p(2) pk Cons.prems(4) by (auto simp: allocated_def)
  have ch: "chain ?m1 a [a]" using p(2) pk(4) by simp
  have idle1: "idle ?m1 Q \<longleftrightarrow> idle m Q" for Q by (simp add: idle_def)
  obtain m2 F2 where m2: "nx_packet_release a ?m1 = Some (NX_SUCCESS, m2)" "pools_inv m2 F2"
    "\<And>b. b \<notin> set [a] \<Longrightarrow> nx_packets m2 b = nx_packets ?m1 b" "dom (nx_pools m2) = dom (nx_pools ?m1)"
    "(\<And>Q. idle ?m1 Q) \<Longrightarrow> F2 = released ?m1 F [a]" "\<And>Q. idle ?m1 Q \<Longrightarrow> idle m2 Q"
    by (rule nx_packet_release_chain [OF inv1 ch _ al]) auto
  have a: "a \<notin> set ps" "distinct ps" using Cons.prems(3) by simp_all
  have same: "nx_packets m2 b = nx_packets m b" if "b \<noteq> a" for b using m2(3) that by simp
  have "queue m2 (nx_packet_queue_next pk) ps \<longleftrightarrow> queue m (nx_packet_queue_next pk) ps"
    by (rule linked_cong) (use a(1) same in force)
  then have q2: "queue m2 (nx_packet_queue_next pk) ps" using rest by simp
  have P2: "P \<in> dom (nx_pools m2)" using m2(4) Cons.prems(4) by simp
  have "\<forall>b \<in> set ps. \<exists>pk. nx_packets m2 b = Some pk \<and> nx_packet_pool_owner pk = P \<and>
      nx_packet_tcp_queue_next pk = NX_PACKET_ALLOCATED \<and> nx_packet_next pk = NX_NULL"
    using Cons.prems(5) a(1) same by (metis list.set_intros(2))
  from Cons.IH [OF m2(2) q2 a(2) P2 this] obtain m3 F3 where m3: "sack_release_pages (nx_packet_queue_next pk) m2 = Some m3"
    "pools_inv m3 F3" "\<forall>b. b \<notin> set ps \<longrightarrow> nx_packets m3 b = nx_packets m2 b" "dom (nx_pools m3) = dom (nx_pools m2)"
    "(\<forall>Q. idle m2 Q) \<longrightarrow> F3 = F2(P := rev ps @ F2 P)" by blast
  have "sack_release_pages p m = Some m3"
    using p pk(1) m2(1) m3(1) by (subst sack_release_pages.simps) simp
  moreover have "F3 = F(P := rev (a # ps) @ F P)" if "\<forall>Q. idle m Q"
  proof -
    have "F2 = F(P := a # F P)" using m2(5) that idle1 pk(2) by (intro ext) (simp add: owned_by_def)
    moreover have "F3 = F2(P := rev ps @ F2 P)" using m3(5) m2(6) that idle1 by blast
    ultimately show ?thesis by simp
  qed
  moreover have "\<forall>b. b \<notin> set (a # ps) \<longrightarrow> nx_packets m3 b = nx_packets m b" using m3(3) same by simp
  moreover have "dom (nx_pools m3) = dom (nx_pools m)" using m3(4) m2(4) by simp
  ultimately show ?case using m3(2) by blast
qed

lemma sack_reset_result:
  assumes inv: "sack_inv m hs s E"
  shows "\<exists>ps P m' s' F F'. queue m (nx_tcp_socket_sack_scoreboard s) ps \<and> nx_tcp_sack_recovery_reset m s = Some (m', s') \<and>
    nx_tcp_socket_sack_scoreboard s' = NX_NULL \<and> \<not> nx_sack_initialized s' \<and> \<not> nx_sack_alloc_failed s' \<and> \<not> sack_recovery_active s' \<and>
    pools_inv m F \<and> pools_inv m' F' \<and> (\<forall>b. b \<notin> set ps \<longrightarrow> nx_packets m' b = nx_packets m b) \<and>
    ((\<forall>Q. idle m Q) \<longrightarrow> F' = F(P := rev ps @ F P))"
proof -
  have "\<exists>ps P F. queue m (nx_tcp_socket_sack_scoreboard s) ps \<and> distinct ps \<and> pools_inv m F \<and> (ps = [] \<or> P \<in> dom (nx_pools m)) \<and>
    (\<forall>a \<in> set ps. \<exists>pk. nx_packets m a = Some pk \<and> nx_packet_pool_owner pk = P \<and>
      nx_packet_tcp_queue_next pk = NX_PACKET_ALLOCATED \<and> nx_packet_next pk = NX_NULL)"
  proof (cases "nx_tcp_socket_sack_scoreboard s = NX_NULL")
    case True
    obtain F where "pools_inv m F" using inv by (auto simp: sack_inv_def sack_memory_def)
    then show ?thesis using True by (intro exI [of _ "[]"] exI) auto
  next
    case False
    then obtain holes where "sack_live m hs s holes" using inv by (auto simp: sack_inv_def sack_shows_def)
    then obtain ps F where "sack_pages m s ps" "sack_source m s ps F" by (auto simp: sack_live_def)
    then show ?thesis unfolding sack_pages_def sack_source_def by blast
  qed
  then obtain ps P F where ps: "queue m (nx_tcp_socket_sack_scoreboard s) ps" "distinct ps" "pools_inv m F"
    "ps = [] \<or> P \<in> dom (nx_pools m)"
    "\<forall>a \<in> set ps. \<exists>pk. nx_packets m a = Some pk \<and> nx_packet_pool_owner pk = P \<and>
      nx_packet_tcp_queue_next pk = NX_PACKET_ALLOCATED \<and> nx_packet_next pk = NX_NULL" by blast
  have "\<exists>m' F'. sack_release_pages (nx_tcp_socket_sack_scoreboard s) m = Some m' \<and> pools_inv m' F' \<and>
    (\<forall>b. b \<notin> set ps \<longrightarrow> nx_packets m' b = nx_packets m b) \<and> ((\<forall>Q. idle m Q) \<longrightarrow> F' = F(P := rev ps @ F P))"
  proof (cases "ps = []")
    case True
    then show ?thesis using ps(1,3) by (intro exI [of _ m] exI [of _ F]) (simp add: sack_release_pages.simps)
  next
    case False
    then show ?thesis using sack_release_pages_result [OF ps(3,1,2) _ ps(5)] ps(4) by blast
  qed
  then obtain m' F' where r: "sack_release_pages (nx_tcp_socket_sack_scoreboard s) m = Some m'" "pools_inv m' F'"
    "\<forall>b. b \<notin> set ps \<longrightarrow> nx_packets m' b = nx_packets m b" "(\<forall>Q. idle m Q) \<longrightarrow> F' = F(P := rev ps @ F P)" by blast
  have "\<exists>s'. nx_tcp_sack_recovery_reset m s = Some (m', s') \<and> nx_tcp_socket_sack_scoreboard s' = NX_NULL \<and>
      \<not> nx_sack_initialized s' \<and> \<not> nx_sack_alloc_failed s' \<and> \<not> sack_recovery_active s'"
    using r(1) by (simp add: nx_tcp_sack_recovery_reset_def Let_def nx_tcp_sack_recovery_end_def sack_recovery_active_def)
  then show ?thesis using r ps(1,3) by blast
qed

end
