(* ===== verification/Nx_Sack_Props.thy ===== *)
theory Nx_Sack_Props imports Nx_Sack_Demo Nx_Sack_Steps Nx_Sack_Reset begin

text \<open>
  The properties of the TCP loss recovery: the scoreboard holds what the peer reported, the data is credited
  once, the estimate of the data in flight against RFC 6675, what is sent again, and the credit of RFC 6937.
\<close>

section \<open>Proportional rate reduction\<close>

lemma divide_up_ceil:
  assumes "0 < b"
  shows "divide_up a b = (a + b - 1) div b"
proof (rule divide_up_unique [OF assms])
  have "(a + b - 1) div b * b \<le> a + b - 1" by (rule div_times_less_eq_dividend)
  then show "(a + b - 1) div b * b < a + b" using assms by linarith
  have "a + b - 1 < ((a + b - 1) div b + 1) * b" using assms by (metis dividend_less_div_times add.commute add_mult_distrib mult_1)
  then show "a \<le> (a + b - 1) div b * b" by (simp add: add_mult_distrib)
qed

text \<open>C35: The credit of proportional rate reduction, which the code computes with shifts, special cases and a division of the
  64-bit product bit by bit to avoid 64-bit arithmetic, is the ceiling of delivered times threshold over the data in flight at the start,
  cut to 32 bits, for all values.\<close>

theorem nx_tcp_prr_proportional_credit_divides:
  "nx_tcp_prr_proportional_credit delivered threshold flight =
     (if flight = 0 then 0
      else of_nat (min ((unat delivered * unat threshold + unat flight - 1) div unat flight) 0xFFFFFFFF))"
proof (cases "flight = 0")
  case False
  then show ?thesis by (simp only: nx_tcp_prr_proportional_credit_eq [OF False] divide_up_ceil unat_gt_0 if_False not_False_eq_True)
qed (simp add: nx_tcp_prr_proportional_credit_def)

section \<open>The scoreboard\<close>



section \<open>Data in flight\<close>




section \<open>What is sent again\<close>



section \<open>Any history\<close>

text \<open>C39: The loss recovery over any history: options, acknowledgments, new data, and the start, the accounting and the end of
  recoveries, in any order, with any numbers in the segments of the peer. In every state each handler returns, so no page is missing and
  no loop runs on; the scoreboard claims only bytes that the peer reported and that are not acknowledged;
  and as long as the first page could be allocated, the total credit is the total acknowledged plus what is banked for reported
  bytes, so no byte counts twice towards the congestion control and every reported byte counted.\<close>

theorem sack_reach_credits_once:
  assumes "sack_reach S w"
  shows "\<exists>E. sack_inv (sack_world_mem w) (sack_world_slots w) (sack_world_socket w) E \<and> E \<subseteq> sack_world_reported w \<and>
    (\<not> sack_world_failed w \<longrightarrow>
       sack_world_credited w = sack_world_acked w + unat (nx_tcp_socket_sack_delivery_bank (sack_world_socket w)) \<and>
       card E \<le> unat (nx_tcp_socket_sack_delivery_bank (sack_world_socket w)) \<and>
       unat (nx_tcp_socket_sack_delivery_bank (sack_world_socket w)) \<le>
         seq_off (nx_tcp_socket_sack_high_ack (sack_world_socket w)) (sack_data_end (sack_world_socket w))) \<and>
    (\<exists>r. nx_tcp_sack_recovery_ack S ack (sack_world_mem w) (sack_world_slots w) (sack_recorded ls rs n (sack_world_socket w)) = Some r) \<and>
    (\<exists>r. nx_tcp_sack_recovery_begin S (sack_world_mem w) (sack_world_slots w) (sack_world_socket w) = Some r) \<and>
    (\<exists>r. nx_tcp_sack_recovery_next (sack_world_mem w) (sack_world_slots w) (sack_world_socket w) = Some r) \<and>
    (\<exists>r. nx_tcp_sack_recovery_sent seq bytes rescue (sack_world_mem w) (sack_world_slots w) (sack_world_socket w) = Some r) \<and>
    (\<exists>r. nx_tcp_sack_recovery_reset (sack_world_mem w) (sack_world_socket w) = Some r)"
proof -
  obtain E where E: "sack_inv (sack_world_mem w) (sack_world_slots w) (sack_world_socket w) E" "E \<subseteq> sack_world_reported w"
    "\<not> sack_world_failed w \<longrightarrow> \<not> nx_sack_alloc_failed (sack_world_socket w) \<and>
        sack_world_credited w = sack_world_acked w + unat (nx_tcp_socket_sack_delivery_bank (sack_world_socket w))"
    using sack_reach_ok [OF assms] unfolding sack_world_ok_def by blast
  have "\<exists>r. nx_tcp_sack_recovery_ack S ack (sack_world_mem w) (sack_world_slots w) (sack_recorded ls rs n (sack_world_socket w)) = Some r"
    using nx_tcp_sack_recovery_ack_inv [OF sack_recorded_inv [THEN iffD2, OF E(1)] refl, of S ack] by blast
  moreover have "\<exists>r. nx_tcp_sack_recovery_begin S (sack_world_mem w) (sack_world_slots w) (sack_world_socket w) = Some r"
    using sack_begin_result [OF E(1), of S] by blast
  moreover have "\<exists>r. nx_tcp_sack_recovery_sent seq bytes rescue (sack_world_mem w) (sack_world_slots w) (sack_world_socket w) = Some r"
    using sack_sent_result [OF E(1), of seq bytes rescue] by blast
  moreover have "\<exists>r. nx_tcp_sack_recovery_reset (sack_world_mem w) (sack_world_socket w) = Some r"
    using sack_reset_result [OF E(1)] by blast
  moreover note sack_next_total [OF E(1)]
  moreover have "card E \<le> unat (nx_tcp_socket_sack_delivery_bank (sack_world_socket w)) \<and>
       unat (nx_tcp_socket_sack_delivery_bank (sack_world_socket w)) \<le>
         seq_off (nx_tcp_socket_sack_high_ack (sack_world_socket w)) (sack_data_end (sack_world_socket w))"
    if "\<not> nx_sack_alloc_failed (sack_world_socket w)"
    using E(1) that unfolding sack_inv_def by simp
  ultimately show ?thesis using E by (intro exI [of _ E] conjI impI) simp_all
qed

definition demo_world :: sack_world where
  "demo_world = \<lparr>sack_world_mem = page_mem, sack_world_slots = Map.empty, sack_world_socket = sack_initialize fresh_sack,
     sack_world_reported = {}, sack_world_acked = 0, sack_world_credited = 0, sack_world_failed = False\<rparr>"

lemma demo_world_start: "sack_world_start demo_world"
proof -
  have "sack_memory page_mem fresh_sack"
    unfolding sack_memory_def using page_mem_inv page_mem_separate
    by (auto simp: fresh_sack_def page_mem_def page_mem0_def taken_def)
  then show ?thesis unfolding sack_world_start_def demo_world_def
    by (auto simp: intro!: exI [of _ fresh_sack]) (simp_all add: fresh_sack_def)
qed

text \<open>The peer reports 2000 to 5000 and 6000 to 8000 with the first acknowledgment.\<close>

theorem sack_reach_credits_once_witness:
  "\<exists>m hs s E. nx_tcp_sack_recovery_ack (\<lambda>t m. m) 1000 page_mem Map.empty
       (sack_recorded [2000, 6000, 0, 0] [5000, 8000, 0, 0] 2 (sack_initialize fresh_sack)) = Some (m, hs, s) \<and>
     sack_inv m hs s E \<and> E \<subseteq> seq_range 2000 5000 \<union> seq_range 6000 8000 \<and>
     (\<not> nx_sack_alloc_failed s \<longrightarrow> unat (nx_tcp_socket_sack_delivered_data s) = unat (nx_tcp_socket_sack_delivery_bank s))"
proof -
  let ?s0 = "sack_recorded [2000, 6000, 0, 0] [5000, 8000, 0, 0] 2 (sack_initialize fresh_sack)"
  have start: "sack_reach (\<lambda>t m. m) demo_world" using demo_world_start by (rule reach_start)
  obtain m hs s where run: "nx_tcp_sack_recovery_ack (\<lambda>t m. m) 1000 page_mem Map.empty ?s0 = Some (m, hs, s)"
    using sack_reach_credits_once [OF start, of 1000 "[2000, 6000, 0, 0]" "[5000, 8000, 0, 0]" 2 0 0 False]
    by (auto simp: demo_world_def)
  have u: "nx_tcp_socket_sack_high_ack ?s0 = 1000" "sack_data_end ?s0 = 11000" "nx_sack_uncertain ?s0 = False"
    by (simp_all add: sack_recorded_def sack_initialize_def sack_data_end_def fresh_sack_def Let_def)
  have a: "sack_new_ack ?s0 1000 = 1000" by (rule sack_new_ack_range(2)) (simp_all add: u)
  have at: "sack_option_bytes t \<subseteq> seq_range 2000 5000 \<union> seq_range 6000 8000"
    if "t = sack_at ?s0 1000" for t
  proof -
    have "nx_tcp_socket_sack_left t = [2000, 6000, 0, 0]" "nx_tcp_socket_sack_right t = [5000, 8000, 0, 0]"
      "nx_tcp_socket_sack_block_count t = 2" "nx_tcp_socket_tx_sequence t = 11000" "sack_data_end t = 11000"
      using u by (simp_all add: that sack_at_def sack_recorded_def sack_initialize_def fresh_sack_def sack_data_end_def Let_def)
    then show ?thesis by (auto simp: less_2_cases_iff sack_option_bytes_def sack_block_bytes_def Let_def split: if_splits)
  qed
  have none: "seq_range (1000 :: ulong) 1000 = {}" by (simp add: seq_range_def)
  from sack_step.step_ack [OF refl refl, of "\<lambda>t m. m" 1000 demo_world "[2000, 6000, 0, 0]" "[5000, 8000, 0, 0]" 2 m hs s]
  have "sack_reach (\<lambda>t m. m) (demo_world\<lparr>sack_world_mem := m, sack_world_slots := hs, sack_world_socket := s,
      sack_world_reported := sack_option_bytes (sack_at ?s0 1000), sack_world_acked := 0,
      sack_world_credited := unat (nx_tcp_socket_sack_delivered_data s), sack_world_failed := nx_sack_alloc_failed s\<rparr>)" (is "sack_reach _ ?w")
    using run start a u none by (intro reach_step [OF start]) (simp add: demo_world_def)
  from sack_reach_credits_once [OF this, of 0 "[]" "[]" 0 0 0 False]
  obtain E where "sack_inv m hs s E" "E \<subseteq> sack_option_bytes (sack_at ?s0 1000)"
    "\<not> nx_sack_alloc_failed s \<longrightarrow> unat (nx_tcp_socket_sack_delivered_data s) = unat (nx_tcp_socket_sack_delivery_bank s)"
    by auto
  then show ?thesis using run at [OF refl] by blast
qed

section \<open>The edge of the lost data\<close>

text \<open>A run of reported bytes that reaches the threshold of the bytes moves the edge even when the rule of the runs has
  already put it higher. Five reported runs of half a segment: the hole from 2000 to 2500 has three runs
  above it, so the RFC counts it as lost, but the edge ends at 1000.\<close>

lemma sack_lost_edge_lowered:
  defines "holes \<equiv> map (\<lambda>l. \<lparr>sack_hole_left = l, sack_hole_right = l + 500, sack_hole_rxmit = l\<rparr>) [0, 1000, 2000, 3000, 4000]"
    and "s \<equiv> demo_sack\<lparr>nx_tcp_socket_sack_high_ack := 0\<rparr>"
  shows "sack_lost_edge s holes 5000 = 1000" and "sack_is_lost 1000 0 (sack_evidence 0 5000 holes) 2000"
    and "2000 \<notin> sack_evidence 0 5000 holes"
proof -
  show "sack_lost_edge s holes 5000 = 1000"
    by (simp add: sack_lost_edge_def sack_lost_step_def holes_def s_def demo_sack_def fresh_sack_def Let_def seq_diff_def)
  have e: "y \<in> sack_evidence 0 5000 holes \<longleftrightarrow> unat y < 5000 \<and> \<not> (unat y < 500 \<or> 1000 \<le> unat y \<and> unat y < 1500 \<or>
      2000 \<le> unat y \<and> unat y < 2500 \<or> 3000 \<le> unat y \<and> unat y < 3500 \<or> 4000 \<le> unat y \<and> unat y < 4500)" for y :: ulong
  proof -
    have "y \<in> seq_range l r \<longleftrightarrow> unat l \<le> unat y \<and> unat y < unat r" if "unat l \<le> unat r" for l r :: ulong
      using seq_range_off [of 0 l r y] that by (simp add: seq_off_def)
    then show ?thesis by (simp add: sack_evidence_def holes_def ranges_set_def hole_range_def) 
  qed
  show "2000 \<notin> sack_evidence 0 5000 holes" by (simp add: e)
  have "{2500, 3500, 4500} \<subseteq> {z \<in> sack_evidence 0 5000 holes. seq_off 0 2000 < seq_off 0 z \<and> z - 1 \<notin> sack_evidence 0 5000 holes}"
    by (simp add: e seq_off_def)
  then have "card {2500, 3500, 4500 :: ulong} \<le> card {z \<in> sack_evidence 0 5000 holes. seq_off 0 2000 < seq_off 0 z \<and> z - 1 \<notin> sack_evidence 0 5000 holes}"
    by (rule card_mono [rotated]) simp
  then show "sack_is_lost 1000 0 (sack_evidence 0 5000 holes) 2000" by (simp add: sack_is_lost_def)
qed

end
