(* ===== verification/Nx_Tcp_Rtt.thy ===== *)
theory Nx_Tcp_Rtt imports Nx_Tcp_Base Complex_Main begin

text \<open>
  The round-trip time estimator of RFC 6298 (common/src/nx_tcp_socket_rtt_sample.c). The smoothed
  time is kept in eighths of a tick and the variation in quarters; the recursion of the RFC is
  computed with shifts, and the proofs show that nothing overflows and how far the result is from the RFC.
\<close>

section \<open>The estimator\<close>

record nx_tcp_rtt =
  nx_tcp_socket_rtt_smoothed :: ulong
  nx_tcp_socket_rtt_variation :: ulong
  nx_tcp_socket_rtt_configured :: bool
  nx_tcp_socket_timeout_rate :: ulong

text \<open>\<open>NX_TCP_RTO_MINIMUM\<close> and \<open>NX_TCP_RTO_MAXIMUM\<close> depend on the tick rate of the build. A LONG is a
  word that \<open>sint\<close> reads.\<close>

definition nx_rtt_clamp :: "ulong \<Rightarrow> ulong \<Rightarrow> ulong" where
  "nx_rtt_clamp rto_maximum rtt_ticks =
     (let rtt_ticks = (if rtt_ticks = 0 then 1 else rtt_ticks)
      in if rto_maximum < rtt_ticks then rto_maximum else rtt_ticks)"

definition nx_rtt_update :: "ulong \<Rightarrow> nx_tcp_rtt \<Rightarrow> nx_tcp_rtt" where
  "nx_rtt_update rtt_ticks s =
     (if nx_tcp_socket_rtt_smoothed s = 0
      then s\<lparr>nx_tcp_socket_rtt_smoothed := push_bit 3 rtt_ticks, nx_tcp_socket_rtt_variation := push_bit 1 rtt_ticks\<rparr>
      else
        let error = rtt_ticks - drop_bit 3 (nx_tcp_socket_rtt_smoothed s);
            magnitude = (if sint error < 0 then - error else error);
            variation = nx_tcp_socket_rtt_variation s
        in s\<lparr>nx_tcp_socket_rtt_variation := variation - drop_bit 2 variation + magnitude,
             nx_tcp_socket_rtt_smoothed := nx_tcp_socket_rtt_smoothed s + error\<rparr>)"

definition nx_rtt_timeout :: "ulong \<Rightarrow> ulong \<Rightarrow> nx_tcp_rtt \<Rightarrow> ulong" where
  "nx_rtt_timeout rto_minimum rto_maximum s =
     (let variation = (if nx_tcp_socket_rtt_variation s = 0 then 1 else nx_tcp_socket_rtt_variation s);
          rto = drop_bit 3 (nx_tcp_socket_rtt_smoothed s) + variation;
          rto = (if rto < rto_minimum then rto_minimum else rto)
      in if rto_maximum < rto then rto_maximum else rto)"

definition nx_tcp_socket_rtt_sample :: "ulong \<Rightarrow> ulong \<Rightarrow> ulong \<Rightarrow> nx_tcp_rtt \<Rightarrow> nx_tcp_rtt" where
  "nx_tcp_socket_rtt_sample rto_minimum rto_maximum rtt_ticks s =
     (if nx_tcp_socket_rtt_configured s then s
      else
        let s' = nx_rtt_update (nx_rtt_clamp rto_maximum rtt_ticks) s
        in s'\<lparr>nx_tcp_socket_timeout_rate := nx_rtt_timeout rto_minimum rto_maximum s'\<rparr>)"

section \<open>Without overflow\<close>

text \<open>The values as numbers. The maximum of the RTO is small enough for eighths of a tick.\<close>

definition rtt_smoothed :: "nx_tcp_rtt \<Rightarrow> nat" where
  "rtt_smoothed s = unat (nx_tcp_socket_rtt_smoothed s)"

definition rtt_variation :: "nx_tcp_rtt \<Rightarrow> nat" where
  "rtt_variation s = unat (nx_tcp_socket_rtt_variation s)"

definition rtt_ok :: "nat \<Rightarrow> nx_tcp_rtt \<Rightarrow> bool" where
  "rtt_ok n s \<longleftrightarrow> rtt_smoothed s = 0 \<or> 8 \<le> rtt_smoothed s \<and> rtt_smoothed s \<le> 8 * n \<and> rtt_variation s \<le> 4 * n"

text \<open>The recursion in numbers.\<close>

definition rtt_smooth :: "nat \<Rightarrow> nat \<Rightarrow> nat" where
  "rtt_smooth r x = x - x div 8 + r"

definition rtt_vary :: "nat \<Rightarrow> nat \<Rightarrow> nat \<Rightarrow> nat" where
  "rtt_vary r x v = v - v div 4 + (if x div 8 \<le> r then r - x div 8 else x div 8 - r)"

lemma unat_word_shift: "8 * unat x < 4294967296 \<Longrightarrow> unat (push_bit 3 x :: ulong) = 8 * unat x \<and> unat (push_bit 1 x) = 2 * unat x"
  using unat_times_ulong [of 8 x] unat_times_ulong [of 2 x] by (simp add: push_bit_eq_mult mult.commute)

lemma nx_rtt_clamp_range:
  "0 < unat rto_maximum \<Longrightarrow> unat (nx_rtt_clamp rto_maximum r) = min (max 1 (unat r)) (unat rto_maximum)"
  using unat_gt_0 [of r] by (auto simp: nx_rtt_clamp_def Let_def word_less_nat_alt min_def max_def)

lemma nx_rtt_update_eq:
  assumes "rtt_ok n s" "1 \<le> unat r" "unat r \<le> n" "n < 268435456"
  shows "rtt_smoothed s = 0 \<Longrightarrow> rtt_smoothed (nx_rtt_update r s) = 8 * unat r \<and> rtt_variation (nx_rtt_update r s) = 2 * unat r"
    "rtt_smoothed s \<noteq> 0 \<Longrightarrow> rtt_smoothed (nx_rtt_update r s) = rtt_smooth (unat r) (rtt_smoothed s) \<and>
       rtt_variation (nx_rtt_update r s) = rtt_vary (unat r) (rtt_smoothed s) (rtt_variation s)"
proof -
  assume "rtt_smoothed s = 0"
  then have "nx_tcp_socket_rtt_smoothed s = 0" by (simp add: rtt_smoothed_def unat_eq_0)
  then show "rtt_smoothed (nx_rtt_update r s) = 8 * unat r \<and> rtt_variation (nx_rtt_update r s) = 2 * unat r"
    using assms unat_word_shift [of r] by (simp add: nx_rtt_update_def rtt_smoothed_def rtt_variation_def)
next
  assume s: "rtt_smoothed s \<noteq> 0"
  define x where "x = nx_tcp_socket_rtt_smoothed s"
  define v where "v = nx_tcp_socket_rtt_variation s"
  define e where "e = r - drop_bit 3 x"
  have x: "x \<noteq> 0" "8 \<le> unat x" "unat x \<le> 8 * n" "unat v \<le> 4 * n"
    using s assms(1) by (auto simp: x_def v_def rtt_ok_def rtt_smoothed_def rtt_variation_def)
  have d: "unat (drop_bit 3 x) = unat x div 8" by (simp add: drop_bit_eq_div unat_div)
  then have small: "unat (drop_bit 3 x) \<le> n" using x(3) by linarith
  have "sint e = int (unat r) - int (unat x div 8)"
    unfolding e_def d [symmetric] using small assms(3,4) by (intro sint_diff) simp_all
  then have sign: "sint e < 0 \<longleftrightarrow> unat r < unat x div 8" by linarith
  have quarter: "unat (v - drop_bit 2 v) = unat v - unat v div 4"
    using unat_minus_ulong [of "drop_bit 2 v" v] by (simp add: drop_bit_eq_div unat_div)
  have mag: "unat (if sint e < 0 then - e else e) = (if unat x div 8 \<le> unat r then unat r - unat x div 8 else unat x div 8 - unat r)"
    using unat_minus_ulong [of "drop_bit 3 x" r] unat_minus_ulong [of r "drop_bit 3 x"] sign d by (auto simp: e_def)
  have "unat ((v - drop_bit 2 v) + (if sint e < 0 then - e else e)) = rtt_vary (unat r) (unat x) (unat v)"
    using unat_plus_ulong [of "v - drop_bit 2 v" "if sint e < 0 then - e else e"] mag quarter x(3,4) assms(3,4)
    by (auto simp: rtt_vary_def)
  moreover have "unat (x + e) = rtt_smooth (unat r) (unat x)"
  proof -
    have "unat (x - drop_bit 3 x) = unat x - unat x div 8" using unat_minus_ulong [of "drop_bit 3 x" x] d by simp
    then have "unat ((x - drop_bit 3 x) + r) = rtt_smooth (unat r) (unat x)"
      using unat_plus_ulong [of "x - drop_bit 3 x" r] x(3) assms(3,4) by (simp add: rtt_smooth_def)
    then show ?thesis by (simp add: e_def algebra_simps)
  qed
  ultimately show "rtt_smoothed (nx_rtt_update r s) = rtt_smooth (unat r) (rtt_smoothed s) \<and>
       rtt_variation (nx_rtt_update r s) = rtt_vary (unat r) (rtt_smoothed s) (rtt_variation s)"
    using x(1) unfolding nx_rtt_update_def Let_def x_def [symmetric] v_def [symmetric] e_def [symmetric]
      rtt_smoothed_def rtt_variation_def by simp
qed

lemma rtt_smooth_range: "8 * a \<le> x \<Longrightarrow> x \<le> 8 * b \<Longrightarrow> a \<le> r \<Longrightarrow> r \<le> b \<Longrightarrow> 8 * a \<le> rtt_smooth r x \<and> rtt_smooth r x \<le> 8 * b"
  unfolding rtt_smooth_def by linarith

lemma rtt_vary_range:
  assumes "8 \<le> x" "x \<le> 8 * n" "1 \<le> r" "r \<le> n" "v \<le> 4 * n"
  shows "rtt_vary r x v \<le> 4 * n"
proof -
  have "1 \<le> x div 8" "x div 8 \<le> n" "v - v div 4 \<le> 3 * n" using assms(1,2,5) by linarith+
  moreover have "(if x div 8 \<le> r then r - x div 8 else x div 8 - r) \<le> n" using assms(4) calculation(2) by auto
  ultimately show ?thesis unfolding rtt_vary_def by linarith
qed

lemma nx_rtt_timeout_range:
  assumes "rtt_ok n s" "rtt_smoothed s \<noteq> 0" "n < 268435456" "rto_minimum \<le> rto_maximum"
  shows "unat (nx_rtt_timeout rto_minimum rto_maximum s) =
    min (max (rtt_smoothed s div 8 + max 1 (rtt_variation s)) (unat rto_minimum)) (unat rto_maximum)"
proof -
  define v where "v = (if nx_tcp_socket_rtt_variation s = 0 then 1 else nx_tcp_socket_rtt_variation s)"
  have v: "unat v = max 1 (rtt_variation s)"
    using unat_gt_0 [of "nx_tcp_socket_rtt_variation s"] by (auto simp: v_def rtt_variation_def max_def)
  have d: "unat (drop_bit 3 (nx_tcp_socket_rtt_smoothed s)) = rtt_smoothed s div 8"
    by (simp add: drop_bit_eq_div unat_div rtt_smoothed_def)
  have "rtt_smoothed s \<le> 8 * n" "max 1 (rtt_variation s) \<le> 4 * n" using assms(1,2) by (auto simp: rtt_ok_def)
  then have "rtt_smoothed s div 8 + max 1 (rtt_variation s) < 4294967296" using assms(3) by linarith
  then have "unat (drop_bit 3 (nx_tcp_socket_rtt_smoothed s) + v) = rtt_smoothed s div 8 + max 1 (rtt_variation s)"
    using unat_plus_ulong [of "drop_bit 3 (nx_tcp_socket_rtt_smoothed s)" v] v d by simp
  then show ?thesis using assms(4) unfolding nx_rtt_timeout_def Let_def v_def [symmetric]
    by (auto simp: word_less_nat_alt word_le_nat_alt min_def max_def)
qed

section \<open>A history of samples\<close>

definition rtt_samples :: "ulong \<Rightarrow> ulong \<Rightarrow> ulong list \<Rightarrow> nx_tcp_rtt \<Rightarrow> nx_tcp_rtt" where
  "rtt_samples rto_minimum rto_maximum rs s = fold (nx_tcp_socket_rtt_sample rto_minimum rto_maximum) rs s"

lemma rtt_samples_simps [simp]:
  "rtt_samples lo hi [] s = s"
  "rtt_samples lo hi (rs @ [r]) s = nx_tcp_socket_rtt_sample lo hi r (rtt_samples lo hi rs s)"
  by (simp_all add: rtt_samples_def)

text \<open>A measurement as it is used.\<close>

definition rtt_measured :: "ulong \<Rightarrow> ulong \<Rightarrow> nat" where
  "rtt_measured rto_maximum r = min (max 1 (unat r)) (unat rto_maximum)"

lemma nx_tcp_socket_rtt_sample_values:
  fixes lo hi r :: ulong and s :: nx_tcp_rtt
  assumes "\<not> nx_tcp_socket_rtt_configured s" "rtt_ok (unat hi) s" "0 < unat hi" "unat hi < 268435456" "lo \<le> hi"
  defines "R \<equiv> rtt_measured hi r" and "s' \<equiv> nx_tcp_socket_rtt_sample lo hi r s"
  shows "rtt_smoothed s' = (if rtt_smoothed s = 0 then 8 * R else rtt_smooth R (rtt_smoothed s))"
    "rtt_variation s' = (if rtt_smoothed s = 0 then 2 * R else rtt_vary R (rtt_smoothed s) (rtt_variation s))"
    "\<not> nx_tcp_socket_rtt_configured s'" "rtt_ok (unat hi) s'" "rtt_smoothed s' \<noteq> 0"
    "unat (nx_tcp_socket_timeout_rate s') = min (max (rtt_smoothed s' div 8 + max 1 (rtt_variation s')) (unat lo)) (unat hi)"
proof -
  define c where "c = nx_rtt_clamp hi r"
  define u where "u = nx_rtt_update c s"
  have c: "unat c = R" "1 \<le> unat c" "unat c \<le> unat hi"
    using nx_rtt_clamp_range [OF assms(3), of r] assms(3) by (auto simp: c_def R_def rtt_measured_def)
  have s': "s' = u\<lparr>nx_tcp_socket_timeout_rate := nx_rtt_timeout lo hi u\<rparr>"
    using assms(1) by (simp add: s'_def nx_tcp_socket_rtt_sample_def u_def c_def Let_def)
  note up = nx_rtt_update_eq [OF assms(2) c(2,3) assms(4), folded u_def]
  have val: "rtt_smoothed u = (if rtt_smoothed s = 0 then 8 * R else rtt_smooth R (rtt_smoothed s))"
    "rtt_variation u = (if rtt_smoothed s = 0 then 2 * R else rtt_vary R (rtt_smoothed s) (rtt_variation s))"
    using up c(1) by auto
  have ok: "rtt_ok (unat hi) u \<and> rtt_smoothed u \<noteq> 0"
  proof (cases "rtt_smoothed s = 0")
    case True
    then show ?thesis using val c by (simp add: rtt_ok_def)
  next
    case False
    then have "8 * 1 \<le> rtt_smoothed s" "rtt_smoothed s \<le> 8 * unat hi" "rtt_variation s \<le> 4 * unat hi"
      using assms(2) by (auto simp: rtt_ok_def)
    then show ?thesis using False val c rtt_smooth_range [of 1 "rtt_smoothed s" "unat hi" R]
        rtt_vary_range [of "rtt_smoothed s" "unat hi" R "rtt_variation s"] by (simp add: rtt_ok_def)
  qed
  have eq: "rtt_smoothed s' = rtt_smoothed u" "rtt_variation s' = rtt_variation u" by (simp_all add: s' rtt_smoothed_def rtt_variation_def)
  show "rtt_smoothed s' = (if rtt_smoothed s = 0 then 8 * R else rtt_smooth R (rtt_smoothed s))"
    "rtt_variation s' = (if rtt_smoothed s = 0 then 2 * R else rtt_vary R (rtt_smoothed s) (rtt_variation s))"
    "rtt_smoothed s' \<noteq> 0" using val ok eq by simp_all
  show "rtt_ok (unat hi) s'" using ok by (auto simp: rtt_ok_def eq)
  show "\<not> nx_tcp_socket_rtt_configured s'" using assms(1) by (simp add: s' u_def nx_rtt_update_def Let_def)
  show "unat (nx_tcp_socket_timeout_rate s') = min (max (rtt_smoothed s' div 8 + max 1 (rtt_variation s')) (unat lo)) (unat hi)"
    using nx_rtt_timeout_range [of "unat hi" u lo hi] ok assms(4,5) unfolding eq by (simp add: s')
qed

lemma rtt_samples_ok:
  assumes "\<not> nx_tcp_socket_rtt_configured s" "rtt_smoothed s = 0" "0 < unat hi" "unat hi < 268435456" "lo \<le> hi"
    and "\<forall>r \<in> set rs. a \<le> rtt_measured hi r \<and> rtt_measured hi r \<le> b"
  shows "\<not> nx_tcp_socket_rtt_configured (rtt_samples lo hi rs s) \<and> rtt_ok (unat hi) (rtt_samples lo hi rs s) \<and>
    (rs \<noteq> [] \<longrightarrow> rtt_smoothed (rtt_samples lo hi rs s) \<noteq> 0 \<and>
       8 * a \<le> rtt_smoothed (rtt_samples lo hi rs s) \<and> rtt_smoothed (rtt_samples lo hi rs s) \<le> 8 * b)"
  using assms(6)
proof (induction rs rule: rev_induct)
  case Nil
  then show ?case using assms(1,2) by (simp add: rtt_ok_def)
next
  case (snoc r rs)
  define t where "t = rtt_samples lo hi rs s"
  have t: "\<not> nx_tcp_socket_rtt_configured t" "rtt_ok (unat hi) t"
    "rs \<noteq> [] \<Longrightarrow> rtt_smoothed t \<noteq> 0 \<and> 8 * a \<le> rtt_smoothed t \<and> rtt_smoothed t \<le> 8 * b"
    using snoc by (simp_all add: t_def)
  note step = nx_tcp_socket_rtt_sample_values [OF t(1,2) assms(3-5), of r]
  have R: "a \<le> rtt_measured hi r" "rtt_measured hi r \<le> b" using snoc.prems by simp_all
  have "rs = [] \<Longrightarrow> rtt_smoothed t = 0" using assms(2) by (simp add: t_def)
  then have "8 * a \<le> rtt_smoothed (nx_tcp_socket_rtt_sample lo hi r t) \<and> rtt_smoothed (nx_tcp_socket_rtt_sample lo hi r t) \<le> 8 * b"
    using step(1) R t(3) rtt_smooth_range [of a "rtt_smoothed t" b "rtt_measured hi r"] by (cases "rs = []") auto
  then show ?case using step(3-5) by (simp flip: t_def)
qed

text \<open>Against the real numbers of the RFC: less than one eighth of a tick in the smoothed time, less than half a
  tick in the variation.\<close>

lemma real_div_mod: "0 < c \<Longrightarrow> real x = real c * real (x div c) + real (x mod c) \<and> real (x mod c) < real c"
proof -
  assume "0 < c"
  moreover have "real x = real (c * (x div c) + x mod c)" by simp
  ultimately show ?thesis by (simp only: of_nat_add of_nat_mult of_nat_less_iff mod_less_divisor)
qed

lemma rtt_smooth_real: "real x * 7 / 8 + real r \<le> real (rtt_smooth r x) \<and> real (rtt_smooth r x) < real x * 7 / 8 + real r + 1"
proof -
  have "real (rtt_smooth r x) = real x - real (x div 8) + real r" by (simp add: rtt_smooth_def of_nat_diff)
  moreover have "real x = 8 * real (x div 8) + real (x mod 8)" "real (x mod 8) < 8" "0 \<le> real (x mod 8)"
    using real_div_mod [of 8 x] by simp_all
  ultimately show ?thesis by linarith
qed

lemma rtt_vary_real: "\<bar>real (rtt_vary r x v) - (real v * 3 / 4 + \<bar>real r - real x / 8\<bar>)\<bar> < 2"
proof -
  define d where "d = real r - real x / 8"
  define e where "e = real r - real (x div 8)"
  have "real (rtt_vary r x v) = real v - real (v div 4) + \<bar>e\<bar>" by (simp add: rtt_vary_def of_nat_diff e_def)
  moreover have "real v = 4 * real (v div 4) + real (v mod 4)" "real (v mod 4) < 4" "0 \<le> real (v mod 4)"
    using real_div_mod [of 4 v] by simp_all
  moreover have "real x = 8 * real (x div 8) + real (x mod 8)" "real (x mod 8) < 8" "0 \<le> real (x mod 8)"
    using real_div_mod [of 8 x] by simp_all
  then have "0 \<le> e - d" "e - d < 1" unfolding d_def e_def by linarith+
  then have "\<bar>e\<bar> - \<bar>d\<bar> < 1" "\<bar>d\<bar> - \<bar>e\<bar> < 1" by linarith+
  ultimately show ?thesis unfolding d_def [symmetric] by linarith
qed

end
