(* ===== verification/Nx_Tcp_Rtt_Props.thy ===== *)
theory Nx_Tcp_Rtt_Props imports Nx_Tcp_Rtt begin

text \<open>
  The round-trip estimator over a history of measurements against the recursion of RFC 6298 in real numbers.
\<close>

section \<open>The values of the RFC\<close>

definition rtt_srtt :: "nx_tcp_rtt \<Rightarrow> real" where
  "rtt_srtt s = real (rtt_smoothed s) / 8"

definition rtt_rttvar :: "nx_tcp_rtt \<Rightarrow> real" where
  "rtt_rttvar s = real (rtt_variation s) / 4"

lemma rtt_step_real:
  fixes lo hi r :: ulong and s :: nx_tcp_rtt
  assumes "\<not> nx_tcp_socket_rtt_configured s" "rtt_ok (unat hi) s" "rtt_smoothed s \<noteq> 0" "0 < unat hi" "unat hi < 268435456" "lo \<le> hi"
  defines "R \<equiv> real (rtt_measured hi r)" and "s' \<equiv> nx_tcp_socket_rtt_sample lo hi r s"
  shows "rtt_srtt s * 7 / 8 + R / 8 \<le> rtt_srtt s'" "rtt_srtt s' < rtt_srtt s * 7 / 8 + R / 8 + 1 / 8"
    "\<bar>rtt_rttvar s' - (rtt_rttvar s * 3 / 4 + \<bar>rtt_srtt s - R\<bar> / 4)\<bar> < 1 / 2"
proof -
  note v = nx_tcp_socket_rtt_sample_values(1,2) [OF assms(1,2,4-6), of r, folded s'_def]
  show "rtt_srtt s * 7 / 8 + R / 8 \<le> rtt_srtt s'" "rtt_srtt s' < rtt_srtt s * 7 / 8 + R / 8 + 1 / 8"
    using v(1) assms(3) rtt_smooth_real [of "rtt_smoothed s" "rtt_measured hi r"] by (simp_all add: rtt_srtt_def R_def)
  define d where "d = real (rtt_variation s') - (real (rtt_variation s) * 3 / 4 + \<bar>R - rtt_srtt s\<bar>)"
  have "\<bar>d\<bar> < 2"
    using v(2) assms(3) rtt_vary_real [of "rtt_measured hi r" "rtt_smoothed s" "rtt_variation s"]
    by (simp add: d_def R_def rtt_srtt_def)
  moreover have "rtt_rttvar s' - (rtt_rttvar s * 3 / 4 + \<bar>rtt_srtt s - R\<bar> / 4) = d / 4"
    by (simp add: d_def rtt_rttvar_def field_simps abs_minus_commute)
  ultimately show "\<bar>rtt_rttvar s' - (rtt_rttvar s * 3 / 4 + \<bar>rtt_srtt s - R\<bar> / 4)\<bar> < 1 / 2"
    by (simp only: abs_divide)
qed

section \<open>The property\<close>

text \<open>C40: The retransmission timeout over any history of measurements of a connection whose timeout the application
  did not choose. The first measurement sets SRTT to R and RTTVAR to R/2; later SRTT stays between the smallest and
  the largest measurement, each step is the one of RFC 6298 within an eighth of a tick for SRTT and half a
  tick for RTTVAR, errors that do not add up beyond the bounds, nothing overflows, and the timeout is SRTT
  in whole ticks plus the larger of one tick and 4 RTTVAR, between the two limits.\<close>

theorem nx_tcp_socket_rtt_sample_rfc6298:
  fixes lo hi r :: ulong and s t t' :: nx_tcp_rtt
  assumes "\<not> nx_tcp_socket_rtt_configured s" "nx_tcp_socket_rtt_smoothed s = 0"
    and "0 < hi" "hi < 0x10000000" "lo \<le> hi"
    and "\<forall>x \<in> set rs. a \<le> rtt_measured hi x \<and> rtt_measured hi x \<le> b"
    and "t = rtt_samples lo hi rs s" "t' = nx_tcp_socket_rtt_sample lo hi r t" "R = real (rtt_measured hi r)"
  shows "(if rs = [] then rtt_srtt t' = R \<and> rtt_rttvar t' = R / 2
      else real a \<le> rtt_srtt t \<and> rtt_srtt t \<le> real b \<and>
        rtt_srtt t * 7 / 8 + R / 8 \<le> rtt_srtt t' \<and> rtt_srtt t' < rtt_srtt t * 7 / 8 + R / 8 + 1 / 8 \<and>
        \<bar>rtt_rttvar t' - (rtt_rttvar t * 3 / 4 + \<bar>rtt_srtt t - R\<bar> / 4)\<bar> < 1 / 2) \<and>
    real (unat (nx_tcp_socket_timeout_rate t')) =
      min (max (of_int \<lfloor>rtt_srtt t'\<rfloor> + max 1 (4 * rtt_rttvar t')) (real (unat lo))) (real (unat hi))"
proof -
  have z: "rtt_smoothed s = 0" and hi: "0 < unat hi" "unat hi < 268435456"
    using assms(2-4) by (simp_all add: rtt_smoothed_def unat_gt_0 word_less_nat_alt)
  note all = rtt_samples_ok [OF assms(1) z hi assms(5,6), folded assms(7)]
  then have t: "\<not> nx_tcp_socket_rtt_configured t" "rtt_ok (unat hi) t" by blast+
  note v = nx_tcp_socket_rtt_sample_values [OF t hi assms(5), of r, folded assms(8)]
  have "of_int \<lfloor>rtt_srtt t'\<rfloor> = real (rtt_smoothed t' div 8)"
    using floor_divide_of_nat_eq [of "rtt_smoothed t'" 8, where 'a = real] by (simp add: rtt_srtt_def)
  then have rate: "real (unat (nx_tcp_socket_timeout_rate t')) =
      min (max (of_int \<lfloor>rtt_srtt t'\<rfloor> + max 1 (4 * rtt_rttvar t')) (real (unat lo))) (real (unat hi))"
    unfolding v(6) by (simp add: rtt_rttvar_def of_nat_min of_nat_max)
  show ?thesis
  proof (cases "rs = []")
    case True
    then have "rtt_smoothed t = 0" using z assms(7) by simp
    then show ?thesis using True v(1,2) rate assms(9) by (simp add: rtt_srtt_def rtt_rttvar_def)
  next
    case False
    then have nz: "rtt_smoothed t \<noteq> 0" "8 * a \<le> rtt_smoothed t" "rtt_smoothed t \<le> 8 * b" using all by blast+
    then have "real a \<le> rtt_srtt t" "rtt_srtt t \<le> real b" by (simp_all add: rtt_srtt_def)
    then show ?thesis
      using False rate rtt_step_real [OF t nz(1) hi assms(5), of r, folded assms(8,9)] by simp
  qed
qed

definition fresh_rtt :: nx_tcp_rtt where
  "fresh_rtt = \<lparr>nx_tcp_socket_rtt_smoothed = 0, nx_tcp_socket_rtt_variation = 0,
     nx_tcp_socket_rtt_configured = False, nx_tcp_socket_timeout_rate = 100\<rparr>"

theorem nx_tcp_socket_rtt_sample_rfc6298_witness:
  "real 10 \<le> rtt_srtt (rtt_samples 20 6000 [10, 20] fresh_rtt) \<and> rtt_srtt (rtt_samples 20 6000 [10, 20] fresh_rtt) \<le> real 20"
  using nx_tcp_socket_rtt_sample_rfc6298 [of fresh_rtt 6000 20 "[10, 20]" 10 20, OF _ _ _ _ _ _ refl refl refl]
  by (simp add: fresh_rtt_def rtt_measured_def)

end
