(* ===== verification/Spec2Isabelle.thy ===== *)
theory Spec2Isabelle imports Nx_Pool_Props Nx_Pool_Demo Nx_Data_Props Nx_Checksum_Props Nx_Ip_Route_Props Nx_Udp_Props Nx_Tcp_Option_Props Nx_Sack_Props Nx_Tcp_Rtt_Props begin

text \<open>
  NetX Duo is an embedded TCP/IP stack in C on top of the ThreadX kernel. This development
  models core services of the stack (\<open>common/src\<close>, \<open>common/inc\<close>) as HOL functions on explicit
  states and proves what makes them correct.

  How the code is modelled. A control block is a record with the fields of the C struct that the
  modelled functions use; memory is a map from addresses to control blocks plus a byte memory;
  a pointer is a natural number and NULL is 0. A function that follows pointers or loops returns an
  option, and None is a dereference of an address that holds no object or a loop that does not
  end; hence every theorem that shows a result shows that the code gets there. UINT and
  ULONG are naturals below \<open>2 ^ 32\<close> with the wrap-around written out (\<open>ulong_add\<close>, \<open>ulong_sub\<close>), IPv4
  addresses and masks are 32-bit words. Error codes are the datatype \<open>nx_status\<close>. The ThreadX
  kernel is outside the repository: \<open>_tx_thread_system_suspend\<close> is a parameter of the functions that
  call it, its other calls return nothing and are recorded in order (\<open>tx_calls\<close>). Interrupt lockout
  and mutexes make each critical section one step of the model. Event tracing, statistics that
  nothing reads and the optional hooks (NAT, packet debugging, TCP/IP offload) are left out.

  The parts.

  \<^item> Prelude: \<open>Nx_Prelude\<close> (status codes, ULONG arithmetic, byte memory, thread lists kept as
    lists), \<open>Nx_Ring\<close> (circular doubly linked lists in memory: the pointer sequences the C code
    repeats, and that they insert, remove and search), \<open>Nx_Port_Search\<close> (the search for a free port that UDP and
    TCP share, with the contract of the port test as the locale \<open>port_space\<close>).

  \<^item> Packet pools (\<open>nx_packet_pool_create.c\<close>, \<open>nx_packet_allocate.c\<close>, \<open>nx_packet_release.c\<close>,
    \<open>nx_packet_pool_cleanup.c\<close>, \<open>nx_packet_pool_delete.c\<close> and others): \<open>Nx_Packet_Base\<close> has the control blocks,
    \<open>Nx_Packet_Pool\<close> the services, \<open>Nx_Pool_Inv\<close> and \<open>Nx_Pool_Create\<close> the invariant (the free list is a chain
    of distinct free packets that belong to the pool, its length is the available count, a thread waits only when the pool is
    empty), \<open>Nx_Pool_Steps\<close> the step relation, \<open>Nx_Pool_Client\<close> the locale \<open>resource_source\<close> that users of
    a pool rely on and its interpretation, \<open>Nx_Pool_Demo\<close> a concrete pool, \<open>Nx_Pool_Props\<close> the properties C1 to C10.

  \<^item> Packet data (\<open>nx_packet_data_append.c\<close>, \<open>nx_packet_data_retrieve.c\<close>,
    \<open>nx_packet_data_extract_offset.c\<close>, \<open>nx_packet_copy.c\<close>, \<open>nx_packet_data_adjust.c\<close>): \<open>Nx_Packet_Data\<close> the operations on
    chained packets, \<open>Nx_Packet_Frame\<close> what writes leave alone, \<open>Nx_Append_Alloc\<close>, \<open>Nx_Append_Copy\<close>, \<open>Nx_Append\<close>,
    \<open>Nx_Read\<close>, \<open>Nx_Copy\<close>, \<open>Nx_Adjust\<close> the proofs against the byte list a chain holds, \<open>Nx_Data_Props\<close> C11 to C17.

  \<^item> Internet checksum (\<open>nx_ip_checksum_compute.c\<close>): \<open>Nx_Checksum\<close> the routine with its unrolled 32-bit
    loop, the packet boundaries at odd offsets and the pseudo header, and the RFC 1071 specification;
    \<open>Nx_Checksum_Sum\<close>, \<open>Nx_Checksum_Chain\<close>, \<open>Nx_Checksum_Pseudo\<close> the refinement; \<open>Nx_Checksum_Props\<close> C18 to C20.

  \<^item> IPv4 routing (\<open>nx_ip_route_find.c\<close>, \<open>nx_ip_static_route_add.c\<close>, \<open>nx_ip_static_route_delete.c\<close>,
    \<open>nx_ip_gateway_address_set.c\<close>, \<open>nx_ip_gateway_address_clear.c\<close>): \<open>Nx_Ip_Route\<close> the code,
    \<open>Nx_Ip_Route_Table\<close> the order of the table, the locale \<open>ranked_table\<close> and the step relation, \<open>Nx_Ip_Route_Props\<close> C21 to C25.

  \<^item> UDP ports (\<open>nx_udp_socket_bind.c\<close>, \<open>nx_udp_socket_unbind.c\<close>, \<open>nx_udp_bind_cleanup.c\<close>,
    \<open>nx_udp_free_port_find.c\<close>): \<open>Nx_Udp_Port\<close> the services, \<open>Nx_Udp_Table\<close> the hash table of bound sockets and the
    interpretation of \<open>port_space\<close>, \<open>Nx_Udp_Wait\<close> the threads that wait for a port, \<open>Nx_Udp_Inv\<close> and \<open>Nx_Udp_Steps\<close>
    the invariant and the step relation, \<open>Nx_Udp_Demo\<close> a concrete history, \<open>Nx_Udp_Props\<close> C26 to C30.

  \<^item> TCP options and selective acknowledgment (\<open>nx_tcp_mss_option_get.c\<close>, \<open>nx_tcp_window_scaling_option_get.c\<close>,
    \<open>nx_tcp_sack_permitted_option_get.c\<close>, \<open>nx_tcp_timestamp_option_get.c\<close>, \<open>nx_tcp_sack_option_get.c\<close>,
    \<open>nx_tcp_sack_option_build.c\<close>): \<open>Nx_Tcp_Option\<close> the readers on a partial byte map, in which a read
    outside is None, \<open>Nx_Tcp_Option_Walk\<close> the locale \<open>option_reader\<close> of what they share and the area as a list of
    options, \<open>Nx_Tcp_Base\<close> sequence numbers, \<open>Nx_Tcp_Sack_Option\<close> the SACK option, \<open>Nx_Tcp_Sack_Read\<close>,
    \<open>Nx_Tcp_Sack_Queue\<close> and \<open>Nx_Tcp_Sack_Trip\<close> what reader and builder do and that they fit together,
    \<open>Nx_Tcp_Option_Props\<close> C31 to C34.

  \<^item> TCP loss recovery (\<open>nx_tcp_sack_recovery.c\<close> and the credit in \<open>nx_tcp.h\<close>): \<open>Nx_Sack_Board\<close> the scoreboard in
    control packets and its rebuilding, \<open>Nx_Sack_Recovery\<close> the data in flight, the credit and the processing of an
    acknowledgment, \<open>Nx_Sack_Send\<close> the sending side, \<open>Nx_Tcp_Prr\<close> the division of RFC 6937. The proofs go in layers:
    \<open>Nx_Sack_Range\<close> and \<open>Nx_Sack_Subtract\<close> ranges of sequence numbers and the blocks of an option, \<open>Nx_Sack_Slots\<close> the locale
    \<open>slot_banks\<close> (two arrays without common slots) with its interpretation on the pages, \<open>Nx_Sack_Rebuild\<close> the
    rebuilding as an operation on lists of holes, \<open>Nx_Sack_Evidence\<close> the holes as the set of the reported bytes, \<open>Nx_Sack_Grow\<close>,
    \<open>Nx_Sack_Update\<close>, \<open>Nx_Sack_Ack\<close>, \<open>Nx_Sack_Inv\<close> the invariant and the refinement of an acknowledgment, \<open>Nx_Sack_Lost\<close>
    and \<open>Nx_Sack_Pipe\<close> the data in flight against RFC 6675, \<open>Nx_Sack_Next\<close> what is sent again, \<open>Nx_Sack_Reset\<close> the pages on
    the way back, \<open>Nx_Sack_Steps\<close> any history, \<open>Nx_Sack_Demo\<close> a concrete scoreboard, \<open>Nx_Sack_Props\<close> C35 to C39. The window of a
    connection is at most \<open>2 ^ 30\<close> bytes, the largest that window scaling allows, so that signed differences of
    sequence numbers compare them.

  \<^item> TCP round-trip estimator (\<open>nx_tcp_socket_rtt_sample.c\<close>): \<open>Nx_Tcp_Rtt\<close> the fixed-point recursion and its distance from the
    real one, \<open>Nx_Tcp_Rtt_Props\<close> C40.

  Bounds. The model has no fuel: loops over chains, lists and buckets are structural recursions or
  partial functions into option whose termination is part of the properties. The sizes of the tables
  (8 routes, 32 port buckets) are the defaults of the build. Packet lengths are assumed to stay below
  \<open>2 ^ 32\<close> where a theorem says so.

  Not modelled. The TCP connection machinery, the datagram side of UDP, ARP and RARP, the IPv4 input and output paths with
  fragmentation and reassembly, ICMP, IGMP, IPv6 and neighbour discovery are not modelled yet; the checking
  wrappers (\<open>nxe_\<close>, \<open>nxde_\<close>), the drivers, the information services, TLS, the cryptographic library
  and the application protocols are outside the development.
\<close>

end
